(* ===== verification/Ledger_Prelude.thy ===== *)
theory Ledger_Prelude
  imports Main "HOL-Library.Word" "HOL-Library.List_Lexorder" "HOL-Library.Char_ord"
begin

text \<open>
  Shared vocabulary of the development: the machine types, the ways a C++ function of the
  repository can stop the process (a failed \<^verbatim>\<open>assert\<close>, which the build keeps in release mode,
  \<^verbatim>\<open>exit(1)\<close>, an escaping exception, an access outside an object), the result type of the
  functions that can stop it, loops over such functions, and \<^verbatim>\<open>std::map\<close> as a list of pairs
  with strictly increasing keys, which is the order its iterators visit.
\<close>

section \<open>Machine types and faults\<close>

type_synonym u64 = "64 word"
type_synonym u32 = "32 word"

datatype fault = Assertion | Exit_1 | Exception string | Bad_Access

type_synonym 'a res = "fault + 'a"

named_theorems res_simps \<open>rewrite rules for the results of functions that can stop the process\<close>
named_theorems dict_simps \<open>lookups in updated \<open>std::map\<close> models\<close>
named_theorems dict_intros \<open>operations of the \<open>std::map\<close> model keep its keys sorted\<close>

definition res_bind :: "'a res \<Rightarrow> ('a \<Rightarrow> 'b res) \<Rightarrow> 'b res" where
  "res_bind m f = (case m of Inl e \<Rightarrow> Inl e | Inr x \<Rightarrow> f x)"

definition c_assert :: "bool \<Rightarrow> unit res" where
  "c_assert b = (if b then Inr () else Inl Assertion)"

fun fold_res :: "('a \<Rightarrow> 's \<Rightarrow> 's res) \<Rightarrow> 'a list \<Rightarrow> 's \<Rightarrow> 's res" where
  "fold_res f [] s = Inr s"
| "fold_res f (x # xs) s = res_bind (f x s) (fold_res f xs)"

fun map_res :: "('a \<Rightarrow> 'b res) \<Rightarrow> 'a list \<Rightarrow> 'b list res" where
  "map_res f [] = Inr []"
| "map_res f (x # xs) = res_bind (f x) (\<lambda>y. res_bind (map_res f xs) (\<lambda>ys. Inr (y # ys)))"

lemma res_bind_simps [simp, res_simps]:
  "res_bind (Inr x) f = f x"
  "res_bind (Inl e) f = Inl e"
  by (simp_all add: res_bind_def)

lemma res_bind_eq_Inr [res_simps]: "(res_bind m f = Inr y) = (\<exists>x. m = Inr x \<and> f x = Inr y)"
  by (cases m) auto

lemma res_bind_eq_Inl [res_simps]:
  "(res_bind m f = Inl e) = (m = Inl e \<or> (\<exists>x. m = Inr x \<and> f x = Inl e))"
  by (cases m) auto

lemma res_bind_assoc: "res_bind (res_bind m f) g = res_bind m (\<lambda>x. res_bind (f x) g)"
  by (cases m) auto

lemma c_assert_eq [simp, res_simps]:
  "(c_assert b = Inr u) = b"
  "(c_assert b = Inl e) = (\<not> b \<and> e = Assertion)"
  "c_assert True = Inr ()"
  "c_assert False = Inl Assertion"
  by (auto simp: c_assert_def)

lemma fold_res_append:
  "fold_res f (xs @ ys) s = res_bind (fold_res f xs s) (fold_res f ys)"
proof (induction xs arbitrary: s)
  case Nil
  then show ?case by simp
next
  case (Cons x xs)
  then have "fold_res f (xs @ ys) = (\<lambda>t. res_bind (fold_res f xs t) (fold_res f ys))"
    by blast
  then show ?case by (simp add: res_bind_assoc)
qed

lemma fold_res_invariant:
  assumes step: "\<And>x s s'. x \<in> set xs \<Longrightarrow> P s \<Longrightarrow> f x s = Inr s' \<Longrightarrow> P s'"
    and "P s" and "fold_res f xs s = Inr s'"
  shows "P s'"
  using assms
proof (induction xs arbitrary: s)
  case Nil
  then show ?case by simp
next
  case (Cons x xs)
  from Cons.prems(3) obtain t where t: "f x s = Inr t" and rest: "fold_res f xs t = Inr s'"
    by (auto simp: res_bind_eq_Inr)
  have "P t" using Cons.prems(1)[OF _ Cons.prems(2) t] by simp
  then show ?case using Cons.IH[OF _ _ rest] Cons.prems(1) by auto
qed

lemma fold_res_total:
  assumes step: "\<And>x s. x \<in> set xs \<Longrightarrow> P s \<Longrightarrow> \<exists>s'. f x s = Inr s' \<and> P s'" and "P s"
  shows "\<exists>s'. fold_res f xs s = Inr s' \<and> P s'"
  using assms
proof (induction xs arbitrary: s)
  case Nil
  then show ?case by simp
next
  case (Cons x xs)
  obtain t where "f x s = Inr t" "P t"
    using Cons.prems(1)[of x s] Cons.prems(2) by auto
  moreover obtain s' where "fold_res f xs t = Inr s'" "P s'"
    using Cons.IH[OF _ \<open>P t\<close>] Cons.prems(1) by (metis list.set_intros(2))
  ultimately show ?case by auto
qed

lemma map_res_length: "map_res f xs = Inr ys \<Longrightarrow> length ys = length xs"
  by (induction xs arbitrary: ys) (auto simp: res_bind_eq_Inr)

lemma map_res_map:
  assumes "\<And>x. x \<in> set xs \<Longrightarrow> f x = Inr (g x)"
  shows "map_res f xs = Inr (map g xs)"
  using assms by (induction xs) auto

section \<open>\<open>std::map\<close>\<close>

text \<open>
  \<open>smap_put\<close> is \<^verbatim>\<open>m[k] = v\<close>, \<open>smap_erase\<close> is \<^verbatim>\<open>m.erase(k)\<close>; \<^verbatim>\<open>m.find(k)\<close> is the
  library's \<^const>\<open>map_of\<close>. The list is what iteration from \<^verbatim>\<open>begin()\<close> to \<^verbatim>\<open>end()\<close> sees.
\<close>

type_synonym ('k, 'v) smap = "('k \<times> 'v) list"

fun smap_put :: "'k::linorder \<Rightarrow> 'v \<Rightarrow> ('k, 'v) smap \<Rightarrow> ('k, 'v) smap" where
  "smap_put k v [] = [(k, v)]"
| "smap_put k v ((k', v') # m) =
     (if k < k' then (k, v) # (k', v') # m
      else if k = k' then (k, v) # m
      else (k', v') # smap_put k v m)"

fun smap_erase :: "'k::linorder \<Rightarrow> ('k, 'v) smap \<Rightarrow> ('k, 'v) smap" where
  "smap_erase k [] = []"
| "smap_erase k ((k', v') # m) = (if k = k' then m else (k', v') # smap_erase k m)"

definition smap_ok :: "('k::linorder, 'v) smap \<Rightarrow> bool" where
  "smap_ok m = sorted_wrt (<) (map fst m)"

lemma smap_ok_Nil [simp, dict_intros]: "smap_ok []"
  by (simp add: smap_ok_def)

lemma smap_ok_Cons:
  "smap_ok ((k, v) # m) = ((\<forall>x \<in> set m. k < fst x) \<and> smap_ok m)"
  by (auto simp: smap_ok_def)

lemma smap_ok_distinct: "smap_ok m \<Longrightarrow> distinct (map fst m)"
  by (simp add: smap_ok_def strict_sorted_iff)

lemma smap_put_keys: "fst ` set (smap_put k v m) = insert k (fst ` set m)"
  by (induction k v m rule: smap_put.induct) auto

lemma smap_put_set: "x \<in> set (smap_put k v m) \<Longrightarrow> x = (k, v) \<or> x \<in> set m"
  by (induction k v m rule: smap_put.induct) (auto split: if_splits)

lemma smap_ok_put [dict_intros]: "smap_ok m \<Longrightarrow> smap_ok (smap_put k v m)"
proof (induction k v m rule: smap_put.induct)
  case (1 k v)
  then show ?case by (simp add: smap_ok_def)
next
  case (2 k v k' v' m)
  then show ?case
    by (auto simp: smap_ok_Cons dest!: smap_put_set)
qed

lemma smap_erase_set: "x \<in> set (smap_erase k m) \<Longrightarrow> x \<in> set m"
  by (induction k m rule: smap_erase.induct) (auto split: if_splits)

lemma smap_ok_erase [dict_intros]: "smap_ok m \<Longrightarrow> smap_ok (smap_erase k m)"
  by (induction k m rule: smap_erase.induct) (auto simp: smap_ok_Cons dest!: smap_erase_set)

lemma map_of_smap_put [dict_simps]: "map_of (smap_put k v m) = (map_of m)(k \<mapsto> v)"
  by (induction k v m rule: smap_put.induct) (auto simp: fun_eq_iff)

lemma map_of_smap_ok_None: "\<forall>x \<in> set m. (k::'k::linorder) < fst x \<Longrightarrow> map_of m k = None"
  by (induction m) auto

lemma map_of_smap_erase [dict_simps]:
  "smap_ok m \<Longrightarrow> map_of (smap_erase k m) = (map_of m)(k := None)"
  by (induction k m rule: smap_erase.induct)
    (auto simp: fun_eq_iff smap_ok_Cons map_of_smap_ok_None)

text \<open>Two sorted association lists with the same lookups are the same list.\<close>

lemma smap_eqI:
  assumes "smap_ok m" and "smap_ok n" and "map_of m = map_of n"
  shows "m = n"
proof -
  have "x \<in> set m \<longleftrightarrow> x \<in> set n" for x
    using map_of_eq_Some_iff[OF smap_ok_distinct[OF assms(1)], of "fst x" "snd x"]
      map_of_eq_Some_iff[OF smap_ok_distinct[OF assms(2)], of "fst x" "snd x"] assms(3)
    by simp
  then have "set m = set n" by blast
  then have "map fst m = map fst n"
    using assms(1,2) strict_sorted_equal[of "map fst m" "map fst n"] by (simp add: smap_ok_def)
  moreover have "map snd m = map snd n"
  proof -
    have "map snd m = map (the \<circ> map_of m) (map fst m)"
      using smap_ok_distinct[OF assms(1)] by (auto simp: o_def)
    moreover have "map snd n = map (the \<circ> map_of n) (map fst n)"
      using smap_ok_distinct[OF assms(2)] by (auto simp: o_def)
    ultimately show ?thesis using \<open>map fst m = map fst n\<close> assms(3) by simp
  qed
  ultimately show ?thesis by (metis zip_map_fst_snd)
qed

section \<open>Decimal numerals\<close>

text \<open>
  \<^verbatim>\<open>std::to_string\<close> of an unsigned value, and \<^verbatim>\<open>std::stoull\<close> / \<^verbatim>\<open>std::stoi\<close>, which skip
  white space, accept a sign, read the longest run of digits, throw \<^verbatim>\<open>invalid_argument\<close> when
  there is none and \<^verbatim>\<open>out_of_range\<close> when the number does not fit.
\<close>

fun to_string :: "nat \<Rightarrow> string" where
  "to_string n =
     (if n < 10 then [char_of (48 + n)]
      else to_string (n div 10) @ [char_of (48 + n mod 10)])"

declare to_string.simps [simp del]

definition is_digit :: "char \<Rightarrow> bool" where
  "is_digit c = (48 \<le> (of_char c :: nat) \<and> (of_char c :: nat) \<le> 57)"

definition is_space :: "char \<Rightarrow> bool" where
  "is_space c = ((of_char c :: nat) = 32 \<or> 9 \<le> (of_char c :: nat) \<and> (of_char c :: nat) \<le> 13)"

definition digits_value :: "string \<Rightarrow> nat" where
  "digits_value ds = foldl (\<lambda>acc c. 10 * acc + ((of_char c :: nat) - 48)) 0 ds"

definition strip_sign :: "string \<Rightarrow> bool \<times> string" where
  "strip_sign s =
     (case s of
        [] \<Rightarrow> (False, [])
      | c # cs \<Rightarrow> if c = CHR ''-'' then (True, cs) else if c = CHR ''+'' then (False, cs)
                  else (False, s))"

definition stoull :: "string \<Rightarrow> u64 res" where
  "stoull s =
     (let (neg, rest) = strip_sign (dropWhile is_space s);
          ds = takeWhile is_digit rest in
      if ds = [] then Inl (Exception ''invalid_argument'')
      else if digits_value ds \<ge> 2 ^ 64 then Inl (Exception ''out_of_range'')
      else Inr (if neg then - of_nat (digits_value ds) else of_nat (digits_value ds)))"

definition stoi :: "string \<Rightarrow> int res" where
  "stoi s =
     (let (neg, rest) = strip_sign (dropWhile is_space s);
          ds = takeWhile is_digit rest;
          v = (if neg then - int (digits_value ds) else int (digits_value ds)) in
      if ds = [] then Inl (Exception ''invalid_argument'')
      else if v < - (2 ^ 31) \<or> v \<ge> 2 ^ 31 then Inl (Exception ''out_of_range'')
      else Inr v)"

lemma of_char_digit [simp]: "d < 10 \<Longrightarrow> (of_char (char_of (48 + d :: nat) :: char) :: nat) = 48 + d"
  by simp

lemma to_string_digits: "\<forall>c \<in> set (to_string n). is_digit c"
proof (induction n rule: to_string.induct)
  case (1 n)
  then show ?case by (subst to_string.simps) (auto simp: is_digit_def)
qed

lemma to_string_not_Nil [simp]: "to_string n \<noteq> []"
  by (subst to_string.simps) simp

lemma digits_value_snoc:
  "digits_value (ds @ [c]) = 10 * digits_value ds + ((of_char c :: nat) - 48)"
  by (simp add: digits_value_def)

lemma digits_value_to_string [simp]: "digits_value (to_string n) = n"
proof (induction n rule: to_string.induct)
  case (1 n)
  show ?case
  proof (cases "n < 10")
    case True
    then show ?thesis by (subst to_string.simps) (simp add: digits_value_def)
  next
    case False
    then have "digits_value (to_string (n div 10)) = n div 10" using 1 by simp
    moreover have "(of_char (char_of (48 + n mod 10) :: char) :: nat) = 48 + n mod 10"
      by (rule of_char_digit) simp
    ultimately show ?thesis using False
      by (subst to_string.simps) (simp add: digits_value_snoc)
  qed
qed

lemma to_string_inj [simp]: "(to_string m = to_string n) = (m = n)"
  by (metis digits_value_to_string)

lemma digit_not_space: "is_digit c \<Longrightarrow> \<not> is_space c"
  by (auto simp: is_digit_def is_space_def)

lemma digit_not_sign: "is_digit c \<Longrightarrow> c \<noteq> CHR ''-''" "is_digit c \<Longrightarrow> c \<noteq> CHR ''+''"
  by (auto simp: is_digit_def)

lemma strip_sign_to_string:
  "strip_sign (dropWhile is_space (to_string n)) = (False, to_string n)"
proof -
  obtain c cs where *: "to_string n = c # cs" using to_string_not_Nil by (meson list.exhaust)
  then have "is_digit c" using to_string_digits [of n] by simp
  then show ?thesis using * digit_not_space [of c] digit_not_sign [of c]
    by (simp add: strip_sign_def)
qed

lemma takeWhile_to_string [simp]: "takeWhile is_digit (to_string n) = to_string n"
  using to_string_digits [of n] by (simp add: takeWhile_eq_all_conv)

lemma stoull_to_string: "n < 2 ^ 64 \<Longrightarrow> stoull (to_string n) = Inr (of_nat n)"
  by (simp add: stoull_def strip_sign_to_string)

lemma stoull_to_string_unat [simp]: "stoull (to_string (unat (x :: u64))) = Inr x"
  using stoull_to_string [of "unat x"] unsigned_less [of x, where ?'a = nat] by simp

lemma stoi_to_string: "n < 2 ^ 31 \<Longrightarrow> stoi (to_string n) = Inr (int n)"
  by (simp add: stoi_def strip_sign_to_string)

text \<open>\<^verbatim>\<open>std::to_string\<close> of a signed value.\<close>

definition to_string_int :: "int \<Rightarrow> string" where
  "to_string_int i = (if i < 0 then CHR ''-'' # to_string (nat (- i)) else to_string (nat i))"

end
