(* ===== verification/Raft_Log.thy ===== *)
theory Raft_Log
  imports Ledger_Prelude "HOL-Library.Sublist"
begin

text \<open>
  The Raft log: the interface \<^verbatim>\<open>src/src/infra/raft/storage/Log.h\<close> as a record of operations and a
  locale of laws, and its in-memory implementation \<^verbatim>\<open>InMemoryLog.h\<close>.

  Log indices and terms are natural numbers here: both only grow by one per entry or election, and
  the operations subtract only where the invariant keeps the result non-negative. \<open>byteSize\<close> stands
  for the generated \<^verbatim>\<open>LogEntry::ByteSizeLong\<close>.
\<close>

record LogEntry =
  le_term :: nat
  le_index :: nat
  le_noop :: bool
  le_checksum :: nat
  le_payload :: string
  le_version :: nat
  le_specialTag :: "(nat \<times> string) option"

section \<open>The interface\<close>

text \<open>
  The methods \<^verbatim>\<open>RaftCore\<close> calls through the base class. Those that can stop the process return a
  \<open>res\<close>; \<^verbatim>\<open>appendEntry\<close> and \<^verbatim>\<open>appendEntries\<close> return their flag with the new log.
\<close>

record 'l log_ops =
  lo_appendEntry :: "LogEntry \<Rightarrow> 'l \<Rightarrow> (bool \<times> 'l) res"
  lo_appendEntries :: "LogEntry list \<Rightarrow> 'l \<Rightarrow> (bool \<times> 'l) res"
  lo_getEntry :: "nat \<Rightarrow> 'l \<Rightarrow> LogEntry option res"
  lo_getTerm :: "nat \<Rightarrow> 'l \<Rightarrow> nat option"
  lo_getEntries :: "nat \<Rightarrow> nat \<Rightarrow> nat \<Rightarrow> 'l \<Rightarrow> LogEntry list res"
  lo_truncatePrefix :: "nat \<Rightarrow> 'l \<Rightarrow> 'l res"
  lo_truncateSuffix :: "nat \<Rightarrow> 'l \<Rightarrow> 'l res"
  lo_getFirstLogIndex :: "'l \<Rightarrow> nat"
  lo_getLastLogIndex :: "'l \<Rightarrow> nat"
  lo_setCurrentTerm :: "nat \<Rightarrow> 'l \<Rightarrow> 'l"
  lo_setVoteFor :: "nat \<Rightarrow> 'l \<Rightarrow> 'l"
  lo_getCurrentTerm :: "'l \<Rightarrow> nat"
  lo_getVote :: "'l \<Rightarrow> nat"
  lo_getLatestSecKeyVersion :: "'l \<Rightarrow> nat"

text \<open>\<open>indexed_from n es\<close>: the entries carry the consecutive indices \<open>n\<close>, \<open>n + 1\<close>, and so on.\<close>

fun indexed_from :: "nat \<Rightarrow> LogEntry list \<Rightarrow> bool" where
  "indexed_from n [] = True"
| "indexed_from n (e # es) = (le_index e = n \<and> indexed_from (Suc n) es)"

lemma indexed_from_nth: "indexed_from n es \<Longrightarrow> i < length es \<Longrightarrow> le_index (es ! i) = n + i"
proof (induction es arbitrary: n i)
  case (Cons e es)
  then show ?case by (cases i) auto
qed simp

lemma indexed_from_append:
  "indexed_from n (es @ fs) = (indexed_from n es \<and> indexed_from (n + length es) fs)"
  by (induction es arbitrary: n) auto

lemma indexed_from_take: "indexed_from n es \<Longrightarrow> indexed_from n (take k es)"
  by (metis append_take_drop_id indexed_from_append)

lemma indexed_from_drop: "indexed_from n es \<Longrightarrow> k \<le> length es \<Longrightarrow> indexed_from (n + k) (drop k es)"
  by (metis append_take_drop_id indexed_from_append length_take min.absorb2)

text \<open>
  The laws, in terms of the log's contents: the index of its first entry and the list of entries.
  Appending succeeds for consecutive entries that fit; \<open>fits\<close> is the implementation's limit on what
  one call may append. A suffix is only cut back to an index at or after the one before the first
  entry.
\<close>

locale raft_log =
  fixes ops :: "'l log_ops"
    and invar :: "'l \<Rightarrow> bool"
    and contents :: "'l \<Rightarrow> LogEntry list"
    and fits :: "LogEntry list \<Rightarrow> bool"
  assumes first_pos: "invar l \<Longrightarrow> 0 < lo_getFirstLogIndex ops l"
    and last_index: "invar l \<Longrightarrow>
      lo_getFirstLogIndex ops l + length (contents l) = Suc (lo_getLastLogIndex ops l)"
    and indexed: "invar l \<Longrightarrow> indexed_from (lo_getFirstLogIndex ops l) (contents l)"
    and getTerm_in: "invar l \<Longrightarrow> i < length (contents l) \<Longrightarrow>
      lo_getTerm ops (lo_getFirstLogIndex ops l + i) l = Some (le_term (contents l ! i))"
    and getTerm_zero: "invar l \<Longrightarrow> lo_getFirstLogIndex ops l = 1 \<Longrightarrow> lo_getTerm ops 0 l = Some 0"
    and appendEntries_result: "invar l \<Longrightarrow> lo_appendEntries ops es l = Inr (True, l') \<Longrightarrow>
      indexed_from (Suc (lo_getLastLogIndex ops l)) es \<and> invar l' \<and> contents l' = contents l @ es
        \<and> lo_getFirstLogIndex ops l' = lo_getFirstLogIndex ops l
        \<and> lo_getCurrentTerm ops l' = lo_getCurrentTerm ops l \<and> lo_getVote ops l' = lo_getVote ops l"
    and appendEntries_refused: "invar l \<Longrightarrow> lo_appendEntries ops es l = Inr (False, l') \<Longrightarrow>
      \<not> indexed_from (Suc (lo_getLastLogIndex ops l)) es"
    and appendEntries_total: "invar l \<Longrightarrow> indexed_from (Suc (lo_getLastLogIndex ops l)) es \<Longrightarrow>
      fits es \<Longrightarrow> \<exists>r. lo_appendEntries ops es l = Inr r"
    and fits_suffix: "fits es \<Longrightarrow> suffix fs es \<Longrightarrow> fits fs"
    and appendEntry_single: "invar l \<Longrightarrow> lo_appendEntry ops e l = lo_appendEntries ops [e] l"
    and truncateSuffix_ok: "invar l \<Longrightarrow> lo_getFirstLogIndex ops l \<le> Suc k \<Longrightarrow> k \<le> lo_getLastLogIndex ops l \<Longrightarrow>
      \<exists>l'. lo_truncateSuffix ops k l = Inr l' \<and> invar l'
        \<and> contents l' = take (Suc k - lo_getFirstLogIndex ops l) (contents l)
        \<and> lo_getFirstLogIndex ops l' = lo_getFirstLogIndex ops l
        \<and> lo_getCurrentTerm ops l' = lo_getCurrentTerm ops l \<and> lo_getVote ops l' = lo_getVote ops l"
    and truncatePrefix_ok: "invar l \<Longrightarrow> k \<le> lo_getLastLogIndex ops l \<Longrightarrow>
      \<exists>l'. lo_truncatePrefix ops k l = Inr l' \<and> invar l'
        \<and> contents l' = drop (k - lo_getFirstLogIndex ops l) (contents l)
        \<and> lo_getFirstLogIndex ops l' = max k (lo_getFirstLogIndex ops l)
        \<and> lo_getCurrentTerm ops l' = lo_getCurrentTerm ops l \<and> lo_getVote ops l' = lo_getVote ops l"
    and getEntries_ok: "invar l \<Longrightarrow> lo_getFirstLogIndex ops l \<le> n \<Longrightarrow> n \<le> Suc (lo_getLastLogIndex ops l) \<Longrightarrow>
      \<exists>k. lo_getEntries ops n maxLen maxBatch l
          = Inr (take k (drop (n - lo_getFirstLogIndex ops l) (contents l)))"
    and setCurrentTerm_ok: "invar l \<Longrightarrow> invar (lo_setCurrentTerm ops t l)
        \<and> contents (lo_setCurrentTerm ops t l) = contents l
        \<and> lo_getFirstLogIndex ops (lo_setCurrentTerm ops t l) = lo_getFirstLogIndex ops l
        \<and> lo_getCurrentTerm ops (lo_setCurrentTerm ops t l) = t
        \<and> lo_getVote ops (lo_setCurrentTerm ops t l) = lo_getVote ops l"
    and setVoteFor_ok: "invar l \<Longrightarrow> invar (lo_setVoteFor ops v l)
        \<and> contents (lo_setVoteFor ops v l) = contents l
        \<and> lo_getFirstLogIndex ops (lo_setVoteFor ops v l) = lo_getFirstLogIndex ops l
        \<and> lo_getCurrentTerm ops (lo_setVoteFor ops v l) = lo_getCurrentTerm ops l
        \<and> lo_getVote ops (lo_setVoteFor ops v l) = v"

text \<open>
  What readers of the committed entries rely on beyond that: a batch never has more entries than asked
  for, it is not empty if the first entry fits the limit, and single entries are found.
\<close>

locale raft_log_reader = raft_log +
  fixes esize :: "LogEntry \<Rightarrow> nat"
  assumes getEntries_batch: "invar l \<Longrightarrow> lo_getFirstLogIndex ops l \<le> n \<Longrightarrow> n \<le> lo_getLastLogIndex ops l \<Longrightarrow>
      \<exists>k. lo_getEntries ops n maxLen maxBatch l = Inr (take k (drop (n - lo_getFirstLogIndex ops l) (contents l)))
        \<and> k \<le> maxBatch \<and> (0 < maxBatch \<and> esize (contents l ! (n - lo_getFirstLogIndex ops l)) \<le> maxLen \<longrightarrow> 0 < k)"
    and getEntry_in: "invar l \<Longrightarrow> 0 < n \<Longrightarrow> n \<le> lo_getLastLogIndex ops l \<Longrightarrow>
      lo_getEntry ops n l = Inr (if lo_getFirstLogIndex ops l \<le> n then Some (contents l ! (n - lo_getFirstLogIndex ops l)) else None)"

section \<open>The in-memory log\<close>

record mem_log =
  ml_mLog :: "LogEntry list"
  ml_mFirstIndex :: nat
  ml_mLastIndex :: nat
  ml_mTerm :: nat
  ml_mVoteFor :: nat

definition mem_new :: mem_log where
  "mem_new = \<lparr>ml_mLog = [], ml_mFirstIndex = 1, ml_mLastIndex = 0, ml_mTerm = 0, ml_mVoteFor = 0\<rparr>"

definition mem_appendEntry :: "LogEntry \<Rightarrow> mem_log \<Rightarrow> bool \<times> mem_log" where
  "mem_appendEntry e l =
     (if ml_mLastIndex l + 1 \<noteq> le_index e then (False, l)
      else (True, l\<lparr>ml_mLastIndex := ml_mLastIndex l + 1, ml_mLog := ml_mLog l @ [e]\<rparr>))"

fun mem_appendEntries :: "LogEntry list \<Rightarrow> mem_log \<Rightarrow> bool \<times> mem_log" where
  "mem_appendEntries [] l = (True, l)"
| "mem_appendEntries (e # es) l =
     (let (ok, l1) = mem_appendEntry e l in
      if \<not> ok then (False, l1) else mem_appendEntries es l1)"

definition dummy_entry :: "nat \<Rightarrow> LogEntry" where
  "dummy_entry secKeyVersion =
     \<lparr>le_term = 0, le_index = 0, le_noop = False, le_checksum = 0, le_payload = '''',
      le_version = secKeyVersion, le_specialTag = None\<rparr>"

definition mem_getEntry :: "nat \<Rightarrow> nat \<Rightarrow> mem_log \<Rightarrow> LogEntry option" where
  "mem_getEntry invalidSecKeyVersion index l =
     (if index = 0 then Some (dummy_entry invalidSecKeyVersion)
      else if index < ml_mFirstIndex l \<or> index > ml_mLastIndex l then None
      else Some (ml_mLog l ! (index - ml_mFirstIndex l)))"

definition mem_getTerm :: "nat \<Rightarrow> mem_log \<Rightarrow> nat option" where
  "mem_getTerm index l =
     (if index = 0 then Some 0
      else if index < ml_mFirstIndex l \<or> index > ml_mLastIndex l then None
      else Some (le_term (ml_mLog l ! (index - ml_mFirstIndex l))))"

text \<open>\<^verbatim>\<open>getEntries\<close> into an array: \<open>None\<close> is the result \<^verbatim>\<open>false\<close>.\<close>

definition mem_getEntriesArray :: "nat \<Rightarrow> nat \<Rightarrow> mem_log \<Rightarrow> LogEntry list option" where
  "mem_getEntriesArray index sz l =
     (if index < ml_mFirstIndex l \<or> index + sz - 1 > ml_mLastIndex l then None
      else Some (map (\<lambda>i. ml_mLog l ! (index + i - ml_mFirstIndex l)) [0..<sz]))"

text \<open>
  The batching loop: take entries while fewer than \<open>maxBatch\<close> have been taken and the next one fits
  into \<open>maxLen\<close> bytes.
\<close>

fun batch_entries :: "(LogEntry \<Rightarrow> nat) \<Rightarrow> nat \<Rightarrow> nat \<Rightarrow> nat \<Rightarrow> LogEntry list \<Rightarrow> LogEntry list" where
  "batch_entries byteSize lenInBytes maxLen maxBatch [] = []"
| "batch_entries byteSize lenInBytes maxLen 0 (e # es) = []"
| "batch_entries byteSize lenInBytes maxLen (Suc maxBatch) (e # es) =
     (if lenInBytes + byteSize e > maxLen then []
      else e # batch_entries byteSize (lenInBytes + byteSize e) maxLen maxBatch es)"

definition mem_getEntries ::
  "(LogEntry \<Rightarrow> nat) \<Rightarrow> nat \<Rightarrow> nat \<Rightarrow> nat \<Rightarrow> mem_log \<Rightarrow> LogEntry list res" where
  "mem_getEntries byteSize startIndex maxLenInBytes maxBatchSize l =
     (let lastIndex = ml_mLastIndex l in
      if startIndex > lastIndex then (if startIndex = lastIndex + 1 then Inr [] else Inl Assertion)
      else if startIndex < ml_mFirstIndex l \<and> maxBatchSize \<noteq> 0 then Inl Bad_Access
      else
        Inr (batch_entries byteSize 0 maxLenInBytes (min maxBatchSize (lastIndex - startIndex + 1))
               (drop (startIndex - ml_mFirstIndex l) (ml_mLog l))))"

definition mem_truncatePrefix :: "nat \<Rightarrow> mem_log \<Rightarrow> mem_log" where
  "mem_truncatePrefix firstIndexKept l =
     (if ml_mFirstIndex l \<ge> firstIndexKept then l
      else
        (let prevFirstIndex = ml_mFirstIndex l; l1 = l\<lparr>ml_mFirstIndex := firstIndexKept\<rparr> in
         if firstIndexKept > ml_mLastIndex l1
         then l1\<lparr>ml_mLastIndex := firstIndexKept - 1, ml_mLog := []\<rparr>
         else l1\<lparr>ml_mLog := drop (firstIndexKept - prevFirstIndex) (ml_mLog l1)\<rparr>))"

definition mem_truncateSuffix :: "nat \<Rightarrow> mem_log \<Rightarrow> mem_log" where
  "mem_truncateSuffix lastIndexKept l =
     (if ml_mLastIndex l \<le> lastIndexKept then l
      else
        (let l1 = l\<lparr>ml_mLastIndex := lastIndexKept\<rparr> in
         if lastIndexKept < ml_mFirstIndex l1
         then l1\<lparr>ml_mFirstIndex := lastIndexKept + 1, ml_mLog := []\<rparr>
         else l1\<lparr>ml_mLog := take (lastIndexKept - ml_mFirstIndex l1 + 1) (ml_mLog l1)\<rparr>))"

definition mem_ops :: "(LogEntry \<Rightarrow> nat) \<Rightarrow> nat \<Rightarrow> mem_log log_ops" where
  "mem_ops byteSize invalidSecKeyVersion =
     \<lparr>lo_appendEntry = \<lambda>e l. Inr (mem_appendEntry e l),
      lo_appendEntries = \<lambda>es l. Inr (mem_appendEntries es l),
      lo_getEntry = \<lambda>index l. Inr (mem_getEntry invalidSecKeyVersion index l),
      lo_getTerm = mem_getTerm,
      lo_getEntries = mem_getEntries byteSize,
      lo_truncatePrefix = \<lambda>k l. Inr (mem_truncatePrefix k l),
      lo_truncateSuffix = \<lambda>k l. Inr (mem_truncateSuffix k l),
      lo_getFirstLogIndex = ml_mFirstIndex,
      lo_getLastLogIndex = ml_mLastIndex,
      lo_setCurrentTerm = \<lambda>t l. l\<lparr>ml_mTerm := t\<rparr>,
      lo_setVoteFor = \<lambda>v l. l\<lparr>ml_mVoteFor := v\<rparr>,
      lo_getCurrentTerm = ml_mTerm,
      lo_getVote = ml_mVoteFor,
      lo_getLatestSecKeyVersion = \<lambda>l. invalidSecKeyVersion\<rparr>"

definition mem_ok :: "mem_log \<Rightarrow> bool" where
  "mem_ok l =
     (0 < ml_mFirstIndex l \<and> ml_mFirstIndex l + length (ml_mLog l) = Suc (ml_mLastIndex l)
      \<and> indexed_from (ml_mFirstIndex l) (ml_mLog l))"


lemma mem_new_ok: "mem_ok mem_new"
  by (simp add: mem_ok_def mem_new_def)

lemma mem_appendEntry_ok:
  assumes "mem_ok l" and "le_index e = Suc (ml_mLastIndex l)"
  shows "mem_appendEntry e l
      = (True, l\<lparr>ml_mLastIndex := Suc (ml_mLastIndex l), ml_mLog := ml_mLog l @ [e]\<rparr>)"
    and "mem_ok (l\<lparr>ml_mLastIndex := Suc (ml_mLastIndex l), ml_mLog := ml_mLog l @ [e]\<rparr>)"
  using assms by (auto simp: mem_appendEntry_def mem_ok_def indexed_from_append)

lemma mem_appendEntries_ok:
  assumes "mem_ok l" and "indexed_from (Suc (ml_mLastIndex l)) es"
  shows "mem_appendEntries es l
      = (True, l\<lparr>ml_mLastIndex := ml_mLastIndex l + length es, ml_mLog := ml_mLog l @ es\<rparr>)
     \<and> mem_ok (l\<lparr>ml_mLastIndex := ml_mLastIndex l + length es, ml_mLog := ml_mLog l @ es\<rparr>)"
  using assms
proof (induction es arbitrary: l)
  case Nil
  then show ?case by simp
next
  case (Cons e es)
  from Cons.prems have e: "le_index e = Suc (ml_mLastIndex l)" by simp
  note app = mem_appendEntry_ok[OF Cons.prems(1) e]
  show ?case
    using Cons.IH[OF app(2)] Cons.prems(2) by (simp add: app(1))
qed

lemma mem_appendEntries_refuses_gap:
  "le_index e \<noteq> Suc (ml_mLastIndex l) \<Longrightarrow> mem_appendEntries (e # es) l = (False, l)"
  by (simp add: mem_appendEntry_def)

lemma mem_truncateSuffix_ok:
  assumes "mem_ok l" and "ml_mFirstIndex l \<le> Suc k" and "k \<le> ml_mLastIndex l"
  shows "mem_truncateSuffix k l
      = l\<lparr>ml_mLastIndex := k, ml_mLog := take (Suc k - ml_mFirstIndex l) (ml_mLog l)\<rparr>"
    and "mem_ok (l\<lparr>ml_mLastIndex := k, ml_mLog := take (Suc k - ml_mFirstIndex l) (ml_mLog l)\<rparr>)"
proof -
  show "mem_truncateSuffix k l
      = l\<lparr>ml_mLastIndex := k, ml_mLog := take (Suc k - ml_mFirstIndex l) (ml_mLog l)\<rparr>"
    using assms by (auto simp: mem_truncateSuffix_def mem_ok_def Let_def Suc_diff_le)
  show "mem_ok (l\<lparr>ml_mLastIndex := k, ml_mLog := take (Suc k - ml_mFirstIndex l) (ml_mLog l)\<rparr>)"
    using assms by (auto simp: mem_ok_def intro: indexed_from_take)
qed

lemma mem_truncatePrefix_ok:
  assumes "mem_ok l"
  shows "mem_ok (mem_truncatePrefix k l)"
    and "k \<le> Suc (ml_mLastIndex l) \<Longrightarrow>
      ml_mLog (mem_truncatePrefix k l) = drop (k - ml_mFirstIndex l) (ml_mLog l)"
    and "k \<le> Suc (ml_mLastIndex l) \<Longrightarrow> ml_mLastIndex (mem_truncatePrefix k l) = ml_mLastIndex l"
  using assms indexed_from_drop[of "ml_mFirstIndex l" "ml_mLog l" "k - ml_mFirstIndex l"]
  by (auto simp: mem_truncatePrefix_def mem_ok_def Let_def)

lemma batch_entries_prefix: "\<exists>k. batch_entries bs n m b es = take k es"
proof (induction bs n m b es rule: batch_entries.induct)
  case (3 bs n m b e es)
  show ?case
  proof (cases "n + bs e > m")
    case True
    then show ?thesis by (intro exI[of _ 0]) simp
  next
    case False
    with 3 obtain k where "batch_entries bs (n + bs e) m b es = take k es" by auto
    with False show ?thesis by (intro exI[of _ "Suc k"]) simp
  qed
qed auto

lemma batch_entries_within:
  "length (batch_entries bs n m b es) \<le> b"
  "n \<le> m \<Longrightarrow> n + sum_list (map bs (batch_entries bs n m b es)) \<le> m"
  by (induction bs n m b es rule: batch_entries.induct) (auto simp: add.assoc)

lemma mem_getEntries_ok:
  assumes "mem_ok l" and "ml_mFirstIndex l \<le> n" and "n \<le> Suc (ml_mLastIndex l)"
  shows "\<exists>k. mem_getEntries bs n maxLen maxBatch l = Inr (take k (drop (n - ml_mFirstIndex l) (ml_mLog l)))"
proof (cases "n > ml_mLastIndex l")
  case True
  with assms show ?thesis by (auto simp: mem_getEntries_def intro: exI[of _ 0])
next
  case False
  with assms(2) show ?thesis
    using batch_entries_prefix[of bs 0 maxLen "min maxBatch (ml_mLastIndex l - n + 1)"
        "drop (n - ml_mFirstIndex l) (ml_mLog l)"]
    by (auto simp: mem_getEntries_def Let_def)
qed

lemma mem_appendEntries_only_consecutive:
  "mem_ok l \<Longrightarrow> mem_appendEntries es l = (True, l') \<Longrightarrow> indexed_from (Suc (ml_mLastIndex l)) es"
proof (induction es arbitrary: l)
  case (Cons e es)
  then have e: "le_index e = Suc (ml_mLastIndex l)"
    by (auto simp: mem_appendEntry_def split: if_splits)
  from mem_appendEntry_ok[OF Cons.prems(1) e] Cons show ?case by (fastforce simp: e)
qed simp

interpretation mem_raft_log: raft_log "mem_ops bs sv" mem_ok ml_mLog "\<lambda>es. True" for bs sv
proof (unfold_locales, goal_cases)
  case (6 l es l')
  then have idx: "indexed_from (Suc (ml_mLastIndex l)) es"
    using mem_appendEntries_only_consecutive[of l es l'] by (simp add: mem_ops_def)
  with 6 show ?case
    using mem_appendEntries_ok[of l es] by (auto simp: mem_ops_def)
next
  case (7 l es l')
  then show ?case
    using mem_appendEntries_ok[of l es] by (auto simp: mem_ops_def)
next
  case (10 l e)
  show ?case by (simp add: mem_ops_def mem_appendEntry_def)
next
  case (11 l k)
  then show ?case
    using mem_truncateSuffix_ok[of l k] by (simp add: mem_ops_def)
next
  case (12 l k)
  then have k: "k \<le> Suc (ml_mLastIndex l)" by (simp add: mem_ops_def)
  have "ml_mFirstIndex (mem_truncatePrefix k l) = max k (ml_mFirstIndex l)
      \<and> ml_mTerm (mem_truncatePrefix k l) = ml_mTerm l
      \<and> ml_mVoteFor (mem_truncatePrefix k l) = ml_mVoteFor l"
    by (auto simp: mem_truncatePrefix_def Let_def)
  with 12 show ?case
    using mem_truncatePrefix_ok[of l k] k by (simp add: mem_ops_def)
next
  case (13 l n maxLen maxBatch)
  then show ?case
    using mem_getEntries_ok[of l n bs maxLen maxBatch] by (simp add: mem_ops_def)
qed (auto simp: mem_ops_def mem_ok_def mem_getTerm_def)

lemma batch_entries_take:
  assumes "xs \<noteq> []"
  shows "\<exists>k. batch_entries bs 0 maxLen (min maxBatch b) xs = take k xs \<and> k \<le> maxBatch
    \<and> (0 < maxBatch \<and> 0 < b \<and> bs (hd xs) \<le> maxLen \<longrightarrow> 0 < k)"
proof (intro exI conjI)
  let ?b = "batch_entries bs 0 maxLen (min maxBatch b) xs"
  obtain k where k: "?b = take k xs" using batch_entries_prefix by blast
  have "take (length ?b) xs = ?b" unfolding k by (simp add: min_def)
  then show "?b = take (length ?b) xs" by simp
  show "length ?b \<le> maxBatch" using batch_entries_within(1)[of bs 0 maxLen "min maxBatch b" xs] by linarith
  show "0 < maxBatch \<and> 0 < b \<and> bs (hd xs) \<le> maxLen \<longrightarrow> 0 < length ?b"
    using assms by (cases xs; cases "min maxBatch b") auto
qed

interpretation mem_reader: raft_log_reader "mem_ops bs sv" mem_ok ml_mLog "\<lambda>es. True" bs for bs sv
proof
  fix l n
  assume "mem_ok l" "0 < n" "n \<le> lo_getLastLogIndex (mem_ops bs sv) l"
  then show "lo_getEntry (mem_ops bs sv) n l
      = Inr (if lo_getFirstLogIndex (mem_ops bs sv) l \<le> n then Some (ml_mLog l ! (n - lo_getFirstLogIndex (mem_ops bs sv) l)) else None)"
    by (simp add: mem_ops_def mem_getEntry_def)
next
  fix l n maxLen maxBatch
  assume "mem_ok l" and "lo_getFirstLogIndex (mem_ops bs sv) l \<le> n" and "n \<le> lo_getLastLogIndex (mem_ops bs sv) l"
  then have l: "mem_ok l" "ml_mFirstIndex l \<le> n" "n \<le> ml_mLastIndex l" by (simp_all add: mem_ops_def)
  then have "0 < n" and len: "n - ml_mFirstIndex l < length (ml_mLog l)" by (auto simp: mem_ok_def)
  have "drop (n - ml_mFirstIndex l) (ml_mLog l) \<noteq> []" using len by simp
  from batch_entries_take[OF this, of bs maxLen maxBatch "ml_mLastIndex l - n + 1"]
  show "\<exists>k. lo_getEntries (mem_ops bs sv) n maxLen maxBatch l
      = Inr (take k (drop (n - lo_getFirstLogIndex (mem_ops bs sv) l) (ml_mLog l))) \<and> k \<le> maxBatch
      \<and> (0 < maxBatch \<and> bs (ml_mLog l ! (n - lo_getFirstLogIndex (mem_ops bs sv) l)) \<le> maxLen \<longrightarrow> 0 < k)"
    using l len by (simp add: mem_ops_def mem_getEntries_def hd_drop_conv_nth Let_def)
qed

end
