(* ===== verification/Raft_Core.thy ===== *)
theory Raft_Core
  imports Raft_Log
begin

text \<open>
  The consensus core \<^verbatim>\<open>src/src/infra/raft/v2/RaftCore.h\<close> and \<^verbatim>\<open>RaftCore.cpp\<close>: its state, the
  construction from the cluster configuration, every message handler, every step of the main loop
  and the accessors other components call.

  The log is the interface of \<open>Raft_Log\<close>, passed as the record \<open>ops\<close> the way the code goes through
  the virtual methods of \<^verbatim>\<open>Log\<close>. What a step sends or replies is the list of outputs it returns.
  A step reads the clock as \<open>env_now\<close> (one value per step) and draws the random election timeout
  \<open>env_timeout\<close>. The metrics carried by the messages and the gauges are left out: no decision of
  the code reads them.
\<close>

section \<open>State and messages\<close>

datatype RaftRole = Leader | Follower | Candidate | Syncer

definition kBadID :: nat where
  "kBadID = 0"

definition kMinElectionTimeoutInMillis :: nat where
  "kMinElectionTimeoutInMillis = 1000"

definition kMaxElectionTimeoutInMillis :: nat where
  "kMaxElectionTimeoutInMillis = kMinElectionTimeoutInMillis * 2"

definition kHeartBeatIntervalInMillis :: nat where
  "kHeartBeatIntervalInMillis = 20"

record Peer =
  pe_mId :: nat
  pe_mAddress :: string
  pe_mRequestVoteDone :: bool
  pe_mHaveVote :: bool
  pe_mMatchIndex :: nat
  pe_mNextIndex :: nat
  pe_mSuppressBulkData :: bool
  pe_mLastRequestTimeInNano :: nat
  pe_mNextRequestTimeInNano :: nat
  pe_mLastResponseTimeInNano :: nat

definition Peer_new :: Peer where
  "Peer_new =
     \<lparr>pe_mId = 0, pe_mAddress = '''', pe_mRequestVoteDone = False, pe_mHaveVote = False,
      pe_mMatchIndex = 0, pe_mNextIndex = 1, pe_mSuppressBulkData = True,
      pe_mLastRequestTimeInNano = 0, pe_mNextRequestTimeInNano = 0, pe_mLastResponseTimeInNano = 0\<rparr>"

record AE_req =
  aq_term :: nat
  aq_leader_id :: nat
  aq_prev_log_index :: nat
  aq_prev_log_term :: nat
  aq_commit_index :: nat
  aq_entries :: "LogEntry list"

record AE_resp =
  ap_term :: nat
  ap_success :: bool
  ap_id :: nat
  ap_saved_term :: nat
  ap_saved_prev_log_index :: nat
  ap_last_log_index :: nat
  ap_match_index :: nat

record RV_req =
  vq_term :: nat
  vq_candidate_id :: nat
  vq_last_log_index :: nat
  vq_last_log_term :: nat
  vq_create_time :: nat

record RV_resp =
  vp_term :: nat
  vp_vote_granted :: bool
  vp_create_time :: nat
  vp_id :: nat
  vp_saved_term :: nat

text \<open>A request handle is a number; \<open>None\<close> is the null pointer.\<close>

record ClientRequest =
  cr_mEntry :: LogEntry
  cr_mRequestHandle :: "nat option"

record SyncRequest =
  sr_mEntries :: "LogEntry list"
  sr_mStartIndex :: nat
  sr_mEndIndex :: nat
  sr_mFinishMeta :: "nat option"

text \<open>
  The events of the two queues. A response event carries the peer it was sent to and whether the
  call succeeded.
\<close>

datatype raft_event =
    AppendEntriesRequest AE_req
  | AppendEntriesResponse nat bool AE_resp
  | RequestVoteRequest RV_req
  | RequestVoteResponse nat bool RV_resp
  | ClientRequests "ClientRequest list"
  | SyncRequestEvent SyncRequest

datatype rpc_status = Status_OK | Status_CANCELLED

datatype raft_out =
    Send_AE nat AE_req
  | Send_RV nat RV_req
  | Reply_AE rpc_status AE_resp
  | Reply_RV rpc_status RV_resp
  | Reply_Client nat nat string nat

record 'l raft_core =
  rc_mMaxBatchSize :: nat
  rc_mMaxLenInBytes :: nat
  rc_mMaxDecrStep :: nat
  rc_mPeers :: "(nat, Peer) smap"
  rc_selfId :: nat
  rc_selfAddress :: string
  rc_mLeaderId :: nat
  rc_mElectionTimePointInNano :: nat
  rc_mCommitIndex :: nat
  rc_mBeginIndex :: nat
  rc_mRaftRole :: RaftRole
  rc_mLog :: 'l
  rc_mPendingClientRequests :: "(nat \<times> nat option) list"
  rc_mAeRvQueue :: "raft_event list"
  rc_mClientRequestsQueue :: "raft_event list"
  rc_mClients :: "nat list"

record env =
  env_now :: nat
  env_timeout :: nat

text \<open>\<^verbatim>\<open>mPeers[id]\<close>, which inserts a fresh peer for an unknown id.\<close>

definition peer_of :: "'l raft_core \<Rightarrow> nat \<Rightarrow> Peer" where
  "peer_of s i = (case map_of (rc_mPeers s) i of None \<Rightarrow> Peer_new | Some p \<Rightarrow> p)"

definition put_peer :: "nat \<Rightarrow> Peer \<Rightarrow> 'l raft_core \<Rightarrow> 'l raft_core" where
  "put_peer i p s = s\<lparr>rc_mPeers := smap_put i p (rc_mPeers s)\<rparr>"

text \<open>\<^verbatim>\<open>std::numeric_limits<uint64_t>::max()\<close>.\<close>

definition u64_max :: nat where
  "u64_max = 2 ^ 64 - 1"

definition getMajorityNumber :: "nat \<Rightarrow> nat" where
  "getMajorityNumber totalNum = totalNum div 2 + 1"

definition termOfLogEntryAt :: "'l log_ops \<Rightarrow> nat \<Rightarrow> 'l raft_core \<Rightarrow> nat res" where
  "termOfLogEntryAt ops index s =
     (case lo_getTerm ops index (rc_mLog s) of None \<Rightarrow> Inl Assertion | Some t \<Rightarrow> Inr t)"

definition updateElectionTimePoint :: "env \<Rightarrow> 'l raft_core \<Rightarrow> 'l raft_core" where
  "updateElectionTimePoint e s = s\<lparr>rc_mElectionTimePointInNano := env_now e + env_timeout e\<rparr>"

section \<open>Construction\<close>

record NodeInfo =
  ni_mHostName :: string
  ni_mPortForRaft :: nat

text \<open>\<^verbatim>\<open>initConfigurableVars\<close>: the four settings, refused when one is missing (zero).\<close>

definition initConfigurableVars :: "nat \<Rightarrow> nat \<Rightarrow> nat \<Rightarrow> nat \<Rightarrow> 'l raft_core \<Rightarrow> 'l raft_core res" where
  "initConfigurableVars maxBatchSize maxLenInBytes maxDecrStep maxTailedEntryNum s =
     res_bind (c_assert (maxBatchSize \<noteq> 0 \<and> maxLenInBytes \<noteq> 0 \<and> maxDecrStep \<noteq> 0 \<and> maxTailedEntryNum \<noteq> 0))
       (\<lambda>_. Inr (s\<lparr>rc_mMaxBatchSize := maxBatchSize, rc_mMaxLenInBytes := maxLenInBytes,
                  rc_mMaxDecrStep := maxDecrStep\<rparr>))"

definition address_of :: "NodeInfo \<Rightarrow> string" where
  "address_of node = ni_mHostName node @ '':'' @ to_string (ni_mPortForRaft node)"

definition add_node :: "nat \<Rightarrow> nat \<times> NodeInfo \<Rightarrow> 'l raft_core \<Rightarrow> 'l raft_core" where
  "add_node selfId n s =
     (case n of (nodeId, node) \<Rightarrow>
        if selfId = nodeId then s\<lparr>rc_selfId := selfId, rc_selfAddress := address_of node\<rparr>
        else put_peer nodeId (Peer_new\<lparr>pe_mId := nodeId, pe_mAddress := address_of node\<rparr>) s)"

definition initClusterConf :: "(nat, NodeInfo) smap \<Rightarrow> nat \<Rightarrow> 'l raft_core \<Rightarrow> 'l raft_core res" where
  "initClusterConf nodes selfId s =
     (let s1 = fold (add_node selfId) nodes s in
      res_bind (c_assert (rc_selfId s1 \<noteq> kBadID)) (\<lambda>_. Inr s1))"

text \<open>\<^verbatim>\<open>initService\<close>: one client per peer, and the first election time point.\<close>

definition initService :: "env \<Rightarrow> nat \<Rightarrow> 'l raft_core \<Rightarrow> 'l raft_core" where
  "initService e initialElectionTimeout s =
     s\<lparr>rc_mClients := map (pe_mId \<circ> snd) (rc_mPeers s),
       rc_mElectionTimePointInNano := env_now e + initialElectionTimeout * 1000 * 1000 * 1000\<rparr>"

definition RaftCore_new ::
  "env \<Rightarrow> nat \<Rightarrow> nat \<Rightarrow> nat \<Rightarrow> nat \<Rightarrow> nat \<Rightarrow> (nat, NodeInfo) smap \<Rightarrow> nat \<Rightarrow> RaftRole \<Rightarrow> 'l
   \<Rightarrow> 'l raft_core res" where
  "RaftCore_new e maxBatchSize maxLenInBytes maxDecrStep maxTailedEntryNum initialElectionTimeout
     nodes selfId role log =
     res_bind
       (initConfigurableVars maxBatchSize maxLenInBytes maxDecrStep maxTailedEntryNum
          \<lparr>rc_mMaxBatchSize = 2000, rc_mMaxLenInBytes = 4000000, rc_mMaxDecrStep = 2000,
           rc_mPeers = [], rc_selfId = kBadID, rc_selfAddress = '''', rc_mLeaderId = kBadID,
           rc_mElectionTimePointInNano = 0, rc_mCommitIndex = 0, rc_mBeginIndex = 1,
           rc_mRaftRole = role, rc_mLog = log, rc_mPendingClientRequests = [], rc_mAeRvQueue = [],
           rc_mClientRequestsQueue = [], rc_mClients = []\<rparr>)
       (\<lambda>s. res_bind (initClusterConf nodes selfId s)
              (\<lambda>s1. Inr (initService e initialElectionTimeout s1)))"


section \<open>Stepping down and receiving\<close>

text \<open>The state after a step, with what the step sent and replied, in order.\<close>

type_synonym 'l raft_result = "('l raft_core \<times> raft_out list) res"

text \<open>Running one step after another collects their outputs.\<close>

definition raft_then :: "'l raft_result \<Rightarrow> ('l raft_core \<Rightarrow> 'l raft_result) \<Rightarrow> 'l raft_result" where
  "raft_then m f =
     res_bind m (\<lambda>(s, out). res_bind (f s) (\<lambda>(s', out'). Inr (s', out @ out')))"

definition pending_replies :: "nat \<Rightarrow> string \<Rightarrow> nat \<Rightarrow> (nat \<times> nat option) list \<Rightarrow> raft_out list" where
  "pending_replies code message leader ps =
     concat (map (\<lambda>(i, h). case h of None \<Rightarrow> [] | Some k \<Rightarrow> [Reply_Client k code message leader]) ps)"

definition stepDown :: "'l log_ops \<Rightarrow> env \<Rightarrow> nat \<Rightarrow> 'l raft_core \<Rightarrow> 'l raft_result" where
  "stepDown ops e newTerm s =
     (let currentTerm = lo_getCurrentTerm ops (rc_mLog s) in
      res_bind (c_assert (currentTerm \<le> newTerm))
        (\<lambda>_.
          let prevRole = rc_mRaftRole s; s1 = s\<lparr>rc_mRaftRole := Follower\<rparr> in
          res_bind
            (if currentTerm < newTerm
             then Inr (s1\<lparr>rc_mLog := lo_setVoteFor ops 0 (lo_setCurrentTerm ops newTerm (rc_mLog s1)),
                          rc_mLeaderId := 0\<rparr>)
             else res_bind (c_assert (prevRole = Candidate)) (\<lambda>_. Inr s1))
            (\<lambda>s2.
              if prevRole = Leader
              then Inr (updateElectionTimePoint e (s2\<lparr>rc_mPendingClientRequests := []\<rparr>),
                        pending_replies 301 ''LeaderStepDown'' (rc_mLeaderId s2)
                          (rc_mPendingClientRequests s2))
              else Inr (s2, []))))"

text \<open>The loop over the entries of an AppendEntries request: the entries still to be appended and the
  running index.\<close>

definition ae_entry ::
  "'l log_ops \<Rightarrow> LogEntry \<Rightarrow> 'l raft_core \<times> LogEntry list \<times> nat \<Rightarrow> ('l raft_core \<times> LogEntry list \<times> nat) res" where
  "ae_entry ops entry st =
     (case st of (s, entries, index) \<Rightarrow>
        res_bind (c_assert (le_index entry = index + 1))
          (\<lambda>_.
            if le_index entry < lo_getFirstLogIndex ops (rc_mLog s) then Inr (s, entries, index + 1)
            else if le_index entry \<le> lo_getLastLogIndex ops (rc_mLog s)
            then
              res_bind (termOfLogEntryAt ops (le_index entry) s)
                (\<lambda>t.
                  if le_term entry = t then Inr (s, entries, index + 1)
                  else
                    res_bind (c_assert (le_index entry > rc_mCommitIndex s))
                      (\<lambda>_. res_bind (lo_truncateSuffix ops (le_index entry - 1) (rc_mLog s))
                             (\<lambda>l. Inr (s\<lparr>rc_mLog := l\<rparr>, entries @ [entry], index + 1))))
            else Inr (s, entries @ [entry], index + 1)))"

text \<open>\<^verbatim>\<open>assert(mLog->appendEntries(entries))\<close>.\<close>

definition append_or_abort :: "'l log_ops \<Rightarrow> LogEntry list \<Rightarrow> 'l raft_core \<Rightarrow> 'l raft_core res" where
  "append_or_abort ops entries s =
     res_bind (lo_appendEntries ops entries (rc_mLog s))
       (\<lambda>(ok, l). res_bind (c_assert ok) (\<lambda>_. Inr (s\<lparr>rc_mLog := l\<rparr>)))"

definition ae_logIsOk :: "'l log_ops \<Rightarrow> AE_req \<Rightarrow> 'l raft_core \<Rightarrow> bool res" where
  "ae_logIsOk ops request s =
     (if aq_prev_log_index request < lo_getFirstLogIndex ops (rc_mLog s) then Inr True
      else if aq_prev_log_index request \<le> lo_getLastLogIndex ops (rc_mLog s)
      then res_bind (termOfLogEntryAt ops (aq_prev_log_index request) s)
             (\<lambda>t. Inr (t = aq_prev_log_term request))
      else Inr False)"

text \<open>The follower's commit index after the entries are in.\<close>

definition ae_commit :: "'l log_ops \<Rightarrow> AE_req \<Rightarrow> 'l raft_core \<Rightarrow> 'l raft_core res" where
  "ae_commit ops request s =
     (if rc_mCommitIndex s < aq_commit_index request
      then res_bind (c_assert (aq_commit_index request \<le> lo_getLastLogIndex ops (rc_mLog s)))
             (\<lambda>_. Inr (s\<lparr>rc_mCommitIndex := aq_commit_index request\<rparr>))
      else Inr s)"

text \<open>From the check of the log onwards: \<open>resp\<close> is the response prepared so far.\<close>

definition ae_store :: "'l log_ops \<Rightarrow> env \<Rightarrow> AE_req \<Rightarrow> AE_resp \<Rightarrow> 'l raft_core \<Rightarrow> ('l raft_core \<times> AE_resp) res" where
  "ae_store ops e request resp s =
     res_bind (ae_logIsOk ops request s)
       (\<lambda>logIsOk.
         if \<not> logIsOk then Inr (s, resp)
         else
           res_bind (fold_res (ae_entry ops) (aq_entries request) (s, [], aq_prev_log_index request))
             (\<lambda>(s1, entries, index).
               res_bind (append_or_abort ops entries s1)
                 (\<lambda>s2. res_bind (ae_commit ops request s2)
                    (\<lambda>s3. Inr (updateElectionTimePoint e s3,
                       resp\<lparr>ap_success := True,
                            ap_last_log_index := lo_getLastLogIndex ops (rc_mLog s2),
                            ap_match_index := aq_prev_log_index request + length (aq_entries request)\<rparr>)))))"

definition ae_leader :: "AE_req \<Rightarrow> 'l raft_core \<Rightarrow> 'l raft_core res" where
  "ae_leader request s =
     (if rc_mLeaderId s = 0 then Inr (s\<lparr>rc_mLeaderId := aq_leader_id request\<rparr>)
      else res_bind (c_assert (rc_mLeaderId s = aq_leader_id request)) (\<lambda>_. Inr s))"

definition ae_prepare :: "'l log_ops \<Rightarrow> AE_req \<Rightarrow> 'l raft_core \<Rightarrow> AE_resp" where
  "ae_prepare ops request s =
     \<lparr>ap_term = lo_getCurrentTerm ops (rc_mLog s), ap_success = False, ap_id = rc_selfId s,
      ap_saved_term = aq_term request, ap_saved_prev_log_index = aq_prev_log_index request,
      ap_last_log_index = lo_getLastLogIndex ops (rc_mLog s), ap_match_index = 0\<rparr>"

definition handleAppendEntriesRequest :: "'l log_ops \<Rightarrow> env \<Rightarrow> AE_req \<Rightarrow> 'l raft_core \<Rightarrow> 'l raft_result" where
  "handleAppendEntriesRequest ops e request s =
     (let currentTerm = lo_getCurrentTerm ops (rc_mLog s); resp = ae_prepare ops request s in
      if aq_term request < currentTerm then Inr (s, [Reply_AE Status_OK resp])
      else
        let resp1 = resp\<lparr>ap_term := aq_term request\<rparr> in
        if rc_mRaftRole s = Syncer then Inr (s, [Reply_AE Status_CANCELLED resp1])
        else
          raft_then
            (if aq_term request > currentTerm
                \<or> (aq_term request = currentTerm \<and> rc_mRaftRole s = Candidate)
             then stepDown ops e (aq_term request) s
             else Inr (s, []))
            (\<lambda>s1. res_bind (ae_leader request (updateElectionTimePoint e s1))
               (\<lambda>s2. res_bind (ae_store ops e request resp1 s2)
                  (\<lambda>(s3, resp2). Inr (s3, [Reply_AE Status_OK resp2])))))"

definition handleAppendEntriesResponse :: "'l log_ops \<Rightarrow> env \<Rightarrow> AE_resp \<Rightarrow> 'l raft_core \<Rightarrow> 'l raft_result" where
  "handleAppendEntriesResponse ops e response s =
     (let currentTerm = lo_getCurrentTerm ops (rc_mLog s) in
      if currentTerm \<noteq> ap_saved_term response then Inr (s, [])
      else
        res_bind (c_assert (rc_mRaftRole s = Leader))
          (\<lambda>_.
            if ap_term response > currentTerm then stepDown ops e (ap_term response) s
            else
              let peer = peer_of s (ap_id response); s1 = put_peer (ap_id response) peer s in
              if ap_saved_prev_log_index response \<noteq> pe_mNextIndex peer - 1 then Inr (s1, [])
              else if ap_success response
              then
                res_bind (c_assert (pe_mMatchIndex peer \<le> ap_match_index response))
                  (\<lambda>_. Inr (put_peer (ap_id response)
                    (peer\<lparr>pe_mMatchIndex := ap_match_index response,
                          pe_mNextIndex := ap_match_index response + 1,
                          pe_mSuppressBulkData := False\<rparr>) s, []))
              else
                res_bind (c_assert (pe_mMatchIndex peer \<le> ap_last_log_index response))
                  (\<lambda>_. res_bind (c_assert (pe_mMatchIndex peer + 1 < pe_mNextIndex peer))
                    (\<lambda>_. Inr (put_peer (ap_id response)
                      (if pe_mNextIndex peer > ap_last_log_index response + 1
                       then peer\<lparr>pe_mNextIndex := ap_last_log_index response + 1\<rparr>
                       else peer\<lparr>pe_mNextIndex := pe_mNextIndex peer
                              - min ((pe_mNextIndex peer - pe_mMatchIndex peer) div 2) (rc_mMaxDecrStep s)\<rparr>)
                      s, [])))))"


definition handleRequestVoteRequest :: "'l log_ops \<Rightarrow> env \<Rightarrow> RV_req \<Rightarrow> 'l raft_core \<Rightarrow> 'l raft_result" where
  "handleRequestVoteRequest ops e request s =
     (let currentTerm = lo_getCurrentTerm ops (rc_mLog s);
          resp = \<lparr>vp_term = currentTerm, vp_vote_granted = False, vp_create_time = env_now e,
                  vp_id = rc_selfId s, vp_saved_term = vq_term request\<rparr> in
      if rc_mRaftRole s = Syncer then Inr (s, [Reply_RV Status_CANCELLED resp])
      else if vq_term request < currentTerm then Inr (s, [Reply_RV Status_OK resp])
      else
        let resp1 = (if vq_term request > currentTerm then resp\<lparr>vp_term := vq_term request\<rparr> else resp) in
        raft_then
          (if vq_term request > currentTerm then stepDown ops e (vq_term request) s else Inr (s, []))
          (\<lambda>s1.
            let lastLogIndex = lo_getLastLogIndex ops (rc_mLog s1) in
            res_bind (termOfLogEntryAt ops lastLogIndex s1)
              (\<lambda>lastLogTerm.
                let logIsOk = (vq_last_log_term request > lastLogTerm
                       \<or> (vq_last_log_term request = lastLogTerm \<and> vq_last_log_index request \<ge> lastLogIndex));
                    voteFor = lo_getVote ops (rc_mLog s1) in
                if logIsOk \<and> (voteFor = 0 \<or> voteFor = vq_candidate_id request)
                then Inr (updateElectionTimePoint e
                            (s1\<lparr>rc_mLog := lo_setVoteFor ops (vq_candidate_id request) (rc_mLog s1)\<rparr>),
                          [Reply_RV Status_OK (resp1\<lparr>vp_vote_granted := True\<rparr>)])
                else Inr (s1, [Reply_RV Status_OK resp1]))))"

definition handleRequestVoteResponse :: "'l log_ops \<Rightarrow> env \<Rightarrow> RV_resp \<Rightarrow> 'l raft_core \<Rightarrow> 'l raft_result" where
  "handleRequestVoteResponse ops e response s =
     (let currentTerm = lo_getCurrentTerm ops (rc_mLog s) in
      if currentTerm \<noteq> vp_saved_term response \<or> rc_mRaftRole s \<noteq> Candidate then Inr (s, [])
      else if vp_term response > currentTerm then stepDown ops e (vp_term response) s
      else
        let peer = (peer_of s (vp_id response))\<lparr>pe_mRequestVoteDone := True\<rparr> in
        Inr (put_peer (vp_id response)
               (if vp_vote_granted response then peer\<lparr>pe_mHaveVote := True\<rparr> else peer) s, []))"

text \<open>The filter of \<^verbatim>\<open>handleClientRequests\<close>: pending requests, entries to append and the running last
  index. An entry that does not fit is dropped, without a reply.\<close>

definition client_entry ::
  "nat \<Rightarrow> ClientRequest \<Rightarrow> (nat \<times> nat option) list \<times> LogEntry list \<times> nat
   \<Rightarrow> (nat \<times> nat option) list \<times> LogEntry list \<times> nat" where
  "client_entry currentTerm clientRequest st =
     (case st of (pending, entries, lastLogIndex) \<Rightarrow>
        let entry = cr_mEntry clientRequest in
        if le_term entry = currentTerm \<and> le_index entry = lastLogIndex + 1
        then (pending @ [(le_index entry, cr_mRequestHandle clientRequest)], entries @ [entry], lastLogIndex + 1)
        else (pending, entries, lastLogIndex))"

definition handleClientRequests :: "'l log_ops \<Rightarrow> ClientRequest list \<Rightarrow> 'l raft_core \<Rightarrow> 'l raft_result" where
  "handleClientRequests ops clientRequests s =
     (if rc_mRaftRole s \<noteq> Leader
      then Inr (s, concat (map (\<lambda>c. case cr_mRequestHandle c of None \<Rightarrow> []
             | Some h \<Rightarrow> [Reply_Client h 301 ''NotLeaderAnyMore'' (rc_mLeaderId s)]) clientRequests))
      else
        (case fold (client_entry (lo_getCurrentTerm ops (rc_mLog s))) clientRequests
                (rc_mPendingClientRequests s, [], lo_getLastLogIndex ops (rc_mLog s)) of
           (pending, entries, lastLogIndex) \<Rightarrow>
             res_bind (lo_appendEntries ops entries (rc_mLog s))
               (\<lambda>(ok, l). Inr (s\<lparr>rc_mPendingClientRequests := pending, rc_mLog := l\<rparr>, []))))"

definition handleSyncRequest :: "'l log_ops \<Rightarrow> SyncRequest \<Rightarrow> 'l raft_core \<Rightarrow> 'l raft_result" where
  "handleSyncRequest ops syncRequest s =
     (if rc_mRaftRole s \<noteq> Syncer then Inr (s, [])
      else
        (case sr_mFinishMeta syncRequest of
           Some beginIndex \<Rightarrow> Inr (s\<lparr>rc_mRaftRole := Follower, rc_mBeginIndex := beginIndex\<rparr>, [])
         | None \<Rightarrow>
             res_bind (c_assert (sr_mStartIndex syncRequest = lo_getLastLogIndex ops (rc_mLog s) + 1))
               (\<lambda>_. res_bind (c_assert (sr_mEntries syncRequest \<noteq> []))
                 (\<lambda>_. res_bind (append_or_abort ops (sr_mEntries syncRequest) s)
                   (\<lambda>s1. res_bind (c_assert (lo_getLastLogIndex ops (rc_mLog s1) = sr_mEndIndex syncRequest))
                     (\<lambda>_. let l = lo_setCurrentTerm ops (le_term (last (sr_mEntries syncRequest))) (rc_mLog s1) in
                       Inr (s1\<lparr>rc_mLog := l, rc_mCommitIndex := lo_getLastLogIndex ops l\<rparr>, [])))))))"

text \<open>The switch a response turns on again, at the head of both response branches.\<close>

definition turn_on :: "env \<Rightarrow> Peer \<Rightarrow> Peer" where
  "turn_on e peer =
     peer\<lparr>pe_mNextRequestTimeInNano :=
            max (pe_mLastRequestTimeInNano peer + kHeartBeatIntervalInMillis * 1000 * 1000) (env_now e)\<rparr>"

definition handle_event :: "'l log_ops \<Rightarrow> env \<Rightarrow> raft_event \<Rightarrow> 'l raft_core \<Rightarrow> 'l raft_result" where
  "handle_event ops e event s =
     (case event of
        AppendEntriesRequest request \<Rightarrow> handleAppendEntriesRequest ops e request s
      | AppendEntriesResponse peerId ok response \<Rightarrow>
          let peer = turn_on e (peer_of s peerId) in
          if ok
          then handleAppendEntriesResponse ops e response
                 (put_peer peerId (peer\<lparr>pe_mLastResponseTimeInNano := env_now e\<rparr>) s)
          else Inr (put_peer peerId (peer\<lparr>pe_mSuppressBulkData := True\<rparr>) s, [])
      | RequestVoteRequest request \<Rightarrow> handleRequestVoteRequest ops e request s
      | RequestVoteResponse peerId ok response \<Rightarrow>
          let peer = turn_on e (peer_of s peerId) in
          if ok
          then handleRequestVoteResponse ops e response
                 (put_peer peerId (peer\<lparr>pe_mLastResponseTimeInNano := env_now e\<rparr>) s)
          else Inr (put_peer peerId peer s, [])
      | ClientRequests clientRequests \<Rightarrow> handleClientRequests ops clientRequests s
      | SyncRequestEvent syncRequest \<Rightarrow> handleSyncRequest ops syncRequest s)"

definition receiveMessage :: "'l log_ops \<Rightarrow> env \<Rightarrow> 'l raft_core \<Rightarrow> 'l raft_result" where
  "receiveMessage ops e s =
     (case rc_mAeRvQueue s of
        ev # q \<Rightarrow> handle_event ops e ev (s\<lparr>rc_mAeRvQueue := q\<rparr>)
      | [] \<Rightarrow>
          (case rc_mClientRequestsQueue s of
             ev # q \<Rightarrow> handle_event ops e ev (s\<lparr>rc_mClientRequestsQueue := q\<rparr>)
           | [] \<Rightarrow> Inr (s, [])))"

section \<open>The other steps of the main loop\<close>

definition append_to_peer ::
  "'l log_ops \<Rightarrow> env \<Rightarrow> 'l raft_core \<Rightarrow> nat \<times> Peer \<Rightarrow> ((nat \<times> Peer) \<times> raft_out list) res" where
  "append_to_peer ops e s p =
     (case p of (i, peer) \<Rightarrow>
        if pe_mNextRequestTimeInNano peer > env_now e then Inr ((i, peer), [])
        else
          let prevLogIndex = pe_mNextIndex peer - 1 in
          res_bind (termOfLogEntryAt ops prevLogIndex s)
            (\<lambda>prevLogTerm.
              res_bind
                (if \<not> pe_mSuppressBulkData peer
                 then lo_getEntries ops (pe_mNextIndex peer) (rc_mMaxLenInBytes s) (rc_mMaxBatchSize s) (rc_mLog s)
                 else Inr [])
                (\<lambda>entries.
                  if pe_mId peer \<notin> set (rc_mClients s) then Inl Bad_Access
                  else
                    Inr ((i, peer\<lparr>pe_mNextRequestTimeInNano := u64_max, pe_mLastRequestTimeInNano := env_now e\<rparr>),
                         [Send_AE (pe_mId peer)
                            \<lparr>aq_term = lo_getCurrentTerm ops (rc_mLog s), aq_leader_id = rc_selfId s,
                             aq_prev_log_index = prevLogIndex, aq_prev_log_term = prevLogTerm,
                             aq_commit_index = min (rc_mCommitIndex s) (prevLogIndex + length entries),
                             aq_entries = entries\<rparr>]))))"

definition update_peers ::
  "('l raft_core \<Rightarrow> nat \<times> Peer \<Rightarrow> ((nat \<times> Peer) \<times> raft_out list) res) \<Rightarrow> 'l raft_core \<Rightarrow> 'l raft_result" where
  "update_peers f s =
     res_bind (map_res (f s) (rc_mPeers s))
       (\<lambda>ps. Inr (s\<lparr>rc_mPeers := map fst ps\<rparr>, concat (map snd ps)))"

definition appendEntries :: "'l log_ops \<Rightarrow> env \<Rightarrow> 'l raft_core \<Rightarrow> 'l raft_result" where
  "appendEntries ops e s =
     (if rc_mRaftRole s \<noteq> Leader then Inr (s, []) else update_peers (append_to_peer ops e) s)"

definition request_from_peer ::
  "'l log_ops \<Rightarrow> env \<Rightarrow> 'l raft_core \<Rightarrow> nat \<times> Peer \<Rightarrow> ((nat \<times> Peer) \<times> raft_out list) res" where
  "request_from_peer ops e s p =
     (case p of (i, peer) \<Rightarrow>
        if pe_mRequestVoteDone peer \<or> pe_mNextRequestTimeInNano peer > env_now e then Inr ((i, peer), [])
        else
          let lastLogIndex = lo_getLastLogIndex ops (rc_mLog s) in
          res_bind (termOfLogEntryAt ops lastLogIndex s)
            (\<lambda>lastLogTerm.
              if pe_mId peer \<notin> set (rc_mClients s) then Inl Bad_Access
              else
                Inr ((i, peer\<lparr>pe_mNextRequestTimeInNano := u64_max, pe_mLastRequestTimeInNano := env_now e\<rparr>),
                     [Send_RV (pe_mId peer)
                        \<lparr>vq_term = lo_getCurrentTerm ops (rc_mLog s), vq_candidate_id = rc_selfId s,
                         vq_last_log_index = lastLogIndex, vq_last_log_term = lastLogTerm,
                         vq_create_time = env_now e\<rparr>])))"

definition requestVote :: "'l log_ops \<Rightarrow> env \<Rightarrow> 'l raft_core \<Rightarrow> 'l raft_result" where
  "requestVote ops e s =
     (if rc_mRaftRole s \<noteq> Candidate then Inr (s, []) else update_peers (request_from_peer ops e) s)"


text \<open>The value at the middle of the list sorted in descending order: at least half of the list, plus
  one where the length is odd, is no smaller.\<close>

definition majority_value :: "nat list \<Rightarrow> nat" where
  "majority_value xs = rev (sort xs) ! (length xs div 2)"

definition advanceCommitIndex :: "'l log_ops \<Rightarrow> 'l raft_core \<Rightarrow> 'l raft_result" where
  "advanceCommitIndex ops s =
     (if rc_mRaftRole s \<noteq> Leader then Inr (s, [])
      else
        let indices = lo_getLastLogIndex ops (rc_mLog s) # map (pe_mMatchIndex \<circ> snd) (rc_mPeers s);
            majorityIndex = majority_value indices in
        if rc_mCommitIndex s \<ge> majorityIndex then Inr (s, [])
        else
          res_bind (termOfLogEntryAt ops majorityIndex s)
            (\<lambda>t.
              if t \<noteq> lo_getCurrentTerm ops (rc_mLog s) then Inr (s, [])
              else
                res_bind (c_assert (majorityIndex \<le> lo_getLastLogIndex ops (rc_mLog s)))
                  (\<lambda>_.
                    let done = takeWhile (\<lambda>(i, h). i \<le> majorityIndex) (rc_mPendingClientRequests s);
                        rest = dropWhile (\<lambda>(i, h). i \<le> majorityIndex) (rc_mPendingClientRequests s) in
                    Inr (s\<lparr>rc_mCommitIndex := majorityIndex, rc_mPendingClientRequests := rest\<rparr>,
                         pending_replies 200 ''Success'' (rc_mLeaderId s) done))))"

definition vote_count :: "'l raft_core \<Rightarrow> nat" where
  "vote_count s = 1 + length (filter (pe_mHaveVote \<circ> snd) (rc_mPeers s))"

definition noop_entry :: "'l log_ops \<Rightarrow> env \<Rightarrow> 'l \<Rightarrow> LogEntry" where
  "noop_entry ops e l =
     \<lparr>le_term = lo_getCurrentTerm ops l, le_index = lo_getLastLogIndex ops l + 1, le_noop = True,
      le_checksum = env_now e, le_payload = '''', le_version = lo_getLatestSecKeyVersion ops l,
      le_specialTag = None\<rparr>"

definition becomeLeader :: "'l log_ops \<Rightarrow> env \<Rightarrow> 'l raft_core \<Rightarrow> 'l raft_result" where
  "becomeLeader ops e s =
     (if rc_mRaftRole s \<noteq> Candidate then Inr (s, [])
      else if vote_count s < getMajorityNumber (length (rc_mPeers s) + 1) then Inr (s, [])
      else
        let s1 = s\<lparr>rc_mRaftRole := Leader,
                   rc_mPeers := map (map_prod id (\<lambda>peer.
                     peer\<lparr>pe_mNextIndex := lo_getLastLogIndex ops (rc_mLog s) + 1, pe_mMatchIndex := 0,
                          pe_mSuppressBulkData := True, pe_mNextRequestTimeInNano := env_now e\<rparr>))
                     (rc_mPeers s)\<rparr> in
        res_bind (lo_appendEntry ops (noop_entry ops e (rc_mLog s1)) (rc_mLog s1))
          (\<lambda>(ok, l). res_bind (c_assert ok) (\<lambda>_. Inr (s1\<lparr>rc_mLog := l\<rparr>, []))))"

definition electionTimeout :: "'l log_ops \<Rightarrow> env \<Rightarrow> 'l raft_core \<Rightarrow> 'l raft_result" where
  "electionTimeout ops e s =
     (if rc_mRaftRole s = Leader \<or> rc_mRaftRole s = Syncer then Inr (s, [])
      else if rc_mElectionTimePointInNano s > env_now e then Inr (s, [])
      else
        let currentTerm = lo_getCurrentTerm ops (rc_mLog s);
            s1 = s\<lparr>rc_mRaftRole := Candidate,
                   rc_mLog := lo_setVoteFor ops (rc_selfId s) (lo_setCurrentTerm ops (currentTerm + 1) (rc_mLog s)),
                   rc_mLeaderId := 0\<rparr>;
            s2 = updateElectionTimePoint e s1 in
        Inr (s2\<lparr>rc_mPeers := map (map_prod id (\<lambda>peer.
                    peer\<lparr>pe_mRequestVoteDone := False, pe_mHaveVote := False,
                         pe_mNextRequestTimeInNano := env_now e\<rparr>)) (rc_mPeers s2)\<rparr>, []))"

text \<open>
  The elapsed time is a difference of unsigned numbers, so it wraps when the clock has gone back. The
  comparison with the limit in milliseconds is the exact one; the code does it on doubles.
\<close>

definition leadershipTimeout :: "'l log_ops \<Rightarrow> env \<Rightarrow> 'l raft_core \<Rightarrow> 'l raft_result" where
  "leadershipTimeout ops e s =
     (if rc_mRaftRole s \<noteq> Leader then Inr (s, [])
      else
        let timePoints = env_now e # map (pe_mLastResponseTimeInNano \<circ> snd) (rc_mPeers s);
            timeElapseInNano = (env_now e + 2 ^ 64 - majority_value timePoints) mod 2 ^ 64 in
        if timeElapseInNano < kMaxElectionTimeoutInMillis * 1000000 then Inr (s, [])
        else stepDown ops e (lo_getCurrentTerm ops (rc_mLog s) + 1) s)"

text \<open>One round of \<^verbatim>\<open>raftLoopMain\<close>; \<open>es i\<close> is what the clock and the random generator give the \<open>i\<close>-th step.\<close>

definition raftLoopMain_round :: "'l log_ops \<Rightarrow> (nat \<Rightarrow> env) \<Rightarrow> 'l raft_core \<Rightarrow> 'l raft_result" where
  "raftLoopMain_round ops es s =
     raft_then (appendEntries ops (es 0) s) (\<lambda>s.
     raft_then (requestVote ops (es 1) s) (\<lambda>s.
     raft_then (receiveMessage ops (es 2) s) (\<lambda>s.
     raft_then (advanceCommitIndex ops s) (\<lambda>s.
     raft_then (becomeLeader ops (es 4) s) (\<lambda>s.
     raft_then (electionTimeout ops (es 5) s) (\<lambda>s.
     leadershipTimeout ops (es 6) s))))))"

section \<open>The interface to the other components\<close>

definition getLeaderHint :: "'l raft_core \<Rightarrow> nat option" where
  "getLeaderHint s = (if rc_mLeaderId s \<noteq> 0 then Some (rc_mLeaderId s) else None)"

definition getClusterMembers :: "'l raft_core \<Rightarrow> (nat \<times> string) list" where
  "getClusterMembers s =
     sort_key fst ((rc_selfId s, rc_selfAddress s) # map (map_prod id pe_mAddress) (rc_mPeers s))"

definition getMemberOffsets :: "'l raft_core \<Rightarrow> nat \<times> (nat \<times> string \<times> nat) list" where
  "getMemberOffsets s =
     (rc_mCommitIndex s,
      map (\<lambda>(i, p). (pe_mId p, pe_mAddress p, pe_mMatchIndex p)) (rc_mPeers s))"

definition raft_getEntry :: "'l log_ops \<Rightarrow> nat \<Rightarrow> 'l raft_core \<Rightarrow> LogEntry option res" where
  "raft_getEntry ops index s =
     res_bind (if rc_mRaftRole s \<noteq> Syncer then c_assert (index \<le> rc_mCommitIndex s) else Inr ())
       (\<lambda>_. lo_getEntry ops index (rc_mLog s))"

text \<open>\<^verbatim>\<open>startIndex + size - 1\<close> is unsigned.\<close>

definition raft_getEntries :: "'l log_ops \<Rightarrow> nat \<Rightarrow> nat \<Rightarrow> 'l raft_core \<Rightarrow> LogEntry list res" where
  "raft_getEntries ops startIndex sz s =
     res_bind (c_assert ((startIndex + sz + (2 ^ 64 - 1)) mod 2 ^ 64 \<le> rc_mCommitIndex s))
       (\<lambda>_. lo_getEntries ops startIndex (rc_mMaxLenInBytes s) sz (rc_mLog s))"

definition enqueueClientRequests :: "ClientRequest list \<Rightarrow> 'l raft_core \<Rightarrow> 'l raft_core" where
  "enqueueClientRequests clientRequests s =
     s\<lparr>rc_mClientRequestsQueue := rc_mClientRequestsQueue s @ [ClientRequests clientRequests]\<rparr>"

definition enqueueSyncRequest :: "SyncRequest \<Rightarrow> 'l raft_core \<Rightarrow> 'l raft_core" where
  "enqueueSyncRequest syncRequest s =
     s\<lparr>rc_mClientRequestsQueue := rc_mClientRequestsQueue s @ [SyncRequestEvent syncRequest]\<rparr>"

text \<open>The handler of the signal that ends the sync phase.\<close>

definition onStopSyncRole :: "nat \<Rightarrow> 'l raft_core \<Rightarrow> 'l raft_core" where
  "onStopSyncRole initIndex s =
     enqueueSyncRequest \<lparr>sr_mEntries = [], sr_mStartIndex = 0, sr_mEndIndex = 0, sr_mFinishMeta = Some initIndex\<rparr> s"

definition raft_truncatePrefix :: "'l log_ops \<Rightarrow> nat \<Rightarrow> 'l raft_core \<Rightarrow> 'l raft_core res" where
  "raft_truncatePrefix ops firstIndexKept s =
     res_bind (c_assert (firstIndexKept \<le> rc_mCommitIndex s))
       (\<lambda>_. res_bind (lo_truncatePrefix ops firstIndexKept (rc_mLog s)) (\<lambda>l. Inr (s\<lparr>rc_mLog := l\<rparr>)))"

end
