(* ===== verification/Raft_Node.thy ===== *)
theory Raft_Node
  imports Raft_Core "HOL-Library.Multiset"
begin

text \<open>
  What one Raft node guarantees, whatever messages it is sent: the AppendEntries handler implements
  the reference merge of a leader's entries into the log, committed entries never change, the commit
  index and the term only grow, a node votes once per term, a leader commits what a majority
  stores, and every accepted client request is answered once. The lemmas are proved for any log that
  satisfies the locale \<open>raft_log\<close> and stated as properties for the in-memory log.
\<close>

section \<open>The reference merge\<close>

text \<open>
  What a follower's log must become: entries it has discarded or already has are skipped, the first
  entry that conflicts with one of its own replaces the rest of the log.
\<close>

fun merge_entries :: "nat \<Rightarrow> LogEntry list \<Rightarrow> LogEntry list \<Rightarrow> LogEntry list" where
  "merge_entries first log [] = log"
| "merge_entries first log (e # es) =
     (if le_index e < first then merge_entries first log es
      else if le_index e < first + length log
      then (if le_term e = le_term (log ! (le_index e - first)) then merge_entries first log es
            else take (le_index e - first) log @ e # es)
      else log @ e # es)"

text \<open>Every entry the log still has up to the commit index has the term the request gives it.\<close>

definition agrees_to :: "nat \<Rightarrow> nat \<Rightarrow> LogEntry list \<Rightarrow> LogEntry list \<Rightarrow> bool" where
  "agrees_to commit first log es =
     (\<forall>e \<in> set es. first \<le> le_index e \<and> le_index e < first + length log \<and> le_index e \<le> commit
        \<longrightarrow> le_term e = le_term (log ! (le_index e - first)))"

lemma agrees_to_simps [simp]:
  "agrees_to commit first log []"
  "agrees_to commit first log (e # es) =
     ((first \<le> le_index e \<and> le_index e < first + length log \<and> le_index e \<le> commit
        \<longrightarrow> le_term e = le_term (log ! (le_index e - first))) \<and> agrees_to commit first log es)"
  by (simp_all add: agrees_to_def)

lemma indexed_from_later: "indexed_from n es \<Longrightarrow> e \<in> set es \<Longrightarrow> n \<le> le_index e"
  by (induction n es rule: indexed_from.induct) auto

lemma merge_indexed:
  assumes "indexed_from first log" and "indexed_from i es" and "i \<le> first + length log"
  shows "indexed_from first (merge_entries first log es)"
  using assms
proof (induction es arbitrary: i)
  case (Cons e es)
  then have e: "le_index e = i" and es: "indexed_from (Suc i) es" by auto
  show ?case
  proof (cases "first \<le> i \<and> i = first + length log")
    case True
    with Cons.prems e es show ?thesis by (simp add: indexed_from_append)
  next
    case False
    with Cons.prems(3) e have lt: "i < first + length log"
      by auto
    have "indexed_from first (merge_entries first log es)"
      using Cons.IH[OF Cons.prems(1) es] lt by simp
    moreover have "first \<le> i \<Longrightarrow> indexed_from first (take (i - first) log @ e # es)"
      using Cons.prems(1) lt e es by (simp add: indexed_from_append indexed_from_take)
    ultimately show ?thesis using lt e by simp
  qed
qed simp

lemma merge_keeps_committed:
  assumes "agrees_to commit first log es" and "indexed_from i es" and "first + k \<le> Suc commit"
  shows "take k (merge_entries first log es) = take k (log @ drop (length log) (merge_entries first log es))"
  using assms
proof (induction es arbitrary: i)
  case (Cons e es)
  have rest: "take k (merge_entries first log es)
      = take k (log @ drop (length log) (merge_entries first log es))"
    using Cons.IH[of "Suc i"] Cons.prems by simp
  show ?case
  proof (cases "first \<le> le_index e \<and> le_index e < first + length log
      \<and> le_term e \<noteq> le_term (log ! (le_index e - first))")
    case True
    with Cons.prems(1,3) have "k \<le> le_index e - first" by auto
    with True show ?thesis by (simp add: min_def)
  next
    case False
    with rest show ?thesis by auto
  qed
qed simp

lemma merge_keeps_length:
  assumes "agrees_to commit first log es" and "first + k \<le> Suc commit" and "k \<le> length log"
  shows "k \<le> length (merge_entries first log es)"
  using assms by (induction es) auto

corollary merge_take_committed:
  assumes "agrees_to commit first log es" and "indexed_from i es" and "first + k \<le> Suc commit"
    and "k \<le> length log"
  shows "take k (merge_entries first log es) = take k log"
  using merge_keeps_committed[OF assms(1-3)] assms(4) by simp

text \<open>After the merge the log holds the request's entries, by term; a second merge changes nothing.\<close>

lemma merge_length:
  assumes "indexed_from i es" and "i \<le> first + length log"
  shows "i + length es \<le> first + length (merge_entries first log es)"
  using assms
proof (induction es arbitrary: i)
  case (Cons e es)
  then have "le_index e = i" and "indexed_from (Suc i) es" by auto
  with Cons.IH[of "Suc i"] Cons.prems(2) show ?case by (auto split: if_splits)
qed simp

lemma merge_keeps_prefix:
  assumes "indexed_from i es" and "first + k \<le> i" and "k \<le> length log"
  shows "take k (merge_entries first log es) = take k log"
  using assms
proof (induction es arbitrary: i)
  case (Cons e es)
  then have "le_index e = i" and "indexed_from (Suc i) es" by auto
  with Cons.IH[of "Suc i"] Cons.prems show ?case by (auto simp: min_def)
qed simp

lemma merge_holds:
  assumes "indexed_from i es" and "i \<le> first + length log" and "j < length es" and "first \<le> i + j"
  shows "le_term (merge_entries first log es ! (i + j - first)) = le_term (es ! j)"
  using assms
proof (induction es arbitrary: i j)
  case (Cons e es)
  then have e: "le_index e = i" and es: "indexed_from (Suc i) es" by auto
  show ?case
  proof (cases "first \<le> i \<and> (i < first + length log \<longrightarrow> le_term e \<noteq> le_term (log ! (i - first)))")
    case True
    with Cons.prems e show ?thesis
      by (cases "i = first + length log") (auto simp: nth_append min_def)
  next
    case False
    with Cons.prems(2) have lt: "i < first + length log" by auto
    have step: "merge_entries first log (e # es) = merge_entries first log es"
      using False lt e by auto
    show ?thesis
    proof (cases j)
      case 0
      with Cons.prems(4) False have fi: "first \<le> i" and eq: "le_term e = le_term (log ! (i - first))" by auto
      have "take (Suc (i - first)) (merge_entries first log es) = take (Suc (i - first)) log"
        using merge_keeps_prefix[OF es, of first "Suc (i - first)" log] fi lt by simp
      then have "merge_entries first log es ! (i - first) = log ! (i - first)"
        by (metis lessI nth_take)
      with step 0 eq show ?thesis by simp
    next
      case (Suc j')
      with Cons.IH[OF es _ _, of j'] Cons.prems lt step show ?thesis by simp
    qed
  qed
qed simp

lemma merge_agreeing:
  assumes "\<forall>e \<in> set es. le_index e < first + length log
     \<and> (first \<le> le_index e \<longrightarrow> le_term e = le_term (log ! (le_index e - first)))"
  shows "merge_entries first log es = log"
  using assms by (induction es) auto

lemma merge_idempotent:
  assumes "indexed_from i es" and "i \<le> first + length log"
  shows "merge_entries first (merge_entries first log es) es = merge_entries first log es"
proof (rule merge_agreeing, rule ballI)
  fix e
  assume "e \<in> set es"
  then obtain j where j: "j < length es" and ej: "e = es ! j"
    by (metis in_set_conv_nth)
  then have "le_index e = i + j" using indexed_from_nth[OF assms(1)] by simp
  with merge_length[OF assms] merge_holds[OF assms j] j ej
  show "le_index e < first + length (merge_entries first log es)
     \<and> (first \<le> le_index e \<longrightarrow> le_term e = le_term (merge_entries first log es ! (le_index e - first)))"
    by simp
qed


section \<open>AppendEntries over any log\<close>

text \<open>The parts of a log an operation on its entries leaves alone.\<close>

definition same_votes :: "'l log_ops \<Rightarrow> 'l \<Rightarrow> 'l \<Rightarrow> bool" where
  "same_votes ops l l' =
     (lo_getCurrentTerm ops l' = lo_getCurrentTerm ops l \<and> lo_getVote ops l' = lo_getVote ops l)"

lemma same_votes_refl [simp]: "same_votes ops l l"
  by (simp add: same_votes_def)

lemma same_votes_trans: "same_votes ops l l' \<Longrightarrow> same_votes ops l' l'' \<Longrightarrow> same_votes ops l l''"
  by (simp add: same_votes_def)

context raft_log
begin

lemma term_at:
  assumes "invar (rc_mLog s)" and "lo_getFirstLogIndex ops (rc_mLog s) \<le> i"
    and "i \<le> lo_getLastLogIndex ops (rc_mLog s)"
  shows "termOfLogEntryAt ops i s
    = Inr (le_term (contents (rc_mLog s) ! (i - lo_getFirstLogIndex ops (rc_mLog s))))"
  using getTerm_in[OF assms(1), of "i - lo_getFirstLogIndex ops (rc_mLog s)"]
    last_index[OF assms(1)] assms(2,3)
  by (simp add: termOfLogEntryAt_def)

lemma last_term_known:
  assumes "invar (rc_mLog s)" and "contents (rc_mLog s) \<noteq> [] \<or> lo_getFirstLogIndex ops (rc_mLog s) = 1"
  shows "\<exists>t. termOfLogEntryAt ops (lo_getLastLogIndex ops (rc_mLog s)) s = Inr t"
proof (cases "contents (rc_mLog s) = []")
  case True
  with assms last_index[OF assms(1)] show ?thesis
    using getTerm_zero[OF assms(1)] by (simp add: termOfLogEntryAt_def)
next
  case False
  with last_index[OF assms(1)] have "lo_getFirstLogIndex ops (rc_mLog s) \<le> lo_getLastLogIndex ops (rc_mLog s)"
    by (cases "contents (rc_mLog s)") auto
  then show ?thesis using term_at[OF assms(1)] by blast
qed

lemma ae_pushing:
  assumes "invar (rc_mLog s)"
  shows "index = lo_getLastLogIndex ops (rc_mLog s) + length entries \<Longrightarrow>
    fold_res (ae_entry ops) es (s, entries, index)
    = (if indexed_from (Suc index) es then Inr (s, entries @ es, index + length es) else Inl Assertion)"
proof (induction es arbitrary: entries index)
  case (Cons e es)
  from last_index[OF assms] Cons.prems
  have "le_index e = Suc index \<Longrightarrow> ae_entry ops e (s, entries, index) = Inr (s, entries @ [e], Suc index)"
    by (simp add: ae_entry_def)
  moreover have "le_index e \<noteq> Suc index \<Longrightarrow> ae_entry ops e (s, entries, index) = Inl Assertion"
    by (simp add: ae_entry_def)
  ultimately show ?case
    using Cons.IH[of "Suc index" "entries @ [e]"] Cons.prems by (cases "le_index e = Suc index") auto
qed simp

text \<open>Dropping the first conflicting entry and everything after it.\<close>

lemma ae_conflict:
  assumes inv: "invar (rc_mLog s)" and e: "le_index e = Suc index"
    and lo: "lo_getFirstLogIndex ops (rc_mLog s) \<le> Suc index"
    and hi: "Suc index \<le> lo_getLastLogIndex ops (rc_mLog s)"
    and conflict: "le_term e \<noteq> le_term (contents (rc_mLog s) ! (Suc index - lo_getFirstLogIndex ops (rc_mLog s)))"
    and commit: "rc_mCommitIndex s < Suc index"
  shows "\<exists>l'. ae_entry ops e (s, [], index) = Inr (s\<lparr>rc_mLog := l'\<rparr>, [e], Suc index) \<and> invar l'
    \<and> contents l' = take (Suc index - lo_getFirstLogIndex ops (rc_mLog s)) (contents (rc_mLog s))
    \<and> lo_getFirstLogIndex ops l' = lo_getFirstLogIndex ops (rc_mLog s)
    \<and> lo_getLastLogIndex ops l' = index \<and> same_votes ops (rc_mLog s) l'"
proof -
  from truncateSuffix_ok[OF inv lo] hi obtain l'
    where l': "lo_truncateSuffix ops index (rc_mLog s) = Inr l'" "invar l'"
      "contents l' = take (Suc index - lo_getFirstLogIndex ops (rc_mLog s)) (contents (rc_mLog s))"
      "lo_getFirstLogIndex ops l' = lo_getFirstLogIndex ops (rc_mLog s)"
      "same_votes ops (rc_mLog s) l'"
    by (auto simp: same_votes_def)
  have "lo_getLastLogIndex ops l' = index"
    using last_index[OF l'(2)] last_index[OF inv] l'(3,4) lo hi by simp
  moreover have "ae_entry ops e (s, [], index) = Inr (s\<lparr>rc_mLog := l'\<rparr>, [e], Suc index)"
    using term_at[OF inv lo hi] e lo hi conflict commit l'(1) by (simp add: ae_entry_def)
  ultimately show ?thesis using l' by blast
qed

lemma ae_loop:
  assumes inv: "invar (rc_mLog s)" and "index \<le> lo_getLastLogIndex ops (rc_mLog s)"
  shows "if indexed_from (Suc index) es
          \<and> agrees_to (rc_mCommitIndex s) (lo_getFirstLogIndex ops (rc_mLog s)) (contents (rc_mLog s)) es
       then \<exists>l' entries. fold_res (ae_entry ops) es (s, [], index)
              = Inr (s\<lparr>rc_mLog := l'\<rparr>, entries, index + length es) \<and> invar l'
            \<and> contents l' @ entries
              = merge_entries (lo_getFirstLogIndex ops (rc_mLog s)) (contents (rc_mLog s)) es
            \<and> lo_getFirstLogIndex ops l' = lo_getFirstLogIndex ops (rc_mLog s)
            \<and> same_votes ops (rc_mLog s) l' \<and> suffix entries es
       else fold_res (ae_entry ops) es (s, [], index) = Inl Assertion"
  using assms(2)
proof (induction es arbitrary: index)
  case Nil
  then show ?case using inv by (simp add: exI[of _ "rc_mLog s"])
next
  case (Cons e es)
  let ?f = "lo_getFirstLogIndex ops (rc_mLog s)" and ?c = "contents (rc_mLog s)"
  have range: "le_index e < ?f + length ?c \<longleftrightarrow> le_index e \<le> lo_getLastLogIndex ops (rc_mLog s)"
    using last_index[OF inv] by (simp add: less_Suc_eq_le)
  consider (gap) "le_index e \<noteq> Suc index" | (old) "le_index e = Suc index" "Suc index < ?f"
    | (same) "le_index e = Suc index" "?f \<le> Suc index" "Suc index \<le> lo_getLastLogIndex ops (rc_mLog s)"
        "le_term e = le_term (?c ! (Suc index - ?f))"
    | (conflict) "le_index e = Suc index" "?f \<le> Suc index" "Suc index \<le> lo_getLastLogIndex ops (rc_mLog s)"
        "le_term e \<noteq> le_term (?c ! (Suc index - ?f))"
    | (fresh) "le_index e = Suc index" "?f \<le> Suc index" "index = lo_getLastLogIndex ops (rc_mLog s)"
    using Cons.prems by fastforce
  then show ?case
  proof cases
    case gap
    then show ?thesis by (simp add: ae_entry_def)
  next
    case old
    then have "ae_entry ops e (s, [], index) = Inr (s, [], Suc index)" by (simp add: ae_entry_def)
    moreover have "Suc index \<le> lo_getLastLogIndex ops (rc_mLog s)"
      using old(2) last_index[OF inv] by simp
    ultimately show ?thesis using Cons.IH[of "Suc index"] old by (auto simp: suffix_Cons split: if_splits)
  next
    case same
    then have "ae_entry ops e (s, [], index) = Inr (s, [], Suc index)"
      using term_at[OF inv same(2,3)] by (simp add: ae_entry_def)
    then show ?thesis using Cons.IH[of "Suc index"] same range by (auto simp: suffix_Cons split: if_splits)
  next
    case conflict
    show ?thesis
    proof (cases "rc_mCommitIndex s < Suc index")
      case True
      from ae_conflict[OF inv conflict True] obtain l' where
        l': "ae_entry ops e (s, [], index) = Inr (s\<lparr>rc_mLog := l'\<rparr>, [e], Suc index)" "invar l'"
          "contents l' = take (Suc index - ?f) ?c" "lo_getFirstLogIndex ops l' = ?f"
          "lo_getLastLogIndex ops l' = index" "same_votes ops (rc_mLog s) l'" by blast
      have agree: "indexed_from (Suc (Suc index)) es \<Longrightarrow> agrees_to (rc_mCommitIndex s) ?f ?c es"
        using True by (auto simp: agrees_to_def dest!: indexed_from_later)
      show ?thesis
        using ae_pushing[of "s\<lparr>rc_mLog := l'\<rparr>" "Suc index" "[e]" es] l' conflict True range agree
        by auto
    next
      case False
      then have "ae_entry ops e (s, [], index) = Inl Assertion"
        using term_at[OF inv conflict(2,3)] conflict by (simp add: ae_entry_def)
      with False conflict range show ?thesis by simp
    qed
  next
    case fresh
    have agree: "indexed_from (Suc (Suc index)) es \<Longrightarrow> agrees_to (rc_mCommitIndex s) ?f ?c es"
      using last_index[OF inv] fresh by (auto simp: agrees_to_def dest!: indexed_from_later)
    show ?thesis
      using ae_pushing[OF inv, of index "[]" "e # es"] fresh range agree inv last_index[OF inv]
      by (auto intro: exI[of _ "rc_mLog s"])
  qed
qed

end


section \<open>Runs of a node\<close>

text \<open>
  What can happen at a node: the steps of its own loop, and what other threads do between them (the
  RPC threads put an event into its queue, the log store hands over client requests or sync requests,
  the administration server cuts off a prefix of the log).
\<close>

datatype raft_action =
    Do_appendEntries env
  | Do_requestVote env
  | Do_receiveMessage env
  | Do_advanceCommitIndex
  | Do_becomeLeader env
  | Do_electionTimeout env
  | Do_leadershipTimeout env
  | Do_deliver raft_event
  | Do_clientRequests "ClientRequest list"
  | Do_syncRequest SyncRequest
  | Do_truncatePrefix nat

fun raft_act :: "'l log_ops \<Rightarrow> raft_action \<Rightarrow> 'l raft_core \<Rightarrow> 'l raft_result" where
  "raft_act ops (Do_appendEntries e) s = appendEntries ops e s"
| "raft_act ops (Do_requestVote e) s = requestVote ops e s"
| "raft_act ops (Do_receiveMessage e) s = receiveMessage ops e s"
| "raft_act ops Do_advanceCommitIndex s = advanceCommitIndex ops s"
| "raft_act ops (Do_becomeLeader e) s = becomeLeader ops e s"
| "raft_act ops (Do_electionTimeout e) s = electionTimeout ops e s"
| "raft_act ops (Do_leadershipTimeout e) s = leadershipTimeout ops e s"
| "raft_act ops (Do_deliver ev) s = Inr (s\<lparr>rc_mAeRvQueue := rc_mAeRvQueue s @ [ev]\<rparr>, [])"
| "raft_act ops (Do_clientRequests cs) s = Inr (enqueueClientRequests cs s, [])"
| "raft_act ops (Do_syncRequest r) s = Inr (enqueueSyncRequest r s, [])"
| "raft_act ops (Do_truncatePrefix k) s =
     res_bind (raft_truncatePrefix ops k s) (\<lambda>s'. Inr (s', []))"

fun raft_run :: "'l log_ops \<Rightarrow> raft_action list \<Rightarrow> 'l raft_core \<Rightarrow> 'l raft_result" where
  "raft_run ops [] s = Inr (s, [])"
| "raft_run ops (a # acts) s = raft_then (raft_act ops a s) (raft_run ops acts)"

lemma raft_then_eq_Inr:
  "(raft_then m f = Inr (s', out)) =
     (\<exists>s1 out1 out2. m = Inr (s1, out1) \<and> f s1 = Inr (s', out2) \<and> out = out1 @ out2)"
  by (auto simp: raft_then_def res_bind_eq_Inr)

text \<open>One round of the main loop is such a run.\<close>

lemma round_is_run:
  "raftLoopMain_round ops es s =
     raft_run ops [Do_appendEntries (es 0), Do_requestVote (es 1), Do_receiveMessage (es 2),
       Do_advanceCommitIndex, Do_becomeLeader (es 4), Do_electionTimeout (es 5),
       Do_leadershipTimeout (es 6)] s"
proof -
  have unit: "raft_then m (\<lambda>s. Inr (s, [])) = m" for m :: "'a raft_result"
    by (cases m) (auto simp: raft_then_def)
  have run: "raft_run ops [] = (\<lambda>s. Inr (s, []))"
    "raft_run ops (a # acts) = (\<lambda>s. raft_then (raft_act ops a s) (raft_run ops acts))" for a acts
    by (simp_all add: fun_eq_iff)
  show ?thesis by (simp add: raftLoopMain_round_def run unit del: raft_run.simps)
qed

text \<open>The entry the log holds at an index.\<close>

definition entry_at :: "'l log_ops \<Rightarrow> ('l \<Rightarrow> LogEntry list) \<Rightarrow> 'l \<Rightarrow> nat \<Rightarrow> LogEntry" where
  "entry_at ops contents l i = contents l ! (i - lo_getFirstLogIndex ops l)"

definition node_ok :: "'l log_ops \<Rightarrow> ('l \<Rightarrow> bool) \<Rightarrow> 'l raft_core \<Rightarrow> bool" where
  "node_ok ops invar s = (invar (rc_mLog s) \<and> rc_mCommitIndex s \<le> lo_getLastLogIndex ops (rc_mLog s))"

text \<open>How a node may change: the committed entries stay, and outside the sync phase the term does not
  decrease and a vote cast in a term stays.\<close>

definition keeps_votes :: "'l log_ops \<Rightarrow> 'l raft_core \<Rightarrow> 'l raft_core \<Rightarrow> bool" where
  "keeps_votes ops s s' =
     (rc_mRaftRole s = Syncer \<or>
      (rc_mRaftRole s' \<noteq> Syncer \<and> lo_getCurrentTerm ops (rc_mLog s) \<le> lo_getCurrentTerm ops (rc_mLog s')
       \<and> (lo_getCurrentTerm ops (rc_mLog s') \<noteq> lo_getCurrentTerm ops (rc_mLog s)
          \<or> lo_getVote ops (rc_mLog s) = 0 \<or> lo_getVote ops (rc_mLog s') = lo_getVote ops (rc_mLog s))))"

definition advances ::
  "'l log_ops \<Rightarrow> ('l \<Rightarrow> LogEntry list) \<Rightarrow> 'l raft_core \<Rightarrow> 'l raft_core \<Rightarrow> bool" where
  "advances ops contents s s' =
     (rc_selfId s' = rc_selfId s
      \<and> rc_mCommitIndex s \<le> rc_mCommitIndex s'
      \<and> lo_getFirstLogIndex ops (rc_mLog s) \<le> lo_getFirstLogIndex ops (rc_mLog s')
      \<and> (\<forall>i. lo_getFirstLogIndex ops (rc_mLog s') \<le> i \<and> i \<le> rc_mCommitIndex s
           \<longrightarrow> entry_at ops contents (rc_mLog s') i = entry_at ops contents (rc_mLog s) i)
      \<and> keeps_votes ops s s')"

lemma keeps_votes_refl [simp]: "keeps_votes ops s s"
  by (auto simp: keeps_votes_def)

lemma keeps_votes_trans:
  assumes "keeps_votes ops s s1" and "keeps_votes ops s1 s2"
  shows "keeps_votes ops s s2"
  using assms by (auto simp: keeps_votes_def)

lemma advances_refl [simp]: "advances ops contents s s"
  by (simp add: advances_def)

lemma advances_trans:
  assumes "advances ops contents s s1" and "advances ops contents s1 s2"
  shows "advances ops contents s s2"
  using assms keeps_votes_trans[of ops s s1 s2] by (auto simp: advances_def)

text \<open>A step that leaves the log and the commit index alone and does not enter the sync phase.\<close>

lemma advances_same_log:
  assumes "rc_mLog s' = rc_mLog s" and "rc_mCommitIndex s' = rc_mCommitIndex s"
    and "rc_selfId s' = rc_selfId s" and "rc_mRaftRole s' = Syncer \<longrightarrow> rc_mRaftRole s = Syncer"
  shows "advances ops contents s s'"
  using assms by (auto simp: advances_def keeps_votes_def)


definition moves ::
  "'l log_ops \<Rightarrow> ('l \<Rightarrow> bool) \<Rightarrow> ('l \<Rightarrow> LogEntry list) \<Rightarrow> 'l raft_core \<Rightarrow> 'l raft_core \<Rightarrow> bool" where
  "moves ops invar contents s s' = (node_ok ops invar s' \<and> advances ops contents s s')"

lemma moves_refl: "node_ok ops invar s \<Longrightarrow> moves ops invar contents s s"
  by (simp add: moves_def)

lemma moves_trans:
  "moves ops invar contents s s1 \<Longrightarrow> moves ops invar contents s1 s2 \<Longrightarrow> moves ops invar contents s s2"
  using advances_trans[of ops contents s s1 s2] by (simp add: moves_def)

lemma moves_same_log:
  assumes "node_ok ops invar s" and "rc_mLog s' = rc_mLog s" and "rc_mCommitIndex s' = rc_mCommitIndex s"
    and "rc_selfId s' = rc_selfId s" and "rc_mRaftRole s' = Syncer \<longrightarrow> rc_mRaftRole s = Syncer"
  shows "moves ops invar contents s s'"
  using assms advances_same_log[of s' s ops contents] by (simp add: moves_def node_ok_def)

context raft_log
begin

lemma set_vote:
  assumes "invar l"
  shows "invar (lo_setVoteFor ops v l)"
    and "contents (lo_setVoteFor ops v l) = contents l"
    and "lo_getFirstLogIndex ops (lo_setVoteFor ops v l) = lo_getFirstLogIndex ops l"
    and "lo_getLastLogIndex ops (lo_setVoteFor ops v l) = lo_getLastLogIndex ops l"
    and "lo_getCurrentTerm ops (lo_setVoteFor ops v l) = lo_getCurrentTerm ops l"
    and "lo_getVote ops (lo_setVoteFor ops v l) = v"
  using setVoteFor_ok[OF assms, of v] last_index[OF assms] last_index[of "lo_setVoteFor ops v l"] by auto

lemma set_term:
  assumes "invar l"
  shows "invar (lo_setCurrentTerm ops t l)"
    and "contents (lo_setCurrentTerm ops t l) = contents l"
    and "lo_getFirstLogIndex ops (lo_setCurrentTerm ops t l) = lo_getFirstLogIndex ops l"
    and "lo_getLastLogIndex ops (lo_setCurrentTerm ops t l) = lo_getLastLogIndex ops l"
    and "lo_getCurrentTerm ops (lo_setCurrentTerm ops t l) = t"
    and "lo_getVote ops (lo_setCurrentTerm ops t l) = lo_getVote ops l"
  using setCurrentTerm_ok[OF assms, of t] last_index[OF assms] last_index[of "lo_setCurrentTerm ops t l"]
  by auto

lemmas set_both = set_vote[OF set_term(1)] set_term set_vote

text \<open>A step into a later term, with any vote.\<close>

lemma moves_new_term:
  assumes "node_ok ops invar s" and "lo_getCurrentTerm ops (rc_mLog s) < t"
    and "rc_mLog s' = lo_setVoteFor ops v (lo_setCurrentTerm ops t (rc_mLog s))"
    and "rc_mCommitIndex s' = rc_mCommitIndex s" and "rc_selfId s' = rc_selfId s" and "rc_mRaftRole s' \<noteq> Syncer"
  shows "moves ops invar contents s s'"
  using assms by (simp add: moves_def node_ok_def advances_def keeps_votes_def entry_at_def set_both)

lemma stepDown_shape:
  assumes "stepDown ops e t s = Inr (s', out)"
  shows "(lo_getCurrentTerm ops (rc_mLog s) < t
       \<and> rc_mLog s' = lo_setVoteFor ops 0 (lo_setCurrentTerm ops t (rc_mLog s)) \<and> rc_mLeaderId s' = 0
     \<or> lo_getCurrentTerm ops (rc_mLog s) = t \<and> rc_mLog s' = rc_mLog s \<and> rc_mRaftRole s = Candidate
       \<and> rc_mLeaderId s' = rc_mLeaderId s)
    \<and> rc_mCommitIndex s' = rc_mCommitIndex s \<and> rc_selfId s' = rc_selfId s \<and> rc_mRaftRole s' = Follower
    \<and> rc_mPeers s' = rc_mPeers s \<and> rc_mClients s' = rc_mClients s"
  using assms
  by (auto simp: stepDown_def Let_def res_bind_eq_Inr updateElectionTimePoint_def split: if_splits)

lemma stepDown_moves:
  assumes "node_ok ops invar s" and "stepDown ops e t s = Inr (s', out)"
  shows "moves ops invar contents s s'"
  using stepDown_shape[OF assms(2)]
proof (elim conjE disjE)
  assume "lo_getCurrentTerm ops (rc_mLog s) < t"
    "rc_mLog s' = lo_setVoteFor ops 0 (lo_setCurrentTerm ops t (rc_mLog s))"
    "rc_mCommitIndex s' = rc_mCommitIndex s" "rc_selfId s' = rc_selfId s" "rc_mRaftRole s' = Follower"
  then show ?thesis using moves_new_term[OF assms(1)] by simp
next
  assume "rc_mLog s' = rc_mLog s"
    "rc_mCommitIndex s' = rc_mCommitIndex s" "rc_selfId s' = rc_selfId s" "rc_mRaftRole s' = Follower"
  then show ?thesis using moves_same_log[OF assms(1)] by simp
qed

text \<open>What the AppendEntries handler does after it has accepted the leader.\<close>

lemma append_result:
  assumes "invar (rc_mLog s)" and "append_or_abort ops es s = Inr s'"
  shows "\<exists>l'. s' = s\<lparr>rc_mLog := l'\<rparr> \<and> invar l' \<and> contents l' = contents (rc_mLog s) @ es
     \<and> lo_getFirstLogIndex ops l' = lo_getFirstLogIndex ops (rc_mLog s) \<and> same_votes ops (rc_mLog s) l'"
  using assms appendEntries_result[OF assms(1), of es]
  by (auto simp: append_or_abort_def same_votes_def res_bind_eq_Inr)

lemma append_total:
  assumes "invar (rc_mLog s)" and "indexed_from (Suc (lo_getLastLogIndex ops (rc_mLog s))) es" and "fits es"
  shows "\<exists>s'. append_or_abort ops es s = Inr s'"
proof -
  from appendEntries_total[OF assms] obtain ok l' where r: "lo_appendEntries ops es (rc_mLog s) = Inr (ok, l')"
    by auto
  with appendEntries_refused[OF assms(1), of es l'] assms(2) have ok by (cases ok) auto
  with r show ?thesis by (simp add: append_or_abort_def)
qed

text \<open>Before the entries of an accepted request are appended: the loop ends exactly when they are
  consecutive and agree with what is committed, and what is left to append completes the merge.\<close>

lemma ae_ready:
  assumes inv: "invar (rc_mLog s)" and prev: "prev \<le> lo_getLastLogIndex ops (rc_mLog s)"
    and run: "fold_res (ae_entry ops) es (s, [], prev) = Inr (s1, entries, index)"
  shows "indexed_from (Suc prev) es
    \<and> agrees_to (rc_mCommitIndex s) (lo_getFirstLogIndex ops (rc_mLog s)) (contents (rc_mLog s)) es
    \<and> (\<exists>l1. s1 = s\<lparr>rc_mLog := l1\<rparr> \<and> invar l1
        \<and> contents l1 @ entries = merge_entries (lo_getFirstLogIndex ops (rc_mLog s)) (contents (rc_mLog s)) es
        \<and> lo_getFirstLogIndex ops l1 = lo_getFirstLogIndex ops (rc_mLog s) \<and> same_votes ops (rc_mLog s) l1
        \<and> suffix entries es)"
  using ae_loop[OF inv prev, of es] run by (auto split: if_splits)

lemma ae_rest_consecutive:
  assumes inv: "invar (rc_mLog s)" and prev: "prev \<le> lo_getLastLogIndex ops (rc_mLog s)"
    and "indexed_from (Suc prev) es" and "invar l1"
    and "contents l1 @ entries = merge_entries (lo_getFirstLogIndex ops (rc_mLog s)) (contents (rc_mLog s)) es"
    and "lo_getFirstLogIndex ops l1 = lo_getFirstLogIndex ops (rc_mLog s)"
  shows "indexed_from (Suc (lo_getLastLogIndex ops l1)) entries"
proof -
  have "indexed_from (lo_getFirstLogIndex ops (rc_mLog s)) (contents l1 @ entries)"
    unfolding assms(5)
    using merge_indexed[OF indexed[OF inv] assms(3)] prev last_index[OF inv] by simp
  then show ?thesis
    using last_index[OF assms(4)] assms(6) by (simp add: indexed_from_append)
qed

end


lemma take_nth: "take k xs = take k ys \<Longrightarrow> i < k \<Longrightarrow> xs ! i = ys ! i"
  by (metis nth_take)

context raft_log
begin

text \<open>A step that changes the log beyond the commit index only.\<close>

lemma moves_log:
  assumes "node_ok ops invar s" and "invar (rc_mLog s')"
    and "lo_getFirstLogIndex ops (rc_mLog s') = lo_getFirstLogIndex ops (rc_mLog s)"
    and kept: "take (Suc (rc_mCommitIndex s) - lo_getFirstLogIndex ops (rc_mLog s)) (contents (rc_mLog s'))
       = take (Suc (rc_mCommitIndex s) - lo_getFirstLogIndex ops (rc_mLog s)) (contents (rc_mLog s))"
    and "same_votes ops (rc_mLog s) (rc_mLog s')" and "rc_mCommitIndex s \<le> rc_mCommitIndex s'"
    and "rc_mCommitIndex s' \<le> lo_getLastLogIndex ops (rc_mLog s')"
    and "rc_selfId s' = rc_selfId s" and "rc_mRaftRole s' = Syncer \<longrightarrow> rc_mRaftRole s = Syncer"
  shows "moves ops invar contents s s'"
proof -
  have "entry_at ops contents (rc_mLog s') i = entry_at ops contents (rc_mLog s) i"
    if "lo_getFirstLogIndex ops (rc_mLog s') \<le> i" "i \<le> rc_mCommitIndex s" for i
    using take_nth[OF kept, of "i - lo_getFirstLogIndex ops (rc_mLog s)"] that assms(3)
    by (simp add: entry_at_def)
  with assms show ?thesis
    by (auto simp: moves_def node_ok_def advances_def keeps_votes_def same_votes_def)
qed

lemma committed_length:
  assumes "node_ok ops invar s"
  shows "Suc (rc_mCommitIndex s) - lo_getFirstLogIndex ops (rc_mLog s) \<le> length (contents (rc_mLog s))"
  using assms last_index[of "rc_mLog s"] unfolding node_ok_def by linarith

lemma moves_append:
  assumes ok: "node_ok ops invar s" and "invar (rc_mLog s')"
    and "lo_getFirstLogIndex ops (rc_mLog s') = lo_getFirstLogIndex ops (rc_mLog s)"
    and "contents (rc_mLog s') = contents (rc_mLog s) @ es"
    and "same_votes ops (rc_mLog s) (rc_mLog s')" and "rc_mCommitIndex s' = rc_mCommitIndex s"
    and "rc_selfId s' = rc_selfId s" and "rc_mRaftRole s' = Syncer \<longrightarrow> rc_mRaftRole s = Syncer"
  shows "moves ops invar contents s s'"
proof (rule moves_log[OF ok])
  show "rc_mCommitIndex s' \<le> lo_getLastLogIndex ops (rc_mLog s')"
    using assms last_index[of "rc_mLog s'"] last_index[of "rc_mLog s"] by (simp add: node_ok_def)
qed (use assms committed_length[OF ok] in simp_all)

lemma prev_in_log:
  assumes "invar (rc_mLog s)" and "ae_logIsOk ops request s = Inr True"
  shows "aq_prev_log_index request \<le> lo_getLastLogIndex ops (rc_mLog s)"
  using assms(2) last_index[OF assms(1)]
  by (auto simp: ae_logIsOk_def res_bind_eq_Inr split: if_splits)

text \<open>The two outcomes of storing: the log does not match and nothing changes, or the entries are
  merged and the commit index follows the leader's.\<close>

lemma ae_store_cases:
  assumes inv: "invar (rc_mLog s)" and run: "ae_store ops e request resp s = Inr (s', resp')"
  obtains (refused) "ae_logIsOk ops request s = Inr False" "s' = s" "resp' = resp"
  | (stored) l' where "ae_logIsOk ops request s = Inr True"
      "indexed_from (Suc (aq_prev_log_index request)) (aq_entries request)"
      "agrees_to (rc_mCommitIndex s) (lo_getFirstLogIndex ops (rc_mLog s)) (contents (rc_mLog s)) (aq_entries request)"
      "s' = updateElectionTimePoint e
         (s\<lparr>rc_mLog := l', rc_mCommitIndex := max (rc_mCommitIndex s) (aq_commit_index request)\<rparr>)"
      "invar l'"
      "contents l' = merge_entries (lo_getFirstLogIndex ops (rc_mLog s)) (contents (rc_mLog s)) (aq_entries request)"
      "lo_getFirstLogIndex ops l' = lo_getFirstLogIndex ops (rc_mLog s)"
      "same_votes ops (rc_mLog s) l'"
      "rc_mCommitIndex s < aq_commit_index request \<longrightarrow> aq_commit_index request \<le> lo_getLastLogIndex ops l'"
      "resp' = resp\<lparr>ap_success := True, ap_last_log_index := lo_getLastLogIndex ops l',
                 ap_match_index := aq_prev_log_index request + length (aq_entries request)\<rparr>"
proof -
  from run obtain b where b: "ae_logIsOk ops request s = Inr b"
    by (auto simp: ae_store_def res_bind_eq_Inr)
  show thesis
  proof (cases b)
    case False
    with b run have "s' = s" "resp' = resp" by (simp_all add: ae_store_def)
    with b False show ?thesis using refused by simp
  next
    case True
    with b have b: "ae_logIsOk ops request s = Inr True" by simp
    from run b obtain s1 entries index s2 s3 where
      fold: "fold_res (ae_entry ops) (aq_entries request) (s, [], aq_prev_log_index request) = Inr (s1, entries, index)"
      and app: "append_or_abort ops entries s1 = Inr s2" and com: "ae_commit ops request s2 = Inr s3"
      and s': "s' = updateElectionTimePoint e s3"
      and resp': "resp' = resp\<lparr>ap_success := True, ap_last_log_index := lo_getLastLogIndex ops (rc_mLog s2),
                 ap_match_index := aq_prev_log_index request + length (aq_entries request)\<rparr>"
      by (auto simp: ae_store_def res_bind_eq_Inr)
    from ae_ready[OF inv prev_in_log[OF inv b] fold] obtain l1 where
      good: "indexed_from (Suc (aq_prev_log_index request)) (aq_entries request)"
        "agrees_to (rc_mCommitIndex s) (lo_getFirstLogIndex ops (rc_mLog s)) (contents (rc_mLog s)) (aq_entries request)"
      and s1: "s1 = s\<lparr>rc_mLog := l1\<rparr>" and l1: "invar l1"
        "contents l1 @ entries = merge_entries (lo_getFirstLogIndex ops (rc_mLog s)) (contents (rc_mLog s)) (aq_entries request)"
        "lo_getFirstLogIndex ops l1 = lo_getFirstLogIndex ops (rc_mLog s)" "same_votes ops (rc_mLog s) l1"
      by blast
    from append_result[OF _ app] s1 l1(1) obtain l' where "s2 = s1\<lparr>rc_mLog := l'\<rparr>" "invar l'"
      "contents l' = contents l1 @ entries" "lo_getFirstLogIndex ops l' = lo_getFirstLogIndex ops l1"
      "same_votes ops l1 l'" by auto
    with l1 s1 have s2: "s2 = s\<lparr>rc_mLog := l'\<rparr>" and l': "invar l'"
      "contents l' = merge_entries (lo_getFirstLogIndex ops (rc_mLog s)) (contents (rc_mLog s)) (aq_entries request)"
      "lo_getFirstLogIndex ops l' = lo_getFirstLogIndex ops (rc_mLog s)" "same_votes ops (rc_mLog s) l'"
      by (auto intro: same_votes_trans)
    have s3: "s3 = s\<lparr>rc_mLog := l', rc_mCommitIndex := max (rc_mCommitIndex s) (aq_commit_index request)\<rparr>"
      and le: "rc_mCommitIndex s < aq_commit_index request \<longrightarrow> aq_commit_index request \<le> lo_getLastLogIndex ops l'"
      using com s2 by (auto simp: ae_commit_def res_bind_eq_Inr max_def split: if_splits)
    show ?thesis
      by (rule stored[of l']) (use b good s' s3 s2 l' le resp' in simp_all)
  qed
qed

lemma ae_store_moves:
  assumes ok: "node_ok ops invar s" and run: "ae_store ops e request resp s = Inr (s', resp')"
  shows "moves ops invar contents s s'"
proof -
  have inv: "invar (rc_mLog s)" using ok by (simp add: node_ok_def)
  show ?thesis
  proof (cases rule: ae_store_cases[OF inv run])
    case 1
    then show ?thesis using moves_refl[OF ok] by simp
  next
    case (2 l')
    let ?k = "Suc (rc_mCommitIndex s) - lo_getFirstLogIndex ops (rc_mLog s)"
    have len: "?k \<le> length (contents (rc_mLog s))" by (rule committed_length[OF ok])
    have kept: "take ?k (contents l') = take ?k (contents (rc_mLog s)) \<and> ?k \<le> length (contents l')"
    proof (cases "?k = 0")
      case False
      then have "lo_getFirstLogIndex ops (rc_mLog s) + ?k \<le> Suc (rc_mCommitIndex s)" by simp
      with 2 len show ?thesis
        using merge_take_committed[OF 2(3,2), of ?k] merge_keeps_length[OF 2(3), of ?k] by simp
    qed simp
    have "rc_mCommitIndex s \<le> lo_getLastLogIndex ops l'"
      using last_index[OF 2(5)] 2(7) kept first_pos[OF inv] last_index[OF inv] len by linarith
    with 2 kept show ?thesis
      by (intro moves_log[OF ok]) (auto simp: updateElectionTimePoint_def)
  qed
qed

end


section \<open>Every step keeps the node's promises\<close>

lemma put_peer_fields [simp]:
  "rc_mLog (put_peer i p s) = rc_mLog s"
  "rc_mCommitIndex (put_peer i p s) = rc_mCommitIndex s"
  "rc_selfId (put_peer i p s) = rc_selfId s"
  "rc_mRaftRole (put_peer i p s) = rc_mRaftRole s"
  "rc_mPeers (put_peer i p s) = smap_put i p (rc_mPeers s)"
  "rc_mPendingClientRequests (put_peer i p s) = rc_mPendingClientRequests s"
  "rc_mClients (put_peer i p s) = rc_mClients s"
  by (simp_all add: put_peer_def)

lemma updateElectionTimePoint_fields [simp]:
  "rc_mLog (updateElectionTimePoint e s) = rc_mLog s"
  "rc_mCommitIndex (updateElectionTimePoint e s) = rc_mCommitIndex s"
  "rc_selfId (updateElectionTimePoint e s) = rc_selfId s"
  "rc_mRaftRole (updateElectionTimePoint e s) = rc_mRaftRole s"
  "rc_mPeers (updateElectionTimePoint e s) = rc_mPeers s"
  "rc_mLeaderId (updateElectionTimePoint e s) = rc_mLeaderId s"
  "rc_mPendingClientRequests (updateElectionTimePoint e s) = rc_mPendingClientRequests s"
  "rc_mClients (updateElectionTimePoint e s) = rc_mClients s"
  by (simp_all add: updateElectionTimePoint_def)

lemma ae_leader_shape:
  assumes "ae_leader request s = Inr s'"
  shows "s' = s\<lparr>rc_mLeaderId := aq_leader_id request\<rparr>"
proof (cases "rc_mLeaderId s = 0")
  case True
  with assms show ?thesis by (simp add: ae_leader_def)
next
  case False
  with assms have "s' = s" "rc_mLeaderId s = aq_leader_id request"
    by (auto simp: ae_leader_def res_bind_eq_Inr)
  then show ?thesis by simp
qed

lemma update_peers_shape:
  assumes "update_peers f s = Inr (s', out)"
  shows "\<exists>ps. map_res (f s) (rc_mPeers s) = Inr ps \<and> s' = s\<lparr>rc_mPeers := map fst ps\<rparr> \<and> out = concat (map snd ps)"
  using assms by (auto simp: update_peers_def res_bind_eq_Inr)

text \<open>The three outcomes of an AppendEntries request: refused, or the leader is accepted, after
  stepping down where that is due, and its entries are offered to the log.\<close>

lemma handleAE_cases:
  assumes "handleAppendEntriesRequest ops e request s = Inr (s', out)"
  obtains (refused) status resp where "s' = s" "out = [Reply_AE status resp]" "\<not> ap_success resp"
      "aq_term request < lo_getCurrentTerm ops (rc_mLog s) \<or> rc_mRaftRole s = Syncer"
  | (accepted) s1 out1 resp where
      "lo_getCurrentTerm ops (rc_mLog s) \<le> aq_term request" "rc_mRaftRole s \<noteq> Syncer"
      "(if aq_term request > lo_getCurrentTerm ops (rc_mLog s)
           \<or> (aq_term request = lo_getCurrentTerm ops (rc_mLog s) \<and> rc_mRaftRole s = Candidate)
        then stepDown ops e (aq_term request) s else Inr (s, [])) = Inr (s1, out1)"
      "ae_leader request (updateElectionTimePoint e s1)
         = Inr ((updateElectionTimePoint e s1)\<lparr>rc_mLeaderId := aq_leader_id request\<rparr>)"
      "ae_store ops e request ((ae_prepare ops request s)\<lparr>ap_term := aq_term request\<rparr>)
         ((updateElectionTimePoint e s1)\<lparr>rc_mLeaderId := aq_leader_id request\<rparr>) = Inr (s', resp)"
      "out = out1 @ [Reply_AE Status_OK resp]"
proof (cases "aq_term request < lo_getCurrentTerm ops (rc_mLog s) \<or> rc_mRaftRole s = Syncer")
  case True
  with assms have "\<exists>status resp. s' = s \<and> out = [Reply_AE status resp] \<and> \<not> ap_success resp"
    by (auto simp: handleAppendEntriesRequest_def Let_def ae_prepare_def split: if_splits)
  with True refused show ?thesis by blast
next
  case False
  with assms obtain s1 out1 s2 resp where
    s1: "(if aq_term request > lo_getCurrentTerm ops (rc_mLog s)
           \<or> (aq_term request = lo_getCurrentTerm ops (rc_mLog s) \<and> rc_mRaftRole s = Candidate)
        then stepDown ops e (aq_term request) s else Inr (s, [])) = Inr (s1, out1)"
    and s2: "ae_leader request (updateElectionTimePoint e s1) = Inr s2"
    and st: "ae_store ops e request ((ae_prepare ops request s)\<lparr>ap_term := aq_term request\<rparr>) s2 = Inr (s', resp)"
    and out: "out = out1 @ [Reply_AE Status_OK resp]"
    by (simp add: handleAppendEntriesRequest_def Let_def raft_then_eq_Inr res_bind_eq_Inr split_beta)
      (metis prod.collapse)
  note eq = ae_leader_shape[OF s2]
  show ?thesis
    by (rule accepted[OF _ _ s1]) (use False s2 st out eq in simp_all)
qed

text \<open>The outcomes of a vote request: refused, or considered in the request's term.\<close>

lemma handleRV_cases:
  assumes "handleRequestVoteRequest ops e request s = Inr (s', out)"
  obtains (refused) status resp where "s' = s" "out = [Reply_RV status resp]" "\<not> vp_vote_granted resp"
      "vq_term request < lo_getCurrentTerm ops (rc_mLog s) \<or> rc_mRaftRole s = Syncer"
  | (denied) out1 resp where "lo_getCurrentTerm ops (rc_mLog s) \<le> vq_term request" "rc_mRaftRole s \<noteq> Syncer"
      "(if vq_term request > lo_getCurrentTerm ops (rc_mLog s) then stepDown ops e (vq_term request) s
        else Inr (s, [])) = Inr (s', out1)"
      "out = out1 @ [Reply_RV Status_OK resp]" "\<not> vp_vote_granted resp"
  | (granted) s1 out1 resp lastTerm where "lo_getCurrentTerm ops (rc_mLog s) \<le> vq_term request" "rc_mRaftRole s \<noteq> Syncer"
      "(if vq_term request > lo_getCurrentTerm ops (rc_mLog s) then stepDown ops e (vq_term request) s
        else Inr (s, [])) = Inr (s1, out1)"
      "termOfLogEntryAt ops (lo_getLastLogIndex ops (rc_mLog s1)) s1 = Inr lastTerm"
      "vq_last_log_term request > lastTerm
         \<or> vq_last_log_term request = lastTerm \<and> vq_last_log_index request \<ge> lo_getLastLogIndex ops (rc_mLog s1)"
      "lo_getVote ops (rc_mLog s1) = 0 \<or> lo_getVote ops (rc_mLog s1) = vq_candidate_id request"
      "s' = updateElectionTimePoint e (s1\<lparr>rc_mLog := lo_setVoteFor ops (vq_candidate_id request) (rc_mLog s1)\<rparr>)"
      "out = out1 @ [Reply_RV Status_OK resp]" "vp_vote_granted resp" "vp_saved_term resp = vq_term request"
      "vp_id resp = rc_selfId s"
proof (cases "vq_term request < lo_getCurrentTerm ops (rc_mLog s) \<or> rc_mRaftRole s = Syncer")
  case True
  with assms have "\<exists>status resp. s' = s \<and> out = [Reply_RV status resp] \<and> \<not> vp_vote_granted resp"
    by (auto simp: handleRequestVoteRequest_def Let_def split: if_splits)
  with True refused show ?thesis by blast
next
  case False
  with assms obtain s1 out1 lastTerm where
    s1: "(if vq_term request > lo_getCurrentTerm ops (rc_mLog s) then stepDown ops e (vq_term request) s
        else Inr (s, [])) = Inr (s1, out1)"
    and t: "termOfLogEntryAt ops (lo_getLastLogIndex ops (rc_mLog s1)) s1 = Inr lastTerm"
    by (auto simp: handleRequestVoteRequest_def Let_def raft_then_eq_Inr res_bind_eq_Inr)
  show ?thesis
  proof (cases "(vq_last_log_term request > lastTerm
         \<or> vq_last_log_term request = lastTerm \<and> vq_last_log_index request \<ge> lo_getLastLogIndex ops (rc_mLog s1))
       \<and> (lo_getVote ops (rc_mLog s1) = 0 \<or> lo_getVote ops (rc_mLog s1) = vq_candidate_id request)")
    case True
    with assms False s1 t have eq: "s' = updateElectionTimePoint e (s1\<lparr>rc_mLog := lo_setVoteFor ops (vq_candidate_id request) (rc_mLog s1)\<rparr>)"
      and "\<exists>resp. out = out1 @ [Reply_RV Status_OK resp] \<and> vp_vote_granted resp \<and> vp_saved_term resp = vq_term request
             \<and> vp_id resp = rc_selfId s"
      by (auto simp: handleRequestVoteRequest_def Let_def raft_then_def)
    then obtain resp where "out = out1 @ [Reply_RV Status_OK resp]" "vp_vote_granted resp"
      "vp_saved_term resp = vq_term request" "vp_id resp = rc_selfId s" by blast
    with True False eq show ?thesis by (intro granted[OF _ _ s1 t]) simp_all
  next
    case vote: False
    with assms False s1 t have eq: "s' = s1"
      and "\<exists>resp. out = out1 @ [Reply_RV Status_OK resp] \<and> \<not> vp_vote_granted resp"
      by (auto simp: handleRequestVoteRequest_def Let_def raft_then_def)
    then obtain resp where "out = out1 @ [Reply_RV Status_OK resp]" "\<not> vp_vote_granted resp" by blast
    with False eq s1 show ?thesis by (intro denied[of out1 resp]) simp_all
  qed
qed


lemma fold_client_entry:
  assumes "fold (client_entry t) cs (pending, es, n) = (pending', es', n')"
    and "indexed_from (Suc (n - length es)) es" and "length es \<le> n"
  shows "indexed_from (Suc (n - length es)) es' \<and> (\<exists>new. es' = es @ new)"
  using assms
proof (induction cs arbitrary: pending es n)
  case (Cons c cs)
  show ?case
  proof (cases "le_term (cr_mEntry c) = t \<and> le_index (cr_mEntry c) = Suc n")
    case True
    then have step: "client_entry t c (pending, es, n)
        = (pending @ [(le_index (cr_mEntry c), cr_mRequestHandle c)], es @ [cr_mEntry c], Suc n)"
      by (simp add: client_entry_def)
    have "fold (client_entry t) cs
       (pending @ [(le_index (cr_mEntry c), cr_mRequestHandle c)], es @ [cr_mEntry c], Suc n) = (pending', es', n')"
      using Cons.prems(1) by (simp add: step)
    from Cons.IH[OF this] Cons.prems(2,3) True show ?thesis
      by (auto simp: indexed_from_append)
  next
    case False
    then have "client_entry t c (pending, es, n) = (pending, es, n)" by (auto simp: client_entry_def)
    with Cons.prems(1) have "fold (client_entry t) cs (pending, es, n) = (pending', es', n')" by simp
    with Cons.IH Cons.prems(2,3) show ?thesis by blast
  qed
qed simp

context raft_log
begin

lemma handleAE_moves:
  assumes ok: "node_ok ops invar s" and run: "handleAppendEntriesRequest ops e request s = Inr (s', out)"
  shows "moves ops invar contents s s'"
proof (cases rule: handleAE_cases[OF run])
  case (1 status resp)
  then show ?thesis using moves_refl[OF ok] by simp
next
  case (2 s1 out1 resp)
  have m1: "moves ops invar contents s s1"
    using 2(3) stepDown_moves[OF ok] moves_refl[OF ok] by (auto split: if_splits)
  then have ok1: "node_ok ops invar s1" by (simp add: moves_def)
  let ?s2 = "(updateElectionTimePoint e s1)\<lparr>rc_mLeaderId := aq_leader_id request\<rparr>"
  have m2: "moves ops invar contents s1 ?s2"
    by (rule moves_same_log[OF ok1]) simp_all
  then have "node_ok ops invar ?s2" by (simp add: moves_def)
  from ae_store_moves[OF this 2(5)] show ?thesis
    using moves_trans[OF moves_trans[OF m1 m2]] by blast
qed

lemma handleRV_moves:
  assumes ok: "node_ok ops invar s" and run: "handleRequestVoteRequest ops e request s = Inr (s', out)"
  shows "moves ops invar contents s s'"
proof (cases rule: handleRV_cases[OF run])
  case (1 status resp)
  then show ?thesis using moves_refl[OF ok] by simp
next
  case (2 out1 resp)
  then show ?thesis using stepDown_moves[OF ok] moves_refl[OF ok] by (auto split: if_splits)
next
  case (3 s1 out1 resp lastTerm)
  have m1: "moves ops invar contents s s1"
    using 3(3) stepDown_moves[OF ok] moves_refl[OF ok] by (auto split: if_splits)
  then have ok1: "node_ok ops invar s1" by (simp add: moves_def)
  then have inv1: "invar (rc_mLog s1)" by (simp add: node_ok_def)
  from m1 3(2) have "rc_mRaftRole s1 \<noteq> Syncer" by (auto simp: moves_def advances_def keeps_votes_def)
  with ok1 3 have "moves ops invar contents s1 s'"
    by (auto simp: moves_def node_ok_def advances_def keeps_votes_def entry_at_def set_vote[OF inv1])
  then show ?thesis using moves_trans[OF m1] by blast
qed

lemma handleAE_resp_moves:
  assumes ok: "node_ok ops invar s" and run: "handleAppendEntriesResponse ops e response s = Inr (s', out)"
  shows "moves ops invar contents s s'"
proof (cases "lo_getCurrentTerm ops (rc_mLog s) = ap_saved_term response \<and> ap_term response > lo_getCurrentTerm ops (rc_mLog s)")
  case True
  with run have "stepDown ops e (ap_term response) s = Inr (s', out)"
    by (auto simp: handleAppendEntriesResponse_def res_bind_eq_Inr)
  then show ?thesis by (rule stepDown_moves[OF ok])
next
  case False
  with run show ?thesis
    by (intro moves_same_log[OF ok])
      (auto simp: handleAppendEntriesResponse_def Let_def res_bind_eq_Inr split: if_splits)
qed

lemma handleRV_resp_moves:
  assumes ok: "node_ok ops invar s" and run: "handleRequestVoteResponse ops e response s = Inr (s', out)"
  shows "moves ops invar contents s s'"
proof (cases "lo_getCurrentTerm ops (rc_mLog s) = vp_saved_term response \<and> rc_mRaftRole s = Candidate
    \<and> vp_term response > lo_getCurrentTerm ops (rc_mLog s)")
  case True
  with run have "stepDown ops e (vp_term response) s = Inr (s', out)"
    by (simp add: handleRequestVoteResponse_def)
  then show ?thesis by (rule stepDown_moves[OF ok])
next
  case False
  with run show ?thesis
    by (intro moves_same_log[OF ok])
      (auto simp: handleRequestVoteResponse_def Let_def split: if_splits)
qed

lemma handleClient_moves:
  assumes ok: "node_ok ops invar s" and run: "handleClientRequests ops cs s = Inr (s', out)"
  shows "moves ops invar contents s s'"
proof (cases "rc_mRaftRole s = Leader")
  case True
  have inv: "invar (rc_mLog s)" using ok by (simp add: node_ok_def)
  obtain pending es n where f: "fold (client_entry (lo_getCurrentTerm ops (rc_mLog s))) cs
      (rc_mPendingClientRequests s, [], lo_getLastLogIndex ops (rc_mLog s)) = (pending, es, n)"
    by (metis prod_cases3)
  have "indexed_from (Suc (lo_getLastLogIndex ops (rc_mLog s))) es"
    using fold_client_entry[OF f] by simp
  then obtain l' where r: "lo_appendEntries ops es (rc_mLog s) = Inr (True, l')"
    and s': "s' = s\<lparr>rc_mPendingClientRequests := pending, rc_mLog := l'\<rparr>"
    using run True f appendEntries_refused[OF inv, of es]
    by (auto simp: handleClientRequests_def res_bind_eq_Inr) (metis (full_types))+
  note l' = appendEntries_result[OF inv r]
  with l' s' show ?thesis by (intro moves_append[OF ok, of _ es]) (simp_all add: same_votes_def)
next
  case False
  with run show ?thesis using moves_refl[OF ok] by (simp add: handleClientRequests_def)
qed

end


context raft_log
begin

lemma handleSync_moves:
  assumes ok: "node_ok ops invar s" and run: "handleSyncRequest ops r s = Inr (s', out)"
  shows "moves ops invar contents s s'"
proof (cases "rc_mRaftRole s = Syncer \<and> sr_mFinishMeta r = None")
  case True
  have inv: "invar (rc_mLog s)" using ok by (simp add: node_ok_def)
  from run True obtain s1 where app: "append_or_abort ops (sr_mEntries r) s = Inr s1"
    and s': "s' = (let l = lo_setCurrentTerm ops (le_term (last (sr_mEntries r))) (rc_mLog s1)
       in s1\<lparr>rc_mLog := l, rc_mCommitIndex := lo_getLastLogIndex ops l\<rparr>)"
    by (auto simp: handleSyncRequest_def res_bind_eq_Inr Let_def)
  from append_result[OF inv app] obtain l1 where l1: "s1 = s\<lparr>rc_mLog := l1\<rparr>" "invar l1"
    "contents l1 = contents (rc_mLog s) @ sr_mEntries r"
    "lo_getFirstLogIndex ops l1 = lo_getFirstLogIndex ops (rc_mLog s)" "same_votes ops (rc_mLog s) l1"
    by blast
  have m1: "moves ops invar contents s s1"
    using l1 by (intro moves_append[OF ok, of _ "sr_mEntries r"]) simp_all
  then have "node_ok ops invar s1" by (simp add: moves_def)
  then have "moves ops invar contents s1 s'"
    using s' l1 True
    by (simp add: moves_def node_ok_def advances_def keeps_votes_def entry_at_def set_term Let_def)
  then show ?thesis using moves_trans[OF m1] by blast
next
  case False
  with run show ?thesis
    by (intro moves_same_log[OF ok]) (auto simp: handleSyncRequest_def split: if_splits option.splits)
qed

lemma handle_event_moves:
  assumes ok: "node_ok ops invar s" and run: "handle_event ops e ev s = Inr (s', out)"
  shows "moves ops invar contents s s'"
proof -
  have put: "moves ops invar contents s (put_peer i p s)" for i p
    by (rule moves_same_log[OF ok]) simp_all
  then have put_ok: "node_ok ops invar (put_peer i p s)" for i p by (simp add: moves_def)
  show ?thesis
  proof (cases ev)
    case (AppendEntriesRequest request)
    then show ?thesis using run handleAE_moves[OF ok] by (simp add: handle_event_def)
  next
    case (AppendEntriesResponse i b response)
    show ?thesis
    proof (cases b)
      case True
      with run AppendEntriesResponse obtain p where
        "handleAppendEntriesResponse ops e response (put_peer i p s) = Inr (s', out)"
        by (auto simp: handle_event_def Let_def)
      then show ?thesis using moves_trans[OF put handleAE_resp_moves[OF put_ok]] by blast
    next
      case False
      then show ?thesis using run put AppendEntriesResponse by (auto simp: handle_event_def Let_def)
    qed
  next
    case (RequestVoteRequest request)
    then show ?thesis using run handleRV_moves[OF ok] by (simp add: handle_event_def)
  next
    case (RequestVoteResponse i b response)
    show ?thesis
    proof (cases b)
      case True
      with run RequestVoteResponse obtain p where
        "handleRequestVoteResponse ops e response (put_peer i p s) = Inr (s', out)"
        by (auto simp: handle_event_def Let_def)
      then show ?thesis using moves_trans[OF put handleRV_resp_moves[OF put_ok]] by blast
    next
      case False
      then show ?thesis using run put RequestVoteResponse by (auto simp: handle_event_def Let_def)
    qed
  next
    case (ClientRequests cs)
    then show ?thesis using run handleClient_moves[OF ok] by (simp add: handle_event_def)
  next
    case (SyncRequestEvent r)
    then show ?thesis using run handleSync_moves[OF ok] by (simp add: handle_event_def)
  qed
qed

lemma receiveMessage_moves:
  assumes ok: "node_ok ops invar s" and run: "receiveMessage ops e s = Inr (s', out)"
  shows "moves ops invar contents s s'"
proof -
  have q: "moves ops invar contents s (s\<lparr>rc_mAeRvQueue := q\<rparr>)"
    "moves ops invar contents s (s\<lparr>rc_mClientRequestsQueue := q\<rparr>)" for q
    by (rule moves_same_log[OF ok]; simp)+
  then have "node_ok ops invar (s\<lparr>rc_mAeRvQueue := q\<rparr>)"
    "node_ok ops invar (s\<lparr>rc_mClientRequestsQueue := q\<rparr>)" for q
    by (simp_all add: moves_def)
  note h = this[THEN handle_event_moves]
  show ?thesis
    using run h q moves_refl[OF ok] unfolding receiveMessage_def
    by (auto split: list.splits) (metis moves_trans)+
qed

lemma advanceCommitIndex_moves:
  assumes ok: "node_ok ops invar s" and run: "advanceCommitIndex ops s = Inr (s', out)"
  shows "moves ops invar contents s s'"
proof -
  have "rc_mLog s' = rc_mLog s \<and> rc_selfId s' = rc_selfId s \<and> rc_mRaftRole s' = rc_mRaftRole s
    \<and> rc_mCommitIndex s \<le> rc_mCommitIndex s' \<and> rc_mCommitIndex s' \<le> lo_getLastLogIndex ops (rc_mLog s)"
    using run ok by (auto simp: advanceCommitIndex_def node_ok_def Let_def res_bind_eq_Inr split: if_splits)
  with ok show ?thesis
    by (auto simp: moves_def node_ok_def advances_def keeps_votes_def)
qed

lemma becomeLeader_moves:
  assumes ok: "node_ok ops invar s" and run: "becomeLeader ops e s = Inr (s', out)"
  shows "moves ops invar contents s s'"
proof (cases "rc_mLog s' = rc_mLog s")
  case True
  then show ?thesis using run
    by (intro moves_same_log[OF ok]) (auto simp: becomeLeader_def Let_def res_bind_eq_Inr split: if_splits)
next
  case False
  have inv: "invar (rc_mLog s)" using ok by (simp add: node_ok_def)
  from False run obtain l where l: "lo_appendEntries ops [noop_entry ops e (rc_mLog s)] (rc_mLog s) = Inr (True, l)"
    and s': "rc_mLog s' = l" "rc_mCommitIndex s' = rc_mCommitIndex s" "rc_selfId s' = rc_selfId s"
      "rc_mRaftRole s' = Leader"
    by (auto simp: becomeLeader_def Let_def res_bind_eq_Inr appendEntry_single[OF inv] split: if_splits)
  from appendEntries_result[OF inv l] s' show ?thesis
    by (intro moves_append[OF ok, of _ "[noop_entry ops e (rc_mLog s)]"]) (simp_all add: same_votes_def)
qed

lemma electionTimeout_moves:
  assumes ok: "node_ok ops invar s" and run: "electionTimeout ops e s = Inr (s', out)"
  shows "moves ops invar contents s s'"
proof (cases "rc_mRaftRole s = Leader \<or> rc_mRaftRole s = Syncer \<or> rc_mElectionTimePointInNano s > env_now e")
  case True
  with run have "s' = s" by (auto simp: electionTimeout_def split: if_splits)
  then show ?thesis using moves_refl[OF ok] by simp
next
  case False
  with run show ?thesis
    by (intro moves_new_term[OF ok, of "Suc (lo_getCurrentTerm ops (rc_mLog s))" _ "rc_selfId s"])
      (auto simp: electionTimeout_def Let_def)
qed

lemma truncatePrefix_moves:
  assumes ok: "node_ok ops invar s" and run: "raft_truncatePrefix ops k s = Inr s'"
  shows "moves ops invar contents s s'"
proof -
  have inv: "invar (rc_mLog s)" and le: "k \<le> lo_getLastLogIndex ops (rc_mLog s)"
    using ok run by (auto simp: node_ok_def raft_truncatePrefix_def res_bind_eq_Inr)
  from truncatePrefix_ok[OF this] run obtain l where s': "s' = s\<lparr>rc_mLog := l\<rparr>" and l: "invar l"
    "contents l = drop (k - lo_getFirstLogIndex ops (rc_mLog s)) (contents (rc_mLog s))"
    "lo_getFirstLogIndex ops l = max k (lo_getFirstLogIndex ops (rc_mLog s))" "same_votes ops (rc_mLog s) l"
    by (auto simp: raft_truncatePrefix_def res_bind_eq_Inr same_votes_def)
  have last: "lo_getLastLogIndex ops l = lo_getLastLogIndex ops (rc_mLog s)"
    using last_index[OF l(1)] last_index[OF inv] l(2,3) le by (simp add: max_def split: if_splits)
  have "entry_at ops contents l i = entry_at ops contents (rc_mLog s) i"
    if "lo_getFirstLogIndex ops l \<le> i" "i \<le> rc_mCommitIndex s" for i
  proof -
    have "k - lo_getFirstLogIndex ops (rc_mLog s) + (i - lo_getFirstLogIndex ops l) = i - lo_getFirstLogIndex ops (rc_mLog s)"
      using that(1) l(3) by (simp add: max_def split: if_splits)
    moreover have "k - lo_getFirstLogIndex ops (rc_mLog s) \<le> length (contents (rc_mLog s))"
      using le last_index[OF inv] by simp
    ultimately show ?thesis unfolding entry_at_def l(2) by simp
  qed
  with ok s' l last show ?thesis
    by (auto simp: moves_def node_ok_def advances_def keeps_votes_def same_votes_def)
qed

end


context raft_log
begin

lemma raft_act_moves:
  assumes ok: "node_ok ops invar s" and run: "raft_act ops a s = Inr (s', out)"
  shows "moves ops invar contents s s'"
proof (cases a)
  case (Do_appendEntries e)
  with run show ?thesis
    by (intro moves_same_log[OF ok]) (auto simp: appendEntries_def split: if_splits dest!: update_peers_shape)
next
  case (Do_requestVote e)
  with run show ?thesis
    by (intro moves_same_log[OF ok]) (auto simp: requestVote_def split: if_splits dest!: update_peers_shape)
next
  case (Do_receiveMessage e)
  with run show ?thesis using receiveMessage_moves[OF ok] by simp
next
  case Do_advanceCommitIndex
  with run show ?thesis using advanceCommitIndex_moves[OF ok] by simp
next
  case (Do_becomeLeader e)
  with run show ?thesis using becomeLeader_moves[OF ok] by simp
next
  case (Do_electionTimeout e)
  with run show ?thesis using electionTimeout_moves[OF ok] by simp
next
  case (Do_leadershipTimeout e)
  with run show ?thesis using stepDown_moves[OF ok] moves_refl[OF ok]
    by (auto simp: leadershipTimeout_def Let_def split: if_splits)
next
  case (Do_truncatePrefix k)
  with run show ?thesis using truncatePrefix_moves[OF ok] by (auto simp: res_bind_eq_Inr)
next
  case (Do_deliver ev)
  with run show ?thesis by (intro moves_same_log[OF ok]) auto
next
  case (Do_clientRequests cs)
  with run show ?thesis by (intro moves_same_log[OF ok]) (auto simp: enqueueClientRequests_def)
next
  case (Do_syncRequest r)
  with run show ?thesis by (intro moves_same_log[OF ok]) (auto simp: enqueueSyncRequest_def)
qed

lemma raft_run_moves:
  assumes "node_ok ops invar s" and "raft_run ops acts s = Inr (s', out)"
  shows "moves ops invar contents s s'"
  using assms
proof (induction acts arbitrary: s out)
  case Nil
  then show ?case using moves_refl by simp
next
  case (Cons a acts)
  from Cons.prems(2) obtain s1 out1 out2 where a: "raft_act ops a s = Inr (s1, out1)"
    and rest: "raft_run ops acts s1 = Inr (s', out2)"
    by (auto simp: raft_then_eq_Inr)
  have m: "moves ops invar contents s s1" by (rule raft_act_moves[OF Cons.prems(1) a])
  then have "node_ok ops invar s1" by (simp add: moves_def)
  then show ?case using moves_trans[OF m Cons.IH[OF _ rest]] by simp
qed

end

section \<open>Votes\<close>

definition next_event :: "'l raft_core \<Rightarrow> raft_event option" where
  "next_event s =
     (case rc_mAeRvQueue s @ rc_mClientRequestsQueue s of [] \<Rightarrow> None | ev # q \<Rightarrow> Some ev)"

definition grants_vote :: "raft_out \<Rightarrow> bool" where
  "grants_vote out = (case out of Reply_RV status resp \<Rightarrow> vp_vote_granted resp | _ \<Rightarrow> False)"

text \<open>The votes (term and candidate) a step casts: for itself when it becomes a candidate, for the sender of a
  vote request when it answers that the vote is granted.\<close>

definition votes_cast ::
  "'l log_ops \<Rightarrow> raft_action \<Rightarrow> 'l raft_core \<Rightarrow> 'l raft_core \<Rightarrow> raft_out list \<Rightarrow> (nat \<times> nat) list" where
  "votes_cast ops a s s' out =
     (case a of
        Do_electionTimeout e \<Rightarrow>
          if lo_getCurrentTerm ops (rc_mLog s') \<noteq> lo_getCurrentTerm ops (rc_mLog s)
          then [(lo_getCurrentTerm ops (rc_mLog s'), rc_selfId s)] else []
      | Do_receiveMessage e \<Rightarrow>
          (case next_event s of
             Some (RequestVoteRequest r) \<Rightarrow>
               if list_ex grants_vote out then [(vq_term r, vq_candidate_id r)] else []
           | _ \<Rightarrow> [])
      | _ \<Rightarrow> [])"

fun run_votes :: "'l log_ops \<Rightarrow> raft_action list \<Rightarrow> 'l raft_core \<Rightarrow> (nat \<times> nat) list" where
  "run_votes ops [] s = []"
| "run_votes ops (a # acts) s =
     (case raft_act ops a s of
        Inl e \<Rightarrow> []
      | Inr (s', out) \<Rightarrow> votes_cast ops a s s' out @ run_votes ops acts s')"

lemma stepDown_replies: "stepDown ops e t s = Inr (s', out) \<Longrightarrow> \<not> list_ex grants_vote out"
  by (auto simp: stepDown_def Let_def res_bind_eq_Inr pending_replies_def list_ex_iff grants_vote_def
      split: if_splits option.splits)

lemma receive_next_event:
  assumes "receiveMessage ops e s = Inr (s', out)" and "next_event s = Some ev"
  obtains q1 q2 where "handle_event ops e ev (s\<lparr>rc_mAeRvQueue := q1, rc_mClientRequestsQueue := q2\<rparr>) = Inr (s', out)"
proof (cases "rc_mAeRvQueue s")
  case Nil
  then have eq: "s\<lparr>rc_mAeRvQueue := []\<rparr> = s" by (cases s) simp
  from Nil assms have "handle_event ops e ev (s\<lparr>rc_mAeRvQueue := [],
      rc_mClientRequestsQueue := tl (rc_mClientRequestsQueue s)\<rparr>) = Inr (s', out)"
    by (auto simp: receiveMessage_def next_event_def eq split: list.splits)
  then show ?thesis by (rule that)
next
  case (Cons ev' q)
  with assms have "handle_event ops e ev (s\<lparr>rc_mAeRvQueue := q,
      rc_mClientRequestsQueue := rc_mClientRequestsQueue s\<rparr>) = Inr (s', out)"
    by (auto simp: receiveMessage_def next_event_def)
  then show ?thesis by (rule that)
qed

context raft_log
begin

text \<open>A vote is cast in the term the node is in afterwards, it is recorded in the log, and no other vote
  was recorded for that term.\<close>

lemma vote_recorded:
  assumes ok: "node_ok ops invar s" and run: "raft_act ops a s = Inr (s', out)"
    and vote: "(t, c) \<in> set (votes_cast ops a s s' out)"
  shows "lo_getCurrentTerm ops (rc_mLog s') = t \<and> lo_getVote ops (rc_mLog s') = c
    \<and> lo_getCurrentTerm ops (rc_mLog s) \<le> t
    \<and> (lo_getCurrentTerm ops (rc_mLog s) < t \<or> lo_getVote ops (rc_mLog s) = 0 \<or> lo_getVote ops (rc_mLog s) = c)"
proof -
  have inv: "invar (rc_mLog s)" using ok by (simp add: node_ok_def)
  consider (election) e where "a = Do_electionTimeout e" "c = rc_selfId s" "t = lo_getCurrentTerm ops (rc_mLog s')"
      "t \<noteq> lo_getCurrentTerm ops (rc_mLog s)"
    | (request) e r where "a = Do_receiveMessage e" "next_event s = Some (RequestVoteRequest r)"
        "list_ex grants_vote out" "t = vq_term r" "c = vq_candidate_id r"
    using vote
    by (auto simp: votes_cast_def split: raft_action.splits option.splits raft_event.splits if_splits) metis
  then show ?thesis
  proof cases
    case election
    with run show ?thesis
      by (auto simp: electionTimeout_def Let_def set_both[OF inv] split: if_splits)
  next
    case request
    with run obtain q1 q2 where
      h: "handleRequestVoteRequest ops e r (s\<lparr>rc_mAeRvQueue := q1, rc_mClientRequestsQueue := q2\<rparr>) = Inr (s', out)"
      by (auto simp: handle_event_def elim!: receive_next_event)
    let ?s = "s\<lparr>rc_mAeRvQueue := q1, rc_mClientRequestsQueue := q2\<rparr>"
    show ?thesis
    proof (cases rule: handleRV_cases[OF h])
      case 1
      with request show ?thesis by (simp add: grants_vote_def)
    next
      case (2 out1 resp)
      then have "\<not> list_ex grants_vote out1"
        using stepDown_replies[of ops e "vq_term r" ?s s' out1] by (auto split: if_splits)
      with 2 request show ?thesis by (simp add: grants_vote_def)
    next
      case (3 s1 out1 resp lastTerm)
      have s1: "invar (rc_mLog s1) \<and> lo_getCurrentTerm ops (rc_mLog s1) = vq_term r
        \<and> (lo_getCurrentTerm ops (rc_mLog s) = vq_term r \<longrightarrow> lo_getVote ops (rc_mLog s1) = lo_getVote ops (rc_mLog s))"
      proof (cases "vq_term r > lo_getCurrentTerm ops (rc_mLog s)")
        case True
        with 3(3) have "stepDown ops e (vq_term r) ?s = Inr (s1, out1)" by simp
        from stepDown_shape[OF this] True inv show ?thesis by (auto simp: set_both)
      next
        case False
        with 3(1,3) inv show ?thesis by auto
      qed
      with 3 request show ?thesis by (auto simp: set_vote)
    qed
  qed
qed

end

end
