(* ===== verification/Raft_Safety.thy ===== *)
theory Raft_Safety
  imports Raft_Node
begin

text \<open>
  Properties of one Raft node over whole runs, for the in-memory log: what it has committed never
  changes, it votes once per term, and an accepted AppendEntries request leaves exactly the merged
  log, however often it is delivered.
\<close>

section \<open>One vote per term\<close>

lemma run_votes_step:
  "v \<in> set (run_votes ops (a # acts) s) \<Longrightarrow>
   \<exists>s' out. raft_act ops a s = Inr (s', out)
     \<and> (v \<in> set (votes_cast ops a s s' out) \<or> v \<in> set (run_votes ops acts s'))"
  by (cases "raft_act ops a s") auto

context raft_log
begin

lemma later_votes:
  assumes "node_ok ops invar s" and "rc_mRaftRole s \<noteq> Syncer" and "(t, c) \<in> set (run_votes ops acts s)"
  shows "lo_getCurrentTerm ops (rc_mLog s) \<le> t
    \<and> (lo_getCurrentTerm ops (rc_mLog s) < t \<or> lo_getVote ops (rc_mLog s) = 0 \<or> lo_getVote ops (rc_mLog s) = c)"
  using assms
proof (induction acts arbitrary: s)
  case (Cons a acts)
  from run_votes_step[OF Cons.prems(3)] obtain s' out where a: "raft_act ops a s = Inr (s', out)"
    and v: "(t, c) \<in> set (votes_cast ops a s s' out) \<or> (t, c) \<in> set (run_votes ops acts s')"
    by blast
  have m: "moves ops invar contents s s'" by (rule raft_act_moves[OF Cons.prems(1) a])
  show ?case
  proof (cases "(t, c) \<in> set (votes_cast ops a s s' out)")
    case True
    then show ?thesis using vote_recorded[OF Cons.prems(1) a] by blast
  next
    case False
    with v have later: "(t, c) \<in> set (run_votes ops acts s')" by simp
    have "node_ok ops invar s'" "rc_mRaftRole s' \<noteq> Syncer"
      using m Cons.prems(2) by (auto simp: moves_def advances_def keeps_votes_def)
    from Cons.IH[OF this later] m Cons.prems(2) show ?thesis
      by (auto simp: moves_def advances_def keeps_votes_def)
  qed
qed simp

lemma one_vote_per_term:
  assumes "node_ok ops invar s" and "rc_mRaftRole s \<noteq> Syncer"
    and "\<forall>(t, c) \<in> set (run_votes ops acts s). c \<noteq> 0"
    and "(t, c) \<in> set (run_votes ops acts s)" and "(t, c') \<in> set (run_votes ops acts s)"
  shows "c = c'"
  using assms
proof (induction acts arbitrary: s)
  case (Cons a acts)
  from run_votes_step[OF Cons.prems(4)] obtain s' out where a: "raft_act ops a s = Inr (s', out)"
    by blast
  then have votes: "run_votes ops (a # acts) s = votes_cast ops a s s' out @ run_votes ops acts s'" by simp
  have m: "moves ops invar contents s s'" by (rule raft_act_moves[OF Cons.prems(1) a])
  have ok': "node_ok ops invar s'" and role': "rc_mRaftRole s' \<noteq> Syncer"
    using m Cons.prems(2) by (auto simp: moves_def advances_def keeps_votes_def)
  have first: "d = d'" if "(t, d) \<in> set (votes_cast ops a s s' out)"
    "(t, d') \<in> set (run_votes ops (a # acts) s)" for d d'
  proof (cases "(t, d') \<in> set (votes_cast ops a s s' out)")
    case True
    then show ?thesis using vote_recorded[OF Cons.prems(1) a] that(1) by blast
  next
    case False
    with that(2) have "(t, d') \<in> set (run_votes ops acts s')" unfolding votes by simp
    from later_votes[OF ok' role' this] vote_recorded[OF Cons.prems(1) a that(1)]
    have "d = 0 \<or> d = d'" by auto
    moreover have "d \<noteq> 0" using Cons.prems(3) that(1) unfolding votes by auto
    ultimately show ?thesis by simp
  qed
  show ?case
  proof (cases "(t, c) \<in> set (votes_cast ops a s s' out) \<or> (t, c') \<in> set (votes_cast ops a s s' out)")
    case True
    then show ?thesis using first Cons.prems(4,5) by blast
  next
    case False
    with Cons.prems(3-5) show ?thesis
      unfolding votes by (intro Cons.IH[OF ok' role']) auto
  qed
qed simp

end


section \<open>AppendEntries\<close>

lemma stepDown_only_client_replies:
  "stepDown ops e t s = Inr (s', out) \<Longrightarrow> Reply_AE status resp \<notin> set out"
  by (auto simp: stepDown_def Let_def res_bind_eq_Inr pending_replies_def split: if_splits option.splits)

lemma stepDown_total:
  assumes "lo_getCurrentTerm ops (rc_mLog s) < t
     \<or> (t = lo_getCurrentTerm ops (rc_mLog s) \<and> rc_mRaftRole s = Candidate)"
  shows "\<exists>r. stepDown ops e t s = Inr r"
proof (cases "lo_getCurrentTerm ops (rc_mLog s) < t")
  case True
  then show ?thesis by (simp add: stepDown_def Let_def)
next
  case False
  with assms show ?thesis by (simp add: stepDown_def Let_def)
qed

context raft_log
begin

text \<open>The node that has accepted a leader: in its term, with the log it had.\<close>

lemma accepted_state:
  assumes inv: "invar (rc_mLog s)" and le: "lo_getCurrentTerm ops (rc_mLog s) \<le> t" and "rc_mRaftRole s \<noteq> Syncer"
    and step: "(if t > lo_getCurrentTerm ops (rc_mLog s)
           \<or> (t = lo_getCurrentTerm ops (rc_mLog s) \<and> rc_mRaftRole s = Candidate)
        then stepDown ops e t s else Inr (s, [])) = Inr (s1, out1)"
  shows "invar (rc_mLog s1)" and "contents (rc_mLog s1) = contents (rc_mLog s)"
    and "lo_getFirstLogIndex ops (rc_mLog s1) = lo_getFirstLogIndex ops (rc_mLog s)"
    and "lo_getLastLogIndex ops (rc_mLog s1) = lo_getLastLogIndex ops (rc_mLog s)"
    and "rc_mCommitIndex s1 = rc_mCommitIndex s" and "lo_getCurrentTerm ops (rc_mLog s1) = t"
    and "rc_mRaftRole s1 \<noteq> Syncer" and "rc_mRaftRole s1 \<noteq> Candidate"
    and "lo_getCurrentTerm ops (rc_mLog s) < t \<and> rc_mLeaderId s1 = 0
      \<or> lo_getCurrentTerm ops (rc_mLog s) = t \<and> rc_mLeaderId s1 = rc_mLeaderId s"
proof -
  have "invar (rc_mLog s1) \<and> contents (rc_mLog s1) = contents (rc_mLog s)
    \<and> lo_getFirstLogIndex ops (rc_mLog s1) = lo_getFirstLogIndex ops (rc_mLog s)
    \<and> lo_getLastLogIndex ops (rc_mLog s1) = lo_getLastLogIndex ops (rc_mLog s)
    \<and> rc_mCommitIndex s1 = rc_mCommitIndex s \<and> lo_getCurrentTerm ops (rc_mLog s1) = t
    \<and> rc_mRaftRole s1 \<noteq> Syncer \<and> rc_mRaftRole s1 \<noteq> Candidate
    \<and> (lo_getCurrentTerm ops (rc_mLog s) < t \<and> rc_mLeaderId s1 = 0
      \<or> lo_getCurrentTerm ops (rc_mLog s) = t \<and> rc_mLeaderId s1 = rc_mLeaderId s)"
  proof (cases "lo_getCurrentTerm ops (rc_mLog s) < t")
    case True
    with step have "stepDown ops e t s = Inr (s1, out1)" by simp
    then show ?thesis using stepDown_shape[of e t s s1 out1] inv True by (simp add: set_both)
  next
    case False
    with le have eq: "lo_getCurrentTerm ops (rc_mLog s) = t" by simp
    show ?thesis
    proof (cases "rc_mRaftRole s = Candidate")
      case True
      with step eq have "stepDown ops e t s = Inr (s1, out1)" by simp
      then show ?thesis using stepDown_shape[of e t s s1 out1] inv eq by simp
    next
      case False
      with step eq have "s1 = s" by simp
      then show ?thesis using inv assms(3) eq False by simp
    qed
  qed
  then show "invar (rc_mLog s1)" and "contents (rc_mLog s1) = contents (rc_mLog s)"
    and "lo_getFirstLogIndex ops (rc_mLog s1) = lo_getFirstLogIndex ops (rc_mLog s)"
    and "lo_getLastLogIndex ops (rc_mLog s1) = lo_getLastLogIndex ops (rc_mLog s)"
    and "rc_mCommitIndex s1 = rc_mCommitIndex s" and "lo_getCurrentTerm ops (rc_mLog s1) = t"
    and "rc_mRaftRole s1 \<noteq> Syncer" and "rc_mRaftRole s1 \<noteq> Candidate"
    and "lo_getCurrentTerm ops (rc_mLog s) < t \<and> rc_mLeaderId s1 = 0
      \<or> lo_getCurrentTerm ops (rc_mLog s) = t \<and> rc_mLeaderId s1 = rc_mLeaderId s"
    by blast+
qed

text \<open>A request accepted with success: the log is the merge, in the request's term.\<close>

lemma ae_success:
  assumes inv: "invar (rc_mLog s)" and run: "handleAppendEntriesRequest ops e request s = Inr (s', out)"
    and reply: "Reply_AE status resp \<in> set out" "ap_success resp"
  shows "invar (rc_mLog s')
    \<and> aq_prev_log_index request \<le> lo_getLastLogIndex ops (rc_mLog s)
    \<and> indexed_from (Suc (aq_prev_log_index request)) (aq_entries request)
    \<and> agrees_to (rc_mCommitIndex s) (lo_getFirstLogIndex ops (rc_mLog s)) (contents (rc_mLog s)) (aq_entries request)
    \<and> contents (rc_mLog s')
        = merge_entries (lo_getFirstLogIndex ops (rc_mLog s)) (contents (rc_mLog s)) (aq_entries request)
    \<and> lo_getFirstLogIndex ops (rc_mLog s') = lo_getFirstLogIndex ops (rc_mLog s)
    \<and> (aq_prev_log_index request < lo_getFirstLogIndex ops (rc_mLog s)
       \<or> le_term (entry_at ops contents (rc_mLog s) (aq_prev_log_index request)) = aq_prev_log_term request)
    \<and> rc_mCommitIndex s' = max (rc_mCommitIndex s) (aq_commit_index request)
    \<and> rc_mLeaderId s' = aq_leader_id request \<and> rc_mRaftRole s' \<noteq> Syncer \<and> rc_mRaftRole s' \<noteq> Candidate
    \<and> lo_getCurrentTerm ops (rc_mLog s') = aq_term request
    \<and> ap_match_index resp = aq_prev_log_index request + length (aq_entries request)
    \<and> ap_last_log_index resp = lo_getLastLogIndex ops (rc_mLog s')"
proof (cases rule: handleAE_cases[OF run])
  case 1
  with reply show ?thesis by simp
next
  case (2 s1 out1 resp')
  note s1 = accepted_state[OF inv 2(1,2,3)]
  have "resp = resp'"
    using reply 2(3,6) stepDown_only_client_replies[of ops e "aq_term request" s s1 out1]
    by (auto split: if_splits)
  let ?s2 = "(updateElectionTimePoint e s1)\<lparr>rc_mLeaderId := aq_leader_id request\<rparr>"
  have inv2: "invar (rc_mLog ?s2)" using s1(1) by simp
  show ?thesis
  proof (cases rule: ae_store_cases[OF inv2 2(5)])
    case 1
    with reply \<open>resp = resp'\<close> show ?thesis by (simp add: ae_prepare_def)
  next
    case (2 l')
    have prev: "aq_prev_log_index request < lo_getFirstLogIndex ops (rc_mLog s)
       \<or> le_term (entry_at ops contents (rc_mLog s) (aq_prev_log_index request)) = aq_prev_log_term request"
      using 2(1) s1 term_at[OF inv2, of "aq_prev_log_index request"]
      by (auto simp: ae_logIsOk_def entry_at_def split: if_splits)
    have "lo_getCurrentTerm ops (rc_mLog s') = aq_term request"
      using 2(4,8) s1(6) by (simp add: same_votes_def)
    with 2 s1(2,3,5,7,8) s1(4) prev prev_in_log[OF inv2 2(1)] \<open>resp = resp'\<close> show ?thesis
      by simp
  qed
qed

lemma logIsOk_total:
  assumes "invar (rc_mLog s)"
  shows "\<exists>b. ae_logIsOk ops request s = Inr b"
proof (cases "aq_prev_log_index request < lo_getFirstLogIndex ops (rc_mLog s)")
  case True
  then have "ae_logIsOk ops request s = Inr True" by (simp add: ae_logIsOk_def)
  then show ?thesis by blast
next
  case False
  then show ?thesis
    using term_at[OF assms, of "aq_prev_log_index request"] by (auto simp: ae_logIsOk_def intro: exI[of _ False])
qed

text \<open>When a request is handled to the end: the new leader is the one known for the term, the entries are
  consecutive, agree with what is committed and fit, and the commit index is covered by them.\<close>

lemma ae_total:
  assumes inv: "invar (rc_mLog s)"
    and leader: "rc_mLeaderId s = 0 \<or> rc_mLeaderId s = aq_leader_id request
       \<or> lo_getCurrentTerm ops (rc_mLog s) < aq_term request"
    and idx: "indexed_from (Suc (aq_prev_log_index request)) (aq_entries request)"
    and agree: "agrees_to (rc_mCommitIndex s) (lo_getFirstLogIndex ops (rc_mLog s)) (contents (rc_mLog s)) (aq_entries request)"
    and "fits (aq_entries request)"
    and commit: "aq_commit_index request \<le> aq_prev_log_index request + length (aq_entries request)"
  shows "\<exists>r. handleAppendEntriesRequest ops e request s = Inr r"
proof (cases "aq_term request < lo_getCurrentTerm ops (rc_mLog s) \<or> rc_mRaftRole s = Syncer")
  case True
  then show ?thesis
    by (cases "aq_term request < lo_getCurrentTerm ops (rc_mLog s)")
      (simp_all add: handleAppendEntriesRequest_def Let_def)
next
  case False
  let ?step = "if aq_term request > lo_getCurrentTerm ops (rc_mLog s)
           \<or> (aq_term request = lo_getCurrentTerm ops (rc_mLog s) \<and> rc_mRaftRole s = Candidate)
        then stepDown ops e (aq_term request) s else Inr (s, [])"
  have "\<exists>r. ?step = Inr r"
    using stepDown_total[of ops s "aq_term request" e] by simp
  then obtain s1 out1 where step: "?step = Inr (s1, out1)" by (metis surj_pair)
  have le: "lo_getCurrentTerm ops (rc_mLog s) \<le> aq_term request" and "rc_mRaftRole s \<noteq> Syncer"
    using False by simp_all
  note s1 = accepted_state[OF inv this step]
  have "rc_mLeaderId s1 = 0 \<or> rc_mLeaderId s1 = aq_leader_id request"
    using s1(9) leader by auto
  then have lead: "\<exists>s2. ae_leader request (updateElectionTimePoint e s1) = Inr s2"
    by (auto simp: ae_leader_def)
  let ?s2 = "(updateElectionTimePoint e s1)\<lparr>rc_mLeaderId := aq_leader_id request\<rparr>"
  have inv2: "invar (rc_mLog ?s2)" using s1(1) by simp
  have "\<exists>r. ae_store ops e request resp ?s2 = Inr r" for resp
  proof -
    obtain b where b: "ae_logIsOk ops request ?s2 = Inr b"
      using logIsOk_total[OF inv2] by blast
    show ?thesis
    proof (cases b)
      case False
      with b show ?thesis by (simp add: ae_store_def)
    next
      case True
      with b have b: "ae_logIsOk ops request ?s2 = Inr True" by simp
      note prev = prev_in_log[OF inv2 b]
      from ae_loop[OF inv2 prev, of "aq_entries request"] idx agree s1(2,3,5) obtain l1 entries where
        f: "fold_res (ae_entry ops) (aq_entries request) (?s2, [], aq_prev_log_index request)
           = Inr (?s2\<lparr>rc_mLog := l1\<rparr>, entries, aq_prev_log_index request + length (aq_entries request))"
        and l1: "invar l1" "contents l1 @ entries
            = merge_entries (lo_getFirstLogIndex ops (rc_mLog ?s2)) (contents (rc_mLog ?s2)) (aq_entries request)"
          "lo_getFirstLogIndex ops l1 = lo_getFirstLogIndex ops (rc_mLog ?s2)" "suffix entries (aq_entries request)"
        by auto
      have "\<exists>s3. append_or_abort ops entries (?s2\<lparr>rc_mLog := l1\<rparr>) = Inr s3"
        using ae_rest_consecutive[OF inv2 prev idx l1(1-3)] fits_suffix[OF assms(5) l1(4)] l1(1)
        by (intro append_total) simp_all
      then obtain s3 where app: "append_or_abort ops entries (?s2\<lparr>rc_mLog := l1\<rparr>) = Inr s3" ..
      from append_result[OF _ app] l1(1) obtain l3 where s3: "s3 = ?s2\<lparr>rc_mLog := l3\<rparr>" "invar l3"
        "contents l3 = contents l1 @ entries" "lo_getFirstLogIndex ops l3 = lo_getFirstLogIndex ops l1"
        by auto
      have "Suc (aq_prev_log_index request) + length (aq_entries request)
          \<le> lo_getFirstLogIndex ops l3 + length (contents l3)"
        using merge_length[OF idx, of "lo_getFirstLogIndex ops (rc_mLog ?s2)" "contents (rc_mLog ?s2)"]
          prev last_index[OF inv2] s3 l1 by simp
      then have "aq_commit_index request \<le> lo_getLastLogIndex ops l3"
        using last_index[OF s3(2)] commit by simp
      then have "\<exists>s4. ae_commit ops request s3 = Inr s4"
        by (simp add: ae_commit_def s3(1))
      with b f app show ?thesis by (auto simp: ae_store_def)
    qed
  qed
  note store = this
  from lead have lead: "ae_leader request (updateElectionTimePoint e s1) = Inr ?s2"
    using ae_leader_shape by metis
  let ?resp = "(ae_prepare ops request s)\<lparr>ap_term := aq_term request\<rparr>"
  from store[of ?resp] obtain s3 resp where s3: "ae_store ops e request ?resp ?s2 = Inr (s3, resp)"
    by (metis surj_pair)
  have "handleAppendEntriesRequest ops e request s
    = raft_then ?step (\<lambda>s1. res_bind (ae_leader request (updateElectionTimePoint e s1))
        (\<lambda>s2. res_bind (ae_store ops e request ?resp s2) (\<lambda>(s3, resp2). Inr (s3, [Reply_AE Status_OK resp2]))))"
    using False by (simp add: handleAppendEntriesRequest_def Let_def)
  then show ?thesis unfolding step by (simp add: raft_then_def lead s3)
qed

end

lemma merged_agrees:
  assumes "indexed_from i es" and "i \<le> first + length log"
  shows "agrees_to commit first (merge_entries first log es) es"
proof -
  have "le_term e = le_term (merge_entries first log es ! (le_index e - first))"
    if "e \<in> set es" "first \<le> le_index e" for e
  proof -
    from that(1) obtain j where j: "j < length es" "e = es ! j" by (metis in_set_conv_nth)
    then have "le_index e = i + j" using indexed_from_nth[OF assms(1)] by simp
    with merge_holds[OF assms j(1)] j that(2) show ?thesis by simp
  qed
  then show ?thesis by (simp add: agrees_to_def)
qed

context raft_log
begin

text \<open>Delivering an accepted request again changes neither the log nor the commit index.\<close>

lemma ae_duplicate:
  assumes inv: "invar (rc_mLog s)" and run: "handleAppendEntriesRequest ops e request s = Inr (s', out)"
    and reply: "Reply_AE status resp \<in> set out" "ap_success resp" and "fits (aq_entries request)"
    and commit: "aq_commit_index request \<le> aq_prev_log_index request + length (aq_entries request)"
  shows "\<exists>s'' resp'. handleAppendEntriesRequest ops e' request s' = Inr (s'', [Reply_AE Status_OK resp'])
     \<and> ap_success resp' \<and> invar (rc_mLog s'') \<and> contents (rc_mLog s'') = contents (rc_mLog s')
     \<and> lo_getFirstLogIndex ops (rc_mLog s'') = lo_getFirstLogIndex ops (rc_mLog s')
     \<and> same_votes ops (rc_mLog s') (rc_mLog s'') \<and> rc_mCommitIndex s'' = rc_mCommitIndex s'"
proof -
  let ?f = "lo_getFirstLogIndex ops (rc_mLog s)" and ?prev = "aq_prev_log_index request"
  note ok = ae_success[OF inv run reply]
  then have inv': "invar (rc_mLog s')" and idx: "indexed_from (Suc ?prev) (aq_entries request)"
    and first: "lo_getFirstLogIndex ops (rc_mLog s') = ?f"
    and cont: "contents (rc_mLog s') = merge_entries ?f (contents (rc_mLog s)) (aq_entries request)"
    and trm: "lo_getCurrentTerm ops (rc_mLog s') = aq_term request"
    and role: "rc_mRaftRole s' \<noteq> Syncer" "rc_mRaftRole s' \<noteq> Candidate"
    and lead: "rc_mLeaderId s' = aq_leader_id request"
    and com: "rc_mCommitIndex s' = max (rc_mCommitIndex s) (aq_commit_index request)"
    by blast+
  have len: "Suc ?prev \<le> ?f + length (contents (rc_mLog s))"
    using ok last_index[OF inv] by auto
  have agree: "agrees_to (rc_mCommitIndex s') ?f (contents (rc_mLog s')) (aq_entries request)"
    unfolding cont by (rule merged_agrees[OF idx len])
  obtain s'' out'' where run': "handleAppendEntriesRequest ops e' request s' = Inr (s'', out'')"
    using ae_total[OF inv' _ idx _ assms(5) commit, of e'] agree first lead by fastforce
  show ?thesis
  proof (cases rule: handleAE_cases[OF run'])
    case 1
    with trm role show ?thesis by simp
  next
    case (2 s1 out1 resp')
    with trm role have s1: "s1 = s'" "out1 = []" by simp_all
    let ?s2 = "(updateElectionTimePoint e' s1)\<lparr>rc_mLeaderId := aq_leader_id request\<rparr>"
    have inv2: "invar (rc_mLog ?s2)" using inv' s1 by simp
    show ?thesis
    proof (cases rule: ae_store_cases[OF inv2 2(5)])
      case 1
      have "?prev \<le> lo_getLastLogIndex ops (rc_mLog s')"
        using merge_length[OF idx len] last_index[OF inv'] first cont by simp
      moreover have "le_term (entry_at ops contents (rc_mLog s') ?prev) = aq_prev_log_term request" if "?f \<le> ?prev"
      proof -
        have "take (Suc (?prev - ?f)) (contents (rc_mLog s')) = take (Suc (?prev - ?f)) (contents (rc_mLog s))"
          unfolding cont using merge_keeps_prefix[OF idx] that len by simp
        from take_nth[OF this lessI] ok that first show ?thesis
          by (auto simp: entry_at_def)
      qed
      ultimately have "ae_logIsOk ops request ?s2 = Inr True"
        using term_at[OF inv2, of ?prev] s1 first by (auto simp: ae_logIsOk_def entry_at_def not_less)
      with 1 show ?thesis by simp
    next
      case (2 l')
      note st = this
      have "contents l' = contents (rc_mLog s')"
        using st(6) s1 first merge_idempotent[OF idx len] by (simp add: cont)
      moreover have "out'' = [Reply_AE Status_OK resp']" using \<open>out'' = _\<close> s1 by simp
      ultimately show ?thesis
        using run' st s1 com by auto
    qed
  qed
qed

end

section \<open>Properties\<close>

text \<open>A node of a cluster of three that follows node 2 and has one committed and one uncommitted entry, and a
  leader that replaces the latter.\<close>

definition sample_entry :: "nat \<Rightarrow> nat \<Rightarrow> LogEntry" where
  "sample_entry index trm = (dummy_entry 0)\<lparr>le_term := trm, le_index := index, le_payload := ''x''\<rparr>"

definition sample_node :: "mem_log raft_core" where
  "sample_node =
     \<lparr>rc_mMaxBatchSize = 10, rc_mMaxLenInBytes = 1000, rc_mMaxDecrStep = 5,
      rc_mPeers = [(2, Peer_new\<lparr>pe_mId := 2\<rparr>), (3, Peer_new\<lparr>pe_mId := 3\<rparr>)], rc_selfId = 1,
      rc_selfAddress = ''a:1'', rc_mLeaderId = 2, rc_mElectionTimePointInNano = 5000,
      rc_mCommitIndex = 1, rc_mBeginIndex = 1, rc_mRaftRole = Follower,
      rc_mLog = \<lparr>ml_mLog = [sample_entry 1 1, sample_entry 2 1], ml_mFirstIndex = 1, ml_mLastIndex = 2,
                 ml_mTerm = 1, ml_mVoteFor = 2\<rparr>,
      rc_mPendingClientRequests = [], rc_mAeRvQueue = [], rc_mClientRequestsQueue = [], rc_mClients = [2, 3]\<rparr>"

definition sample_request :: AE_req where
  "sample_request =
     \<lparr>aq_term = 2, aq_leader_id = 3, aq_prev_log_index = 1, aq_prev_log_term = 1, aq_commit_index = 2,
      aq_entries = [sample_entry 2 2, sample_entry 3 2]\<rparr>"

definition sample_env :: env where
  "sample_env = \<lparr>env_now = 1000, env_timeout = 1500\<rparr>"

definition sample_acts :: "raft_action list" where
  "sample_acts = [Do_deliver (AppendEntriesRequest sample_request), Do_receiveMessage sample_env]"

definition result_of :: "'a \<Rightarrow> ('a \<times> 'b) res \<Rightarrow> 'a" where
  "result_of d r = (case r of Inl e \<Rightarrow> d | Inr (x, y) \<Rightarrow> x)"

definition sample_ops :: "mem_log log_ops" where
  "sample_ops = mem_ops (\<lambda>e. 10) 0"

lemmas sample_defs = sample_entry_def dummy_entry_def sample_node_def sample_request_def sample_env_def
  sample_acts_def sample_ops_def result_of_def mem_ops_def Peer_new_def

text \<open>
  C3. What a node has committed never changes. Over any run of a node (any interleaving of the steps of
  its main loop with messages, client requests, sync requests and prefix truncations), the commit index
  does not decrease, stays within the log, and every entry up to the commit index that has not been cut
  off by a prefix truncation is the same at the end as at the start.
\<close>

theorem committed_entries_never_change:
  assumes "mem_ok (rc_mLog s)" and "rc_mCommitIndex s \<le> ml_mLastIndex (rc_mLog s)"
    and "raft_run (mem_ops byteSize sv) acts s = Inr (s', out)"
  shows "rc_mCommitIndex s \<le> rc_mCommitIndex s' \<and> rc_mCommitIndex s' \<le> ml_mLastIndex (rc_mLog s')
    \<and> mem_ok (rc_mLog s')
    \<and> (\<forall>i. ml_mFirstIndex (rc_mLog s') \<le> i \<and> i \<le> rc_mCommitIndex s
         \<longrightarrow> mem_getEntry sv i (rc_mLog s') = mem_getEntry sv i (rc_mLog s))"
proof -
  have "node_ok (mem_ops byteSize sv) mem_ok s"
    using assms(1,2) by (simp add: node_ok_def mem_ops_def)
  from mem_raft_log.raft_run_moves[OF this assms(3)]
  have ok: "mem_ok (rc_mLog s')" "rc_mCommitIndex s' \<le> ml_mLastIndex (rc_mLog s')"
    and adv: "advances (mem_ops byteSize sv) ml_mLog s s'"
    by (auto simp: moves_def node_ok_def mem_ops_def)
  have "mem_getEntry sv i (rc_mLog s') = mem_getEntry sv i (rc_mLog s)"
    if "ml_mFirstIndex (rc_mLog s') \<le> i" "i \<le> rc_mCommitIndex s" for i
    using that adv ok assms(1,2)
    by (auto simp: mem_getEntry_def advances_def entry_at_def mem_ops_def)
  with ok adv show ?thesis by (simp add: advances_def)
qed

lemma sample_run_returns:
  "case raft_run sample_ops sample_acts sample_node of
     Inl e \<Rightarrow> False
   | Inr (s', out) \<Rightarrow> rc_mCommitIndex s' = 2 \<and> ml_mFirstIndex (rc_mLog s') = 1
       \<and> ml_mLog (rc_mLog s') = [sample_entry 1 1, sample_entry 2 2, sample_entry 3 2]"
  by code_simp

theorem committed_entries_never_change_witness:
  "\<exists>s' out. raft_run sample_ops sample_acts sample_node = Inr (s', out)
     \<and> rc_mCommitIndex s' = 2 \<and> mem_getEntry 0 1 (rc_mLog s') = mem_getEntry 0 1 (rc_mLog sample_node)"
proof -
  obtain s' out where run: "raft_run sample_ops sample_acts sample_node = Inr (s', out)"
    and res: "rc_mCommitIndex s' = 2" "ml_mFirstIndex (rc_mLog s') = 1"
    using sample_run_returns by (auto split: sum.splits prod.splits)
  have "mem_ok (rc_mLog sample_node)" "rc_mCommitIndex sample_node \<le> ml_mLastIndex (rc_mLog sample_node)"
    by (simp_all add: mem_ok_def sample_defs)
  from committed_entries_never_change[OF this, of "\<lambda>e. 10" 0 sample_acts s' out] run res
  have "mem_getEntry 0 1 (rc_mLog s') = mem_getEntry 0 1 (rc_mLog sample_node)"
    by (simp add: sample_ops_def sample_node_def)
  with run res show ?thesis by blast
qed


text \<open>
  C24. A node votes for at most one candidate in a term. Over any run of a node that is not in the sync
  phase, two votes it casts in the same term, for itself at an election timeout or for others by granting
  a vote request, are for the same candidate. Candidate ids are non-zero, as the code requires of them.
\<close>

theorem node_votes_once_per_term:
  assumes "mem_ok (rc_mLog s)" and "rc_mCommitIndex s \<le> ml_mLastIndex (rc_mLog s)"
    and "rc_mRaftRole s \<noteq> Syncer"
    and "\<forall>(t, c) \<in> set (run_votes (mem_ops byteSize sv) acts s). c \<noteq> 0"
    and "(t, c) \<in> set (run_votes (mem_ops byteSize sv) acts s)"
    and "(t, c') \<in> set (run_votes (mem_ops byteSize sv) acts s)"
  shows "c = c'"
proof -
  have "node_ok (mem_ops byteSize sv) mem_ok s"
    using assms(1,2) by (simp add: node_ok_def mem_ops_def)
  then show ?thesis by (rule mem_raft_log.one_vote_per_term[OF _ assms(3-6)])
qed

definition sample_vote :: "nat \<Rightarrow> RV_req" where
  "sample_vote candidate =
     \<lparr>vq_term = 5, vq_candidate_id = candidate, vq_last_log_index = 7, vq_last_log_term = 4, vq_create_time = 0\<rparr>"

definition sample_votes :: "raft_action list" where
  "sample_votes =
     [Do_deliver (RequestVoteRequest (sample_vote 2)), Do_deliver (RequestVoteRequest (sample_vote 3)),
      Do_deliver (RequestVoteRequest (sample_vote 2)), Do_receiveMessage sample_env,
      Do_receiveMessage sample_env, Do_receiveMessage sample_env]"

lemma sample_votes_cast: "run_votes sample_ops sample_votes sample_node = [(5, 2), (5, 2)]"
  by code_simp

theorem node_votes_once_per_term_witness:
  "(5, 2) \<in> set (run_votes sample_ops sample_votes sample_node)
   \<and> (5, 3) \<notin> set (run_votes sample_ops sample_votes sample_node)"
proof -
  have ok: "mem_ok (rc_mLog sample_node)" "rc_mCommitIndex sample_node \<le> ml_mLastIndex (rc_mLog sample_node)"
    "rc_mRaftRole sample_node \<noteq> Syncer"
    by (simp_all add: mem_ok_def sample_defs)
  have "\<forall>(t, c) \<in> set (run_votes sample_ops sample_votes sample_node). c \<noteq> 0"
    and two: "(5, 2) \<in> set (run_votes sample_ops sample_votes sample_node)"
    using sample_votes_cast by simp_all
  from node_votes_once_per_term[OF ok this(1)[unfolded sample_ops_def] two[unfolded sample_ops_def], of 3]
  have "(5, 3) \<in> set (run_votes sample_ops sample_votes sample_node) \<Longrightarrow> False"
    by (simp add: sample_ops_def)
  with two show ?thesis by blast
qed

text \<open>
  C25. The AppendEntries handler computes the reference merge. When a follower answers a request with
  success, its log is the merge of the request's entries into the old log, it holds the request's entry
  (by term) at every index of the request that has not been cut off, the reported match and last indices
  are those of the new log, and the commit index is the larger of its own and the leader's.
\<close>

theorem append_entries_is_the_reference_merge:
  assumes "mem_ok (rc_mLog s)"
    and "handleAppendEntriesRequest (mem_ops byteSize sv) e request s = Inr (s', out)"
    and "Reply_AE status resp \<in> set out" and "ap_success resp"
  shows "ml_mLog (rc_mLog s')
      = merge_entries (ml_mFirstIndex (rc_mLog s)) (ml_mLog (rc_mLog s)) (aq_entries request)
    \<and> (\<forall>j < length (aq_entries request). ml_mFirstIndex (rc_mLog s) \<le> aq_prev_log_index request + 1 + j
         \<longrightarrow> mem_getTerm (aq_prev_log_index request + 1 + j) (rc_mLog s') = Some (le_term (aq_entries request ! j)))
    \<and> ap_match_index resp = aq_prev_log_index request + length (aq_entries request)
    \<and> ap_last_log_index resp = ml_mLastIndex (rc_mLog s')
    \<and> rc_mCommitIndex s' = max (rc_mCommitIndex s) (aq_commit_index request)"
proof -
  let ?i = "Suc (aq_prev_log_index request)"
  note ok = mem_raft_log.ae_success[OF assms, unfolded mem_ops_def, simplified]
  then have idx: "indexed_from ?i (aq_entries request)" and ok': "mem_ok (rc_mLog s')"
    and log: "ml_mLog (rc_mLog s')
      = merge_entries (ml_mFirstIndex (rc_mLog s)) (ml_mLog (rc_mLog s)) (aq_entries request)"
    and first: "ml_mFirstIndex (rc_mLog s') = ml_mFirstIndex (rc_mLog s)"
    by blast+
  have len: "?i \<le> ml_mFirstIndex (rc_mLog s) + length (ml_mLog (rc_mLog s))"
    using ok assms(1) by (simp add: mem_ok_def)
  have "mem_getTerm (?i + j) (rc_mLog s') = Some (le_term (aq_entries request ! j))"
    if "j < length (aq_entries request)" "ml_mFirstIndex (rc_mLog s) \<le> ?i + j" for j
    using merge_length[OF idx len] merge_holds[OF idx len that] that ok' first
    by (auto simp: mem_getTerm_def mem_ok_def log)
  with ok show ?thesis by auto
qed

lemma sample_request_accepted:
  "case handleAppendEntriesRequest sample_ops sample_env sample_request sample_node of
     Inl e \<Rightarrow> False
   | Inr (s', out) \<Rightarrow> ml_mLog (rc_mLog s') = [sample_entry 1 1, sample_entry 2 2, sample_entry 3 2]
       \<and> out = [Reply_AE Status_OK \<lparr>ap_term = 2, ap_success = True, ap_id = 1, ap_saved_term = 2,
           ap_saved_prev_log_index = 1, ap_last_log_index = 3, ap_match_index = 3\<rparr>]"
  by code_simp

lemma sample_ok: "mem_ok (rc_mLog sample_node)"
  by (simp add: mem_ok_def sample_defs)

theorem append_entries_is_the_reference_merge_witness:
  "\<exists>s' out. handleAppendEntriesRequest sample_ops sample_env sample_request sample_node = Inr (s', out)
     \<and> mem_getTerm 3 (rc_mLog s') = Some 2 \<and> rc_mCommitIndex s' = 2"
proof -
  obtain s' out resp where run: "handleAppendEntriesRequest sample_ops sample_env sample_request sample_node = Inr (s', out)"
    and out: "Reply_AE Status_OK resp \<in> set out" "ap_success resp"
    using sample_request_accepted by (auto split: sum.splits prod.splits)
  from append_entries_is_the_reference_merge[OF sample_ok, of "\<lambda>e. 10" 0 sample_env sample_request s' out Status_OK resp]
    run out
  have "mem_getTerm (1 + 1 + 1) (rc_mLog s') = Some (le_term (aq_entries sample_request ! 1)) \<and> rc_mCommitIndex s' = 2"
    by (auto simp: sample_ops_def sample_request_def sample_node_def)
  with run show ?thesis by (simp add: sample_request_def sample_entry_def numeral_3_eq_3)
qed


text \<open>
  C26. A follower handles every well-formed AppendEntries request without stopping. Let the log of the node
  meet its invariant. If the node knows no leader, or the request names the leader it knows, or is of a later
  term, if the entries of the request are consecutive from the index after the previous one and agree with
  what the node has committed, and if the leader's commit index is at most the previous index plus the number
  of the entries, then none of the handler's assertions fails and the node replies.
\<close>

theorem append_entries_never_aborts:
  assumes "mem_ok (rc_mLog s)"
    and "rc_mLeaderId s = 0 \<or> rc_mLeaderId s = aq_leader_id request \<or> ml_mTerm (rc_mLog s) < aq_term request"
    and "indexed_from (Suc (aq_prev_log_index request)) (aq_entries request)"
    and "agrees_to (rc_mCommitIndex s) (ml_mFirstIndex (rc_mLog s)) (ml_mLog (rc_mLog s)) (aq_entries request)"
    and "aq_commit_index request \<le> aq_prev_log_index request + length (aq_entries request)"
  shows "\<exists>s' out status resp. handleAppendEntriesRequest (mem_ops byteSize sv) e request s = Inr (s', out)
    \<and> Reply_AE status resp \<in> set out"
proof -
  have "\<exists>r. handleAppendEntriesRequest (mem_ops byteSize sv) e request s = Inr r"
    by (rule mem_raft_log.ae_total) (use assms in \<open>simp_all add: mem_ops_def\<close>)
  then obtain s' out where run: "handleAppendEntriesRequest (mem_ops byteSize sv) e request s = Inr (s', out)"
    by (metis surj_pair)
  then have "\<exists>status resp. Reply_AE status resp \<in> set out"
    by (cases rule: handleAE_cases) auto
  with run show ?thesis by blast
qed

theorem append_entries_never_aborts_witness:
  "\<exists>s' out status resp. handleAppendEntriesRequest sample_ops sample_env sample_request sample_node = Inr (s', out)
    \<and> Reply_AE status resp \<in> set out"
  unfolding sample_ops_def
  by (rule append_entries_never_aborts[OF sample_ok]) (simp_all add: sample_defs)

text \<open>
  C27. A request delivered twice does no harm. After a request was answered with success, handling the same
  request again succeeds again and leaves the log (its entries, term and vote) and the commit index as they
  are.
\<close>

theorem duplicate_append_entries_is_harmless:
  assumes "mem_ok (rc_mLog s)"
    and "handleAppendEntriesRequest (mem_ops byteSize sv) e request s = Inr (s', out)"
    and "Reply_AE status resp \<in> set out" and "ap_success resp"
    and "aq_commit_index request \<le> aq_prev_log_index request + length (aq_entries request)"
  shows "\<exists>s'' resp'. handleAppendEntriesRequest (mem_ops byteSize sv) e' request s' = Inr (s'', [Reply_AE Status_OK resp'])
    \<and> ap_success resp' \<and> rc_mLog s'' = rc_mLog s' \<and> rc_mCommitIndex s'' = rc_mCommitIndex s'"
proof -
  have ok': "mem_ok (rc_mLog s')"
    using mem_raft_log.ae_success[OF assms(1-4)] by blast
  from mem_raft_log.ae_duplicate[OF assms(1-4) TrueI assms(5), of e'] obtain s'' resp' where
    r: "handleAppendEntriesRequest (mem_ops byteSize sv) e' request s' = Inr (s'', [Reply_AE Status_OK resp'])"
      "ap_success resp'" "mem_ok (rc_mLog s'')" "ml_mLog (rc_mLog s'') = ml_mLog (rc_mLog s')"
      "ml_mFirstIndex (rc_mLog s'') = ml_mFirstIndex (rc_mLog s')" "ml_mTerm (rc_mLog s'') = ml_mTerm (rc_mLog s')"
      "ml_mVoteFor (rc_mLog s'') = ml_mVoteFor (rc_mLog s')" "rc_mCommitIndex s'' = rc_mCommitIndex s'"
    by (auto simp: same_votes_def mem_ops_def)
  moreover have "ml_mLastIndex (rc_mLog s'') = ml_mLastIndex (rc_mLog s')"
    using r(3,4,5) ok' by (simp add: mem_ok_def)
  ultimately show ?thesis by auto
qed

theorem duplicate_append_entries_is_harmless_witness:
  "\<exists>s' out s'' resp'. handleAppendEntriesRequest sample_ops sample_env sample_request sample_node = Inr (s', out)
    \<and> handleAppendEntriesRequest sample_ops sample_env sample_request s' = Inr (s'', [Reply_AE Status_OK resp'])
    \<and> ap_success resp' \<and> rc_mLog s'' = rc_mLog s' \<and> rc_mCommitIndex s'' = rc_mCommitIndex s'"
proof -
  obtain s' out resp where run: "handleAppendEntriesRequest sample_ops sample_env sample_request sample_node = Inr (s', out)"
    and out: "Reply_AE Status_OK resp \<in> set out" "ap_success resp"
    using sample_request_accepted by (auto split: sum.splits prod.splits)
  have "aq_commit_index sample_request \<le> aq_prev_log_index sample_request + length (aq_entries sample_request)"
    by (simp add: sample_request_def)
  from duplicate_append_entries_is_harmless[OF sample_ok run[unfolded sample_ops_def] out this, of sample_env] run
  show ?thesis unfolding sample_ops_def by blast
qed

end
