(* ===== verification/Raft_Leader.thy ===== *)
theory Raft_Leader
  imports Raft_Safety
begin

text \<open>
  The leader's side of one node: a commit index that advances is stored by a majority in the current
  term, the search for the point where a follower's log agrees comes to an end, and every client
  request is answered at most once.
\<close>

section \<open>Majorities\<close>

lemma majority_value_stored:
  assumes "xs \<noteq> []"
  shows "getMajorityNumber (length xs) \<le> length (filter (\<lambda>x. majority_value xs \<le> x) xs)"
proof -
  let ?ys = "rev (sort xs)" and ?k = "length xs div 2"
  have k: "?k < length ?ys" using assms by (cases xs) auto
  have sorted: "sorted_wrt (\<ge>) ?ys"
    by (simp add: sorted_wrt_rev)
  have "?ys ! ?k \<le> ?ys ! i" if "i \<le> ?k" for i
    using sorted_wrt_nth_less[OF sorted, of i ?k] that k by (cases "i = ?k") auto
  then have "list_all (\<lambda>x. majority_value xs \<le> x) (take (Suc ?k) ?ys)"
    using k by (auto simp: list_all_length majority_value_def)
  then have "filter (\<lambda>x. majority_value xs \<le> x) (take (Suc ?k) ?ys) = take (Suc ?k) ?ys"
    by (simp add: list_all_iff)
  moreover have "length (take (Suc ?k) ?ys) = Suc ?k" using k by simp
  moreover have "length (filter P (take n zs)) \<le> length (filter P zs)" for P n and zs :: "nat list"
    by (metis append_take_drop_id filter_append le_add1 length_append)
  ultimately have "Suc ?k \<le> length (filter (\<lambda>x. majority_value xs \<le> x) ?ys)"
    by metis
  also have "\<dots> = size (filter_mset (\<lambda>x. majority_value xs \<le> x) (mset ?ys))"
    by (simp add: mset_filter flip: size_mset)
  also have "\<dots> = length (filter (\<lambda>x. majority_value xs \<le> x) xs)"
    by (simp flip: mset_filter)
  finally show ?thesis by (simp add: getMajorityNumber_def)
qed

text \<open>It is the largest value a majority reaches.\<close>

lemma majority_value_largest:
  assumes "xs \<noteq> []" and "getMajorityNumber (length xs) \<le> length (filter (\<lambda>x. n \<le> x) xs)"
  shows "n \<le> majority_value xs"
proof (rule ccontr)
  assume "\<not> n \<le> majority_value xs"
  then have less: "majority_value xs < n" by simp
  let ?ys = "rev (sort xs)" and ?k = "length xs div 2"
  have k: "?k < length ?ys" using assms by (cases xs) auto
  have sorted: "sorted_wrt (\<ge>) ?ys" by (simp add: sorted_wrt_rev)
  have "?ys ! i < n" if "?k \<le> i" "i < length ?ys" for i
    using sorted_wrt_nth_less[OF sorted, of ?k i] that less by (cases "i = ?k") (auto simp: majority_value_def)
  then have "filter (\<lambda>x. n \<le> x) (drop ?k ?ys) = []"
    using k by (auto simp: filter_empty_conv in_set_conv_nth not_le)
  then have "filter (\<lambda>x. n \<le> x) ?ys = filter (\<lambda>x. n \<le> x) (take ?k ?ys)"
    by (metis append_take_drop_id filter_append append_Nil2)
  then have "length (filter (\<lambda>x. n \<le> x) ?ys) \<le> ?k"
    by (metis length_filter_le length_take min.absorb2 k less_imp_le_nat)
  moreover have "length (filter (\<lambda>x. n \<le> x) ?ys) = length (filter (\<lambda>x. n \<le> x) xs)"
    by (metis mset_filter mset_rev mset_sort size_mset)
  ultimately show False using assms(2) by (simp add: getMajorityNumber_def)
qed


text \<open>The last index known to be stored, per server: the leader's own log and what each peer confirmed.\<close>

definition stored_indices :: "'l log_ops \<Rightarrow> 'l raft_core \<Rightarrow> nat list" where
  "stored_indices ops s = lo_getLastLogIndex ops (rc_mLog s) # map (pe_mMatchIndex \<circ> snd) (rc_mPeers s)"

lemma advanceCommitIndex_cases:
  assumes "advanceCommitIndex ops s = Inr (s', out)"
  obtains (unchanged) "s' = s" "out = []"
  | (advanced) "rc_mRaftRole s = Leader" "rc_mCommitIndex s < majority_value (stored_indices ops s)"
      "termOfLogEntryAt ops (majority_value (stored_indices ops s)) s = Inr (lo_getCurrentTerm ops (rc_mLog s))"
      "majority_value (stored_indices ops s) \<le> lo_getLastLogIndex ops (rc_mLog s)"
      "s' = s\<lparr>rc_mCommitIndex := majority_value (stored_indices ops s),
             rc_mPendingClientRequests := dropWhile (\<lambda>(i, h). i \<le> majority_value (stored_indices ops s)) (rc_mPendingClientRequests s)\<rparr>"
      "out = pending_replies 200 ''Success'' (rc_mLeaderId s)
               (takeWhile (\<lambda>(i, h). i \<le> majority_value (stored_indices ops s)) (rc_mPendingClientRequests s))"
proof (cases "rc_mRaftRole s = Leader \<and> rc_mCommitIndex s < majority_value (stored_indices ops s)
    \<and> termOfLogEntryAt ops (majority_value (stored_indices ops s)) s = Inr (lo_getCurrentTerm ops (rc_mLog s))")
  case True
  show ?thesis
    by (rule advanced)
      (use True assms in \<open>auto simp: advanceCommitIndex_def Let_def res_bind_eq_Inr simp flip: stored_indices_def\<close>)
next
  case False
  have "s' = s \<and> out = []"
    using False assms
    by (auto simp: advanceCommitIndex_def Let_def res_bind_eq_Inr not_le split: if_splits simp flip: stored_indices_def)
  then show ?thesis using unchanged by blast
qed

text \<open>The replies to a list of pending requests, and a list in the order of its indices cut at an index.\<close>

lemma pending_replies_map:
  "pending_replies code m l ps = map (\<lambda>h. Reply_Client h code m l) (List.map_filter snd ps)"
  by (induction ps) (auto simp: pending_replies_def List.map_filter_def split: option.splits)

lemma sorted_cut:
  assumes "sorted (map fst (ps :: (nat \<times> 'a) list))"
  shows "takeWhile (\<lambda>(i, h). i \<le> m) ps = filter (\<lambda>p. fst p \<le> m) ps \<and> dropWhile (\<lambda>(i, h). i \<le> m) ps = filter (\<lambda>p. m < fst p) ps"
  using assms
proof (induction ps)
  case (Cons p ps)
  show ?case
  proof (cases "fst p \<le> m")
    case True
    then show ?thesis using Cons by (simp add: case_prod_beta)
  next
    case False
    then have "\<forall>q \<in> set (p # ps). m < fst q" using Cons.prems by fastforce
    then have "filter (\<lambda>q. fst q \<le> m) (p # ps) = []" "filter (\<lambda>q. m < fst q) (p # ps) = p # ps"
      by (auto simp only: filter_empty_conv filter_id_conv not_le)
    then show ?thesis using False by (simp add: case_prod_beta)
  qed
qed simp

text \<open>
  C4. A leader commits only what a majority stores, in its own term. When the commit index moves, the node is
  leader, the new index is larger, within its log, and carries an entry of the current term, at least
  a majority of the servers (itself included) are known to store the log up to it, and no larger index has
  that majority. The clients answered with success are exactly those of the longest initial part of the
  pending list that is committed, in its order, one reply for each request that has a handle, and that part
  is removed from the list. Where the list is in the order of its indices, as \<open>handleClientRequests\<close> fills it,
  these are exactly the pending requests up to the new commit index, and those that stay are exactly the
  ones after it.
\<close>

theorem commit_needs_a_majority_of_the_current_term:
  assumes "advanceCommitIndex ops s = Inr (s', out)" and "rc_mCommitIndex s' \<noteq> rc_mCommitIndex s"
  shows "rc_mRaftRole s = Leader \<and> rc_mCommitIndex s < rc_mCommitIndex s'
    \<and> rc_mCommitIndex s' \<le> lo_getLastLogIndex ops (rc_mLog s)
    \<and> lo_getTerm ops (rc_mCommitIndex s') (rc_mLog s) = Some (lo_getCurrentTerm ops (rc_mLog s))
    \<and> getMajorityNumber (length (rc_mPeers s) + 1)
        \<le> length (filter (\<lambda>i. rc_mCommitIndex s' \<le> i) (stored_indices ops s))
    \<and> (\<forall>n > rc_mCommitIndex s'. length (filter (\<lambda>i. n \<le> i) (stored_indices ops s))
         < getMajorityNumber (length (rc_mPeers s) + 1))
    \<and> (\<forall>r \<in> set out. \<exists>i h. (i, Some h) \<in> set (rc_mPendingClientRequests s) \<and> i \<le> rc_mCommitIndex s'
         \<and> r = Reply_Client h 200 ''Success'' (rc_mLeaderId s))
    \<and> (rc_mPendingClientRequests s' = [] \<or> rc_mCommitIndex s' < fst (hd (rc_mPendingClientRequests s')))
    \<and> (\<exists>answered. rc_mPendingClientRequests s = answered @ rc_mPendingClientRequests s'
         \<and> (\<forall>p \<in> set answered. fst p \<le> rc_mCommitIndex s')
         \<and> out = map (\<lambda>h. Reply_Client h 200 ''Success'' (rc_mLeaderId s)) (List.map_filter snd answered))
    \<and> (sorted (map fst (rc_mPendingClientRequests s)) \<longrightarrow>
         out = map (\<lambda>h. Reply_Client h 200 ''Success'' (rc_mLeaderId s))
                 (List.map_filter snd (filter (\<lambda>p. fst p \<le> rc_mCommitIndex s') (rc_mPendingClientRequests s)))
         \<and> rc_mPendingClientRequests s' = filter (\<lambda>p. rc_mCommitIndex s' < fst p) (rc_mPendingClientRequests s))"
proof (cases rule: advanceCommitIndex_cases[OF assms(1)])
  case 1
  with assms(2) show ?thesis by simp
next
  case 2
  let ?m = "majority_value (stored_indices ops s)"
  have ne: "stored_indices ops s \<noteq> []" and len: "length (stored_indices ops s) = length (rc_mPeers s) + 1"
    by (simp_all add: stored_indices_def)
  have m: "rc_mCommitIndex s' = ?m" using 2(5) by simp
  have trm: "lo_getTerm ops ?m (rc_mLog s) = Some (lo_getCurrentTerm ops (rc_mLog s))"
    using 2(3) by (simp add: termOfLogEntryAt_def split: option.splits)
  have "length (filter (\<lambda>i. n \<le> i) (stored_indices ops s)) < getMajorityNumber (length (rc_mPeers s) + 1)"
    if "?m < n" for n
    using majority_value_largest[OF ne, of n] that len by (metis not_le)
  moreover have "\<exists>i h. (i, Some h) \<in> set (rc_mPendingClientRequests s) \<and> i \<le> ?m
         \<and> r = Reply_Client h 200 ''Success'' (rc_mLeaderId s)" if "r \<in> set out" for r
    using that unfolding 2(6) pending_replies_def
    by (auto split: option.splits dest!: set_takeWhileD)
  moreover have "rc_mPendingClientRequests s' = [] \<or> ?m < fst (hd (rc_mPendingClientRequests s'))"
    using 2(5) hd_dropWhile[of "\<lambda>(i, h). i \<le> ?m" "rc_mPendingClientRequests s"] by fastforce
  moreover have "\<exists>answered. rc_mPendingClientRequests s = answered @ rc_mPendingClientRequests s'
       \<and> (\<forall>p \<in> set answered. fst p \<le> ?m)
       \<and> out = map (\<lambda>h. Reply_Client h 200 ''Success'' (rc_mLeaderId s)) (List.map_filter snd answered)"
    using 2(5) unfolding 2(6) pending_replies_map
    by (intro exI[of _ "takeWhile (\<lambda>(i, h). i \<le> ?m) (rc_mPendingClientRequests s)"]) (auto dest: set_takeWhileD)
  moreover have "sorted (map fst (rc_mPendingClientRequests s)) \<longrightarrow>
       out = map (\<lambda>h. Reply_Client h 200 ''Success'' (rc_mLeaderId s))
               (List.map_filter snd (filter (\<lambda>p. fst p \<le> ?m) (rc_mPendingClientRequests s)))
       \<and> rc_mPendingClientRequests s' = filter (\<lambda>p. ?m < fst p) (rc_mPendingClientRequests s)"
    using 2(5) sorted_cut[of "rc_mPendingClientRequests s" ?m] unfolding 2(6) pending_replies_map by simp
  ultimately show ?thesis
    using 2(1,2,4) m trm majority_value_stored[OF ne] len by simp
qed

definition sample_leader :: "mem_log raft_core" where
  "sample_leader =
     sample_node\<lparr>rc_mRaftRole := Leader, rc_mLeaderId := 0,
       rc_mPeers := [(2, Peer_new\<lparr>pe_mId := 2, pe_mMatchIndex := 2, pe_mNextIndex := 3\<rparr>),
                     (3, Peer_new\<lparr>pe_mId := 3, pe_mMatchIndex := 0, pe_mNextIndex := 3\<rparr>)],
       rc_mPendingClientRequests := [(2, Some 7)]\<rparr>"

lemma sample_leader_commits:
  "case advanceCommitIndex sample_ops sample_leader of
     Inl e \<Rightarrow> False
   | Inr (s', out) \<Rightarrow> rc_mCommitIndex s' = 2 \<and> out = [Reply_Client 7 200 ''Success'' 0] \<and> rc_mPendingClientRequests s' = []"
  by code_simp

theorem commit_needs_a_majority_of_the_current_term_witness:
  "\<exists>s' out. advanceCommitIndex sample_ops sample_leader = Inr (s', out)
     \<and> rc_mCommitIndex s' = 2 \<and> 2 \<le> length (filter (\<lambda>i. 2 \<le> i) (stored_indices sample_ops sample_leader))
     \<and> sorted (map fst (rc_mPendingClientRequests sample_leader)) \<and> out = [Reply_Client 7 200 ''Success'' 0]"
proof -
  obtain s' out where run: "advanceCommitIndex sample_ops sample_leader = Inr (s', out)" and two: "rc_mCommitIndex s' = 2"
    using sample_leader_commits by (auto split: sum.splits prod.splits)
  have "rc_mCommitIndex s' \<noteq> rc_mCommitIndex sample_leader" using two by (simp add: sample_leader_def sample_node_def)
  from commit_needs_a_majority_of_the_current_term[OF run this] two
  have "getMajorityNumber (length (rc_mPeers sample_leader) + 1)
      \<le> length (filter (\<lambda>i. 2 \<le> i) (stored_indices sample_ops sample_leader))"
    and "sorted (map fst (rc_mPendingClientRequests sample_leader)) \<longrightarrow> out = map (\<lambda>h. Reply_Client h 200 ''Success'' (rc_mLeaderId sample_leader))
        (List.map_filter snd (filter (\<lambda>p. fst p \<le> 2) (rc_mPendingClientRequests sample_leader)))" by simp_all
  then show ?thesis using run two by (simp add: sample_leader_def getMajorityNumber_def List.map_filter_def)
qed


section \<open>Finding the agreement point\<close>

lemma peer_of_put_peer: "peer_of (put_peer i p s) j = (if j = i then p else peer_of s j)"
  by (simp add: peer_of_def put_peer_def dict_simps)

text \<open>
  C28. The search for the index where a follower's log agrees comes to an end. Every rejection that
  belongs to the last request sent to a peer moves the peer's next index strictly down, and it stays
  above the peer's match index, so the distance between the two strictly decreases and stays positive; the
  match index and the other peers are untouched. (The step limit is not zero: the constructor asserts
  it.)
\<close>

theorem rejections_terminate:
  assumes "handleAppendEntriesResponse ops e response s = Inr (s', out)"
    and "ap_saved_term response = lo_getCurrentTerm ops (rc_mLog s)"
    and "ap_term response \<le> lo_getCurrentTerm ops (rc_mLog s)"
    and "ap_saved_prev_log_index response = pe_mNextIndex (peer_of s (ap_id response)) - 1"
    and "\<not> ap_success response" and "rc_mMaxDecrStep s \<noteq> 0"
  shows "pe_mMatchIndex (peer_of s' (ap_id response)) = pe_mMatchIndex (peer_of s (ap_id response))
    \<and> pe_mNextIndex (peer_of s' (ap_id response)) < pe_mNextIndex (peer_of s (ap_id response))
    \<and> pe_mMatchIndex (peer_of s' (ap_id response)) < pe_mNextIndex (peer_of s' (ap_id response))
    \<and> (\<forall>j. j = ap_id response \<or> peer_of s' j = peer_of s j)"
proof -
  let ?p = "peer_of s (ap_id response)"
  let ?q = "if pe_mNextIndex ?p > ap_last_log_index response + 1
       then ?p\<lparr>pe_mNextIndex := ap_last_log_index response + 1\<rparr>
       else ?p\<lparr>pe_mNextIndex := pe_mNextIndex ?p
              - min ((pe_mNextIndex ?p - pe_mMatchIndex ?p) div 2) (rc_mMaxDecrStep s)\<rparr>"
  have run: "res_bind (c_assert (rc_mRaftRole s = Leader))
      (\<lambda>_. res_bind (c_assert (pe_mMatchIndex ?p \<le> ap_last_log_index response))
        (\<lambda>_. res_bind (c_assert (pe_mMatchIndex ?p + 1 < pe_mNextIndex ?p))
          (\<lambda>_. Inr (put_peer (ap_id response) ?q s, [])))) = Inr (s', out)"
    using assms(1-5) by (simp add: handleAppendEntriesResponse_def Let_def not_less)
  have gap: "pe_mMatchIndex ?p \<le> ap_last_log_index response" "pe_mMatchIndex ?p + 1 < pe_mNextIndex ?p"
    and s': "s' = put_peer (ap_id response) ?q s"
    using run unfolding res_bind_eq_Inr by simp_all
  define d where "d = min ((pe_mNextIndex ?p - pe_mMatchIndex ?p) div 2) (rc_mMaxDecrStep s)"
  have "0 < d" and "2 * d \<le> pe_mNextIndex ?p - pe_mMatchIndex ?p"
    using gap(2) assms(6) by (auto simp: d_def min_def)
  then have "pe_mNextIndex ?p - d < pe_mNextIndex ?p" "pe_mMatchIndex ?p < pe_mNextIndex ?p - d"
    using gap(2) by linarith+
  then show ?thesis
    using gap by (auto simp: s' peer_of_put_peer simp flip: d_def)
qed

definition sample_rejection :: AE_resp where
  "sample_rejection =
     \<lparr>ap_term = 1, ap_success = False, ap_id = 3, ap_saved_term = 1, ap_saved_prev_log_index = 2,
      ap_last_log_index = 5, ap_match_index = 0\<rparr>"

lemma sample_rejection_handled:
  "case handleAppendEntriesResponse sample_ops sample_env sample_rejection sample_leader of
     Inl e \<Rightarrow> False | Inr (s', out) \<Rightarrow> pe_mNextIndex (peer_of s' 3) = 2"
  by code_simp

theorem rejections_terminate_witness:
  "\<exists>s' out. handleAppendEntriesResponse sample_ops sample_env sample_rejection sample_leader = Inr (s', out)
     \<and> pe_mNextIndex (peer_of s' 3) < pe_mNextIndex (peer_of sample_leader 3)
     \<and> pe_mMatchIndex (peer_of s' 3) < pe_mNextIndex (peer_of s' 3)"
proof -
  obtain s' out where run: "handleAppendEntriesResponse sample_ops sample_env sample_rejection sample_leader = Inr (s', out)"
    using sample_rejection_handled by (auto split: sum.splits prod.splits)
  have "ap_saved_term sample_rejection = lo_getCurrentTerm sample_ops (rc_mLog sample_leader)"
    "ap_term sample_rejection \<le> lo_getCurrentTerm sample_ops (rc_mLog sample_leader)"
    "ap_saved_prev_log_index sample_rejection = pe_mNextIndex (peer_of sample_leader (ap_id sample_rejection)) - 1"
    "\<not> ap_success sample_rejection" "rc_mMaxDecrStep sample_leader \<noteq> 0"
    by (simp_all add: sample_rejection_def sample_leader_def peer_of_def sample_defs)
  from rejections_terminate[OF run this] run show ?thesis
    by (simp add: sample_rejection_def)
qed

section \<open>Client requests\<close>

text \<open>The handles in a list of pending requests, in a batch of requests, in the events of a queue, and those a
  list of outputs answers.\<close>

definition opt_mset :: "'a option \<Rightarrow> 'a multiset" where
  "opt_mset x = (case x of None \<Rightarrow> {#} | Some h \<Rightarrow> {#h#})"

definition pending_handles :: "(nat \<times> nat option) list \<Rightarrow> nat multiset" where
  "pending_handles ps = sum_list (map (opt_mset \<circ> snd) ps)"

definition request_handles :: "ClientRequest list \<Rightarrow> nat multiset" where
  "request_handles cs = sum_list (map (opt_mset \<circ> cr_mRequestHandle) cs)"

definition event_handles :: "raft_event \<Rightarrow> nat multiset" where
  "event_handles ev = (case ev of ClientRequests cs \<Rightarrow> request_handles cs | _ \<Rightarrow> {#})"

definition answered :: "raft_out list \<Rightarrow> nat multiset" where
  "answered out = sum_list (map (\<lambda>r. case r of Reply_Client h c m l \<Rightarrow> {#h#} | _ \<Rightarrow> {#}) out)"

definition held :: "'l raft_core \<Rightarrow> nat multiset" where
  "held s = pending_handles (rc_mPendingClientRequests s)
     + sum_list (map event_handles (rc_mAeRvQueue s)) + sum_list (map event_handles (rc_mClientRequestsQueue s))"

lemma handles_append [simp]:
  "pending_handles (ps @ qs) = pending_handles ps + pending_handles qs"
  "request_handles (cs @ ds) = request_handles cs + request_handles ds"
  "answered (out @ out') = answered out + answered out'"
  "pending_handles [] = {#}" "request_handles [] = {#}" "answered [] = {#}"
  "pending_handles (p # ps) = opt_mset (snd p) + pending_handles ps"
  "request_handles (c # cs) = opt_mset (cr_mRequestHandle c) + request_handles cs"
  by (simp_all add: pending_handles_def request_handles_def answered_def)

lemma answered_pending [simp]: "answered (pending_replies code m l ps) = pending_handles ps"
  by (induction ps) (auto simp: pending_replies_def opt_mset_def answered_def pending_handles_def split: option.splits)

lemma answered_not_leader:
  "answered (concat (map (\<lambda>c. case cr_mRequestHandle c of None \<Rightarrow> [] | Some h \<Rightarrow> [Reply_Client h code m l]) cs))
   = request_handles cs"
  by (induction cs) (auto simp: opt_mset_def answered_def request_handles_def split: option.splits)

lemma pending_handles_split: "pending_handles (takeWhile P ps) + pending_handles (dropWhile P ps) = pending_handles ps"
  by (metis handles_append(1) takeWhile_dropWhile_id)

lemma client_entries_handles:
  "fold (client_entry t) cs (ps, es, n) = (ps', es', n') \<Longrightarrow> pending_handles ps' \<subseteq># pending_handles ps + request_handles cs"
proof (induction cs arbitrary: ps es n)
  case (Cons c cs)
  obtain ps1 es1 n1 where one: "client_entry t c (ps, es, n) = (ps1, es1, n1)" by (metis prod_cases3)
  then have "pending_handles ps1 \<subseteq># pending_handles ps + opt_mset (cr_mRequestHandle c)"
    by (auto simp: client_entry_def Let_def split: if_splits)
  moreover have "pending_handles ps' \<subseteq># pending_handles ps1 + request_handles cs"
    using Cons.IH Cons.prems one by simp
  ultimately show ?case
    by (simp add: add.assoc) (metis (no_types, lifting) add.assoc subset_mset.add_right_mono subset_mset.order_trans)
qed simp


text \<open>A step that answers or drops some of the pending handles and of those in \<open>new\<close>, and keeps the rest.\<close>

definition keeps_clients :: "nat multiset \<Rightarrow> 'l raft_core \<Rightarrow> 'l raft_core \<Rightarrow> raft_out list \<Rightarrow> bool" where
  "keeps_clients new s s' out =
     (answered out + pending_handles (rc_mPendingClientRequests s')
        \<subseteq># pending_handles (rc_mPendingClientRequests s) + new
      \<and> rc_mAeRvQueue s' = rc_mAeRvQueue s \<and> rc_mClientRequestsQueue s' = rc_mClientRequestsQueue s)"

lemma keeps_clients_same:
  assumes "rc_mPendingClientRequests s' = rc_mPendingClientRequests s" and "rc_mAeRvQueue s' = rc_mAeRvQueue s"
    and "rc_mClientRequestsQueue s' = rc_mClientRequestsQueue s" and "answered out = {#}"
  shows "keeps_clients {#} s s' out"
  using assms by (simp add: keeps_clients_def)

lemma keeps_clients_then:
  assumes "keeps_clients {#} s s1 out1" and "keeps_clients {#} s1 s2 out2"
  shows "keeps_clients {#} s s2 (out1 @ out2)"
  using assms unfolding keeps_clients_def
  by (simp add: add.assoc) (metis (no_types, lifting) subset_mset.add_left_mono subset_mset.order_trans)

lemma queues_fields [simp]:
  "rc_mAeRvQueue (put_peer i p s) = rc_mAeRvQueue s"
  "rc_mClientRequestsQueue (put_peer i p s) = rc_mClientRequestsQueue s"
  "rc_mAeRvQueue (updateElectionTimePoint e s) = rc_mAeRvQueue s"
  "rc_mClientRequestsQueue (updateElectionTimePoint e s) = rc_mClientRequestsQueue s"
  by (simp_all add: put_peer_def updateElectionTimePoint_def)

lemma answered_simps [simp]:
  "answered [Reply_AE st r] = {#}" "answered [Reply_RV st r'] = {#}"
  "answered [Send_AE i q] = {#}" "answered [Send_RV i q'] = {#}"
  by (simp_all add: answered_def)

lemma stepDown_clients: "stepDown ops e t s = Inr (s', out) \<Longrightarrow> keeps_clients {#} s s' out"
  by (auto simp: stepDown_def Let_def res_bind_eq_Inr keeps_clients_def split: if_splits)

lemma ae_entry_frame:
  assumes "ae_entry ops entry (s, es, i) = Inr (s1, es1, i1)"
  shows "\<exists>l. s1 = s\<lparr>rc_mLog := l\<rparr>"
proof -
  have same: "\<exists>l. x = x\<lparr>rc_mLog := l\<rparr>" for x :: "'a raft_core"
    by (rule exI[of _ "rc_mLog x"]) simp
  show ?thesis
    using assms by (auto simp: ae_entry_def res_bind_eq_Inr split: if_splits intro: same)
qed

lemma ae_fold_frame:
  "fold_res (ae_entry ops) entries (s, es, i) = Inr (s1, es1, i1) \<Longrightarrow> \<exists>l. s1 = s\<lparr>rc_mLog := l\<rparr>"
proof (induction entries arbitrary: s es i)
  case Nil
  then show ?case by (auto intro: exI[of _ "rc_mLog s"])
next
  case (Cons x xs)
  then obtain s2 es2 i2 where x: "ae_entry ops x (s, es, i) = Inr (s2, es2, i2)"
    and rest: "fold_res (ae_entry ops) xs (s2, es2, i2) = Inr (s1, es1, i1)"
    by (auto simp: res_bind_eq_Inr)
  from ae_entry_frame[OF x] Cons.IH[OF rest] show ?case by auto
qed

lemma ae_store_clients:
  assumes "ae_store ops e request resp s = Inr (s', resp')"
  shows "rc_mPendingClientRequests s' = rc_mPendingClientRequests s \<and> rc_mAeRvQueue s' = rc_mAeRvQueue s
    \<and> rc_mClientRequestsQueue s' = rc_mClientRequestsQueue s"
proof (cases "ae_logIsOk ops request s = Inr True")
  case True
  with assms obtain s1 entries index s2 s3 where
    f: "fold_res (ae_entry ops) (aq_entries request) (s, [], aq_prev_log_index request) = Inr (s1, entries, index)"
    and app: "append_or_abort ops entries s1 = Inr s2" and com: "ae_commit ops request s2 = Inr s3"
    and s': "s' = updateElectionTimePoint e s3"
    by (auto simp: ae_store_def res_bind_eq_Inr)
  from ae_fold_frame[OF f] obtain l where s1: "s1 = s\<lparr>rc_mLog := l\<rparr>" ..
  from app obtain l2 where s2: "s2 = s1\<lparr>rc_mLog := l2\<rparr>"
    by (auto simp: append_or_abort_def res_bind_eq_Inr)
  from com have "s3 = s2 \<or> s3 = s2\<lparr>rc_mCommitIndex := aq_commit_index request\<rparr>"
    by (auto simp: ae_commit_def res_bind_eq_Inr split: if_splits)
  with s1 s2 s' show ?thesis by auto
next
  case False
  with assms have "s' = s" by (auto simp: ae_store_def res_bind_eq_Inr split: if_splits)
  then show ?thesis by simp
qed

lemma handleAE_clients:
  assumes "handleAppendEntriesRequest ops e request s = Inr (s', out)"
  shows "keeps_clients {#} s s' out"
proof (cases rule: handleAE_cases[OF assms])
  case (1 status resp)
  then show ?thesis by (intro keeps_clients_same) simp_all
next
  case (2 s1 out1 resp)
  have one: "keeps_clients {#} s s1 out1"
    using 2(3) stepDown_clients[of ops e "aq_term request" s s1 out1]
    by (auto simp: keeps_clients_def split: if_splits)
  have "keeps_clients {#} s1 s' [Reply_AE Status_OK resp]"
    using ae_store_clients[OF 2(5)] by (intro keeps_clients_same) simp_all
  with one 2(6) show ?thesis using keeps_clients_then by blast
qed

lemma handleRV_clients:
  assumes "handleRequestVoteRequest ops e request s = Inr (s', out)"
  shows "keeps_clients {#} s s' out"
proof (cases rule: handleRV_cases[OF assms])
  case (1 status resp)
  then show ?thesis by (intro keeps_clients_same) simp_all
next
  case (2 out1 resp)
  then show ?thesis using stepDown_clients[of ops e "vq_term request" s s' out1]
    by (auto simp: keeps_clients_def split: if_splits)
next
  case (3 s1 out1 resp lastTerm)
  then show ?thesis using stepDown_clients[of ops e "vq_term request" s s1 out1]
    by (auto simp: keeps_clients_def split: if_splits)
qed

lemma handleAE_resp_clients:
  assumes "handleAppendEntriesResponse ops e response s = Inr (s', out)"
  shows "keeps_clients {#} s s' out"
proof (cases "lo_getCurrentTerm ops (rc_mLog s) = ap_saved_term response \<and> ap_term response > lo_getCurrentTerm ops (rc_mLog s)")
  case True
  with assms have "stepDown ops e (ap_term response) s = Inr (s', out)"
    by (auto simp: handleAppendEntriesResponse_def res_bind_eq_Inr)
  then show ?thesis by (rule stepDown_clients)
next
  case False
  with assms show ?thesis
    by (intro keeps_clients_same)
      (auto simp: handleAppendEntriesResponse_def Let_def res_bind_eq_Inr split: if_splits)
qed

lemma handleRV_resp_clients:
  assumes "handleRequestVoteResponse ops e response s = Inr (s', out)"
  shows "keeps_clients {#} s s' out"
proof (cases "lo_getCurrentTerm ops (rc_mLog s) = vp_saved_term response \<and> rc_mRaftRole s = Candidate
    \<and> vp_term response > lo_getCurrentTerm ops (rc_mLog s)")
  case True
  with assms have "stepDown ops e (vp_term response) s = Inr (s', out)"
    by (simp add: handleRequestVoteResponse_def)
  then show ?thesis by (rule stepDown_clients)
next
  case False
  with assms show ?thesis
    by (intro keeps_clients_same) (auto simp: handleRequestVoteResponse_def Let_def split: if_splits)
qed


lemma handleClient_clients:
  assumes "handleClientRequests ops cs s = Inr (s', out)"
  shows "keeps_clients (request_handles cs) s s' out"
proof (cases "rc_mRaftRole s = Leader")
  case True
  obtain ps es n where f: "fold (client_entry (lo_getCurrentTerm ops (rc_mLog s))) cs
      (rc_mPendingClientRequests s, [], lo_getLastLogIndex ops (rc_mLog s)) = (ps, es, n)"
    by (metis prod_cases3)
  with assms True have "rc_mPendingClientRequests s' = ps \<and> rc_mAeRvQueue s' = rc_mAeRvQueue s
      \<and> rc_mClientRequestsQueue s' = rc_mClientRequestsQueue s \<and> out = []"
    by (auto simp: handleClientRequests_def res_bind_eq_Inr)
  with client_entries_handles[OF f] show ?thesis by (simp add: keeps_clients_def)
next
  case False
  with assms show ?thesis by (auto simp: handleClientRequests_def keeps_clients_def answered_not_leader)
qed

lemma handleSync_clients:
  assumes "handleSyncRequest ops r s = Inr (s', out)"
  shows "keeps_clients {#} s s' out"
  using assms
  by (intro keeps_clients_same)
    (auto simp: handleSyncRequest_def append_or_abort_def res_bind_eq_Inr Let_def split: if_splits option.splits)

lemma handle_event_clients:
  assumes run: "handle_event ops e ev s = Inr (s', out)"
  shows "keeps_clients (event_handles ev) s s' out"
proof -
  have put: "keeps_clients {#} (put_peer i p s) s' out \<Longrightarrow> keeps_clients {#} s s' out" for i p
    by (simp add: keeps_clients_def)
  show ?thesis
  proof (cases ev)
    case (AppendEntriesRequest request)
    then show ?thesis using run handleAE_clients by (auto simp: handle_event_def event_handles_def)
  next
    case (AppendEntriesResponse i b response)
    with run show ?thesis
      by (auto simp: handle_event_def event_handles_def Let_def keeps_clients_def split: if_splits
          intro!: put dest!: handleAE_resp_clients)
  next
    case (RequestVoteRequest request)
    then show ?thesis using run handleRV_clients by (auto simp: handle_event_def event_handles_def)
  next
    case (RequestVoteResponse i b response)
    with run show ?thesis
      by (auto simp: handle_event_def event_handles_def Let_def keeps_clients_def split: if_splits
          intro!: put dest!: handleRV_resp_clients)
  next
    case (ClientRequests cs)
    then show ?thesis using run handleClient_clients by (simp add: handle_event_def event_handles_def)
  next
    case (SyncRequestEvent r)
    then show ?thesis using run handleSync_clients by (auto simp: handle_event_def event_handles_def)
  qed
qed

lemma update_peers_answers:
  assumes "update_peers f s = Inr (s', out)" and "\<And>p r. f s p = Inr r \<Longrightarrow> answered (snd r) = {#}"
  shows "answered out = {#}"
proof -
  have "answered (concat (map snd ps)) = {#}" if "map_res (f s) xs = Inr ps" for xs ps
    using that
  proof (induction xs arbitrary: ps)
    case (Cons x xs)
    then obtain p qs where "f s x = Inr p" "map_res (f s) xs = Inr qs" "ps = p # qs"
      by (auto simp: res_bind_eq_Inr)
    with Cons.IH[of qs] assms(2)[of x p] show ?case by simp
  qed simp
  with update_peers_shape[OF assms(1)] show ?thesis by blast
qed

definition submitted :: "raft_action \<Rightarrow> nat multiset" where
  "submitted a = (case a of Do_clientRequests cs \<Rightarrow> request_handles cs | Do_deliver ev \<Rightarrow> event_handles ev | _ \<Rightarrow> {#})"

lemma held_keeps:
  assumes "keeps_clients {#} s s' out"
  shows "answered out + held s' \<subseteq># held s"
  using assms unfolding keeps_clients_def held_def
  by (simp add: add.assoc[symmetric] subset_mset.add_right_mono)

lemma receive_held:
  assumes "receiveMessage ops e s = Inr (s', out)"
  shows "answered out + held s' \<subseteq># held s"
proof (cases "rc_mAeRvQueue s @ rc_mClientRequestsQueue s")
  case Nil
  with assms show ?thesis by (simp add: receiveMessage_def)
next
  case (Cons ev q)
  show ?thesis
  proof (cases "rc_mAeRvQueue s")
    case Nil
    with Cons assms have "handle_event ops e ev (s\<lparr>rc_mClientRequestsQueue := q\<rparr>) = Inr (s', out)"
      by (simp add: receiveMessage_def)
    from handle_event_clients[OF this] Nil Cons show ?thesis
      by (auto simp: keeps_clients_def held_def subset_mset.add_right_mono union_assoc[symmetric])
  next
    case q1: (Cons ev' q')
    with Cons assms have "handle_event ops e ev' (s\<lparr>rc_mAeRvQueue := q'\<rparr>) = Inr (s', out)"
      by (simp add: receiveMessage_def)
    from handle_event_clients[OF this] q1 show ?thesis
      by (auto simp: keeps_clients_def held_def subset_mset.add_right_mono union_assoc[symmetric])
  qed
qed

lemma raft_act_held:
  assumes "raft_act ops a s = Inr (s', out)"
  shows "answered out + held s' \<subseteq># held s + submitted a"
proof (cases a)
  case (Do_receiveMessage e)
  with assms receive_held show ?thesis by (fastforce simp: submitted_def)
next
  case (Do_deliver ev)
  with assms show ?thesis by (auto simp: held_def submitted_def)
next
  case (Do_clientRequests cs)
  with assms show ?thesis by (auto simp: held_def submitted_def enqueueClientRequests_def event_handles_def)
next
  case (Do_syncRequest r)
  with assms show ?thesis by (auto simp: held_def submitted_def enqueueSyncRequest_def event_handles_def)
next
  case (Do_appendEntries e)
  with assms have run: "s' = s \<and> out = [] \<or> update_peers (append_to_peer ops e) s = Inr (s', out)"
    by (auto simp: appendEntries_def split: if_splits)
  have "answered (snd r) = {#}" if "append_to_peer ops e s p = Inr r" for p r
    using that by (auto simp: append_to_peer_def Let_def res_bind_eq_Inr split: prod.splits if_splits)
  then have "answered out = {#} \<and> held s' = held s"
    using run update_peers_answers[of "append_to_peer ops e" s s' out] update_peers_shape[of "append_to_peer ops e" s s' out]
    by (auto simp: held_def)
  then show ?thesis by simp
next
  case (Do_requestVote e)
  with assms have run: "s' = s \<and> out = [] \<or> update_peers (request_from_peer ops e) s = Inr (s', out)"
    by (auto simp: requestVote_def split: if_splits)
  have "answered (snd r) = {#}" if "request_from_peer ops e s p = Inr r" for p r
    using that by (auto simp: request_from_peer_def Let_def res_bind_eq_Inr split: prod.splits if_splits)
  then have "answered out = {#} \<and> held s' = held s"
    using run update_peers_answers[of "request_from_peer ops e" s s' out] update_peers_shape[of "request_from_peer ops e" s s' out]
    by (auto simp: held_def)
  then show ?thesis by simp
next
  case Do_advanceCommitIndex
  then have run: "advanceCommitIndex ops s = Inr (s', out)" using assms by simp
  show ?thesis
  proof (cases rule: advanceCommitIndex_cases[OF run])
    case 1
    then show ?thesis by simp
  next
    case 2
    then show ?thesis
      using pending_handles_split[of "\<lambda>(i, h). i \<le> majority_value (stored_indices ops s)" "rc_mPendingClientRequests s"]
      by (simp add: held_def add.assoc[symmetric])
  qed
next
  case (Do_leadershipTimeout e)
  with assms have "keeps_clients {#} s s' out"
    using stepDown_clients by (auto simp: leadershipTimeout_def Let_def keeps_clients_same split: if_splits)
  then show ?thesis using held_keeps by (fastforce simp: Do_leadershipTimeout submitted_def)
next
  case (Do_becomeLeader e)
  with assms have "held s' = held s \<and> out = []"
    by (auto simp: becomeLeader_def Let_def res_bind_eq_Inr held_def split: if_splits)
  then show ?thesis by simp
next
  case (Do_electionTimeout e)
  with assms have "held s' = held s \<and> out = []"
    by (auto simp: electionTimeout_def Let_def held_def split: if_splits)
  then show ?thesis by simp
next
  case (Do_truncatePrefix k)
  with assms have "held s' = held s \<and> out = []"
    by (auto simp: raft_truncatePrefix_def res_bind_eq_Inr held_def)
  then show ?thesis by simp
qed


lemma raft_run_held:
  "raft_run ops acts s = Inr (s', out) \<Longrightarrow> answered out + held s' \<subseteq># held s + sum_list (map submitted acts)"
proof (induction acts arbitrary: s out)
  case (Cons a acts)
  then obtain s1 out1 out2 where a: "raft_act ops a s = Inr (s1, out1)" and rest: "raft_run ops acts s1 = Inr (s', out2)"
    and out: "out = out1 @ out2"
    by (auto simp: raft_then_eq_Inr)
  have "answered out1 + (answered out2 + held s') \<subseteq># answered out1 + (held s1 + sum_list (map submitted acts))"
    using Cons.IH[OF rest] by (rule subset_mset.add_left_mono)
  also have "\<dots> = (answered out1 + held s1) + sum_list (map submitted acts)" by (simp add: add.assoc)
  also have "\<dots> \<subseteq># (held s + submitted a) + sum_list (map submitted acts)"
    using raft_act_held[OF a] by (rule subset_mset.add_right_mono)
  finally show ?case by (simp add: out add.assoc)
qed simp

text \<open>
  C29. No client request is answered twice. Over any run of a node, the handles it has answered together with
  those it still holds (pending for commitment or queued) are, counted with multiplicity, among those it
  held at the start and those that were submitted during the run. In particular a handle submitted once is
  answered at most once.
\<close>

theorem clients_answered_at_most_once:
  assumes "raft_run ops acts s = Inr (s', out)"
  shows "answered out + held s' \<subseteq># held s + sum_list (map submitted acts)
    \<and> (\<forall>h. count (held s + sum_list (map submitted acts)) h \<le> 1 \<longrightarrow> count (answered out) h + count (held s') h \<le> 1)"
proof -
  have sub: "answered out + held s' \<subseteq># held s + sum_list (map submitted acts)"
    by (rule raft_run_held[OF assms])
  have "count (answered out) h + count (held s') h \<le> count (held s + sum_list (map submitted acts)) h" for h
    using mset_subset_eq_count[OF sub, of h] by simp
  with sub show ?thesis using le_trans by blast
qed

definition sample_client :: "nat \<Rightarrow> ClientRequest" where
  "sample_client index = \<lparr>cr_mEntry = sample_entry index 1, cr_mRequestHandle = Some 9\<rparr>"

definition sample_client_acts :: "raft_action list" where
  "sample_client_acts = [Do_clientRequests [sample_client 3], Do_receiveMessage sample_env, Do_advanceCommitIndex]"

lemma sample_clients_answered:
  "case raft_run sample_ops sample_client_acts sample_leader of
     Inl e \<Rightarrow> False | Inr (s', out) \<Rightarrow> out = [Reply_Client 7 200 ''Success'' 0]
       \<and> rc_mPendingClientRequests s' = [(3, Some 9)]"
  by code_simp

theorem clients_answered_at_most_once_witness:
  "\<exists>s' out. raft_run sample_ops sample_client_acts sample_leader = Inr (s', out)
     \<and> out = [Reply_Client 7 200 ''Success'' 0] \<and> count (answered out) 7 + count (held s') 7 \<le> 1"
proof -
  obtain s' out where run: "raft_run sample_ops sample_client_acts sample_leader = Inr (s', out)"
    and out: "out = [Reply_Client 7 200 ''Success'' 0]"
    using sample_clients_answered by (auto split: sum.splits prod.splits)
  have "count (held sample_leader + sum_list (map submitted sample_client_acts)) 7 \<le> 1"
    by (simp add: held_def pending_handles_def sample_leader_def sample_node_def opt_mset_def submitted_def
        sample_client_acts_def sample_client_def request_handles_def)
  with clients_answered_at_most_once[OF run] have "count (answered out) 7 + count (held s') 7 \<le> 1" by blast
  with run out show ?thesis by blast
qed

text \<open>
  A request whose entry does not fit (another request took its index first) is discarded: it is neither
  pending afterwards nor answered, so its caller waits for ever.
\<close>

lemma mismatched_request_is_never_answered:
  "case raft_run sample_ops [Do_clientRequests [sample_client 8], Do_receiveMessage sample_env] sample_leader of
     Inl e \<Rightarrow> False
   | Inr (s', out) \<Rightarrow> out = [] \<and> rc_mPendingClientRequests s' = rc_mPendingClientRequests sample_leader
       \<and> rc_mClientRequestsQueue s' = []"
  by code_simp

end
