(* ===== verification/Raft_Election.thy ===== *)
theory Raft_Election
  imports Raft_Leader
begin

text \<open>
  Election safety for a cluster of Raft nodes: no two nodes are ever leaders in the same term. The nodes run
  the steps of \<open>Raft_Core\<close> in any interleaving; the network may lose, repeat, delay and reorder messages,
  and is free to invent AppendEntries traffic, but it delivers only vote requests and vote responses that
  were sent.
\<close>

section \<open>What one step does to roles, terms and votes received\<close>

definition peer_ids :: "'l raft_core \<Rightarrow> nat set" where
  "peer_ids s = fst ` set (rc_mPeers s)"

definition votes_received :: "'l raft_core \<Rightarrow> nat set" where
  "votes_received s = {j. \<exists>p. (j, p) \<in> set (rc_mPeers s) \<and> pe_mHaveVote p}"

text \<open>The peers are listed once each, under their own ids.\<close>

definition peers_ok :: "'l raft_core \<Rightarrow> bool" where
  "peers_ok s = (smap_ok (rc_mPeers s) \<and> (\<forall>(j, p) \<in> set (rc_mPeers s). pe_mId p = j))"

text \<open>A step that starts no candidacy, wins no election and records no vote.\<close>

definition quiet :: "'l log_ops \<Rightarrow> 'l raft_core \<Rightarrow> 'l raft_core \<Rightarrow> bool" where
  "quiet ops s s' =
     (peers_ok s' \<and> peer_ids s' = peer_ids s \<and> votes_received s' \<subseteq> votes_received s
      \<and> (rc_mRaftRole s' = Follower
         \<or> rc_mRaftRole s' = rc_mRaftRole s \<and> lo_getCurrentTerm ops (rc_mLog s') = lo_getCurrentTerm ops (rc_mLog s)))"

lemma quiet_refl: "peers_ok s \<Longrightarrow> quiet ops s s"
  by (simp add: quiet_def)

lemma quiet_trans: "quiet ops s s1 \<Longrightarrow> quiet ops s1 s2 \<Longrightarrow> quiet ops s s2"
  by (auto simp: quiet_def)

lemma quiet_same_peers:
  assumes "peers_ok s" and "rc_mPeers s' = rc_mPeers s"
    and "rc_mRaftRole s' = Follower
      \<or> rc_mRaftRole s' = rc_mRaftRole s \<and> lo_getCurrentTerm ops (rc_mLog s') = lo_getCurrentTerm ops (rc_mLog s)"
  shows "quiet ops s s'"
  using assms by (simp add: quiet_def peers_ok_def peer_ids_def votes_received_def)

lemma peers_ok_put:
  assumes "peers_ok s" and "pe_mId p = i"
  shows "peers_ok (put_peer i p s)"
  using assms by (auto simp: peers_ok_def smap_ok_put dest!: smap_put_set)

lemma peer_of_in:
  assumes "peers_ok s" and "i \<in> peer_ids s"
  shows "(i, peer_of s i) \<in> set (rc_mPeers s)" and "pe_mId (peer_of s i) = i"
proof -
  from assms(2) obtain p where "map_of (rc_mPeers s) i = Some p"
    by (auto simp: peer_ids_def dest: weak_map_of_SomeI)
  then show "(i, peer_of s i) \<in> set (rc_mPeers s)" by (auto simp: peer_of_def dest: map_of_SomeD)
  with assms(1) show "pe_mId (peer_of s i) = i" by (auto simp: peers_ok_def)
qed

text \<open>Storing a peer whose vote flag is set only if it was set before.\<close>

lemma quiet_put:
  assumes "peers_ok s" and "i \<in> peer_ids s" and "pe_mId p = i"
    and "pe_mHaveVote p \<longrightarrow> pe_mHaveVote (peer_of s i)"
  shows "quiet ops s (put_peer i p s)"
proof -
  have "peer_ids (put_peer i p s) = peer_ids s"
    using assms(2) smap_put_keys[of i p "rc_mPeers s"] by (auto simp: peer_ids_def)
  moreover have "votes_received (put_peer i p s) \<subseteq> votes_received s"
    using assms(4) peer_of_in[OF assms(1,2)]
    by (auto simp: votes_received_def dest!: smap_put_set)
  ultimately show ?thesis
    using peers_ok_put[OF assms(1,3)] by (simp add: quiet_def)
qed

lemma update_peers_quiet:
  assumes ok: "peers_ok s" and run: "update_peers f s = Inr (s', out)"
    and f: "\<And>i p j q os. f s (i, p) = Inr ((j, q), os) \<Longrightarrow> j = i \<and> pe_mId q = pe_mId p \<and> pe_mHaveVote q = pe_mHaveVote p"
  shows "quiet ops s s'"
proof -
  let ?key = "\<lambda>(i, p). (i, pe_mId p, pe_mHaveVote p)"
  have "map ?key (map fst ps) = map ?key xs" if "map_res (f s) xs = Inr ps" for xs ps
    using that
  proof (induction xs arbitrary: ps)
    case (Cons x xs)
    then obtain y os qs where "f s x = Inr (y, os)" "map_res (f s) xs = Inr qs" "ps = (y, os) # qs"
      by (auto simp: res_bind_eq_Inr)
    with Cons.IH[of qs] f[of "fst x" "snd x" "fst y" "snd y" os] show ?case by (cases x; cases y) auto
  qed simp
  with update_peers_shape[OF run] have key: "map ?key (rc_mPeers s') = map ?key (rc_mPeers s)"
    and rest: "rc_mRaftRole s' = rc_mRaftRole s" "rc_mLog s' = rc_mLog s"
    by auto
  have "map fst (rc_mPeers s') = map fst (rc_mPeers s)"
    using arg_cong[OF key, of "map fst"] by (simp add: case_prod_beta' comp_def)
  moreover have keys: "?key ` set (rc_mPeers s') = ?key ` set (rc_mPeers s)"
    using arg_cong[OF key, of set] by simp
  have "\<exists>q. (i, q) \<in> set (rc_mPeers s) \<and> pe_mId q = pe_mId p \<and> pe_mHaveVote q = pe_mHaveVote p"
    if "(i, p) \<in> set (rc_mPeers s')" for i p
    using imageI[OF that, of ?key] unfolding keys by auto
  then have "votes_received s' \<subseteq> votes_received s"
    and "\<forall>(j, p) \<in> set (rc_mPeers s'). pe_mId p = j"
    using ok by (fastforce simp: votes_received_def peers_ok_def)+
  ultimately show ?thesis
    using ok rest by (auto simp: quiet_def peers_ok_def peer_ids_def smap_ok_def simp flip: set_map)
qed


lemma append_to_peer_keeps:
  "append_to_peer ops e s (i, p) = Inr ((j, q), os) \<Longrightarrow> j = i \<and> pe_mId q = pe_mId p \<and> pe_mHaveVote q = pe_mHaveVote p"
  by (auto simp: append_to_peer_def Let_def res_bind_eq_Inr split: if_splits)

lemma request_from_peer_keeps:
  "request_from_peer ops e s (i, p) = Inr ((j, q), os) \<Longrightarrow> j = i \<and> pe_mId q = pe_mId p \<and> pe_mHaveVote q = pe_mHaveVote p"
  by (auto simp: request_from_peer_def Let_def res_bind_eq_Inr split: if_splits)

lemma quiet_quick:
  "appendEntries ops e s = Inr (s', out) \<Longrightarrow> peers_ok s \<Longrightarrow> quiet ops s s'"
  "requestVote ops e s = Inr (s', out') \<Longrightarrow> peers_ok s \<Longrightarrow> quiet ops s s'"
  "advanceCommitIndex ops s = Inr (s', out'') \<Longrightarrow> peers_ok s \<Longrightarrow> quiet ops s s'"
proof -
  show "appendEntries ops e s = Inr (s', out) \<Longrightarrow> peers_ok s \<Longrightarrow> quiet ops s s'"
    using update_peers_quiet[of s "append_to_peer ops e" s' out ops] append_to_peer_keeps quiet_refl
    by (fastforce simp: appendEntries_def split: if_splits)
  show "requestVote ops e s = Inr (s', out') \<Longrightarrow> peers_ok s \<Longrightarrow> quiet ops s s'"
    using update_peers_quiet[of s "request_from_peer ops e" s' out' ops] request_from_peer_keeps quiet_refl
    by (fastforce simp: requestVote_def split: if_splits)
  show "advanceCommitIndex ops s = Inr (s', out'') \<Longrightarrow> peers_ok s \<Longrightarrow> quiet ops s s'"
    by (erule advanceCommitIndex_cases) (auto intro: quiet_same_peers)
qed

context raft_log
begin

lemma stepDown_quiet: "peers_ok s \<Longrightarrow> stepDown ops e t s = Inr (s', out) \<Longrightarrow> quiet ops s s'"
  using stepDown_shape by (intro quiet_same_peers) blast+

lemma ae_store_keeps:
  assumes "invar (rc_mLog s)" and "ae_store ops e request resp s = Inr (s', resp')"
  shows "rc_mPeers s' = rc_mPeers s \<and> rc_mRaftRole s' = rc_mRaftRole s
    \<and> lo_getCurrentTerm ops (rc_mLog s') = lo_getCurrentTerm ops (rc_mLog s)"
  by (rule ae_store_cases[OF assms]) (simp_all add: same_votes_def)

lemma handleAE_quiet:
  assumes ok: "peers_ok s" and inv: "invar (rc_mLog s)" and run: "handleAppendEntriesRequest ops e request s = Inr (s', out)"
  shows "quiet ops s s'"
proof (cases rule: handleAE_cases[OF run])
  case 1
  then show ?thesis using quiet_refl[OF ok] by simp
next
  case (2 s1 out1 resp)
  have one: "quiet ops s s1"
    using 2(3) stepDown_quiet[OF ok] quiet_refl[OF ok] by (auto split: if_splits)
  have "invar (rc_mLog s1)" by (rule accepted_state(1)[OF inv 2(1,2,3)])
  then have "quiet ops s1 s'"
    using ae_store_keeps[OF _ 2(5)] one by (intro quiet_same_peers) (simp_all add: quiet_def)
  with one show ?thesis by (rule quiet_trans)
qed

lemma handleRV_quiet:
  assumes ok: "peers_ok s" and inv: "invar (rc_mLog s)" and run: "handleRequestVoteRequest ops e request s = Inr (s', out)"
  shows "quiet ops s s'"
proof (cases rule: handleRV_cases[OF run])
  case 1
  then show ?thesis using quiet_refl[OF ok] by simp
next
  case (2 out1 resp)
  then show ?thesis using stepDown_quiet[OF ok] quiet_refl[OF ok] by (auto split: if_splits)
next
  case (3 s1 out1 resp lastTerm)
  have one: "quiet ops s s1"
    using 3(3) stepDown_quiet[OF ok] quiet_refl[OF ok] by (auto split: if_splits)
  have "invar (rc_mLog s1)"
    using 3(3) stepDown_shape[of e "vq_term request" s s1 out1] inv by (auto simp: set_both split: if_splits)
  then have "quiet ops s1 s'"
    using one 3(7) by (intro quiet_same_peers) (simp_all add: quiet_def set_vote)
  with one show ?thesis by (rule quiet_trans)
qed

lemma handleAE_resp_quiet:
  assumes ok: "peers_ok s" and "ap_id response \<in> peer_ids s"
    and run: "handleAppendEntriesResponse ops e response s = Inr (s', out)"
  shows "quiet ops s s'"
proof (cases "lo_getCurrentTerm ops (rc_mLog s) = ap_saved_term response \<and> ap_term response > lo_getCurrentTerm ops (rc_mLog s)")
  case True
  with run have "stepDown ops e (ap_term response) s = Inr (s', out)"
    by (auto simp: handleAppendEntriesResponse_def res_bind_eq_Inr)
  then show ?thesis by (rule stepDown_quiet[OF ok])
next
  case False
  with run have "s' = s \<or> (\<exists>p. s' = put_peer (ap_id response) p s \<and> pe_mId p = pe_mId (peer_of s (ap_id response))
      \<and> pe_mHaveVote p = pe_mHaveVote (peer_of s (ap_id response)))"
    by (auto simp: handleAppendEntriesResponse_def Let_def res_bind_eq_Inr split: if_splits)
  with quiet_refl[OF ok] quiet_put[OF assms(1,2)] peer_of_in[OF assms(1,2)] show ?thesis by auto
qed

lemma truncatePrefix_quiet:
  assumes ok: "peers_ok s" "node_ok ops invar s" and run: "raft_truncatePrefix ops k s = Inr s'"
  shows "quiet ops s s'"
proof -
  have inv: "invar (rc_mLog s)" and le: "k \<le> lo_getLastLogIndex ops (rc_mLog s)"
    using ok(2) run by (auto simp: node_ok_def raft_truncatePrefix_def res_bind_eq_Inr)
  from truncatePrefix_ok[OF this] run show ?thesis
    by (intro quiet_same_peers[OF ok(1)]) (auto simp: raft_truncatePrefix_def res_bind_eq_Inr)
qed

lemma handleClient_quiet:
  assumes ok: "peers_ok s" "node_ok ops invar s" and run: "handleClientRequests ops cs s = Inr (s', out)"
  shows "quiet ops s s'"
proof (rule quiet_same_peers[OF ok(1)])
  have inv: "invar (rc_mLog s)" using ok(2) by (simp add: node_ok_def)
  obtain pending es n where f: "fold (client_entry (lo_getCurrentTerm ops (rc_mLog s))) cs
      (rc_mPendingClientRequests s, [], lo_getLastLogIndex ops (rc_mLog s)) = (pending, es, n)"
    by (metis prod_cases3)
  have idx: "indexed_from (Suc (lo_getLastLogIndex ops (rc_mLog s))) es"
    using fold_client_entry[OF f] by simp
  have "lo_getCurrentTerm ops l = lo_getCurrentTerm ops (rc_mLog s)" if "lo_appendEntries ops es (rc_mLog s) = Inr (b, l)" for b l
    using that appendEntries_result[OF inv, of es l] appendEntries_refused[OF inv, of es l] idx by (cases b) auto
  then show "rc_mRaftRole s' = Follower
      \<or> rc_mRaftRole s' = rc_mRaftRole s \<and> lo_getCurrentTerm ops (rc_mLog s') = lo_getCurrentTerm ops (rc_mLog s)"
    using run f by (auto simp: handleClientRequests_def res_bind_eq_Inr split: if_splits)
  show "rc_mPeers s' = rc_mPeers s"
    using run f by (auto simp: handleClientRequests_def res_bind_eq_Inr split: if_splits)
qed

end


section \<open>The cluster\<close>

text \<open>
  The state of a cluster: its nodes, the vote requests (sender, receiver) and vote replies (responder,
  candidate) sent so far, and as history the votes each node has cast and the leaderships (term and node)
  there have been. A reply goes back to the caller, which is the candidate of the request.
\<close>

record 'l cluster =
  cl_nodes :: "nat \<Rightarrow> 'l raft_core"
  cl_requests :: "(nat \<times> nat \<times> RV_req) set"
  cl_replies :: "(nat \<times> nat \<times> RV_resp) set"
  cl_votes :: "nat \<Rightarrow> (nat \<times> nat) set"
  cl_leaders :: "(nat \<times> nat) set"

text \<open>What the network may deliver to node \<open>i\<close>.\<close>

definition deliverable :: "nat set \<Rightarrow> 'l cluster \<Rightarrow> nat \<Rightarrow> raft_event \<Rightarrow> bool" where
  "deliverable N cl i ev =
     (case ev of
        RequestVoteRequest r \<Rightarrow> \<exists>j \<in> N. (j, i, r) \<in> cl_requests cl
      | RequestVoteResponse j ok resp \<Rightarrow> j \<in> N - {i} \<and> (ok \<longrightarrow> (j, i, resp) \<in> cl_replies cl)
      | AppendEntriesResponse j ok resp \<Rightarrow> j \<in> N - {i} \<and> (ok \<longrightarrow> ap_id resp = j)
      | _ \<Rightarrow> True)"

definition allowed :: "nat set \<Rightarrow> 'l cluster \<Rightarrow> nat \<Rightarrow> raft_action \<Rightarrow> bool" where
  "allowed N cl i a = (case a of Do_deliver ev \<Rightarrow> deliverable N cl i ev | _ \<Rightarrow> True)"

definition requests_sent :: "nat \<Rightarrow> raft_out list \<Rightarrow> (nat \<times> nat \<times> RV_req) set" where
  "requests_sent i out = set (concat (map (\<lambda>r. case r of Send_RV k q \<Rightarrow> [(i, k, q)] | _ \<Rightarrow> []) out))"

definition replies_sent :: "nat \<Rightarrow> raft_action \<Rightarrow> 'l raft_core \<Rightarrow> raft_out list \<Rightarrow> (nat \<times> nat \<times> RV_resp) set" where
  "replies_sent i a s out =
     (case (a, next_event s) of
        (Do_receiveMessage e, Some (RequestVoteRequest r)) \<Rightarrow>
          set (concat (map (\<lambda>x. case x of Reply_RV Status_OK resp \<Rightarrow> [(i, vq_candidate_id r, resp)] | _ \<Rightarrow> []) out))
      | _ \<Rightarrow> {})"

definition cluster_after ::
  "'l log_ops \<Rightarrow> nat \<Rightarrow> raft_action \<Rightarrow> 'l raft_core \<Rightarrow> raft_out list \<Rightarrow> 'l cluster \<Rightarrow> 'l cluster" where
  "cluster_after ops i a s' out cl =
     cl\<lparr>cl_nodes := (cl_nodes cl)(i := s'),
        cl_requests := cl_requests cl \<union> requests_sent i out,
        cl_replies := cl_replies cl \<union> replies_sent i a (cl_nodes cl i) out,
        cl_votes := (cl_votes cl)(i := cl_votes cl i \<union> set (votes_cast ops a (cl_nodes cl i) s' out)),
        cl_leaders := cl_leaders cl
          \<union> (if rc_mRaftRole s' = Leader then {(lo_getCurrentTerm ops (rc_mLog s'), i)} else {})\<rparr>"

inductive cluster_step :: "'l log_ops \<Rightarrow> nat set \<Rightarrow> 'l cluster \<Rightarrow> 'l cluster \<Rightarrow> bool"
  for ops :: "'l log_ops" and N :: "nat set" where
  node_step: "i \<in> N \<Longrightarrow> allowed N cl i a \<Longrightarrow> raft_act ops a (cl_nodes cl i) = Inr (s', out) \<Longrightarrow>
     cluster_step ops N cl (cluster_after ops i a s' out cl)"

inductive cluster_reachable :: "'l log_ops \<Rightarrow> nat set \<Rightarrow> 'l cluster \<Rightarrow> 'l cluster \<Rightarrow> bool"
  for ops :: "'l log_ops" and N :: "nat set" and start :: "'l cluster" where
  start: "cluster_reachable ops N start start"
| step: "cluster_reachable ops N start cl \<Longrightarrow> cluster_step ops N cl cl' \<Longrightarrow> cluster_reachable ops N start cl'"

text \<open>A fresh cluster: every node knows the others, follows nobody, has voted for nobody and has no messages.\<close>

definition cluster_init :: "'l log_ops \<Rightarrow> ('l \<Rightarrow> bool) \<Rightarrow> nat set \<Rightarrow> 'l cluster \<Rightarrow> bool" where
  "cluster_init ops invar N cl =
     (finite N \<and> 0 \<notin> N \<and> cl_requests cl = {} \<and> cl_replies cl = {} \<and> cl_leaders cl = {}
      \<and> (\<forall>i \<in> N. cl_votes cl i = {}
           \<and> node_ok ops invar (cl_nodes cl i) \<and> peers_ok (cl_nodes cl i)
           \<and> rc_selfId (cl_nodes cl i) = i \<and> peer_ids (cl_nodes cl i) = N - {i}
           \<and> rc_mRaftRole (cl_nodes cl i) = Follower \<and> lo_getVote ops (rc_mLog (cl_nodes cl i)) = 0
           \<and> rc_mAeRvQueue (cl_nodes cl i) = [] \<and> rc_mClientRequestsQueue (cl_nodes cl i) = []))"

text \<open>What holds of an event in the queue of node \<open>i\<close>.\<close>

definition event_ok :: "nat set \<Rightarrow> (nat \<Rightarrow> (nat \<times> nat) set) \<Rightarrow> nat \<Rightarrow> raft_event \<Rightarrow> bool" where
  "event_ok N votes i ev =
     (case ev of
        RequestVoteRequest r \<Rightarrow> vq_candidate_id r \<in> N - {i}
      | RequestVoteResponse j ok resp \<Rightarrow> j \<in> N - {i}
          \<and> (ok \<longrightarrow> vp_id resp = j \<and> (vp_vote_granted resp \<longrightarrow> (vp_saved_term resp, i) \<in> votes j))
      | AppendEntriesResponse j ok resp \<Rightarrow> j \<in> N - {i} \<and> (ok \<longrightarrow> ap_id resp = j)
      | _ \<Rightarrow> True)"

lemma event_ok_mono: "event_ok N votes i ev \<Longrightarrow> (\<And>j. votes j \<subseteq> votes' j) \<Longrightarrow> event_ok N votes' i ev"
  by (auto simp: event_ok_def split: raft_event.splits)

text \<open>A step that may record votes, each of which was cast.\<close>

definition collects :: "'l log_ops \<Rightarrow> (nat \<Rightarrow> (nat \<times> nat) set) \<Rightarrow> nat \<Rightarrow> 'l raft_core \<Rightarrow> 'l raft_core \<Rightarrow> bool" where
  "collects ops votes i s s' =
     (peers_ok s' \<and> peer_ids s' = peer_ids s
      \<and> votes_received s' \<subseteq> votes_received s \<union> {j. (lo_getCurrentTerm ops (rc_mLog s), i) \<in> votes j}
      \<and> (rc_mRaftRole s' = Follower
         \<or> rc_mRaftRole s' = rc_mRaftRole s \<and> lo_getCurrentTerm ops (rc_mLog s') = lo_getCurrentTerm ops (rc_mLog s)))"

lemma quiet_collects: "quiet ops s s' \<Longrightarrow> collects ops votes i s s'"
  by (auto simp: quiet_def collects_def)

lemma collects_trans:
  assumes "quiet ops s s1" and "collects ops votes i s1 s2"
    and "rc_mRaftRole s1 = rc_mRaftRole s" and "lo_getCurrentTerm ops (rc_mLog s1) = lo_getCurrentTerm ops (rc_mLog s)"
  shows "collects ops votes i s s2"
  using assms unfolding quiet_def collects_def by auto

lemma handleRV_resp_collects:
  assumes ok: "peers_ok s" and id: "vp_id response \<in> peer_ids s"
    and granted: "vp_vote_granted response \<longrightarrow> (vp_saved_term response, i) \<in> votes (vp_id response)"
    and run: "handleRequestVoteResponse ops e response s = Inr (s', out)"
  shows "collects ops votes i s s'"
proof (cases "lo_getCurrentTerm ops (rc_mLog s) = vp_saved_term response \<and> rc_mRaftRole s = Candidate")
  case False
  with run have "s' = s" by (auto simp: handleRequestVoteResponse_def split: if_splits)
  then show ?thesis using quiet_collects[OF quiet_refl[OF ok]] by simp
next
  case now: True
  show ?thesis
  proof (cases "vp_term response > lo_getCurrentTerm ops (rc_mLog s)")
    case True
    with now run have "stepDown ops e (vp_term response) s = Inr (s', out)"
      by (simp add: handleRequestVoteResponse_def)
    then have "rc_mPeers s' = rc_mPeers s \<and> rc_mRaftRole s' = Follower"
      by (auto simp: stepDown_def Let_def res_bind_eq_Inr split: if_splits)
    then show ?thesis using quiet_collects[OF quiet_same_peers[OF ok]] by blast
  next
    case False
    let ?j = "vp_id response"
    let ?p = "(peer_of s ?j)\<lparr>pe_mRequestVoteDone := True\<rparr>"
    let ?q = "if vp_vote_granted response then ?p\<lparr>pe_mHaveVote := True\<rparr> else ?p"
    have s': "s' = put_peer ?j ?q s"
      using run now False by (auto simp: handleRequestVoteResponse_def Let_def)
    have "peer_ids s' = peer_ids s"
      using id smap_put_keys[of ?j ?q "rc_mPeers s"] by (auto simp: s' peer_ids_def)
    moreover have "peers_ok s'"
      unfolding s' using peer_of_in[OF ok id] by (intro peers_ok_put[OF ok]) simp
    moreover have "votes_received s' \<subseteq> votes_received s \<union> {j. (lo_getCurrentTerm ops (rc_mLog s), i) \<in> votes j}"
      using granted now peer_of_in[OF ok id]
      by (auto simp: s' votes_received_def split: if_splits dest!: smap_put_set)
    ultimately show ?thesis by (simp add: collects_def s')
  qed
qed


lemma next_event_in: "next_event s = Some ev \<Longrightarrow> ev \<in> set (rc_mAeRvQueue s @ rc_mClientRequestsQueue s)"
  unfolding next_event_def by (cases "rc_mAeRvQueue s @ rc_mClientRequestsQueue s") (simp_all del: set_append)

context raft_log
begin

lemma handle_event_collects:
  assumes ok: "peers_ok s" "node_ok ops invar s" "rc_mRaftRole s \<noteq> Syncer" "peer_ids s = N - {i}"
    and ev: "event_ok N votes i ev" and run: "handle_event ops e ev s = Inr (s', out)"
  shows "collects ops votes i s s'"
proof -
  have inv: "invar (rc_mLog s)" using ok(2) by (simp add: node_ok_def)
  have put: "quiet ops s (put_peer j p s)"
    if "j \<in> peer_ids s" "pe_mId p = pe_mId (peer_of s j)" "pe_mHaveVote p = pe_mHaveVote (peer_of s j)" for j p
    using quiet_put[OF ok(1) that(1)] peer_of_in[OF ok(1) that(1)] that by simp
  show ?thesis
  proof (cases ev)
    case (AppendEntriesRequest request)
    with run show ?thesis using quiet_collects[OF handleAE_quiet[OF ok(1) inv]] by (simp add: handle_event_def)
  next
    case (AppendEntriesResponse j b response)
    with ev ok(4) have j: "j \<in> peer_ids s" and b: "b \<longrightarrow> ap_id response = j" by (simp_all add: event_ok_def)
    let ?p = "turn_on e (peer_of s j)"
    show ?thesis
    proof (cases b)
      case True
      let ?s1 = "put_peer j (?p\<lparr>pe_mLastResponseTimeInNano := env_now e\<rparr>) s"
      have q: "quiet ops s ?s1" by (rule put[OF j]) (simp_all add: turn_on_def)
      have "handleAppendEntriesResponse ops e response ?s1 = Inr (s', out)"
        using run AppendEntriesResponse True by (simp add: handle_event_def Let_def)
      moreover have "ap_id response \<in> peer_ids ?s1" "peers_ok ?s1" using q j b True by (simp_all add: quiet_def)
      ultimately show ?thesis using quiet_collects[OF quiet_trans[OF q handleAE_resp_quiet]] by blast
    next
      case False
      then have "s' = put_peer j (?p\<lparr>pe_mSuppressBulkData := True\<rparr>) s"
        using run AppendEntriesResponse by (simp add: handle_event_def Let_def)
      then show ?thesis using put[OF j, of "?p\<lparr>pe_mSuppressBulkData := True\<rparr>"]
        by (auto simp: turn_on_def intro: quiet_collects)
    qed
  next
    case (RequestVoteRequest request)
    with run show ?thesis using quiet_collects[OF handleRV_quiet[OF ok(1) inv]] by (simp add: handle_event_def)
  next
    case (RequestVoteResponse j b response)
    with ev ok(4) have j: "j \<in> peer_ids s"
      and b: "b \<longrightarrow> vp_id response = j \<and> (vp_vote_granted response \<longrightarrow> (vp_saved_term response, i) \<in> votes j)"
      by (simp_all add: event_ok_def)
    let ?p = "turn_on e (peer_of s j)"
    show ?thesis
    proof (cases b)
      case True
      let ?s1 = "put_peer j (?p\<lparr>pe_mLastResponseTimeInNano := env_now e\<rparr>) s"
      have q: "quiet ops s ?s1" by (rule put[OF j]) (simp_all add: turn_on_def)
      have h: "handleRequestVoteResponse ops e response ?s1 = Inr (s', out)"
        using run RequestVoteResponse True by (simp add: handle_event_def Let_def)
      have "collects ops votes i ?s1 s'"
        by (rule handleRV_resp_collects[OF _ _ _ h]) (use q j b True in \<open>simp_all add: quiet_def\<close>)
      then show ?thesis by (rule collects_trans[OF q]) simp_all
    next
      case False
      then have "s' = put_peer j ?p s"
        using run RequestVoteResponse by (simp add: handle_event_def Let_def)
      then show ?thesis using put[OF j, of ?p] by (auto simp: turn_on_def intro: quiet_collects)
    qed
  next
    case (ClientRequests cs)
    with run show ?thesis using quiet_collects[OF handleClient_quiet[OF ok(1,2)]] by (simp add: handle_event_def)
  next
    case (SyncRequestEvent r)
    with run ok(3) have "s' = s" by (simp add: handle_event_def handleSyncRequest_def)
    then show ?thesis using quiet_collects[OF quiet_refl[OF ok(1)]] by simp
  qed
qed

lemma raft_act_collects:
  assumes ok: "peers_ok s" "node_ok ops invar s" "rc_mRaftRole s \<noteq> Syncer" "peer_ids s = N - {i}"
    and evs: "\<forall>ev \<in> set (rc_mAeRvQueue s @ rc_mClientRequestsQueue s). event_ok N votes i ev"
    and run: "raft_act ops a s = Inr (s', out)"
    and no: "\<And>e. a \<noteq> Do_becomeLeader e" "\<And>e. a \<noteq> Do_electionTimeout e"
  shows "collects ops votes i s s'"
proof (cases a)
  case (Do_receiveMessage e)
  show ?thesis
  proof (cases "next_event s")
    case None
    with run Do_receiveMessage have "s' = s" by (auto simp: next_event_def receiveMessage_def split: list.splits)
    then show ?thesis using quiet_collects[OF quiet_refl[OF ok(1)]] by simp
  next
    case (Some ev)
    have ev: "event_ok N votes i ev"
      using evs next_event_in[OF Some] by blast
    from run Do_receiveMessage Some obtain q1 q2 where
      h: "handle_event ops e ev (s\<lparr>rc_mAeRvQueue := q1, rc_mClientRequestsQueue := q2\<rparr>) = Inr (s', out)"
      by (auto elim: receive_next_event)
    let ?s = "s\<lparr>rc_mAeRvQueue := q1, rc_mClientRequestsQueue := q2\<rparr>"
    have "collects ops votes i ?s s'"
      by (rule handle_event_collects[OF _ _ _ _ ev h])
        (use ok in \<open>simp_all add: peers_ok_def node_ok_def peer_ids_def\<close>)
    then show ?thesis by (simp add: collects_def peer_ids_def votes_received_def)
  qed
next
  case (Do_appendEntries e)
  with run show ?thesis using quiet_collects[OF quiet_quick(1)[OF _ ok(1)]] by simp
next
  case (Do_requestVote e)
  with run show ?thesis using quiet_collects[OF quiet_quick(2)[OF _ ok(1)]] by simp
next
  case Do_advanceCommitIndex
  with run show ?thesis using quiet_collects[OF quiet_quick(3)[OF _ ok(1)]] by simp
next
  case (Do_leadershipTimeout e)
  with run show ?thesis
    using quiet_collects[OF stepDown_quiet[OF ok(1)]] quiet_collects[OF quiet_refl[OF ok(1)]]
    by (auto simp: leadershipTimeout_def Let_def split: if_splits)
next
  case (Do_deliver ev)
  with run show ?thesis by (intro quiet_collects quiet_same_peers[OF ok(1)]) auto
next
  case (Do_clientRequests cs)
  with run show ?thesis by (intro quiet_collects quiet_same_peers[OF ok(1)]) (auto simp: enqueueClientRequests_def)
next
  case (Do_syncRequest r)
  with run show ?thesis by (intro quiet_collects quiet_same_peers[OF ok(1)]) (auto simp: enqueueSyncRequest_def)
next
  case (Do_truncatePrefix k)
  with run show ?thesis using quiet_collects[OF truncatePrefix_quiet[OF ok(1,2)]] by (auto simp: res_bind_eq_Inr)
qed (use no in auto)

end

text \<open>The two other steps: starting a candidacy and winning an election.\<close>

lemma electionTimeout_shape:
  assumes "electionTimeout ops e s = Inr (s', out)"
  shows "s' = s \<or> rc_mRaftRole s' = Candidate \<and> votes_received s' = {} \<and> peer_ids s' = peer_ids s
    \<and> (peers_ok s \<longrightarrow> peers_ok s')
    \<and> rc_mLog s' = lo_setVoteFor ops (rc_selfId s) (lo_setCurrentTerm ops (lo_getCurrentTerm ops (rc_mLog s) + 1) (rc_mLog s))"
proof -
  have map: "fst \<circ> map_prod id f = fst" for f :: "Peer \<Rightarrow> Peer" by (simp add: fun_eq_iff)
  show ?thesis
    using assms
    by (auto simp: electionTimeout_def Let_def votes_received_def peer_ids_def peers_ok_def smap_ok_def map image_image
        split: if_splits) force+
qed

lemma becomeLeader_shape:
  assumes "becomeLeader ops e s = Inr (s', out)"
  shows "s' = s \<or> rc_mRaftRole s = Candidate \<and> rc_mRaftRole s' = Leader \<and> votes_received s' = votes_received s
    \<and> peer_ids s' = peer_ids s \<and> (peers_ok s \<longrightarrow> peers_ok s')
    \<and> getMajorityNumber (length (rc_mPeers s) + 1) \<le> vote_count s
    \<and> lo_appendEntry ops (noop_entry ops e (rc_mLog s)) (rc_mLog s) = Inr (True, rc_mLog s')"
proof -
  have map: "fst \<circ> map_prod id f = fst" for f :: "Peer \<Rightarrow> Peer" by (simp add: fun_eq_iff)
  show ?thesis
    using assms
    by (auto simp: becomeLeader_def Let_def votes_received_def peer_ids_def peers_ok_def smap_ok_def map image_image
        res_bind_eq_Inr not_less split: if_splits) force+
qed

lemma vote_count_card:
  assumes "peers_ok s"
  shows "vote_count s = 1 + card (votes_received s)" and "length (rc_mPeers s) = card (peer_ids s)"
proof -
  have d: "distinct (map fst (rc_mPeers s))" using assms smap_ok_distinct by (auto simp: peers_ok_def)
  have "distinct (map fst (filter (pe_mHaveVote \<circ> snd) (rc_mPeers s)))"
    using d by (induction "rc_mPeers s" arbitrary: s rule: list.induct) (auto simp: distinct_map_filter d)
  then have "card (fst ` set (filter (pe_mHaveVote \<circ> snd) (rc_mPeers s))) = length (filter (pe_mHaveVote \<circ> snd) (rc_mPeers s))"
    using distinct_card by fastforce
  moreover have "fst ` set (filter (pe_mHaveVote \<circ> snd) (rc_mPeers s)) = votes_received s"
    by (force simp: votes_received_def)
  ultimately show "vote_count s = 1 + card (votes_received s)" by (simp add: vote_count_def)
  show "length (rc_mPeers s) = card (peer_ids s)"
    using distinct_card[OF d] by (simp add: peer_ids_def)
qed


section \<open>What one step sends\<close>

definition sends_votes :: "raft_out \<Rightarrow> bool" where
  "sends_votes r = (case r of Send_RV k q \<Rightarrow> True | _ \<Rightarrow> False)"

lemma pending_replies_quiet: "\<not> list_ex sends_votes (pending_replies code m l ps)"
  by (auto simp: pending_replies_def list_ex_iff sends_votes_def split: option.splits)

lemma stepDown_sends: "stepDown ops e t s = Inr (s', out) \<Longrightarrow> \<not> list_ex sends_votes out"
  by (auto simp: stepDown_def Let_def res_bind_eq_Inr pending_replies_quiet split: if_splits)

lemma handle_event_sends:
  assumes "handle_event ops e ev s = Inr (s', out)"
  shows "\<not> list_ex sends_votes out"
proof (cases ev)
  case (AppendEntriesRequest request)
  with assms have run: "handleAppendEntriesRequest ops e request s = Inr (s', out)" by (simp add: handle_event_def)
  show ?thesis
  proof (cases rule: handleAE_cases[OF run])
    case 1
    then show ?thesis by (simp add: sends_votes_def)
  next
    case (2 s1 out1 resp)
    then show ?thesis using stepDown_sends[of ops e "aq_term request" s s1 out1]
      by (auto simp: sends_votes_def split: if_splits)
  qed
next
  case (RequestVoteRequest request)
  with assms have run: "handleRequestVoteRequest ops e request s = Inr (s', out)" by (simp add: handle_event_def)
  show ?thesis
  proof (cases rule: handleRV_cases[OF run])
    case 1
    then show ?thesis by (simp add: sends_votes_def)
  next
    case (2 out1 resp)
    then show ?thesis using stepDown_sends[of ops e "vq_term request" s s' out1]
      by (auto simp: sends_votes_def split: if_splits)
  next
    case (3 s1 out1 resp lastTerm)
    then show ?thesis using stepDown_sends[of ops e "vq_term request" s s1 out1]
      by (auto simp: sends_votes_def split: if_splits)
  qed
next
  case (AppendEntriesResponse j b response)
  with assms show ?thesis
    by (auto simp: handle_event_def Let_def handleAppendEntriesResponse_def res_bind_eq_Inr dest: stepDown_sends split: if_splits)
next
  case (RequestVoteResponse j b response)
  with assms show ?thesis
    by (auto simp: handle_event_def Let_def handleRequestVoteResponse_def dest: stepDown_sends split: if_splits)
next
  case (ClientRequests cs)
  with assms show ?thesis
    by (auto simp: handle_event_def handleClientRequests_def res_bind_eq_Inr list_ex_iff sends_votes_def
        split: if_splits option.splits prod.splits)
next
  case (SyncRequestEvent r)
  with assms show ?thesis
    by (auto simp: handle_event_def handleSyncRequest_def res_bind_eq_Inr Let_def split: if_splits option.splits)
qed

lemma update_peers_sends:
  assumes "update_peers f s = Inr (s', out)" and "r \<in> set out"
  shows "\<exists>p \<in> set (rc_mPeers s). \<exists>q os. f s p = Inr (q, os) \<and> r \<in> set os"
proof -
  have "\<exists>p \<in> set xs. \<exists>q os. f s p = Inr (q, os) \<and> r \<in> set os"
    if "map_res (f s) xs = Inr ps" "r \<in> set (concat (map snd ps))" for xs ps
    using that
  proof (induction xs arbitrary: ps)
    case (Cons x xs)
    then obtain y os qs where x: "f s x = Inr (y, os)" and rest: "map_res (f s) xs = Inr qs" and "ps = (y, os) # qs"
      by (auto simp: res_bind_eq_Inr)
    with Cons.IH[OF rest] Cons.prems(2) show ?case by auto
  qed simp
  with update_peers_shape[OF assms(1)] assms(2) show ?thesis by blast
qed

text \<open>A vote request names its sender as candidate and goes to a peer.\<close>

lemma vote_requests_sent:
  assumes "peers_ok s" and "raft_act ops a s = Inr (s', out)" and "Send_RV k r \<in> set out"
  shows "vq_candidate_id r = rc_selfId s \<and> k \<in> peer_ids s"
proof -
  have send: "list_ex sends_votes out" using assms(3) by (auto simp: list_ex_iff sends_votes_def intro!: bexI[of _ "Send_RV k r"])
  have "\<exists>e. a = Do_requestVote e"
  proof (cases a)
    case (Do_receiveMessage e)
    with assms(2) send show ?thesis by (auto simp: receiveMessage_def split: list.splits dest: handle_event_sends)
  next
    case (Do_appendEntries e)
    with assms have "update_peers (append_to_peer ops e) s = Inr (s', out)" by (auto simp: appendEntries_def split: if_splits)
    from update_peers_sends[OF this assms(3)] show ?thesis
      by (auto simp: append_to_peer_def Let_def res_bind_eq_Inr split: if_splits)
  next
    case Do_advanceCommitIndex
    with assms(2) send show ?thesis by (auto elim!: advanceCommitIndex_cases simp: pending_replies_quiet)
  next
    case (Do_leadershipTimeout e)
    with assms(2) send show ?thesis
      by (auto simp: leadershipTimeout_def Let_def split: if_splits dest: stepDown_sends)
  qed (use assms send in \<open>auto simp: becomeLeader_def electionTimeout_def Let_def res_bind_eq_Inr split: if_splits\<close>)
  then obtain e where "a = Do_requestVote e" ..
  with assms have "update_peers (request_from_peer ops e) s = Inr (s', out)" by (auto simp: requestVote_def split: if_splits)
  from update_peers_sends[OF this assms(3)] obtain j p q os where p: "(j, p) \<in> set (rc_mPeers s)"
    and f: "request_from_peer ops e s (j, p) = Inr (q, os)" "Send_RV k r \<in> set os" by auto
  from f have "k = pe_mId p \<and> vq_candidate_id r = rc_selfId s"
    by (auto simp: request_from_peer_def Let_def res_bind_eq_Inr split: if_splits)
  moreover have "pe_mId p = j" using assms(1) p by (auto simp: peers_ok_def)
  ultimately show ?thesis using p by (force simp: peer_ids_def)
qed

lemma stepDown_no_rv: "stepDown ops e t s = Inr (s', out) \<Longrightarrow> Reply_RV status resp \<notin> set out"
  by (auto simp: stepDown_def Let_def res_bind_eq_Inr pending_replies_def split: if_splits option.splits)

text \<open>A vote reply carries the responder's id, and a granted vote is among the votes cast.\<close>

lemma vote_reply_sent:
  assumes run: "raft_act ops (Do_receiveMessage e) s = Inr (s', out)"
    and ev: "next_event s = Some (RequestVoteRequest r)" and reply: "Reply_RV status resp \<in> set out"
  shows "vp_id resp = rc_selfId s
    \<and> (vp_vote_granted resp \<longrightarrow> (vp_saved_term resp, vq_candidate_id r) \<in> set (votes_cast ops (Do_receiveMessage e) s s' out))"
proof -
  from run ev obtain q1 q2 where
    h: "handleRequestVoteRequest ops e r (s\<lparr>rc_mAeRvQueue := q1, rc_mClientRequestsQueue := q2\<rparr>) = Inr (s', out)"
    by (auto simp: handle_event_def elim!: receive_next_event)
  let ?s = "s\<lparr>rc_mAeRvQueue := q1, rc_mClientRequestsQueue := q2\<rparr>"
  have "vp_id resp = rc_selfId ?s \<and> vp_saved_term resp = vq_term r"
  proof (cases "rc_mRaftRole s = Syncer \<or> vq_term r < lo_getCurrentTerm ops (rc_mLog s)")
    case True
    with h reply show ?thesis by (auto simp: handleRequestVoteRequest_def Let_def split: if_splits)
  next
    case False
    with h reply show ?thesis
      by (auto simp: handleRequestVoteRequest_def Let_def raft_then_eq_Inr res_bind_eq_Inr stepDown_no_rv split: if_splits)
  qed
  moreover have "list_ex grants_vote out" if "vp_vote_granted resp"
    using reply that by (auto simp: list_ex_iff grants_vote_def intro!: bexI[of _ "Reply_RV status resp"])
  ultimately show ?thesis using ev by (auto simp: votes_cast_def)
qed


lemma queue_after:
  assumes run: "raft_act ops a s = Inr (s', out)" and ev: "ev \<in> set (rc_mAeRvQueue s' @ rc_mClientRequestsQueue s')"
  shows "ev \<in> set (rc_mAeRvQueue s @ rc_mClientRequestsQueue s) \<or> a = Do_deliver ev
    \<or> (\<exists>cs. ev = ClientRequests cs) \<or> (\<exists>r. ev = SyncRequestEvent r)"
proof (cases a)
  case (Do_receiveMessage e)
  with run have r: "receiveMessage ops e s = Inr (s', out)" by simp
  show ?thesis
  proof (cases "rc_mAeRvQueue s")
    case Nil
    with r ev show ?thesis
      by (auto simp: receiveMessage_def keeps_clients_def split: list.splits dest!: handle_event_clients)
  next
    case (Cons x q)
    with r ev show ?thesis
      by (auto simp: receiveMessage_def keeps_clients_def dest!: handle_event_clients)
  qed
next
  case (Do_appendEntries e)
  with run ev show ?thesis by (auto simp: appendEntries_def split: if_splits dest!: update_peers_shape)
next
  case (Do_requestVote e)
  with run ev show ?thesis by (auto simp: requestVote_def split: if_splits dest!: update_peers_shape)
next
  case Do_advanceCommitIndex
  with run ev show ?thesis by (auto elim!: advanceCommitIndex_cases)
next
  case (Do_leadershipTimeout e)
  with run ev show ?thesis
    by (auto simp: leadershipTimeout_def Let_def keeps_clients_def split: if_splits dest!: stepDown_clients)
qed (use run ev in \<open>auto simp: becomeLeader_def electionTimeout_def Let_def res_bind_eq_Inr enqueueClientRequests_def
      enqueueSyncRequest_def raft_truncatePrefix_def updateElectionTimePoint_def split: if_splits\<close>)

section \<open>The invariant\<close>

definition node_part ::
  "'l log_ops \<Rightarrow> ('l \<Rightarrow> bool) \<Rightarrow> nat set \<Rightarrow> (nat \<Rightarrow> (nat \<times> nat) set) \<Rightarrow> nat \<Rightarrow> 'l raft_core \<Rightarrow> bool" where
  "node_part ops invar N votes i s =
     (node_ok ops invar s \<and> peers_ok s \<and> rc_selfId s = i \<and> peer_ids s = N - {i} \<and> rc_mRaftRole s \<noteq> Syncer
      \<and> (\<forall>ev \<in> set (rc_mAeRvQueue s @ rc_mClientRequestsQueue s). event_ok N votes i ev)
      \<and> (rc_mRaftRole s \<noteq> Follower \<longrightarrow>
           (\<forall>j \<in> insert i (votes_received s). (lo_getCurrentTerm ops (rc_mLog s), i) \<in> votes j)))"

text \<open>The votes of a node: one candidate per term, none in a later term, and that of the current term on record.\<close>

definition votes_part :: "'l log_ops \<Rightarrow> (nat \<times> nat) set \<Rightarrow> 'l raft_core \<Rightarrow> bool" where
  "votes_part ops V s =
     ((\<forall>t c. (t, c) \<in> V \<longrightarrow> c \<noteq> 0 \<and> t \<le> lo_getCurrentTerm ops (rc_mLog s)
         \<and> (t = lo_getCurrentTerm ops (rc_mLog s) \<longrightarrow> lo_getVote ops (rc_mLog s) = c))
      \<and> (\<forall>t c c'. (t, c) \<in> V \<and> (t, c') \<in> V \<longrightarrow> c = c'))"

definition messages_part :: "nat set \<Rightarrow> 'l cluster \<Rightarrow> bool" where
  "messages_part N cl =
     ((\<forall>i k r. (i, k, r) \<in> cl_requests cl \<longrightarrow> i \<in> N \<and> k \<noteq> i \<and> vq_candidate_id r = i)
      \<and> (\<forall>j i resp. (j, i, resp) \<in> cl_replies cl \<longrightarrow>
           vp_id resp = j \<and> (vp_vote_granted resp \<longrightarrow> (vp_saved_term resp, i) \<in> cl_votes cl j)))"

text \<open>Every leader there has been was voted for by a majority.\<close>

definition leaders_part :: "nat set \<Rightarrow> 'l cluster \<Rightarrow> bool" where
  "leaders_part N cl =
     (\<forall>t i. (t, i) \<in> cl_leaders cl \<longrightarrow>
        (\<exists>Q \<subseteq> N. getMajorityNumber (card N) \<le> card Q \<and> (\<forall>j \<in> Q. (t, i) \<in> cl_votes cl j)))"

definition cluster_ok :: "'l log_ops \<Rightarrow> ('l \<Rightarrow> bool) \<Rightarrow> nat set \<Rightarrow> 'l cluster \<Rightarrow> bool" where
  "cluster_ok ops invar N cl =
     (finite N \<and> 0 \<notin> N \<and> messages_part N cl \<and> leaders_part N cl
      \<and> (\<forall>i \<in> N. node_part ops invar N (cl_votes cl) i (cl_nodes cl i) \<and> votes_part ops (cl_votes cl i) (cl_nodes cl i)
           \<and> (rc_mRaftRole (cl_nodes cl i) = Leader \<longrightarrow>
                (lo_getCurrentTerm ops (rc_mLog (cl_nodes cl i)), i) \<in> cl_leaders cl)))"

lemma leaders_part_mono:
  assumes "leaders_part N (cl\<lparr>cl_votes := votes\<rparr>)" and "\<And>j. votes j \<subseteq> cl_votes cl j"
  shows "leaders_part N cl"
  unfolding leaders_part_def
proof (intro allI impI)
  fix t i
  assume "(t, i) \<in> cl_leaders cl"
  with assms(1) have "\<exists>Q \<subseteq> N. getMajorityNumber (card N) \<le> card Q \<and> (\<forall>j \<in> Q. (t, i) \<in> votes j)"
    by (simp add: leaders_part_def)
  then obtain Q where "Q \<subseteq> N" "getMajorityNumber (card N) \<le> card Q" "\<forall>j \<in> Q. (t, i) \<in> votes j" by blast
  with assms(2) show "\<exists>Q \<subseteq> N. getMajorityNumber (card N) \<le> card Q \<and> (\<forall>j \<in> Q. (t, i) \<in> cl_votes cl j)"
    by (intro exI[of _ Q]) auto
qed

lemma cluster_init_ok: "cluster_init ops invar N cl \<Longrightarrow> cluster_ok ops invar N cl"
  by (auto simp: cluster_init_def cluster_ok_def messages_part_def leaders_part_def node_part_def votes_part_def)

lemma node_part_mono:
  assumes "node_part ops invar N votes i s" and "\<And>j. votes j \<subseteq> votes' j"
  shows "node_part ops invar N votes' i s"
  using assms event_ok_mono[of N votes i _ votes'] unfolding node_part_def by blast

context raft_log
begin

lemma votes_part_step:
  assumes part: "node_part ops invar N votes i s" and V: "votes_part ops (votes i) s" and "0 \<notin> N" and "i \<in> N"
    and run: "raft_act ops a s = Inr (s', out)"
  shows "votes_part ops (votes i \<union> set (votes_cast ops a s s' out)) s'"
proof -
  have ok: "node_ok ops invar s" and role: "rc_mRaftRole s \<noteq> Syncer" and self: "rc_selfId s = i"
    and evs: "\<forall>ev \<in> set (rc_mAeRvQueue s @ rc_mClientRequestsQueue s). event_ok N votes i ev"
    using part by (auto simp: node_part_def)
  have keeps: "keeps_votes ops s s'"
    using raft_act_moves[OF ok run] by (simp add: moves_def advances_def)
  let ?W = "set (votes_cast ops a s s' out)" and ?t' = "lo_getCurrentTerm ops (rc_mLog s')"
  have rec: "?t' = t \<and> lo_getVote ops (rc_mLog s') = c \<and> lo_getCurrentTerm ops (rc_mLog s) \<le> t
      \<and> (lo_getCurrentTerm ops (rc_mLog s) < t \<or> lo_getVote ops (rc_mLog s) = 0 \<or> lo_getVote ops (rc_mLog s) = c)"
    if "(t, c) \<in> ?W" for t c
    using vote_recorded[OF ok run that] .
  have nonzero: "c \<noteq> 0" if "(t, c) \<in> ?W" for t c
  proof -
    have "c = i \<or> (\<exists>r. next_event s = Some (RequestVoteRequest r) \<and> c = vq_candidate_id r)"
      using that self
      by (auto simp: votes_cast_def split: raft_action.splits option.splits raft_event.splits if_splits) metis
    moreover have "vq_candidate_id r \<in> N" if "next_event s = Some (RequestVoteRequest r)" for r
      using bspec[OF evs next_event_in[OF that]] by (simp add: event_ok_def)
    ultimately show ?thesis using assms(3,4) by metis
  qed
  have old: "c \<noteq> 0 \<and> t \<le> lo_getCurrentTerm ops (rc_mLog s) \<and> (t = lo_getCurrentTerm ops (rc_mLog s) \<longrightarrow> lo_getVote ops (rc_mLog s) = c)"
    if "(t, c) \<in> votes i" for t c
    using V that by (auto simp: votes_part_def)
  have trm: "lo_getCurrentTerm ops (rc_mLog s) \<le> ?t'" using keeps role by (auto simp: keeps_votes_def)
  have all: "c \<noteq> 0 \<and> t \<le> ?t' \<and> (t = ?t' \<longrightarrow> lo_getVote ops (rc_mLog s') = c)" if "(t, c) \<in> votes i \<union> ?W" for t c
  proof (cases "(t, c) \<in> ?W")
    case True
    then show ?thesis using rec nonzero by auto
  next
    case False
    with that have "(t, c) \<in> votes i" by simp
    from old[OF this] trm keeps role show ?thesis by (auto simp: keeps_votes_def)
  qed
  have uniq: "c = c'" if "(t, c) \<in> votes i \<union> ?W" "(t, c') \<in> votes i \<union> ?W" for t c c'
  proof (cases "(t, c) \<in> ?W \<or> (t, c') \<in> ?W")
    case True
    then have "t = ?t'" using rec by auto
    with all[OF that(1)] all[OF that(2)] show ?thesis by auto
  next
    case False
    with that V show ?thesis by (auto simp: votes_part_def)
  qed
  show ?thesis unfolding votes_part_def using all uniq by blast
qed

end


lemma quorums_intersect:
  assumes "finite N" and "Q \<subseteq> N" and "Q' \<subseteq> N" and "getMajorityNumber (card N) \<le> card Q"
    and "getMajorityNumber (card N) \<le> card Q'"
  shows "\<exists>j. j \<in> Q \<and> j \<in> Q'"
proof (rule ccontr)
  assume "\<nexists>j. j \<in> Q \<and> j \<in> Q'"
  then have "Q \<inter> Q' = {}" by blast
  moreover have "finite Q" "finite Q'" using assms(1-3) finite_subset by blast+
  ultimately have "card (Q \<union> Q') = card Q + card Q'" by (simp add: card_Un_disjoint)
  moreover have "card (Q \<union> Q') \<le> card N" using assms(1-3) by (simp add: card_mono)
  ultimately show False using assms(4,5) by (simp add: getMajorityNumber_def)
qed

context raft_log
begin

lemma appendEntry_keeps_term:
  assumes "invar l" and "lo_appendEntry ops x l = Inr (True, l')"
  shows "lo_getCurrentTerm ops l' = lo_getCurrentTerm ops l"
  using assms appendEntries_result[OF assms(1), of "[x]" l'] by (simp add: appendEntry_single)

text \<open>A candidate that becomes leader in a step has the votes of a majority.\<close>

lemma elected_by_majority:
  assumes part: "node_part ops invar N votes i s" and "finite N" and "i \<in> N"
    and run: "raft_act ops a s = Inr (s', out)"
    and role: "rc_mRaftRole s' = Leader" "rc_mRaftRole s \<noteq> Leader"
  shows "\<exists>Q \<subseteq> N. getMajorityNumber (card N) \<le> card Q \<and> (\<forall>j \<in> Q. (lo_getCurrentTerm ops (rc_mLog s'), i) \<in> votes j)"
proof -
  have ok: "node_ok ops invar s" "peers_ok s" "rc_mRaftRole s \<noteq> Syncer" "peer_ids s = N - {i}"
    and evs: "\<forall>ev \<in> set (rc_mAeRvQueue s @ rc_mClientRequestsQueue s). event_ok N votes i ev"
    using part by (auto simp: node_part_def)
  have inv: "invar (rc_mLog s)" using ok(1) by (simp add: node_ok_def)
  obtain e where a: "a = Do_becomeLeader e"
  proof (cases "(\<exists>e. a = Do_becomeLeader e) \<or> (\<exists>e. a = Do_electionTimeout e)")
    case True
    then show ?thesis
    proof
      assume "\<exists>e. a = Do_electionTimeout e"
      then obtain e where "electionTimeout ops e s = Inr (s', out)" using run by auto
      from electionTimeout_shape[OF this] role show ?thesis by auto
    qed (use that in blast)
  next
    case False
    then have "collects ops votes i s s'" using raft_act_collects[OF ok(2,1,3,4) evs run] by blast
    with role show ?thesis by (auto simp: collects_def)
  qed
  with run becomeLeader_shape[of ops e s s' out] role
  have won: "rc_mRaftRole s = Candidate" "getMajorityNumber (length (rc_mPeers s) + 1) \<le> vote_count s"
    and app: "lo_appendEntry ops (noop_entry ops e (rc_mLog s)) (rc_mLog s) = Inr (True, rc_mLog s')"
    by auto
  have same: "lo_getCurrentTerm ops (rc_mLog s') = lo_getCurrentTerm ops (rc_mLog s)"
    by (rule appendEntry_keeps_term[OF inv app])
  let ?Q = "insert i (votes_received s)"
  have sub: "votes_received s \<subseteq> N - {i}" using ok(4) by (force simp: votes_received_def peer_ids_def)
  then have fin: "finite (votes_received s)" using assms(2) finite_subset by blast
  have "card ?Q = vote_count s"
    using sub fin vote_count_card(1)[OF ok(2)] by (subst card_insert_disjoint) auto
  moreover have "length (rc_mPeers s) + 1 = card N"
    using vote_count_card(2)[OF ok(2)] ok(4) assms(2,3) by (simp add: card_Diff_singleton card_gt_0_iff)
      (metis Suc_pred card_gt_0_iff empty_iff)
  ultimately have "getMajorityNumber (card N) \<le> card ?Q" using won(2) by simp
  moreover have "\<forall>j \<in> ?Q. (lo_getCurrentTerm ops (rc_mLog s'), i) \<in> votes j"
    using part won(1) same by (simp add: node_part_def)
  moreover have "?Q \<subseteq> N" using sub assms(3) by blast
  ultimately show ?thesis by blast
qed

lemma leader_keeps_term:
  assumes part: "node_part ops invar N votes i s" and run: "raft_act ops a s = Inr (s', out)"
    and role: "rc_mRaftRole s' = Leader" "rc_mRaftRole s = Leader"
  shows "lo_getCurrentTerm ops (rc_mLog s') = lo_getCurrentTerm ops (rc_mLog s)"
proof -
  have ok: "node_ok ops invar s" "peers_ok s" "rc_mRaftRole s \<noteq> Syncer" "peer_ids s = N - {i}"
    and evs: "\<forall>ev \<in> set (rc_mAeRvQueue s @ rc_mClientRequestsQueue s). event_ok N votes i ev"
    using part by (auto simp: node_part_def)
  show ?thesis
  proof (cases "(\<exists>e. a = Do_becomeLeader e) \<or> (\<exists>e. a = Do_electionTimeout e)")
    case True
    then have "(\<exists>e. becomeLeader ops e s = Inr (s', out)) \<or> (\<exists>e. electionTimeout ops e s = Inr (s', out))"
      using run by auto
    then have "s' = s" using role by (auto dest: electionTimeout_shape becomeLeader_shape)
    then show ?thesis by simp
  next
    case False
    then have "collects ops votes i s s'" using raft_act_collects[OF ok(2,1,3,4) evs run] by blast
    with role show ?thesis by (simp add: collects_def)
  qed
qed

lemma node_part_step:
  assumes part: "node_part ops invar N (cl_votes cl) i (cl_nodes cl i)" and "i \<in> N"
    and msgs: "messages_part N cl" and allow: "allowed N cl i a"
    and run: "raft_act ops a (cl_nodes cl i) = Inr (s', out)"
  shows "node_part ops invar N (cl_votes (cluster_after ops i a s' out cl)) i s'"
proof -
  let ?s = "cl_nodes cl i"
  let ?votes = "cl_votes cl" and ?votes' = "cl_votes (cluster_after ops i a s' out cl)"
  have ok: "node_ok ops invar ?s" "peers_ok ?s" "rc_mRaftRole ?s \<noteq> Syncer" "peer_ids ?s = N - {i}" "rc_selfId ?s = i"
    and evs: "\<forall>ev \<in> set (rc_mAeRvQueue ?s @ rc_mClientRequestsQueue ?s). event_ok N ?votes i ev"
    and have_votes: "rc_mRaftRole ?s \<noteq> Follower \<Longrightarrow> j \<in> insert i (votes_received ?s) \<Longrightarrow>
        (lo_getCurrentTerm ops (rc_mLog ?s), i) \<in> ?votes j" for j
    using part by (auto simp: node_part_def)
  have inv: "invar (rc_mLog ?s)" using ok(1) by (simp add: node_ok_def)
  have mono: "?votes j \<subseteq> ?votes' j" for j by (auto simp: cluster_after_def)
  have m: "moves ops invar contents ?s s'" by (rule raft_act_moves[OF ok(1) run])
  have queue: "event_ok N ?votes' i ev" if ev: "ev \<in> set (rc_mAeRvQueue s' @ rc_mClientRequestsQueue s')" for ev
  proof -
    consider "ev \<in> set (rc_mAeRvQueue ?s @ rc_mClientRequestsQueue ?s)" | "a = Do_deliver ev"
      | "(\<exists>cs. ev = ClientRequests cs) \<or> (\<exists>r. ev = SyncRequestEvent r)"
      using queue_after[OF run ev] by blast
    then have "event_ok N ?votes i ev"
    proof cases
      case 1
      then show ?thesis using evs by blast
    next
      case 2
      with allow msgs show ?thesis
        by (auto simp: allowed_def deliverable_def event_ok_def messages_part_def split: raft_event.splits)
    next
      case 3
      then show ?thesis by (auto simp: event_ok_def)
    qed
    then show ?thesis by (rule event_ok_mono) (rule mono)
  qed
  have rest: "peers_ok s' \<and> peer_ids s' = peer_ids ?s \<and> (rc_mRaftRole s' \<noteq> Follower \<longrightarrow>
      (\<forall>j \<in> insert i (votes_received s'). (lo_getCurrentTerm ops (rc_mLog s'), i) \<in> ?votes' j))"
  proof (cases "(\<exists>e. a = Do_becomeLeader e) \<or> (\<exists>e. a = Do_electionTimeout e)")
    case False
    then have c: "collects ops ?votes i ?s s'"
      using raft_act_collects[OF ok(2,1,3,4) evs run] by blast
    then show ?thesis using have_votes mono unfolding collects_def by fastforce
  next
    case True
    then show ?thesis
    proof
      assume "\<exists>e. a = Do_becomeLeader e"
      then obtain e where "becomeLeader ops e ?s = Inr (s', out)" using run by auto
      from becomeLeader_shape[OF this] show ?thesis
      proof
        assume "s' = ?s"
        then show ?thesis using ok(2) have_votes mono by blast
      next
        assume won: "rc_mRaftRole ?s = Candidate \<and> rc_mRaftRole s' = Leader \<and> votes_received s' = votes_received ?s
          \<and> peer_ids s' = peer_ids ?s \<and> (peers_ok ?s \<longrightarrow> peers_ok s')
          \<and> getMajorityNumber (length (rc_mPeers ?s) + 1) \<le> vote_count ?s
          \<and> lo_appendEntry ops (noop_entry ops e (rc_mLog ?s)) (rc_mLog ?s) = Inr (True, rc_mLog s')"
        then have "lo_getCurrentTerm ops (rc_mLog s') = lo_getCurrentTerm ops (rc_mLog ?s)"
          using appendEntry_keeps_term[OF inv] by blast
        with won ok(2) have_votes mono show ?thesis by fastforce
      qed
    next
      assume "\<exists>e. a = Do_electionTimeout e"
      then obtain e where a: "a = Do_electionTimeout e" and el: "electionTimeout ops e ?s = Inr (s', out)" using run by auto
      from electionTimeout_shape[OF el] show ?thesis
      proof
        assume "s' = ?s"
        then show ?thesis using ok(2) have_votes mono by blast
      next
        assume cand: "rc_mRaftRole s' = Candidate \<and> votes_received s' = {} \<and> peer_ids s' = peer_ids ?s
          \<and> (peers_ok ?s \<longrightarrow> peers_ok s')
          \<and> rc_mLog s' = lo_setVoteFor ops (rc_selfId ?s) (lo_setCurrentTerm ops (lo_getCurrentTerm ops (rc_mLog ?s) + 1) (rc_mLog ?s))"
        then have "(lo_getCurrentTerm ops (rc_mLog s'), i) \<in> ?votes' i"
          using a ok(5) inv by (simp add: cluster_after_def votes_cast_def set_both)
        with cand ok(2) show ?thesis by simp
      qed
    qed
  qed
  show ?thesis
    unfolding node_part_def using m rest queue ok
    by (auto simp: moves_def advances_def keeps_votes_def)
qed


lemma messages_part_step:
  assumes part: "node_part ops invar N (cl_votes cl) i (cl_nodes cl i)" and "i \<in> N"
    and msgs: "messages_part N cl" and run: "raft_act ops a (cl_nodes cl i) = Inr (s', out)"
  shows "messages_part N (cluster_after ops i a s' out cl)"
proof -
  let ?s = "cl_nodes cl i" and ?cl = "cluster_after ops i a s' out cl"
  have ok: "peers_ok ?s" "rc_selfId ?s = i" "peer_ids ?s = N - {i}" using part by (auto simp: node_part_def)
  have req: "j \<in> N \<and> k \<noteq> j \<and> vq_candidate_id r = j" if "(j, k, r) \<in> cl_requests ?cl" for j k r
  proof (cases "(j, k, r) \<in> cl_requests cl")
    case True
    then show ?thesis using msgs by (auto simp: messages_part_def)
  next
    case False
    with that have "j = i" "Send_RV k r \<in> set out" by (auto simp: cluster_after_def requests_sent_def split: raft_out.splits)
    with vote_requests_sent[OF ok(1) run] ok assms(2) show ?thesis by auto
  qed
  have reply: "vp_id resp = j \<and> (vp_vote_granted resp \<longrightarrow> (vp_saved_term resp, c) \<in> cl_votes ?cl j)"
    if "(j, c, resp) \<in> cl_replies ?cl" for j c resp
  proof (cases "(j, c, resp) \<in> cl_replies cl")
    case True
    then show ?thesis using msgs by (auto simp: messages_part_def cluster_after_def)
  next
    case False
    with that have "(j, c, resp) \<in> replies_sent i a ?s out" by (auto simp: cluster_after_def)
    then obtain e r where "j = i" "c = vq_candidate_id r" and a: "a = Do_receiveMessage e"
      and ev: "next_event ?s = Some (RequestVoteRequest r)" and out: "Reply_RV Status_OK resp \<in> set out"
      by (auto simp: replies_sent_def split: raft_action.splits option.splits raft_event.splits raft_out.splits rpc_status.splits)
    with vote_reply_sent[OF run[unfolded a] ev out] ok(2) show ?thesis by (auto simp: cluster_after_def)
  qed
  show ?thesis unfolding messages_part_def using req reply by blast
qed

lemma leaders_part_step:
  assumes ok: "cluster_ok ops invar N cl" and i: "i \<in> N" and run: "raft_act ops a (cl_nodes cl i) = Inr (s', out)"
  shows "leaders_part N (cluster_after ops i a s' out cl)"
proof -
  let ?s = "cl_nodes cl i" and ?cl = "cluster_after ops i a s' out cl"
  have N: "finite N" and led: "leaders_part N cl" and part: "node_part ops invar N (cl_votes cl) i ?s"
    and rec: "rc_mRaftRole ?s = Leader \<Longrightarrow> (lo_getCurrentTerm ops (rc_mLog ?s), i) \<in> cl_leaders cl"
    using ok i by (auto simp: cluster_ok_def)
  have "\<exists>Q \<subseteq> N. getMajorityNumber (card N) \<le> card Q \<and> (\<forall>j \<in> Q. (t, k) \<in> cl_votes cl j)"
    if "(t, k) \<in> cl_leaders ?cl" for t k
  proof (cases "(t, k) \<in> cl_leaders cl")
    case True
    then show ?thesis using led by (auto simp: leaders_part_def)
  next
    case False
    with that have new: "rc_mRaftRole s' = Leader" "t = lo_getCurrentTerm ops (rc_mLog s')" "k = i"
      by (auto simp: cluster_after_def split: if_splits)
    show ?thesis
    proof (cases "rc_mRaftRole ?s = Leader")
      case True
      have "lo_getCurrentTerm ops (rc_mLog s') = lo_getCurrentTerm ops (rc_mLog ?s)"
        by (rule leader_keeps_term[OF part run new(1) True])
      with rec[OF True] new False show ?thesis by simp
    next
      case False
      then show ?thesis using elected_by_majority[OF part N i run new(1)] new by blast
    qed
  qed
  then have "leaders_part N (?cl\<lparr>cl_votes := cl_votes cl\<rparr>)" by (simp add: leaders_part_def)
  moreover have "cl_votes cl j \<subseteq> cl_votes ?cl j" for j by (auto simp: cluster_after_def)
  ultimately show ?thesis by (rule leaders_part_mono)
qed

lemma cluster_ok_step:
  assumes ok: "cluster_ok ops invar N cl" and "cluster_step ops N cl cl'"
  shows "cluster_ok ops invar N cl'"
  using assms(2)
proof cases
  case (node_step i a s' out)
  let ?cl = "cluster_after ops i a s' out cl"
  have N: "finite N" "0 \<notin> N" and msgs: "messages_part N cl" using ok by (auto simp: cluster_ok_def)
  have part: "node_part ops invar N (cl_votes cl) j (cl_nodes cl j)" "votes_part ops (cl_votes cl j) (cl_nodes cl j)"
      "rc_mRaftRole (cl_nodes cl j) = Leader \<Longrightarrow> (lo_getCurrentTerm ops (rc_mLog (cl_nodes cl j)), j) \<in> cl_leaders cl"
    if "j \<in> N" for j
    using ok that by (auto simp: cluster_ok_def)
  note i = node_step(2) and run = node_step(4)
  have mono: "cl_votes cl j \<subseteq> cl_votes ?cl j" for j by (auto simp: cluster_after_def)
  have "node_part ops invar N (cl_votes ?cl) j (cl_nodes ?cl j) \<and> votes_part ops (cl_votes ?cl j) (cl_nodes ?cl j)
      \<and> (rc_mRaftRole (cl_nodes ?cl j) = Leader \<longrightarrow> (lo_getCurrentTerm ops (rc_mLog (cl_nodes ?cl j)), j) \<in> cl_leaders ?cl)"
    if j: "j \<in> N" for j
  proof (cases "j = i")
    case True
    have "votes_part ops (cl_votes cl i \<union> set (votes_cast ops a (cl_nodes cl i) s' out)) s'"
      by (rule votes_part_step[OF part(1,2)[OF i] N(2) i run])
    with True node_part_step[OF part(1)[OF i] i msgs node_step(3) run] show ?thesis by (simp add: cluster_after_def)
  next
    case False
    then have same: "cl_nodes ?cl j = cl_nodes cl j" "cl_votes ?cl j = cl_votes cl j" "cl_leaders cl \<subseteq> cl_leaders ?cl"
      by (auto simp: cluster_after_def)
    have "node_part ops invar N (cl_votes ?cl) j (cl_nodes cl j)" by (rule node_part_mono[OF part(1)[OF j] mono])
    with part(2,3)[OF j] same show ?thesis by auto
  qed
  with N messages_part_step[OF part(1)[OF i] i msgs run] leaders_part_step[OF ok i run]
  show ?thesis unfolding node_step(1) cluster_ok_def by blast
qed

lemma cluster_ok_reachable:
  assumes "cluster_reachable ops N start cl" and "cluster_init ops invar N start"
  shows "cluster_ok ops invar N cl"
  using assms by induction (auto intro: cluster_init_ok cluster_ok_step)

end

lemma cluster_ok_one_leader:
  assumes "cluster_ok ops invar N cl" and "(t, i) \<in> cl_leaders cl" and "(t, k) \<in> cl_leaders cl"
  shows "i = k"
proof -
  have N: "finite N" and led: "leaders_part N cl" using assms(1) by (auto simp: cluster_ok_def)
  obtain Q where Q: "Q \<subseteq> N" "getMajorityNumber (card N) \<le> card Q" "\<forall>j \<in> Q. (t, i) \<in> cl_votes cl j"
    using led[unfolded leaders_part_def, rule_format, OF assms(2)] by blast
  obtain Q' where Q': "Q' \<subseteq> N" "getMajorityNumber (card N) \<le> card Q'" "\<forall>j \<in> Q'. (t, k) \<in> cl_votes cl j"
    using led[unfolded leaders_part_def, rule_format, OF assms(3)] by blast
  obtain j where "j \<in> Q" "j \<in> Q'" using quorums_intersect[OF N Q(1) Q'(1) Q(2) Q'(2)] by blast
  with Q Q' have "(t, i) \<in> cl_votes cl j" "(t, k) \<in> cl_votes cl j" "j \<in> N" by auto
  moreover have "votes_part ops (cl_votes cl j) (cl_nodes cl j)" using assms(1) \<open>j \<in> N\<close> by (auto simp: cluster_ok_def)
  ultimately show ?thesis unfolding votes_part_def by blast
qed


section \<open>Election safety\<close>

text \<open>Running a list of steps of named nodes; a step that is not allowed, or that aborts, ends the run.\<close>

fun cluster_run :: "'l log_ops \<Rightarrow> nat set \<Rightarrow> (nat \<times> raft_action) list \<Rightarrow> 'l cluster \<Rightarrow> 'l cluster option" where
  "cluster_run ops N [] cl = Some cl"
| "cluster_run ops N ((i, a) # rest) cl =
     (if i \<in> N \<and> allowed N cl i a
      then case raft_act ops a (cl_nodes cl i) of
             Inl e \<Rightarrow> None
           | Inr (s', out) \<Rightarrow> cluster_run ops N rest (cluster_after ops i a s' out cl)
      else None)"

lemma cluster_run_reachable:
  "cluster_run ops N acts cl = Some cl' \<Longrightarrow> cluster_reachable ops N start cl \<Longrightarrow> cluster_reachable ops N start cl'"
proof (induction ops N acts cl rule: cluster_run.induct)
  case (2 ops N i a rest cl)
  then obtain s' out where "i \<in> N" "allowed N cl i a" and act: "raft_act ops a (cl_nodes cl i) = Inr (s', out)"
    and rest: "cluster_run ops N rest (cluster_after ops i a s' out cl) = Some cl'"
    by (auto split: if_splits sum.splits)
  then have "cluster_reachable ops N start (cluster_after ops i a s' out cl)"
    using 2(3) by (blast intro: cluster_reachable.step cluster_step.node_step)
  then show ?case using 2(1)[of "(s', out)" s' out] \<open>i \<in> N\<close> \<open>allowed N cl i a\<close> act rest by simp
qed simp

text \<open>
  C2. Election safety: a term has at most one leader. Take any cluster of nodes that know each other, start
  as followers that have not voted, and run: any node may take any step of its main loop at any time,
  the network may lose, duplicate, delay and reorder messages and may invent any replication traffic, as long as a vote
  request or a granted vote that arrives was sent. Then two nodes that are leaders with the same current term are
  the same node, and over the whole history no term has had two leaders.
\<close>

theorem election_safety:
  assumes "cluster_init (mem_ops byteSize sv) mem_ok N start"
    and "cluster_reachable (mem_ops byteSize sv) N start cl"
  shows "(\<forall>i k. i \<in> N \<and> k \<in> N \<and> rc_mRaftRole (cl_nodes cl i) = Leader \<and> rc_mRaftRole (cl_nodes cl k) = Leader
        \<and> ml_mTerm (rc_mLog (cl_nodes cl i)) = ml_mTerm (rc_mLog (cl_nodes cl k)) \<longrightarrow> i = k)
    \<and> (\<forall>t i k. (t, i) \<in> cl_leaders cl \<and> (t, k) \<in> cl_leaders cl \<longrightarrow> i = k)"
proof -
  have ok: "cluster_ok (mem_ops byteSize sv) mem_ok N cl"
    by (rule mem_raft_log.cluster_ok_reachable[OF assms(2,1)])
  then have "(ml_mTerm (rc_mLog (cl_nodes cl i)), i) \<in> cl_leaders cl"
    if "i \<in> N" "rc_mRaftRole (cl_nodes cl i) = Leader" for i
    using that by (auto simp: cluster_ok_def mem_ops_def)
  then show ?thesis using cluster_ok_one_leader[OF ok] by metis
qed

definition fresh_node :: "nat \<Rightarrow> mem_log raft_core" where
  "fresh_node i =
     sample_node\<lparr>rc_selfId := i, rc_mPeers := map (\<lambda>j. (j, Peer_new\<lparr>pe_mId := j\<rparr>)) (filter (\<lambda>j. j \<noteq> i) [1, 2, 3]),
       rc_mLeaderId := 0, rc_mClients := [1, 2, 3], rc_mCommitIndex := 0, rc_mLog := mem_new\<rparr>"

definition fresh_cluster :: "mem_log cluster" where
  "fresh_cluster =
     \<lparr>cl_nodes = fresh_node, cl_requests = {}, cl_replies = {}, cl_votes = (\<lambda>i. {}), cl_leaders = {}\<rparr>"

lemma fresh_cluster_init: "cluster_init sample_ops mem_ok {1, 2, 3} fresh_cluster"
  unfolding cluster_init_def fresh_cluster_def
  by (auto simp: fresh_node_def sample_defs node_ok_def mem_ok_def mem_new_def peers_ok_def smap_ok_def peer_ids_def)

definition late_env :: env where
  "late_env = \<lparr>env_now = 6000, env_timeout = 1500\<rparr>"

definition a_vote_request :: RV_req where
  "a_vote_request =
     \<lparr>vq_term = 1, vq_candidate_id = 1, vq_last_log_index = 0, vq_last_log_term = 0, vq_create_time = 6000\<rparr>"

definition a_vote_reply :: RV_resp where
  "a_vote_reply =
     \<lparr>vp_term = 1, vp_vote_granted = True, vp_create_time = 6000, vp_id = 2, vp_saved_term = 1\<rparr>"

definition an_election :: "(nat \<times> raft_action) list" where
  "an_election =
     [(1, Do_electionTimeout late_env), (1, Do_requestVote late_env),
      (2, Do_deliver (RequestVoteRequest a_vote_request)), (2, Do_receiveMessage late_env),
      (1, Do_deliver (RequestVoteResponse 2 True a_vote_reply)), (1, Do_receiveMessage late_env),
      (1, Do_becomeLeader late_env)]"

text \<open>The states node 1 goes through, and those of its voter, node 2.\<close>

definition after_step :: "raft_action \<Rightarrow> mem_log raft_core \<Rightarrow> mem_log raft_core" where
  "after_step a s = result_of s (raft_act sample_ops a s)"

definition candidate_1 :: "mem_log raft_core" where
  "candidate_1 = after_step (Do_electionTimeout late_env) (fresh_node 1)"

definition asking_1 :: "mem_log raft_core" where
  "asking_1 = after_step (Do_requestVote late_env) candidate_1"

definition asked_2 :: "mem_log raft_core" where
  "asked_2 = (fresh_node 2)\<lparr>rc_mAeRvQueue := [RequestVoteRequest a_vote_request]\<rparr>"

definition voted_2 :: "mem_log raft_core" where
  "voted_2 = after_step (Do_receiveMessage late_env) asked_2"

definition answered_1 :: "mem_log raft_core" where
  "answered_1 = asking_1\<lparr>rc_mAeRvQueue := [RequestVoteResponse 2 True a_vote_reply]\<rparr>"

definition elected_1 :: "mem_log raft_core" where
  "elected_1 = after_step (Do_receiveMessage late_env) answered_1"

definition leader_1 :: "mem_log raft_core" where
  "leader_1 = after_step (Do_becomeLeader late_env) elected_1"

lemmas election_defs = after_step_def candidate_1_def asking_1_def asked_2_def voted_2_def answered_1_def elected_1_def
  leader_1_def fresh_node_def sample_defs late_env_def a_vote_request_def a_vote_reply_def mem_new_def mem_getTerm_def
  updateElectionTimePoint_def termOfLogEntryAt_def res_bind_def Let_def electionTimeout_def requestVote_def
  update_peers_def request_from_peer_def receiveMessage_def handle_event_def raft_then_def

lemma election_steps:
  "raft_act sample_ops (Do_electionTimeout late_env) (fresh_node 1) = Inr (candidate_1, [])"
  "raft_act sample_ops (Do_requestVote late_env) candidate_1
     = Inr (asking_1, [Send_RV 2 a_vote_request, Send_RV 3 a_vote_request])"
  "raft_act sample_ops (Do_deliver (RequestVoteRequest a_vote_request)) (fresh_node 2) = Inr (asked_2, [])"
  "raft_act sample_ops (Do_deliver (RequestVoteResponse 2 True a_vote_reply)) asking_1 = Inr (answered_1, [])"
  by (simp_all add: election_defs)

lemma voter_step:
  "raft_act sample_ops (Do_receiveMessage late_env) asked_2 = Inr (voted_2, [Reply_RV Status_OK a_vote_reply])"
  by (simp add: election_defs handleRequestVoteRequest_def stepDown_def)

lemma answer_step: "raft_act sample_ops (Do_receiveMessage late_env) answered_1 = Inr (elected_1, [])"
  by (simp add: election_defs handleRequestVoteResponse_def turn_on_def peer_of_def put_peer_def)

lemma leader_step:
  "raft_act sample_ops (Do_becomeLeader late_env) elected_1 = Inr (leader_1, [])"
  "rc_mRaftRole leader_1 = Leader" "ml_mTerm (rc_mLog leader_1) = 1"
  by (simp_all add: election_defs handleRequestVoteResponse_def turn_on_def peer_of_def put_peer_def
      becomeLeader_def getMajorityNumber_def vote_count_def noop_entry_def mem_appendEntry_def)

lemma an_election_run:
  "\<exists>cl. cluster_run sample_ops {1, 2, 3} an_election fresh_cluster = Some cl \<and> (1, 1) \<in> cl_leaders cl"
proof -
  have "next_event asked_2 = Some (RequestVoteRequest a_vote_request)" by (simp add: next_event_def asked_2_def)
  moreover have "vq_candidate_id a_vote_request = 1" by (simp add: a_vote_request_def)
  moreover have "lo_getCurrentTerm sample_ops (rc_mLog leader_1) = 1"
    using leader_step(3) by (simp add: sample_ops_def mem_ops_def)
  ultimately show ?thesis
    unfolding an_election_def fresh_cluster_def
    by (simp del: raft_act.simps One_nat_def add: election_steps voter_step answer_step leader_step allowed_def deliverable_def cluster_after_def
        requests_sent_def replies_sent_def)
qed

theorem election_safety_witness:
  "\<exists>cl. cluster_reachable sample_ops {1, 2, 3} fresh_cluster cl \<and> (1, 1) \<in> cl_leaders cl \<and> (1, 2) \<notin> cl_leaders cl"
proof -
  obtain cl where "cluster_run sample_ops {1, 2, 3} an_election fresh_cluster = Some cl" and led: "(1, 1) \<in> cl_leaders cl"
    using an_election_run by blast
  then have reach: "cluster_reachable sample_ops {1, 2, 3} fresh_cluster cl"
    by (blast intro: cluster_run_reachable cluster_reachable.start)
  have "(1, 2) \<notin> cl_leaders cl"
    using election_safety[OF fresh_cluster_init[unfolded sample_ops_def] reach[unfolded sample_ops_def]] led
    by (metis one_eq_numeral_iff semiring_norm(85))
  with reach led show ?thesis by blast
qed

end
