(* ===== verification/Ledger_Domain.thy ===== *)
theory Ledger_Domain
  imports Ledger_Prelude
begin

text \<open>
  The domain classes of the ledger, \<^verbatim>\<open>src/src/app_ledger/should_be_generated/domain\<close>: amounts,
  balances, account and transaction types, accounts, account metadata, journal lines and journal
  entries, each with the conversion from its protobuf message (\<^verbatim>\<open>initWith\<close>), the conversion to
  it (\<^verbatim>\<open>encodeTo\<close>, which writes into a message it is given) and \<^verbatim>\<open>isSame\<close>.

  The message classes are generated from \<^verbatim>\<open>ledger.proto\<close>, which is not part of the repository.
  A message is a record of the fields the source reads or writes, at the type of the C++ member
  they are copied to or from: a generated message is a container whose accessor \<^verbatim>\<open>f()\<close> returns
  what \<^verbatim>\<open>set_f\<close> stored. An enum field of proto3 is open: a value outside the enumerators, such
  as one of a newer client, is kept as it is (\<open>PA_Other\<close>, \<open>PT_Other\<close>) and reaches the
  \<^verbatim>\<open>default\<close> of the source's \<^verbatim>\<open>switch\<close>.
\<close>

section \<open>Amounts and balances\<close>

record pb_Amount =
  pam_version :: u64
  pam_value :: u64

record pb_Balance =
  pba_version :: u64
  pba_value :: u64

record Amount =
  am_mVersion :: u64
  am_mValue :: u64

record Balance =
  ba_mVersion :: u64
  ba_mValue :: u64

definition Amount_new :: Amount where
  "Amount_new = \<lparr>am_mVersion = 1, am_mValue = 0\<rparr>"

definition Amount_of_proto :: "pb_Amount \<Rightarrow> Amount res" where
  "Amount_of_proto pb =
     (if \<not> (pam_version pb > 0) then Inl Assertion
      else if pam_version pb = 1
        then Inr \<lparr>am_mVersion = pam_version pb, am_mValue = pam_value pb\<rparr>
      else Inl Exit_1)"

definition Amount_encodeTo :: "Amount \<Rightarrow> pb_Amount \<Rightarrow> pb_Amount res" where
  "Amount_encodeTo a pb =
     (let pb1 = pb\<lparr>pam_version := am_mVersion a\<rparr> in
      if am_mVersion a = 1 then Inr (pb1\<lparr>pam_value := am_mValue a\<rparr>) else Inl Exit_1)"

definition Amount_isSame :: "Amount \<Rightarrow> Amount \<Rightarrow> bool" where
  "Amount_isSame a b =
     (if am_mVersion a \<noteq> am_mVersion b then False
      else if am_mVersion a = 1 then am_mValue a = am_mValue b
      else False)"

definition Amount_add :: "Amount \<Rightarrow> Amount \<Rightarrow> Amount res" where
  "Amount_add a b =
     (if am_mVersion b \<noteq> am_mVersion a then Inl Assertion
      else Inr (a\<lparr>am_mValue := am_mValue a + am_mValue b\<rparr>))"

definition Amount_eq :: "Amount \<Rightarrow> Amount \<Rightarrow> bool" where
  "Amount_eq a b = (am_mVersion a = am_mVersion b \<and> am_mValue a = am_mValue b)"

definition Amount_neq :: "Amount \<Rightarrow> Amount \<Rightarrow> bool" where
  "Amount_neq a b = (\<not> Amount_eq a b)"

definition Balance_new :: Balance where
  "Balance_new = \<lparr>ba_mVersion = 1, ba_mValue = 0\<rparr>"

definition Balance_of_proto :: "pb_Balance \<Rightarrow> Balance res" where
  "Balance_of_proto pb =
     (if \<not> (pba_version pb > 0) then Inl Assertion
      else if pba_version pb = 1
        then Inr \<lparr>ba_mVersion = pba_version pb, ba_mValue = pba_value pb\<rparr>
      else Inl Exit_1)"

definition Balance_encodeTo :: "Balance \<Rightarrow> pb_Balance \<Rightarrow> pb_Balance res" where
  "Balance_encodeTo b pb =
     (let pb1 = pb\<lparr>pba_version := ba_mVersion b\<rparr> in
      if ba_mVersion b = 1 then Inr (pb1\<lparr>pba_value := ba_mValue b\<rparr>) else Inl Exit_1)"

definition Balance_isSame :: "Balance \<Rightarrow> Balance \<Rightarrow> bool" where
  "Balance_isSame a b =
     (if ba_mVersion a \<noteq> ba_mVersion b then False
      else if ba_mVersion a = 1 then ba_mValue a = ba_mValue b
      else False)"

definition Balance_plus :: "Balance \<Rightarrow> Amount \<Rightarrow> Balance" where
  "Balance_plus b a = b\<lparr>ba_mValue := ba_mValue b + am_mValue a\<rparr>"

definition Balance_minus :: "Balance \<Rightarrow> Amount \<Rightarrow> Balance" where
  "Balance_minus b a = b\<lparr>ba_mValue := ba_mValue b - am_mValue a\<rparr>"

section \<open>Account and transaction types\<close>

datatype AccountType =
  AT_Unknown | AT_Asset | AT_Liability | AT_Capital | AT_Income | AT_CostOfGoodsSold | AT_Expense

datatype pb_AccountType =
  PA_UnknownAccountType | PA_Asset | PA_Liability | PA_Capital | PA_Income | PA_CostOfGoodsSold
| PA_Expense | PA_Other int

datatype TransactionType = TT_Unknown | TT_Debit | TT_Credit

datatype pb_TransactionType = PT_UnknownTransactionType | PT_Debit | PT_Credit | PT_Other int

fun AccountType_int :: "AccountType \<Rightarrow> nat" where
  "AccountType_int AT_Unknown = 0"
| "AccountType_int AT_Asset = 1"
| "AccountType_int AT_Liability = 2"
| "AccountType_int AT_Capital = 3"
| "AccountType_int AT_Income = 4"
| "AccountType_int AT_CostOfGoodsSold = 5"
| "AccountType_int AT_Expense = 6"

fun AccountTypeUtil_typeOf :: "pb_AccountType \<Rightarrow> AccountType" where
  "AccountTypeUtil_typeOf PA_UnknownAccountType = AT_Unknown"
| "AccountTypeUtil_typeOf PA_Asset = AT_Asset"
| "AccountTypeUtil_typeOf PA_Liability = AT_Liability"
| "AccountTypeUtil_typeOf PA_Capital = AT_Capital"
| "AccountTypeUtil_typeOf PA_Income = AT_Income"
| "AccountTypeUtil_typeOf PA_CostOfGoodsSold = AT_CostOfGoodsSold"
| "AccountTypeUtil_typeOf PA_Expense = AT_Expense"
| "AccountTypeUtil_typeOf (PA_Other n) = AT_Unknown"

fun AccountTypeUtil_toType :: "AccountType \<Rightarrow> pb_AccountType" where
  "AccountTypeUtil_toType AT_Unknown = PA_UnknownAccountType"
| "AccountTypeUtil_toType AT_Asset = PA_Asset"
| "AccountTypeUtil_toType AT_Liability = PA_Liability"
| "AccountTypeUtil_toType AT_Capital = PA_Capital"
| "AccountTypeUtil_toType AT_Income = PA_Income"
| "AccountTypeUtil_toType AT_CostOfGoodsSold = PA_CostOfGoodsSold"
| "AccountTypeUtil_toType AT_Expense = PA_Expense"

fun AccountType_show :: "AccountType \<Rightarrow> string" where
  "AccountType_show AT_Unknown = ''Unknown''"
| "AccountType_show AT_Asset = ''Asset''"
| "AccountType_show AT_Liability = ''Liability''"
| "AccountType_show AT_Capital = ''Capital''"
| "AccountType_show AT_Income = ''Income''"
| "AccountType_show AT_CostOfGoodsSold = ''CostOfGoodsSold''"
| "AccountType_show AT_Expense = ''Expense''"

fun TransactionTypeUtil_typeOf :: "pb_TransactionType \<Rightarrow> TransactionType" where
  "TransactionTypeUtil_typeOf PT_UnknownTransactionType = TT_Unknown"
| "TransactionTypeUtil_typeOf PT_Debit = TT_Debit"
| "TransactionTypeUtil_typeOf PT_Credit = TT_Credit"
| "TransactionTypeUtil_typeOf (PT_Other n) = TT_Unknown"

fun TransactionTypeUtil_toType :: "TransactionType \<Rightarrow> pb_TransactionType" where
  "TransactionTypeUtil_toType TT_Unknown = PT_UnknownTransactionType"
| "TransactionTypeUtil_toType TT_Debit = PT_Debit"
| "TransactionTypeUtil_toType TT_Credit = PT_Credit"

fun TransactionType_show :: "TransactionType \<Rightarrow> string" where
  "TransactionType_show TT_Unknown = ''Unknown''"
| "TransactionType_show TT_Debit = ''Debit''"
| "TransactionType_show TT_Credit = ''Credit''"

text \<open>
  \<^verbatim>\<open>std::map<AccountType, ...>\<close> compares the underlying integers of the enum class.
\<close>

lemma AccountType_int_inj [simp]: "(AccountType_int x = AccountType_int y) = (x = y)"
  by (cases x; cases y) auto

instantiation AccountType :: linorder
begin

definition less_eq_AccountType :: "AccountType \<Rightarrow> AccountType \<Rightarrow> bool" where
  "less_eq_AccountType x y = (AccountType_int x \<le> AccountType_int y)"

definition less_AccountType :: "AccountType \<Rightarrow> AccountType \<Rightarrow> bool" where
  "less_AccountType x y = (AccountType_int x < AccountType_int y)"

instance
  by standard (auto simp: less_eq_AccountType_def less_AccountType_def)

end

section \<open>Accounts\<close>

record pb_Account =
  pac_version :: u64
  pac_type :: pb_AccountType
  pac_balance :: pb_Balance
  pac_nominal_code :: u64
  pac_name :: string
  pac_desc :: string
  pac_iso4217_currency_code :: u64

record Account =
  ac_mVersion :: u64
  ac_mAccountType :: AccountType
  ac_mNominalCode :: u64
  ac_mName :: string
  ac_mDesc :: string
  ac_mISO4217CurrencyCode :: u64
  ac_mBalance :: Balance

definition Account_initWith :: "pb_Account \<Rightarrow> Account res" where
  "Account_initWith pb =
     (if \<not> (pac_version pb > 0) then Inl Assertion
      else if pac_version pb = 1 then
        res_bind (Balance_of_proto (pac_balance pb)) (\<lambda>balance.
          Inr \<lparr>ac_mVersion = pac_version pb,
               ac_mAccountType = AccountTypeUtil_typeOf (pac_type pb),
               ac_mNominalCode = pac_nominal_code pb,
               ac_mName = pac_name pb,
               ac_mDesc = pac_desc pb,
               ac_mISO4217CurrencyCode = pac_iso4217_currency_code pb,
               ac_mBalance = balance\<rparr>)
      else Inl Exit_1)"

definition Account_encodeTo :: "Account \<Rightarrow> pb_Account \<Rightarrow> pb_Account res" where
  "Account_encodeTo a pb =
     (let pb1 = pb\<lparr>pac_version := ac_mVersion a\<rparr> in
      if ac_mVersion a = 1 then
        res_bind (Balance_encodeTo (ac_mBalance a) (pac_balance pb1)) (\<lambda>balance.
          Inr (pb1\<lparr>pac_type := AccountTypeUtil_toType (ac_mAccountType a),
                   pac_balance := balance,
                   pac_nominal_code := ac_mNominalCode a,
                   pac_name := ac_mName a,
                   pac_desc := ac_mDesc a,
                   pac_iso4217_currency_code := ac_mISO4217CurrencyCode a\<rparr>))
      else Inl Exit_1)"

definition Account_isSame :: "Account \<Rightarrow> Account \<Rightarrow> bool" where
  "Account_isSame a b =
     (if ac_mVersion a \<noteq> ac_mVersion b then False
      else if ac_mVersion a = 1 then
        (if ac_mAccountType a \<noteq> ac_mAccountType b then False
         else if \<not> Balance_isSame (ac_mBalance a) (ac_mBalance b) then False
         else if ac_mNominalCode a \<noteq> ac_mNominalCode b then False
         else if ac_mName a \<noteq> ac_mName b then False
         else if ac_mDesc a \<noteq> ac_mDesc b then False
         else if ac_mISO4217CurrencyCode a \<noteq> ac_mISO4217CurrencyCode b then False
         else True)
      else False)"

fun Account_applyCredit :: "Amount \<Rightarrow> Account \<Rightarrow> Account res" where
  "Account_applyCredit amount a =
     (case ac_mAccountType a of
        AT_Asset \<Rightarrow> Inr (a\<lparr>ac_mBalance := Balance_minus (ac_mBalance a) amount\<rparr>)
      | AT_Capital \<Rightarrow> Inr (a\<lparr>ac_mBalance := Balance_minus (ac_mBalance a) amount\<rparr>)
      | AT_CostOfGoodsSold \<Rightarrow> Inr (a\<lparr>ac_mBalance := Balance_minus (ac_mBalance a) amount\<rparr>)
      | AT_Expense \<Rightarrow> Inr (a\<lparr>ac_mBalance := Balance_minus (ac_mBalance a) amount\<rparr>)
      | AT_Income \<Rightarrow> Inr (a\<lparr>ac_mBalance := Balance_plus (ac_mBalance a) amount\<rparr>)
      | AT_Liability \<Rightarrow> Inr (a\<lparr>ac_mBalance := Balance_plus (ac_mBalance a) amount\<rparr>)
      | AT_Unknown \<Rightarrow> Inl Exit_1)"

fun Account_applyDebit :: "Amount \<Rightarrow> Account \<Rightarrow> Account res" where
  "Account_applyDebit amount a =
     (case ac_mAccountType a of
        AT_Asset \<Rightarrow> Inr (a\<lparr>ac_mBalance := Balance_plus (ac_mBalance a) amount\<rparr>)
      | AT_Capital \<Rightarrow> Inr (a\<lparr>ac_mBalance := Balance_plus (ac_mBalance a) amount\<rparr>)
      | AT_CostOfGoodsSold \<Rightarrow> Inr (a\<lparr>ac_mBalance := Balance_plus (ac_mBalance a) amount\<rparr>)
      | AT_Expense \<Rightarrow> Inr (a\<lparr>ac_mBalance := Balance_plus (ac_mBalance a) amount\<rparr>)
      | AT_Income \<Rightarrow> Inr (a\<lparr>ac_mBalance := Balance_minus (ac_mBalance a) amount\<rparr>)
      | AT_Liability \<Rightarrow> Inr (a\<lparr>ac_mBalance := Balance_minus (ac_mBalance a) amount\<rparr>)
      | AT_Unknown \<Rightarrow> Inl Exit_1)"

declare Account_applyCredit.simps [simp del]
declare Account_applyDebit.simps [simp del]

section \<open>Account metadata\<close>

record pb_AccountMetadata =
  pmd_version :: u64
  pmd_type :: pb_AccountType
  pmd_low_inclusive :: u64
  pmd_high_inclusive :: u64

record AccountMetadata =
  md_mVersion :: u64
  md_mAccountType :: AccountType
  md_mLowInclusive :: u64
  md_mHighInclusive :: u64

definition AccountMetadata_initWith :: "pb_AccountMetadata \<Rightarrow> AccountMetadata res" where
  "AccountMetadata_initWith pb =
     (if \<not> (pmd_version pb > 0) then Inl Assertion
      else if pmd_version pb = 1 then
        Inr \<lparr>md_mVersion = pmd_version pb,
             md_mAccountType = AccountTypeUtil_typeOf (pmd_type pb),
             md_mLowInclusive = pmd_low_inclusive pb,
             md_mHighInclusive = pmd_high_inclusive pb\<rparr>
      else Inl Exit_1)"

definition AccountMetadata_encodeTo ::
  "AccountMetadata \<Rightarrow> pb_AccountMetadata \<Rightarrow> pb_AccountMetadata res" where
  "AccountMetadata_encodeTo m pb =
     (let pb1 = pb\<lparr>pmd_version := md_mVersion m\<rparr> in
      if md_mVersion m = 1 then
        Inr (pb1\<lparr>pmd_type := AccountTypeUtil_toType (md_mAccountType m),
                 pmd_low_inclusive := md_mLowInclusive m,
                 pmd_high_inclusive := md_mHighInclusive m\<rparr>)
      else Inl Exit_1)"

definition AccountMetadata_isSame :: "AccountMetadata \<Rightarrow> AccountMetadata \<Rightarrow> bool" where
  "AccountMetadata_isSame a b =
     (if md_mVersion a \<noteq> md_mVersion b then False
      else if md_mVersion a = 1 then
        (if md_mAccountType a \<noteq> md_mAccountType b then False
         else if md_mLowInclusive a \<noteq> md_mLowInclusive b then False
         else if md_mHighInclusive a \<noteq> md_mHighInclusive b then False
         else True)
      else False)"

section \<open>Journal lines and entries\<close>

record pb_JournalLine =
  pjl_version :: u64
  pjl_nominal_code :: u64
  pjl_transaction_type :: pb_TransactionType
  pjl_amount :: pb_Amount
  pjl_iso4217_currency_code :: u64
  pjl_ref_data :: string

record JournalLine =
  jl_mVersion :: u64
  jl_mNominalCode :: u64
  jl_mTransactionType :: TransactionType
  jl_mAmount :: Amount
  jl_mISO4217CurrencyCode :: u64
  jl_mRefData :: string

definition JournalLine_initWith :: "pb_JournalLine \<Rightarrow> JournalLine res" where
  "JournalLine_initWith pb =
     (if \<not> (pjl_version pb > 0) then Inl Assertion
      else if pjl_version pb = 1 then
        res_bind (Amount_of_proto (pjl_amount pb)) (\<lambda>amount.
          Inr \<lparr>jl_mVersion = pjl_version pb,
               jl_mNominalCode = pjl_nominal_code pb,
               jl_mTransactionType = TransactionTypeUtil_typeOf (pjl_transaction_type pb),
               jl_mAmount = amount,
               jl_mISO4217CurrencyCode = pjl_iso4217_currency_code pb,
               jl_mRefData = pjl_ref_data pb\<rparr>)
      else Inl Exit_1)"

definition JournalLine_encodeTo :: "JournalLine \<Rightarrow> pb_JournalLine \<Rightarrow> pb_JournalLine res" where
  "JournalLine_encodeTo l pb =
     (let pb1 = pb\<lparr>pjl_version := jl_mVersion l\<rparr> in
      if jl_mVersion l = 1 then
        res_bind (Amount_encodeTo (jl_mAmount l) (pjl_amount pb1)) (\<lambda>amount.
          Inr (pb1\<lparr>pjl_transaction_type := TransactionTypeUtil_toType (jl_mTransactionType l),
                   pjl_nominal_code := jl_mNominalCode l,
                   pjl_amount := amount,
                   pjl_iso4217_currency_code := jl_mISO4217CurrencyCode l,
                   pjl_ref_data := jl_mRefData l\<rparr>))
      else Inl Exit_1)"

definition JournalLine_isSame :: "JournalLine \<Rightarrow> JournalLine \<Rightarrow> bool" where
  "JournalLine_isSame a b =
     (if jl_mVersion a \<noteq> jl_mVersion b then False
      else if jl_mVersion a = 1 then
        (if jl_mNominalCode a \<noteq> jl_mNominalCode b then False
         else if jl_mTransactionType a \<noteq> jl_mTransactionType b then False
         else if \<not> Amount_isSame (jl_mAmount a) (jl_mAmount b) then False
         else if jl_mISO4217CurrencyCode a \<noteq> jl_mISO4217CurrencyCode b then False
         else if jl_mRefData a \<noteq> jl_mRefData b then False
         else True)
      else False)"

record pb_JournalEntry =
  pje_version :: u64
  pje_id :: string
  pje_valid_time :: u64
  pje_record_time :: u64
  pje_purpose :: string
  pje_journal_lines :: "pb_JournalLine list"

record JournalEntry =
  je_mVersion :: u64
  je_mId :: string
  je_mValidTime :: u64
  je_mRecordTime :: u64
  je_mJournalLines :: "JournalLine list"
  je_mPurpose :: string

text \<open>
  \<^verbatim>\<open>initWith\<close> appends the message's lines to the object's own vector (empty for the
  default-constructed objects it is called on), so it takes that vector as an argument; the other
  members are overwritten. \<^verbatim>\<open>encodeTo\<close> appends to the message's repeated field, each new element
  being a default message, and assigns the message's own id to itself (line 56).
\<close>

definition pb_Amount_default :: pb_Amount where
  "pb_Amount_default = \<lparr>pam_version = 0, pam_value = 0\<rparr>"

definition pb_JournalLine_default :: pb_JournalLine where
  "pb_JournalLine_default =
     \<lparr>pjl_version = 0, pjl_nominal_code = 0, pjl_transaction_type = PT_UnknownTransactionType,
      pjl_amount = pb_Amount_default, pjl_iso4217_currency_code = 0, pjl_ref_data = ''''\<rparr>"

definition JournalEntry_initWith :: "JournalLine list \<Rightarrow> pb_JournalEntry \<Rightarrow> JournalEntry res" where
  "JournalEntry_initWith own_lines pb =
     (if \<not> (pje_version pb > 0) then Inl Assertion
      else if pje_version pb = 1 then
        res_bind (fold_res (\<lambda>lpb lines. res_bind (JournalLine_initWith lpb) (\<lambda>l. Inr (lines @ [l])))
                    (pje_journal_lines pb) own_lines) (\<lambda>lines.
          Inr \<lparr>je_mVersion = pje_version pb,
               je_mId = pje_id pb,
               je_mValidTime = pje_valid_time pb,
               je_mRecordTime = pje_record_time pb,
               je_mJournalLines = lines,
               je_mPurpose = pje_purpose pb\<rparr>)
      else Inl Exit_1)"

definition JournalEntry_encodeTo :: "JournalEntry \<Rightarrow> pb_JournalEntry \<Rightarrow> pb_JournalEntry res" where
  "JournalEntry_encodeTo e pb =
     (let pb1 = pb\<lparr>pje_version := je_mVersion e\<rparr> in
      if je_mVersion e = 1 then
        (let pb2 = pb1\<lparr>pje_id := pje_id pb1,
                       pje_valid_time := je_mValidTime e,
                       pje_record_time := je_mRecordTime e,
                       pje_purpose := je_mPurpose e\<rparr> in
         fold_res (\<lambda>l p. res_bind (JournalLine_encodeTo l pb_JournalLine_default)
                            (\<lambda>lpb. Inr (p\<lparr>pje_journal_lines := pje_journal_lines p @ [lpb]\<rparr>)))
           (je_mJournalLines e) pb2)
      else Inl Exit_1)"

fun JournalLines_isSame :: "JournalLine list \<Rightarrow> JournalLine list \<Rightarrow> bool" where
  "JournalLines_isSame (l # ls) (r # rs) =
     (if \<not> JournalLine_isSame l r then False else JournalLines_isSame ls rs)"
| "JournalLines_isSame _ _ = True"

definition JournalEntry_isSame :: "JournalEntry \<Rightarrow> JournalEntry \<Rightarrow> bool" where
  "JournalEntry_isSame a b =
     (if je_mVersion a \<noteq> je_mVersion b then False
      else if je_mVersion a = 1 then
        (if je_mId a \<noteq> je_mId b then False
         else if je_mValidTime a \<noteq> je_mValidTime b then False
         else if je_mRecordTime a \<noteq> je_mRecordTime b then False
         else if je_mPurpose a \<noteq> je_mPurpose b then False
         else if length (je_mJournalLines a) \<noteq> length (je_mJournalLines b) then False
         else JournalLines_isSame (je_mJournalLines a) (je_mJournalLines b))
      else False)"

section \<open>Values of the current version\<close>

text \<open>
  Every class supports version 1 only. A well-formed value has that version, down to the values it
  contains.
\<close>

definition Amount_wf :: "Amount \<Rightarrow> bool" where
  "Amount_wf a = (am_mVersion a = 1)"

definition Balance_wf :: "Balance \<Rightarrow> bool" where
  "Balance_wf b = (ba_mVersion b = 1)"

definition Account_wf :: "Account \<Rightarrow> bool" where
  "Account_wf a = (ac_mVersion a = 1 \<and> Balance_wf (ac_mBalance a))"

definition AccountMetadata_wf :: "AccountMetadata \<Rightarrow> bool" where
  "AccountMetadata_wf m = (md_mVersion m = 1)"

definition JournalLine_wf :: "JournalLine \<Rightarrow> bool" where
  "JournalLine_wf l = (jl_mVersion l = 1 \<and> Amount_wf (jl_mAmount l))"

definition JournalEntry_wf :: "JournalEntry \<Rightarrow> bool" where
  "JournalEntry_wf e = (je_mVersion e = 1 \<and> list_all JournalLine_wf (je_mJournalLines e))"

named_theorems codec_simps \<open>the conversions between domain classes and messages\<close>

lemmas wf_defs = Amount_wf_def Balance_wf_def Account_wf_def AccountMetadata_wf_def
  JournalLine_wf_def JournalEntry_wf_def

lemmas value_codec_defs [codec_simps] = Amount_of_proto_def Amount_encodeTo_def Amount_isSame_def
  Balance_of_proto_def Balance_encodeTo_def Balance_isSame_def

lemmas object_codec_defs [codec_simps] = Account_initWith_def Account_encodeTo_def
  Account_isSame_def AccountMetadata_initWith_def AccountMetadata_encodeTo_def
  AccountMetadata_isSame_def JournalLine_initWith_def JournalLine_encodeTo_def
  JournalLine_isSame_def

lemma typeOf_toType [simp]: "AccountTypeUtil_typeOf (AccountTypeUtil_toType t) = t"
  by (cases t) auto

lemma transaction_typeOf_toType [simp]:
  "TransactionTypeUtil_typeOf (TransactionTypeUtil_toType t) = t"
  by (cases t) auto

lemma typeOf_Unknown_iff:
  "AccountTypeUtil_typeOf t = AT_Unknown \<longleftrightarrow> t = PA_UnknownAccountType \<or> (\<exists>n. t = PA_Other n)"
  by (cases t) auto

section \<open>The contract of a versioned codec\<close>

text \<open>
  What a caller of \<^verbatim>\<open>encodeTo\<close>, \<^verbatim>\<open>initWith\<close> and \<^verbatim>\<open>isSame\<close> relies on: encoding a
  well-formed value into any message succeeds and decodes to that value, a decoded value is
  well-formed, and \<^verbatim>\<open>isSame\<close> on well-formed values is equality.
\<close>

locale versioned_codec =
  fixes enc :: "'a \<Rightarrow> 'm \<Rightarrow> 'm res"
    and dec :: "'m \<Rightarrow> 'a res"
    and same :: "'a \<Rightarrow> 'a \<Rightarrow> bool"
    and wf :: "'a \<Rightarrow> bool"
  assumes enc_total: "wf x \<Longrightarrow> \<exists>m'. enc x m = Inr m'"
    and dec_enc: "wf x \<Longrightarrow> enc x m = Inr m' \<Longrightarrow> dec m' = Inr x"
    and dec_wf: "dec m = Inr x \<Longrightarrow> wf x"
    and same_iff: "wf x \<Longrightarrow> same x y \<longleftrightarrow> x = y"
begin

lemma roundtrip: "wf x \<Longrightarrow> res_bind (enc x m) dec = Inr x"
  using enc_total [of x m] dec_enc [of x m] by auto

lemma enc_inj: "wf x \<Longrightarrow> wf y \<Longrightarrow> enc x m = Inr p \<Longrightarrow> enc y n = Inr p \<Longrightarrow> x = y"
  using dec_enc [of x m p] dec_enc [of y n p] by simp

lemma same_after_roundtrip: "wf x \<Longrightarrow> enc x m = Inr p \<Longrightarrow> dec p = Inr y \<Longrightarrow> same x y"
  using dec_enc [of x m p] same_iff [of x y] by simp

lemma roundtrip_list:
  "list_all wf xs \<Longrightarrow> \<exists>ps. map_res (\<lambda>x. enc x m) xs = Inr ps \<and> map_res dec ps = Inr xs"
proof (induction xs)
  case (Cons x xs)
  then obtain ps where "map_res (\<lambda>x. enc x m) xs = Inr ps" "map_res dec ps = Inr xs" by auto
  moreover obtain p where "enc x m = Inr p" using Cons.prems enc_total [of x m] by auto
  ultimately show ?case using Cons.prems dec_enc [of x m p] by auto
qed simp

lemma dec_list_wf: "map_res dec ps = Inr xs \<Longrightarrow> list_all wf xs"
  by (induction ps arbitrary: xs) (auto simp: res_bind_eq_Inr dec_wf)

end

interpretation amount_codec: versioned_codec Amount_encodeTo Amount_of_proto Amount_isSame Amount_wf
  by unfold_locales (auto simp: codec_simps wf_defs split: if_splits)

interpretation balance_codec:
  versioned_codec Balance_encodeTo Balance_of_proto Balance_isSame Balance_wf
  by unfold_locales (auto simp: codec_simps wf_defs split: if_splits)

interpretation metadata_codec: versioned_codec AccountMetadata_encodeTo AccountMetadata_initWith
  AccountMetadata_isSame AccountMetadata_wf
  by unfold_locales (auto simp: codec_simps wf_defs split: if_splits)

interpretation account_codec:
  versioned_codec Account_encodeTo Account_initWith Account_isSame Account_wf
  by unfold_locales
    (auto simp: codec_simps wf_defs res_bind_eq_Inr Let_def split: if_splits)

interpretation line_codec:
  versioned_codec JournalLine_encodeTo JournalLine_initWith JournalLine_isSame JournalLine_wf
  by unfold_locales
    (auto simp: codec_simps wf_defs res_bind_eq_Inr Let_def split: if_splits)

section \<open>Journal entries\<close>

lemma encode_lines_fold:
  assumes "list_all JournalLine_wf ls"
  shows "\<exists>ps. fold_res (\<lambda>l p. res_bind (JournalLine_encodeTo l pb_JournalLine_default)
                 (\<lambda>lpb. Inr (p\<lparr>pje_journal_lines := pje_journal_lines p @ [lpb]\<rparr>))) ls pb
             = Inr (pb\<lparr>pje_journal_lines := pje_journal_lines pb @ ps\<rparr>)
           \<and> map_res JournalLine_initWith ps = Inr ls"
  using assms
proof (induction ls arbitrary: pb)
  case Nil
  then show ?case by (intro exI [of _ "[]"]) simp
next
  case (Cons l ls)
  then obtain q where q: "JournalLine_encodeTo l pb_JournalLine_default = Inr q"
    using line_codec.enc_total by fastforce
  let ?pb = "pb\<lparr>pje_journal_lines := pje_journal_lines pb @ [q]\<rparr>"
  from Cons.prems have "list_all JournalLine_wf ls" by simp
  from Cons.IH [OF this, of ?pb] obtain ps where
    "fold_res (\<lambda>l p. res_bind (JournalLine_encodeTo l pb_JournalLine_default)
       (\<lambda>lpb. Inr (p\<lparr>pje_journal_lines := pje_journal_lines p @ [lpb]\<rparr>))) ls ?pb
     = Inr (?pb\<lparr>pje_journal_lines := pje_journal_lines ?pb @ ps\<rparr>)"
    "map_res JournalLine_initWith ps = Inr ls"
    by blast
  moreover have "JournalLine_initWith q = Inr l"
    using Cons.prems q line_codec.dec_enc by fastforce
  ultimately show ?case using q by (intro exI [of _ "q # ps"]) simp
qed

lemma decode_lines_fold:
  "fold_res (\<lambda>lpb lines. res_bind (JournalLine_initWith lpb) (\<lambda>l. Inr (lines @ [l]))) ps own
   = res_bind (map_res JournalLine_initWith ps) (\<lambda>ls. Inr (own @ ls))"
proof (induction ps arbitrary: own)
  case (Cons p ps)
  then show ?case by (cases "JournalLine_initWith p") (auto simp: res_bind_assoc)
qed simp

lemma JournalLines_isSame_iff:
  "list_all JournalLine_wf ls \<Longrightarrow> length ls = length rs \<Longrightarrow> JournalLines_isSame ls rs = (ls = rs)"
proof (induction ls arbitrary: rs)
  case (Cons l ls)
  then show ?case by (cases rs) (auto simp: line_codec.same_iff)
qed simp

lemma JournalEntry_isSame_iff:
  "JournalEntry_wf a \<Longrightarrow> JournalEntry_isSame a b = (a = b)"
  by (cases a; cases b) (auto simp: JournalEntry_isSame_def wf_defs JournalLines_isSame_iff)

lemma JournalEntry_initWith_wf:
  "JournalEntry_initWith [] pb = Inr e \<Longrightarrow> JournalEntry_wf e"
  by (auto simp: JournalEntry_initWith_def JournalEntry_wf_def decode_lines_fold res_bind_eq_Inr
      line_codec.dec_list_wf split: if_splits)

text \<open>
  Encoding into a message without lines and decoding gives the entry back except for its id, which
  is the one the message already had.
\<close>

lemma JournalEntry_decode_encode:
  assumes "JournalEntry_wf e" and "pje_journal_lines pb = []"
  shows "\<exists>pb'. JournalEntry_encodeTo e pb = Inr pb'
           \<and> JournalEntry_initWith [] pb' = Inr (e\<lparr>je_mId := pje_id pb\<rparr>)"
proof -
  let ?pb = "pb\<lparr>pje_version := je_mVersion e, pje_id := pje_id pb,
    pje_valid_time := je_mValidTime e, pje_record_time := je_mRecordTime e,
    pje_purpose := je_mPurpose e\<rparr>"
  have wf: "je_mVersion e = 1" "list_all JournalLine_wf (je_mJournalLines e)"
    using assms(1) by (simp_all add: JournalEntry_wf_def)
  obtain ps where ps:
    "fold_res (\<lambda>l p. res_bind (JournalLine_encodeTo l pb_JournalLine_default)
       (\<lambda>lpb. Inr (p\<lparr>pje_journal_lines := pje_journal_lines p @ [lpb]\<rparr>)))
       (je_mJournalLines e) ?pb = Inr (?pb\<lparr>pje_journal_lines := pje_journal_lines ?pb @ ps\<rparr>)"
    "map_res JournalLine_initWith ps = Inr (je_mJournalLines e)"
    using encode_lines_fold [OF wf(2), of ?pb] by blast
  then have enc: "JournalEntry_encodeTo e pb
      = Inr (?pb\<lparr>pje_journal_lines := pje_journal_lines ?pb @ ps\<rparr>)"
    using wf(1) unfolding JournalEntry_encodeTo_def Let_def by simp
  have dec: "JournalEntry_initWith [] (?pb\<lparr>pje_journal_lines := pje_journal_lines ?pb @ ps\<rparr>)
      = Inr (e\<lparr>je_mId := pje_id pb\<rparr>)"
    using ps(2) wf assms(2) by (simp add: JournalEntry_initWith_def decode_lines_fold)
  from enc dec show ?thesis by blast
qed

section \<open>Debits and credits\<close>

text \<open>
  Accounts whose balance grows on the debit side and those whose balance grows on the credit side.
  \<open>debit_balance\<close> reads every balance on the debit side: a debit adds to it, a credit subtracts
  from it, whatever the type of the account.
\<close>

definition debit_normal :: "AccountType \<Rightarrow> bool" where
  "debit_normal t = (t \<in> {AT_Asset, AT_Capital, AT_CostOfGoodsSold, AT_Expense})"

definition debit_balance :: "Account \<Rightarrow> u64" where
  "debit_balance a =
     (if debit_normal (ac_mAccountType a) then ba_mValue (ac_mBalance a)
      else - ba_mValue (ac_mBalance a))"

definition credit_value :: "JournalLine \<Rightarrow> u64" where
  "credit_value l = (if jl_mTransactionType l = TT_Credit then am_mValue (jl_mAmount l) else 0)"

definition debit_value :: "JournalLine \<Rightarrow> u64" where
  "debit_value l = (if jl_mTransactionType l = TT_Debit then am_mValue (jl_mAmount l) else 0)"

lemmas apply_amount_defs = Account_applyDebit.simps Account_applyCredit.simps Balance_plus_def
  Balance_minus_def

lemma applyDebit_total:
  "(\<exists>a'. Account_applyDebit x a = Inr a') = (ac_mAccountType a \<noteq> AT_Unknown)"
  "(\<exists>a'. Account_applyCredit x a = Inr a') = (ac_mAccountType a \<noteq> AT_Unknown)"
  by (cases "ac_mAccountType a"; simp add: apply_amount_defs)+

lemma applyDebit_effect:
  "Account_applyDebit x a = Inr a' \<Longrightarrow> debit_balance a' = debit_balance a + am_mValue x"
  by (cases "ac_mAccountType a")
    (auto simp: apply_amount_defs debit_balance_def debit_normal_def)

lemma applyCredit_effect:
  "Account_applyCredit x a = Inr a' \<Longrightarrow> debit_balance a' = debit_balance a - am_mValue x"
  by (cases "ac_mAccountType a")
    (auto simp: apply_amount_defs debit_balance_def debit_normal_def)

text \<open>Posting changes nothing of an account but the value of its balance.\<close>

lemma apply_amount_frame:
  assumes "Account_applyDebit x a = Inr a' \<or> Account_applyCredit x a = Inr a'"
  shows "a' = a\<lparr>ac_mBalance := ac_mBalance a\<lparr>ba_mValue := ba_mValue (ac_mBalance a')\<rparr>\<rparr>"
  using assms by (cases "ac_mAccountType a") (auto simp: apply_amount_defs)

lemma apply_amount_keeps:
  assumes "Account_applyDebit x a = Inr a' \<or> Account_applyCredit x a = Inr a'"
  shows "ac_mAccountType a' = ac_mAccountType a"
    and "ac_mNominalCode a' = ac_mNominalCode a"
    and "ac_mISO4217CurrencyCode a' = ac_mISO4217CurrencyCode a"
    and "Account_wf a \<Longrightarrow> Account_wf a'"
  using assms by (cases "ac_mAccountType a"; auto simp: apply_amount_defs wf_defs)+

end
