(* ===== verification/Es_Types.thy ===== *)
theory Es_Types
  imports Ledger_Prelude
begin

text \<open>
  The event-sourcing base classes of \<^verbatim>\<open>src/src/infra/es\<close>: the metadata of commands and events
  (\<^verbatim>\<open>MetaData.h\<close>, \<^verbatim>\<open>CommandMetaData.h\<close>, \<^verbatim>\<open>EventMetaData.h\<close>), its conversion to and from the
  entries of \<^verbatim>\<open>store/store.proto\<close>, the metadata part of \<^verbatim>\<open>Command.h\<close> and \<^verbatim>\<open>Event.h\<close>, the hint
  a processed command returns (\<^verbatim>\<open>ProcessCommandStateMachine.h\<close>) and replies to request handles.

  \<^verbatim>\<open>mId\<close>, \<^verbatim>\<open>mCreatorId\<close>, \<^verbatim>\<open>mGroupId\<close>, \<^verbatim>\<open>mGroupVersion\<close> and an event's \<^verbatim>\<open>mCommandId\<close> have
  no initialiser: the constructors take the indeterminate values as an argument.
\<close>

record MetaData =
  mt_mId :: u64
  mt_mType :: u64
  mt_mCreatedTimeInNanos :: u64
  mt_mProcessTimeInNanos :: u64
  mt_mLeaderReadyTimeInNanos :: u64
  mt_mFinishTimeInNanos :: u64
  mt_mCreatorId :: u64
  mt_mGroupId :: u64
  mt_mGroupVersion :: u64
  mt_mTrackingContext :: string

record CommandMetaData = MetaData +
  cm_mRequestHandle :: "nat option"

record EventMetaData = MetaData +
  em_mCommandId :: u64

record CommandEntry =
  ce_type :: u64
  ce_id :: u64
  ce_createdTimeInNanos :: u64
  ce_entry :: string
  ce_creatorId :: u64
  ce_groupId :: u64
  ce_groupVersion :: u64
  ce_trackingContext :: string

record EventEntry =
  ee_type :: u64
  ee_id :: u64
  ee_commandId :: u64
  ee_createdTimeInNanos :: u64
  ee_entry :: string
  ee_creatorId :: u64
  ee_groupId :: u64
  ee_groupVersion :: u64
  ee_trackingContext :: string

record RaftPayload =
  rp_command :: CommandEntry
  rp_events :: "EventEntry list"

record ProcessHint =
  ph_mCode :: u64
  ph_mMessage :: string

datatype reply = Reply nat u32 string "u64 option"

section \<open>Metadata and store entries\<close>

definition CommandMetaData_of_entry :: "CommandEntry \<Rightarrow> CommandMetaData" where
  "CommandMetaData_of_entry e =
     \<lparr>mt_mId = ce_id e, mt_mType = ce_type e, mt_mCreatedTimeInNanos = ce_createdTimeInNanos e,
      mt_mProcessTimeInNanos = 0, mt_mLeaderReadyTimeInNanos = 0, mt_mFinishTimeInNanos = 0,
      mt_mCreatorId = ce_creatorId e, mt_mGroupId = ce_groupId e,
      mt_mGroupVersion = ce_groupVersion e, mt_mTrackingContext = ce_trackingContext e,
      cm_mRequestHandle = None\<rparr>"

definition EventMetaData_of_entry :: "EventEntry \<Rightarrow> EventMetaData" where
  "EventMetaData_of_entry e =
     \<lparr>mt_mId = ee_id e, mt_mType = ee_type e, mt_mCreatedTimeInNanos = ee_createdTimeInNanos e,
      mt_mProcessTimeInNanos = 0, mt_mLeaderReadyTimeInNanos = 0, mt_mFinishTimeInNanos = 0,
      mt_mCreatorId = ee_creatorId e, mt_mGroupId = ee_groupId e,
      mt_mGroupVersion = ee_groupVersion e, mt_mTrackingContext = ee_trackingContext e,
      em_mCommandId = ee_commandId e\<rparr>"

definition populateCommandEntry :: "CommandMetaData \<Rightarrow> CommandEntry \<Rightarrow> CommandEntry" where
  "populateCommandEntry m e =
     e\<lparr>ce_type := mt_mType m, ce_id := mt_mId m,
       ce_createdTimeInNanos := mt_mCreatedTimeInNanos m, ce_creatorId := mt_mCreatorId m,
       ce_groupId := mt_mGroupId m, ce_groupVersion := mt_mGroupVersion m,
       ce_trackingContext := mt_mTrackingContext m\<rparr>"

definition populateEventEntry :: "EventMetaData \<Rightarrow> EventEntry \<Rightarrow> EventEntry" where
  "populateEventEntry m e =
     e\<lparr>ee_type := mt_mType m, ee_id := mt_mId m, ee_commandId := em_mCommandId m,
       ee_createdTimeInNanos := mt_mCreatedTimeInNanos m, ee_creatorId := mt_mCreatorId m,
       ee_groupId := mt_mGroupId m, ee_groupVersion := mt_mGroupVersion m,
       ee_trackingContext := mt_mTrackingContext m\<rparr>"

definition CommandMeta_new :: "CommandMetaData \<Rightarrow> u64 \<Rightarrow> u64 \<Rightarrow> CommandMetaData" where
  "CommandMeta_new junk type created =
     junk\<lparr>mt_mType := type, mt_mCreatedTimeInNanos := created, mt_mProcessTimeInNanos := 0,
          mt_mLeaderReadyTimeInNanos := 0, mt_mFinishTimeInNanos := 0,
          mt_mTrackingContext := '''', cm_mRequestHandle := None\<rparr>"

definition EventMeta_new :: "EventMetaData \<Rightarrow> u64 \<Rightarrow> u64 \<Rightarrow> EventMetaData" where
  "EventMeta_new junk type created =
     junk\<lparr>mt_mType := type, mt_mCreatedTimeInNanos := created, mt_mProcessTimeInNanos := 0,
          mt_mLeaderReadyTimeInNanos := 0, mt_mFinishTimeInNanos := 0,
          mt_mTrackingContext := ''''\<rparr>"

definition Command_setPartialMetaData :: "CommandMetaData \<Rightarrow> CommandMetaData \<Rightarrow> CommandMetaData" where
  "Command_setPartialMetaData src m =
     m\<lparr>mt_mId := mt_mId src, mt_mCreatorId := mt_mCreatorId src, mt_mGroupId := mt_mGroupId src,
       mt_mGroupVersion := mt_mGroupVersion src,
       mt_mTrackingContext := mt_mTrackingContext src\<rparr>"

definition Event_setPartialMetaData :: "EventMetaData \<Rightarrow> EventMetaData \<Rightarrow> EventMetaData" where
  "Event_setPartialMetaData src m =
     m\<lparr>mt_mId := mt_mId src, em_mCommandId := em_mCommandId src,
       mt_mCreatorId := mt_mCreatorId src, mt_mGroupId := mt_mGroupId src,
       mt_mGroupVersion := mt_mGroupVersion src,
       mt_mTrackingContext := mt_mTrackingContext src\<rparr>"

text \<open>\<^verbatim>\<open>Command::kVerifiedSuccess\<close>, the answer of \<^verbatim>\<open>verifyCommand\<close> on a valid command.\<close>

definition kVerifiedSuccess :: string where
  "kVerifiedSuccess = ''Success''"

text \<open>
  What survives a write to the store and a read back: everything but the process-local times and
  the request handle.
\<close>

lemmas meta_defs = CommandMetaData_of_entry_def EventMetaData_of_entry_def
  populateCommandEntry_def populateEventEntry_def CommandMeta_new_def EventMeta_new_def
  Command_setPartialMetaData_def Event_setPartialMetaData_def

lemma command_meta_roundtrip:
  "CommandMetaData_of_entry (populateCommandEntry m e)
   = m\<lparr>mt_mProcessTimeInNanos := 0, mt_mLeaderReadyTimeInNanos := 0, mt_mFinishTimeInNanos := 0,
       cm_mRequestHandle := None\<rparr>"
  by (cases m) (simp add: meta_defs)

lemma event_meta_roundtrip:
  "EventMetaData_of_entry (populateEventEntry m e)
   = m\<lparr>mt_mProcessTimeInNanos := 0, mt_mLeaderReadyTimeInNanos := 0,
       mt_mFinishTimeInNanos := 0\<rparr>"
  by (cases m) (simp add: meta_defs)

lemma event_meta_rebuilt:
  "Event_setPartialMetaData m (EventMeta_new junk (mt_mType m) (mt_mCreatedTimeInNanos m))
   = m\<lparr>mt_mProcessTimeInNanos := 0, mt_mLeaderReadyTimeInNanos := 0,
       mt_mFinishTimeInNanos := 0\<rparr>"
  by (cases m; cases junk) (simp add: meta_defs)

lemma command_meta_rebuilt:
  "Command_setPartialMetaData m (CommandMeta_new junk (mt_mType m) (mt_mCreatedTimeInNanos m))
   = m\<lparr>mt_mProcessTimeInNanos := 0, mt_mLeaderReadyTimeInNanos := 0, mt_mFinishTimeInNanos := 0,
       cm_mRequestHandle := None\<rparr>"
  by (cases m; cases junk) (simp add: meta_defs)

end
