(* ===== verification/Control_Plane.thy ===== *)
theory Control_Plane
  imports Es_Types
begin

text \<open>
  The control plane of \<^verbatim>\<open>src/src/app_util/control\<close>: the routes a cluster serves, the control
  state they belong to, and the split command and event that change it. A hash map or hash set of
  the source is kept in increasing order, its iteration order in C++ being unspecified; the round
  trip below is proved for every order \<^verbatim>\<open>buildProto\<close> may produce. \<^verbatim>\<open>AppInfo::groupId()\<close>, the
  id of the cluster the process belongs to, is the argument \<open>groupId\<close>.
\<close>

section \<open>Routes\<close>

record pb_Route =
  pr_type :: u32
  pr_groups :: "u64 list"
  pr_groupTotal :: u64

record pb_Impact =
  pi_route :: pb_Route
  pi_clusterId :: u64
  pi_newCluster :: bool

record pb_SplitRequest =
  ps_epoch :: u64
  ps_planId :: string
  ps_impacts :: "pb_Impact list"

record pb_SplitState =
  pst_routes :: "pb_Route list"
  pst_epoch :: u64
  pst_planId :: string
  pst_clusterId :: u64
  pst_startIndex :: u64

record Route =
  rt_mGroups :: "u64 list"
  rt_mGroupTotal :: u64
  rt_mType :: u32

type_synonym RouteMap = "(u32, Route) smap"

definition Route_of_proto :: "pb_Route \<Rightarrow> Route" where
  "Route_of_proto p =
     \<lparr>rt_mGroups = fold insort_insert (pr_groups p) [], rt_mGroupTotal = pr_groupTotal p,
      rt_mType = pr_type p\<rparr>"

definition Route_buildProto :: "Route \<Rightarrow> pb_Route" where
  "Route_buildProto r =
     \<lparr>pr_type = rt_mType r, pr_groups = rt_mGroups r, pr_groupTotal = rt_mGroupTotal r\<rparr>"

definition RouteMap_parseFromProto :: "pb_Route list \<Rightarrow> RouteMap \<Rightarrow> RouteMap" where
  "RouteMap_parseFromProto ps m = fold (\<lambda>p. smap_put (pr_type p) (Route_of_proto p)) ps m"

definition RouteMap_groupTotal :: "u32 \<Rightarrow> RouteMap \<Rightarrow> u64" where
  "RouteMap_groupTotal t m = (case map_of m t of None \<Rightarrow> 0 | Some r \<Rightarrow> rt_mGroupTotal r)"

definition RouteMap_hasGroup :: "u32 \<Rightarrow> u64 \<Rightarrow> RouteMap \<Rightarrow> bool" where
  "RouteMap_hasGroup t g m =
     (case map_of m t of None \<Rightarrow> False | Some r \<Rightarrow> List.member (rt_mGroups r) g)"

definition RouteMap_applyRoute :: "u32 \<Rightarrow> Route \<Rightarrow> RouteMap \<Rightarrow> RouteMap" where
  "RouteMap_applyRoute t r m =
     (if rt_mGroups r = [] then (if map_of m t \<noteq> None then smap_erase t m else m)
      else smap_put t r m)"

definition RouteMap_buildProto :: "RouteMap \<Rightarrow> pb_Route list" where
  "RouteMap_buildProto m = map (\<lambda>kv. Route_buildProto (snd kv)) m"

section \<open>Control state\<close>

record CtrlState =
  cs_mRouteMap :: RouteMap
  cs_mEpoch :: u64
  cs_mPlanId :: string
  cs_mClusterId :: u64
  cs_mStartIndex :: u64

definition CtrlState_new :: "u64 \<Rightarrow> u64 \<Rightarrow> CtrlState" where
  "CtrlState_new junkCluster junkStart =
     \<lparr>cs_mRouteMap = [], cs_mEpoch = 0, cs_mPlanId = '''', cs_mClusterId = junkCluster,
      cs_mStartIndex = junkStart\<rparr>"

definition CtrlState_hasState :: "CtrlState \<Rightarrow> bool" where
  "CtrlState_hasState s = (cs_mEpoch s > 0)"

definition CtrlState_hasGroup :: "u32 \<Rightarrow> u64 \<Rightarrow> CtrlState \<Rightarrow> bool" where
  "CtrlState_hasGroup t g s = RouteMap_hasGroup t g (cs_mRouteMap s)"

definition CtrlState_groupTotal :: "u32 \<Rightarrow> CtrlState \<Rightarrow> u64" where
  "CtrlState_groupTotal t s = RouteMap_groupTotal t (cs_mRouteMap s)"

definition CtrlState_applyRoute :: "pb_Route \<Rightarrow> CtrlState \<Rightarrow> CtrlState" where
  "CtrlState_applyRoute p s =
     s\<lparr>cs_mRouteMap := RouteMap_applyRoute (pr_type p) (Route_of_proto p) (cs_mRouteMap s)\<rparr>"

definition CtrlState_buildProto :: "CtrlState \<Rightarrow> pb_SplitState" where
  "CtrlState_buildProto s =
     \<lparr>pst_routes = RouteMap_buildProto (cs_mRouteMap s), pst_epoch = cs_mEpoch s,
      pst_planId = cs_mPlanId s, pst_clusterId = cs_mClusterId s,
      pst_startIndex = cs_mStartIndex s\<rparr>"

text \<open>
  \<^verbatim>\<open>mEpoch\<close> is unsigned, so the test \<^verbatim>\<open>mEpoch >= 0\<close> always holds. \<open>ser\<close> and \<open>parse\<close> stand for
  \<^verbatim>\<open>SerializeAsString\<close> and \<^verbatim>\<open>ParseFromString\<close>, whose result the source does not look at.
\<close>

definition CtrlState_encodeToString :: "(pb_SplitState \<Rightarrow> string) \<Rightarrow> CtrlState \<Rightarrow> string" where
  "CtrlState_encodeToString ser s =
     (if cs_mEpoch s \<ge> 0 then ser (CtrlState_buildProto s) else '''')"

definition CtrlState_decodeFromString ::
  "(string \<Rightarrow> pb_SplitState) \<Rightarrow> u64 \<Rightarrow> string \<Rightarrow> CtrlState \<Rightarrow> CtrlState" where
  "CtrlState_decodeFromString parse groupId view s =
     (if view \<noteq> '''' then
        (let d = parse view in
         if pst_clusterId d = groupId then
           s\<lparr>cs_mRouteMap := RouteMap_parseFromProto (pst_routes d) (cs_mRouteMap s),
             cs_mPlanId := pst_planId d, cs_mClusterId := pst_clusterId d,
             cs_mEpoch := pst_epoch d, cs_mStartIndex := pst_startIndex d\<rparr>
         else s)
      else s)"

text \<open>
  \<^verbatim>\<open>recoverForEAL\<close>: after decoding, a cluster other than 0 that has state asks for its route
  (\<^verbatim>\<open>RouteSignal\<close>, answered through a future) and, if it owns groups, tells Raft to leave the
  syncing role at the start index (\<^verbatim>\<open>StopSyncRoleSignal\<close>).
\<close>

definition CtrlState_recoverForEAL ::
  "(string \<Rightarrow> pb_SplitState) \<Rightarrow> u64 \<Rightarrow> (u64 \<Rightarrow> u64 \<Rightarrow> bool) \<Rightarrow> string \<Rightarrow> CtrlState
   \<Rightarrow> CtrlState \<times> u64 option" where
  "CtrlState_recoverForEAL parse groupId routeSignal str s =
     (let s1 = CtrlState_decodeFromString parse groupId str s in
      if CtrlState_hasState s1 \<and> cs_mClusterId s1 > 0 then
        (if routeSignal (cs_mEpoch s1) (cs_mClusterId s1)
         then (s1, Some (cs_mStartIndex s1)) else (s1, None))
      else (s1, None))"

section \<open>Split command and event\<close>

definition CTRL_TYPES :: u64 where
  "CTRL_TYPES = 100"

definition isCtrlCommand :: "u64 \<Rightarrow> bool" where
  "isCtrlCommand t = (sint t > sint CTRL_TYPES)"

definition isCtrlEvent :: "u64 \<Rightarrow> bool" where
  "isCtrlEvent t = (sint t > sint CTRL_TYPES)"

definition SPILT_COMMAND :: u64 where
  "SPILT_COMMAND = 101"

definition SPILT_EVENT :: u64 where
  "SPILT_EVENT = 101"

definition smap_get :: "'v \<Rightarrow> ('k, 'v) smap \<Rightarrow> 'k \<Rightarrow> 'v" where
  "smap_get d m k = (case map_of m k of None \<Rightarrow> d | Some v \<Rightarrow> v)"

text \<open>
  The two loops of \<^verbatim>\<open>verifyCommand\<close>; \<open>Inl\<close> carries the message of an early return. The operator
  \<^verbatim>\<open>groupTotals[type]\<close> of an absent key is 0 and \<^verbatim>\<open>groups[type]\<close> is the empty set.
\<close>

fun SplitCommand_checkGroups ::
  "u32 \<Rightarrow> u64 list \<Rightarrow> (u32, u64 list) smap \<Rightarrow> string + (u32, u64 list) smap" where
  "SplitCommand_checkGroups type [] groups = Inr groups"
| "SplitCommand_checkGroups type (g # rest) groups =
     (if List.member (smap_get [] groups type) g
      then Inl (''duplicated group :'' @ to_string (unat g) @ ''with type ''
                @ to_string (unat type))
      else SplitCommand_checkGroups type rest
             (smap_put type (insort_insert g (smap_get [] groups type)) groups))"

fun SplitCommand_checkImpacts ::
  "pb_Impact list \<Rightarrow> (u32, u64) smap \<Rightarrow> (u32, u64 list) smap \<Rightarrow> string" where
  "SplitCommand_checkImpacts [] groupTotals groups = kVerifiedSuccess"
| "SplitCommand_checkImpacts (impact # rest) groupTotals groups =
     (let route = pi_route impact; type = pr_type route in
      if smap_get 0 groupTotals type > 0 \<and> smap_get 0 groupTotals type \<noteq> pr_groupTotal route
      then ''group total should be same with '' @ to_string (unat (smap_get 0 groupTotals type))
      else (case SplitCommand_checkGroups type (pr_groups route) groups of
              Inl msg \<Rightarrow> msg
            | Inr groups' \<Rightarrow>
                SplitCommand_checkImpacts rest (smap_put type (pr_groupTotal route) groupTotals)
                  groups'))"

definition SplitCommand_verifyCommand :: "pb_SplitRequest \<Rightarrow> string" where
  "SplitCommand_verifyCommand r =
     (if ps_planId r = '''' then ''planId is empty''
      else if ps_epoch r \<le> 0 then ''epoch should greater than 0''
      else SplitCommand_checkImpacts (ps_impacts r) [] [])"

text \<open>\<open>Some r\<close> is the event \<^verbatim>\<open>SplitEvent(time, r)\<close> pushed to the output vector.\<close>

definition SplitCommand_process ::
  "pb_SplitRequest \<Rightarrow> CtrlState \<Rightarrow> ProcessHint \<times> pb_SplitRequest option" where
  "SplitCommand_process r s =
     (let emit = (\<lparr>ph_mCode = 200, ph_mMessage = ''ok''\<rparr>, Some r) in
      if CtrlState_hasState s then
        (if ps_epoch r < cs_mEpoch s then
           (\<lparr>ph_mCode = 400,
             ph_mMessage = ''epoch should be greater than '' @ to_string (unat (cs_mEpoch s))\<rparr>, None)
         else if ps_epoch r = cs_mEpoch s then
           (if ps_planId r = cs_mPlanId s
            then (\<lparr>ph_mCode = 201, ph_mMessage = ''deduped''\<rparr>, None)
            else (\<lparr>ph_mCode = 400, ph_mMessage = ''plan id should be '' @ cs_mPlanId s\<rparr>, None))
         else emit)
      else emit)"

text \<open>
  One iteration of the loop of \<^verbatim>\<open>SplitEvent::apply\<close>, on the state and the flag \<^verbatim>\<open>impacted\<close>;
  \<open>commandId\<close> is the event's \<^verbatim>\<open>getCommandId()\<close>.
\<close>

definition SplitEvent_applyImpact ::
  "u64 \<Rightarrow> u64 \<Rightarrow> pb_Impact \<Rightarrow> CtrlState \<times> bool \<Rightarrow> (CtrlState \<times> bool) res" where
  "SplitEvent_applyImpact groupId commandId impact acc =
     (if pi_clusterId impact = groupId then
        (let s1 = (CtrlState_applyRoute (pi_route impact) (fst acc))
                    \<lparr>cs_mClusterId := pi_clusterId impact\<rparr> in
         if pi_newCluster impact then
           (if pi_clusterId impact = 0 then Inl Assertion
            else Inr (s1\<lparr>cs_mStartIndex := commandId + 1\<rparr>, True))
         else Inr (s1, True))
      else Inr acc)"

definition SplitEvent_apply :: "u64 \<Rightarrow> u64 \<Rightarrow> pb_SplitRequest \<Rightarrow> CtrlState \<Rightarrow> CtrlState res" where
  "SplitEvent_apply groupId commandId r s =
     res_bind (fold_res (SplitEvent_applyImpact groupId commandId) (ps_impacts r)
                 (s\<lparr>cs_mRouteMap := []\<rparr>, False)) (\<lambda>(s1, impacted).
       if impacted then Inr (s1\<lparr>cs_mEpoch := ps_epoch r, cs_mPlanId := ps_planId r\<rparr>) else Inr s1)"

section \<open>Routes survive encoding\<close>

lemma fold_insort_insert:
  fixes gs :: "'a::linorder list"
  shows "sorted xs \<Longrightarrow> distinct xs
     \<Longrightarrow> sorted (fold insort_insert gs xs) \<and> distinct (fold insort_insert gs xs)
       \<and> set (fold insort_insert gs xs) = set gs \<union> set xs"
  by (induction gs arbitrary: xs) (auto simp: sorted_insort_insert distinct_insort_insert
      set_insort_insert)

lemma fold_insort_insert_canonical:
  fixes gs :: "'a::linorder list"
  shows "fold insort_insert gs [] = sorted_list_of_set (set gs)"
proof -
  let ?xs = "fold insort_insert gs []"
  have "sorted ?xs" "distinct ?xs" "set ?xs = set gs"
    using fold_insort_insert [of "[]" gs] by auto
  then show ?thesis using sorted_list_of_set.idem_if_sorted_distinct [of ?xs] by simp
qed

definition Route_ok :: "Route \<Rightarrow> bool" where
  "Route_ok r = (sorted (rt_mGroups r) \<and> distinct (rt_mGroups r))"

definition RouteMap_ok :: "RouteMap \<Rightarrow> bool" where
  "RouteMap_ok m = (smap_ok m \<and> (\<forall>(t, r) \<in> set m. rt_mType r = t \<and> Route_ok r))"

text \<open>
  Two messages describe the same route if they list the same groups, in any order and with any
  repetition.
\<close>

definition same_route :: "pb_Route \<Rightarrow> pb_Route \<Rightarrow> bool" where
  "same_route p q =
     (pr_type p = pr_type q \<and> pr_groupTotal p = pr_groupTotal q \<and> set (pr_groups p) = set (pr_groups q))"

lemma Route_of_same: "same_route p q \<Longrightarrow> Route_of_proto p = Route_of_proto q"
  by (simp add: same_route_def Route_of_proto_def fold_insort_insert_canonical)

lemma Route_of_proto_ok: "Route_ok (Route_of_proto p)"
  using fold_insort_insert [of "[]" "pr_groups p"] by (simp add: Route_ok_def Route_of_proto_def)

lemma Route_roundtrip: "Route_ok r \<Longrightarrow> Route_of_proto (Route_buildProto r) = r"
  by (cases r) (simp add: Route_ok_def Route_of_proto_def Route_buildProto_def
      fold_insort_insert_canonical sorted_list_of_set.idem_if_sorted_distinct)

lemma parseFromProto_ok: "smap_ok m \<Longrightarrow> smap_ok (RouteMap_parseFromProto ps m)"
  by (induction ps arbitrary: m) (auto simp: RouteMap_parseFromProto_def smap_ok_put)

lemma parseFromProto_Cons:
  "RouteMap_parseFromProto (p # ps) m
   = RouteMap_parseFromProto ps (smap_put (pr_type p) (Route_of_proto p) m)"
  by (simp add: RouteMap_parseFromProto_def)

lemma parseFromProto_other:
  "t \<notin> pr_type ` set ps \<Longrightarrow> map_of (RouteMap_parseFromProto ps m) t = map_of m t"
proof (induction ps arbitrary: m)
  case (Cons p ps)
  then show ?case by (simp add: parseFromProto_Cons map_of_smap_put)
qed (simp add: RouteMap_parseFromProto_def)

lemma parseFromProto_lookup:
  "distinct (map pr_type ps) \<Longrightarrow> p \<in> set ps \<Longrightarrow>
   map_of (RouteMap_parseFromProto ps m) (pr_type p) = Some (Route_of_proto p)"
proof (induction ps arbitrary: m)
  case (Cons q ps)
  then show ?case
    by (cases "p = q") (auto simp: parseFromProto_Cons parseFromProto_other map_of_smap_put)
qed simp

text \<open>
  Whatever order the hash containers are visited in, parsing what was built gives the same map.
\<close>

definition same_routes :: "pb_Route list \<Rightarrow> pb_Route list \<Rightarrow> bool" where
  "same_routes ps qs =
     (distinct (map pr_type ps) \<and> (\<forall>p \<in> set ps. \<exists>q \<in> set qs. same_route p q)
      \<and> (\<forall>q \<in> set qs. \<exists>p \<in> set ps. same_route p q))"

lemma RouteMap_roundtrip:
  assumes ok: "RouteMap_ok m" and ps: "same_routes ps (RouteMap_buildProto m)"
  shows "RouteMap_parseFromProto ps [] = m"
proof (rule smap_eqI)
  have from_ps: "\<exists>q \<in> set (RouteMap_buildProto m). same_route p q" if "p \<in> set ps" for p
    using ps that by (simp add: same_routes_def)
  have from_m: "\<exists>p \<in> set ps. same_route p q" if "q \<in> set (RouteMap_buildProto m)" for q
    using ps that by (simp add: same_routes_def)
  show "smap_ok (RouteMap_parseFromProto ps [])" by (simp add: parseFromProto_ok)
  show m: "smap_ok m" using ok by (simp add: RouteMap_ok_def)
  show "map_of (RouteMap_parseFromProto ps []) = map_of m"
  proof
    fix t
    show "map_of (RouteMap_parseFromProto ps []) t = map_of m t"
    proof (cases "map_of m t")
      case None
      have "pr_type p \<noteq> t" if p: "p \<in> set ps" for p
      proof
        assume "pr_type p = t"
        obtain q where q: "q \<in> set (RouteMap_buildProto m)" "same_route p q"
          using from_ps [OF p] by (elim bexE)
        then obtain k r where kr: "(k, r) \<in> set m" "q = Route_buildProto r"
          by (auto simp: RouteMap_buildProto_def)
        then have "k = t" using ok q(2) \<open>pr_type p = t\<close>
          by (auto simp: RouteMap_ok_def same_route_def Route_buildProto_def)
        with kr None show False by (metis map_of_eq_None_iff fst_conv image_eqI)
      qed
      then have "t \<notin> pr_type ` set ps" by blast
      then show ?thesis using None by (simp add: parseFromProto_other)
    next
      case (Some r)
      then have r: "(t, r) \<in> set m" by (rule map_of_SomeD)
      then have in_m: "Route_buildProto r \<in> set (RouteMap_buildProto m)"
        unfolding RouteMap_buildProto_def by (metis (no_types, lifting) image_eqI set_map snd_conv)
      obtain p where p: "p \<in> set ps" "same_route p (Route_buildProto r)"
        using from_m [OF in_m] by (elim bexE)
      moreover have "rt_mType r = t" "Route_ok r" using ok r by (auto simp: RouteMap_ok_def)
      moreover from this p have "pr_type p = t"
        by (simp add: same_route_def Route_buildProto_def)
      ultimately show ?thesis
        using parseFromProto_lookup [of ps p "[]"] ps Some Route_of_same [of p "Route_buildProto r"]
        unfolding same_routes_def by (simp add: Route_roundtrip)
    qed
  qed
qed

lemma same_routes_refl: "RouteMap_ok m \<Longrightarrow> same_routes (RouteMap_buildProto m) (RouteMap_buildProto m)"
proof -
  assume ok: "RouteMap_ok m"
  then have "map pr_type (RouteMap_buildProto m) = map fst m"
    by (auto simp: RouteMap_ok_def Route_buildProto_def RouteMap_buildProto_def)
  then have "distinct (map pr_type (RouteMap_buildProto m))"
    using ok by (simp only: RouteMap_ok_def smap_ok_distinct)
  moreover have "same_route p p" for p by (simp add: same_route_def)
  ultimately show ?thesis unfolding same_routes_def by blast
qed

lemma CtrlState_roundtrip:
  assumes "\<And>p. parse (ser p) = p" and "\<And>p. ser p \<noteq> ''''"
    and "RouteMap_ok (cs_mRouteMap s)" and "cs_mClusterId s = groupId"
  shows "CtrlState_decodeFromString parse groupId (CtrlState_encodeToString ser s)
           (CtrlState_new junkCluster junkStart) = s"
proof -
  have "RouteMap_parseFromProto (RouteMap_buildProto (cs_mRouteMap s)) [] = cs_mRouteMap s"
    using assms(3) by (simp add: RouteMap_roundtrip same_routes_refl)
  then show ?thesis using assms(1,2,4)
    by (cases s) (simp add: CtrlState_decodeFromString_def CtrlState_encodeToString_def
        CtrlState_buildProto_def CtrlState_new_def Let_def)
qed

section \<open>Applying a split\<close>

lemma hasGroup_applyRoute:
  assumes "smap_ok m" and "RouteMap_hasGroup t g (RouteMap_applyRoute (pr_type p) (Route_of_proto p) m)"
  shows "RouteMap_hasGroup t g m \<or> (t = pr_type p \<and> g \<in> set (pr_groups p))"
  using assms
  by (auto simp: RouteMap_hasGroup_def RouteMap_applyRoute_def map_of_smap_put map_of_smap_erase
      Route_of_proto_def fold_insort_insert_canonical
      split: if_splits option.splits)

lemma applyRoute_keeps_ok: "smap_ok m \<Longrightarrow> smap_ok (RouteMap_applyRoute t r m)"
  by (simp add: RouteMap_applyRoute_def dict_intros)

definition owned_by :: "u64 \<Rightarrow> pb_Impact list \<Rightarrow> RouteMap \<Rightarrow> bool" where
  "owned_by groupId imps m =
     (smap_ok m \<and> (\<forall>t g. RouteMap_hasGroup t g m \<longrightarrow>
        (\<exists>i \<in> set imps. pi_clusterId i = groupId \<and> pr_type (pi_route i) = t
           \<and> g \<in> set (pr_groups (pi_route i)))))"

lemma applyImpact_owned:
  assumes "i \<in> set imps" and "owned_by groupId imps (cs_mRouteMap (fst acc))"
    and "SplitEvent_applyImpact groupId cid i acc = Inr acc'"
  shows "owned_by groupId imps (cs_mRouteMap (fst acc'))"
proof (cases "pi_clusterId i = groupId")
  case False
  then show ?thesis using assms(2,3) by (simp add: SplitEvent_applyImpact_def)
next
  case True
  let ?m = "RouteMap_applyRoute (pr_type (pi_route i)) (Route_of_proto (pi_route i))
              (cs_mRouteMap (fst acc))"
  have "cs_mRouteMap (fst acc') = ?m"
    using assms(3) True
    by (auto simp: SplitEvent_applyImpact_def CtrlState_applyRoute_def Let_def split: if_splits)
  moreover have "owned_by groupId imps ?m"
    using assms(1,2) True hasGroup_applyRoute [of "cs_mRouteMap (fst acc)"]
      applyRoute_keeps_ok [of "cs_mRouteMap (fst acc)"]
    unfolding owned_by_def by blast
  ultimately show ?thesis by simp
qed

lemma apply_owned:
  assumes "SplitEvent_apply groupId cid r s = Inr s'"
  shows "owned_by groupId (ps_impacts r) (cs_mRouteMap s')"
proof -
  obtain s1 b where run: "fold_res (SplitEvent_applyImpact groupId cid) (ps_impacts r)
      (s\<lparr>cs_mRouteMap := []\<rparr>, False) = Inr (s1, b)" and m: "cs_mRouteMap s' = cs_mRouteMap s1"
    using assms by (auto simp: SplitEvent_apply_def res_bind_eq_Inr split: if_splits)
  have "owned_by groupId (ps_impacts r) (cs_mRouteMap (fst (s\<lparr>cs_mRouteMap := []\<rparr>, False)))"
    by (simp add: owned_by_def RouteMap_hasGroup_def)
  from fold_res_invariant [where P = "\<lambda>acc. owned_by groupId (ps_impacts r) (cs_mRouteMap (fst acc))",
      OF applyImpact_owned this run]
  have "owned_by groupId (ps_impacts r) (cs_mRouteMap (fst (s1, b)))" by simp
  then show ?thesis using m by simp
qed

lemma checkGroups_disjoint:
  "SplitCommand_checkGroups t gs m = Inr m' \<Longrightarrow>
   set gs \<inter> set (smap_get [] m t) = {} \<and>
   (\<forall>u. set (smap_get [] m' u) = set (smap_get [] m u) \<union> (if u = t then set gs else {}))"
proof (induction gs arbitrary: m)
  case (Cons g gs)
  let ?m = "smap_put t (insort_insert g (smap_get [] m t)) m"
  have "SplitCommand_checkGroups t gs ?m = Inr m'" and "g \<notin> set (smap_get [] m t)"
    using Cons.prems by (auto split: if_splits)
  moreover have "set (smap_get [] ?m u)
      = set (smap_get [] m u) \<union> (if u = t then {g} else {})" for u
    by (auto simp: smap_get_def map_of_smap_put set_insort_insert)
  ultimately show ?case using Cons.IH [of ?m] by auto
qed auto

definition impacts_disjoint :: "pb_Impact \<Rightarrow> pb_Impact \<Rightarrow> bool" where
  "impacts_disjoint a b =
     (pr_type (pi_route a) = pr_type (pi_route b) \<longrightarrow>
      set (pr_groups (pi_route a)) \<inter> set (pr_groups (pi_route b)) = {})"

lemma checkGroups_message:
  "SplitCommand_checkGroups t gs m = Inl msg \<Longrightarrow> msg \<noteq> kVerifiedSuccess"
  by (induction gs arbitrary: m) (auto simp: kVerifiedSuccess_def split: if_splits)

lemma checkImpacts_disjoint:
  "SplitCommand_checkImpacts imps totals m = kVerifiedSuccess \<Longrightarrow>
   sorted_wrt impacts_disjoint imps
   \<and> (\<forall>i \<in> set imps. set (pr_groups (pi_route i)) \<inter> set (smap_get [] m (pr_type (pi_route i))) = {})"
proof (induction imps arbitrary: totals m)
  case (Cons i imps)
  let ?t = "pr_type (pi_route i)" and ?gs = "pr_groups (pi_route i)"
  obtain m' where check: "SplitCommand_checkGroups ?t ?gs m = Inr m'"
    and rest: "SplitCommand_checkImpacts imps (smap_put ?t (pr_groupTotal (pi_route i)) totals) m'
      = kVerifiedSuccess"
  proof (cases "SplitCommand_checkGroups ?t ?gs m")
    case (Inl msg)
    then show ?thesis using Cons.prems that checkGroups_message [OF Inl]
      by (auto simp: Let_def kVerifiedSuccess_def split: if_splits)
  next
    case (Inr m')
    then show ?thesis using Cons.prems that
      by (auto simp: Let_def kVerifiedSuccess_def split: if_splits)
  qed
  note tail = Cons.IH [OF rest] and sets = checkGroups_disjoint [OF check]
  have "impacts_disjoint i j" if j: "j \<in> set imps" for j
  proof -
    have "set (pr_groups (pi_route j)) \<inter> set (smap_get [] m' (pr_type (pi_route j))) = {}"
      using tail j by blast
    then show ?thesis using sets by (auto simp: impacts_disjoint_def split: if_splits)
  qed
  moreover have "set (pr_groups (pi_route j)) \<inter> set (smap_get [] m (pr_type (pi_route j))) = {}"
    if j: "j \<in> set imps" for j
    using tail sets j by blast
  ultimately show ?case using tail sets by auto
qed simp

lemma sorted_wrt_two:
  assumes "sorted_wrt R xs" and "x \<in> set xs" and "y \<in> set xs" and "x \<noteq> y"
  shows "R x y \<or> R y x"
  using assms by (induction xs) auto

lemma verified_impacts_disjoint:
  assumes "SplitCommand_verifyCommand r = kVerifiedSuccess"
    and "a \<in> set (ps_impacts r)" and "b \<in> set (ps_impacts r)" and "a \<noteq> b"
  shows "impacts_disjoint a b"
proof -
  have "sorted_wrt impacts_disjoint (ps_impacts r)"
    using assms(1) checkImpacts_disjoint [of "ps_impacts r" "[]" "[]"]
    by (auto simp: SplitCommand_verifyCommand_def kVerifiedSuccess_def split: if_splits)
  from sorted_wrt_two [OF this assms(2-4)] show ?thesis
    by (auto simp: impacts_disjoint_def)
qed

text \<open>
  C19. A plan that passes \<^verbatim>\<open>SplitCommand::verifyCommand\<close> never gives a group to two clusters:
  after two clusters with different ids have applied its event, each to whatever state it had, no
  group of any route type is served by both.
\<close>

theorem split_no_double_ownership:
  assumes "SplitCommand_verifyCommand r = kVerifiedSuccess"
    and "groupId1 \<noteq> groupId2"
    and "SplitEvent_apply groupId1 cid1 r s1 = Inr s1'"
    and "SplitEvent_apply groupId2 cid2 r s2 = Inr s2'"
  shows "\<not> (CtrlState_hasGroup t g s1' \<and> CtrlState_hasGroup t g s2')"
proof
  assume both: "CtrlState_hasGroup t g s1' \<and> CtrlState_hasGroup t g s2'"
  obtain i where i: "i \<in> set (ps_impacts r)" "pi_clusterId i = groupId1"
      "pr_type (pi_route i) = t" "g \<in> set (pr_groups (pi_route i))"
    using apply_owned [OF assms(3)] both by (auto simp: owned_by_def CtrlState_hasGroup_def)
  obtain j where j: "j \<in> set (ps_impacts r)" "pi_clusterId j = groupId2"
      "pr_type (pi_route j) = t" "g \<in> set (pr_groups (pi_route j))"
    using apply_owned [OF assms(4)] both by (auto simp: owned_by_def CtrlState_hasGroup_def)
  have "i \<noteq> j" using i j assms(2) by auto
  with verified_impacts_disjoint [OF assms(1) i(1) j(1)] i j
  show False by (auto simp: impacts_disjoint_def)
qed

definition example_split :: pb_SplitRequest where
  "example_split =
     \<lparr>ps_epoch = 1, ps_planId = ''p'',
      ps_impacts =
        [\<lparr>pi_route = \<lparr>pr_type = 0, pr_groups = [1, 2], pr_groupTotal = 3\<rparr>, pi_clusterId = 0,
          pi_newCluster = False\<rparr>,
         \<lparr>pi_route = \<lparr>pr_type = 0, pr_groups = [3], pr_groupTotal = 3\<rparr>, pi_clusterId = 1,
          pi_newCluster = True\<rparr>]\<rparr>"

lemma example_split_verified: "SplitCommand_verifyCommand example_split = kVerifiedSuccess"
  by code_simp

lemma example_split_applied:
  "SplitEvent_apply 0 7 example_split (CtrlState_new 0 0) =
     Inr \<lparr>cs_mRouteMap = [(0, \<lparr>rt_mGroups = [1, 2], rt_mGroupTotal = 3, rt_mType = 0\<rparr>)],
          cs_mEpoch = 1, cs_mPlanId = ''p'', cs_mClusterId = 0, cs_mStartIndex = 0\<rparr>"
  "SplitEvent_apply 1 7 example_split (CtrlState_new 0 0) =
     Inr \<lparr>cs_mRouteMap = [(0, \<lparr>rt_mGroups = [3], rt_mGroupTotal = 3, rt_mType = 0\<rparr>)],
          cs_mEpoch = 1, cs_mPlanId = ''p'', cs_mClusterId = 1, cs_mStartIndex = 8\<rparr>"
  by code_simp+

theorem split_no_double_ownership_witness:
  "CtrlState_hasGroup 0 3 \<lparr>cs_mRouteMap = [(0, \<lparr>rt_mGroups = [3], rt_mGroupTotal = 3, rt_mType = 0\<rparr>)],
          cs_mEpoch = 1, cs_mPlanId = ''p'', cs_mClusterId = 1, cs_mStartIndex = 8\<rparr>
   \<and> \<not> CtrlState_hasGroup 0 3 \<lparr>cs_mRouteMap = [(0, \<lparr>rt_mGroups = [1, 2], rt_mGroupTotal = 3, rt_mType = 0\<rparr>)],
          cs_mEpoch = 1, cs_mPlanId = ''p'', cs_mClusterId = 0, cs_mStartIndex = 0\<rparr>"
proof -
  have "CtrlState_hasGroup 0 3 \<lparr>cs_mRouteMap = [(0, \<lparr>rt_mGroups = [3], rt_mGroupTotal = 3,
      rt_mType = 0\<rparr>)], cs_mEpoch = 1, cs_mPlanId = ''p'', cs_mClusterId = 1, cs_mStartIndex = 8\<rparr>"
    by code_simp
  then show ?thesis
    using split_no_double_ownership [OF example_split_verified _ example_split_applied, of 0 3]
    by simp
qed

lemma applyImpact_keeps_plan:
  assumes "SplitEvent_applyImpact groupId cid i acc = Inr acc'"
  shows "cs_mEpoch (fst acc') = cs_mEpoch (fst acc)" and "cs_mPlanId (fst acc') = cs_mPlanId (fst acc)"
    and "snd acc' = (snd acc \<or> pi_clusterId i = groupId)"
  using assms
  by (auto simp: SplitEvent_applyImpact_def CtrlState_applyRoute_def Let_def split: if_splits)

lemma fold_applyImpact_keeps_plan:
  "fold_res (SplitEvent_applyImpact groupId cid) imps acc = Inr acc' \<Longrightarrow>
   cs_mEpoch (fst acc') = cs_mEpoch (fst acc) \<and> cs_mPlanId (fst acc') = cs_mPlanId (fst acc)
   \<and> snd acc' = (snd acc \<or> (\<exists>i \<in> set imps. pi_clusterId i = groupId))"
proof (induction imps arbitrary: acc)
  case (Cons i imps)
  then obtain acc1 where "SplitEvent_applyImpact groupId cid i acc = Inr acc1"
      "fold_res (SplitEvent_applyImpact groupId cid) imps acc1 = Inr acc'"
    by (auto simp: res_bind_eq_Inr)
  with Cons.IH [of acc1] applyImpact_keeps_plan [of groupId cid i acc acc1] show ?case by auto
qed simp

lemma apply_plan:
  assumes "SplitEvent_apply groupId cid r s = Inr s'"
  shows "cs_mEpoch s' = (if \<exists>i \<in> set (ps_impacts r). pi_clusterId i = groupId
                         then ps_epoch r else cs_mEpoch s)"
    and "cs_mPlanId s' = (if \<exists>i \<in> set (ps_impacts r). pi_clusterId i = groupId
                          then ps_planId r else cs_mPlanId s)"
proof -
  obtain acc where "fold_res (SplitEvent_applyImpact groupId cid) (ps_impacts r)
      (s\<lparr>cs_mRouteMap := []\<rparr>, False) = Inr acc"
    and s': "s' = (if snd acc then (fst acc)\<lparr>cs_mEpoch := ps_epoch r, cs_mPlanId := ps_planId r\<rparr>
                   else fst acc)"
    using assms unfolding SplitEvent_apply_def res_bind_eq_Inr split_beta
    by (metis (no_types, lifting) Inr_inject)
  from fold_applyImpact_keeps_plan [OF this(1)]
  show "cs_mEpoch s' = (if \<exists>i \<in> set (ps_impacts r). pi_clusterId i = groupId
                         then ps_epoch r else cs_mEpoch s)"
    and "cs_mPlanId s' = (if \<exists>i \<in> set (ps_impacts r). pi_clusterId i = groupId
                          then ps_planId r else cs_mPlanId s)"
    using s' by simp_all
qed

text \<open>
  A history of split requests on one cluster: each is verified and processed, and where that gives an event
  the event is applied. The result lists the requests that gave one.
\<close>

definition split_step :: "u64 \<Rightarrow> u64 \<times> pb_SplitRequest \<Rightarrow> CtrlState \<Rightarrow> (pb_SplitRequest list \<times> CtrlState) res" where
  "split_step groupId x s =
     (if SplitCommand_verifyCommand (snd x) \<noteq> kVerifiedSuccess then Inr ([], s)
      else
        (case snd (SplitCommand_process (snd x) s) of
           None \<Rightarrow> Inr ([], s)
         | Some r \<Rightarrow> res_bind (SplitEvent_apply groupId (fst x) r s) (\<lambda>s1. Inr ([r], s1))))"

fun split_run :: "u64 \<Rightarrow> (u64 \<times> pb_SplitRequest) list \<Rightarrow> CtrlState \<Rightarrow> (pb_SplitRequest list \<times> CtrlState) res" where
  "split_run groupId [] s = Inr ([], s)"
| "split_run groupId (x # xs) s =
     res_bind (split_step groupId x s)
       (\<lambda>(taken, s1). res_bind (split_run groupId xs s1) (\<lambda>(more, s2). Inr (taken @ more, s2)))"

definition split_names :: "u64 \<Rightarrow> pb_SplitRequest \<Rightarrow> bool" where
  "split_names groupId r = list_ex (\<lambda>i. pi_clusterId i = groupId) (ps_impacts r)"

lemma split_step_cases:
  assumes "split_step groupId x s = Inr (taken, s')"
  obtains (refused) "taken = []" "s' = s"
  | (taken) r where "taken = [r]" "cs_mEpoch s < ps_epoch r"
      "cs_mEpoch s' = (if split_names groupId r then ps_epoch r else cs_mEpoch s)"
      "cs_mPlanId s' = (if split_names groupId r then ps_planId r else cs_mPlanId s)"
proof (cases "SplitCommand_verifyCommand (snd x) = kVerifiedSuccess")
  case False
  then show ?thesis using assms refused by (simp add: split_step_def)
next
  case True
  then have epoch: "ps_epoch (snd x) > 0"
    by (auto simp: SplitCommand_verifyCommand_def kVerifiedSuccess_def word_gt_0 split: if_splits)
  show ?thesis
  proof (cases "snd (SplitCommand_process (snd x) s)")
    case None
    then show ?thesis using assms True refused by (simp add: split_step_def)
  next
    case (Some r)
    then have r: "r = snd x" "cs_mEpoch s < ps_epoch r"
      using epoch by (auto simp: SplitCommand_process_def CtrlState_hasState_def Let_def word_gt_0 split: if_splits)
    obtain s1 where s1: "SplitEvent_apply groupId (fst x) r s = Inr s1" "taken = [r]" "s' = s1"
      using assms True Some by (auto simp: split_step_def res_bind_eq_Inr)
    show ?thesis
      by (rule that(2)[OF s1(2) r(2)]) (use apply_plan[OF s1(1)] s1(3) in \<open>simp_all add: split_names_def list_ex_iff\<close>)
  qed
qed

lemma split_run_epochs:
  assumes "split_run groupId xs s = Inr (taken, s')"
  shows "sorted_wrt (<) (cs_mEpoch s # map ps_epoch (filter (split_names groupId) taken))
    \<and> cs_mEpoch s' = last (cs_mEpoch s # map ps_epoch (filter (split_names groupId) taken))
    \<and> cs_mPlanId s' = last (cs_mPlanId s # map ps_planId (filter (split_names groupId) taken))"
  using assms
proof (induction xs arbitrary: s taken)
  case (Cons x xs)
  obtain t s1 more where x: "split_step groupId x s = Inr (t, s1)" "split_run groupId xs s1 = Inr (more, s')" "taken = t @ more"
    using Cons.prems by (auto simp: res_bind_eq_Inr)
  note IH = Cons.IH[OF x(2)]
  show ?case
  proof (cases rule: split_step_cases[OF x(1)])
    case 1
    then show ?thesis using IH x(3) by simp
  next
    case (2 r)
    then show ?thesis using IH x(3) by (cases "split_names groupId r") (auto simp del: last.simps simp: last_ConsR intro: less_trans)
  qed
qed simp

lemma sorted_wrt_last:
  assumes "sorted_wrt (<) (a # xs)" and "x \<in> set xs"
  shows "a < x \<and> x \<le> (last (a # xs) :: 'b::linorder)"
proof -
  have "x = last xs \<or> x < last xs" using assms
    by (cases xs rule: rev_cases) (auto simp: sorted_wrt_append)
  then show ?thesis using assms by (cases xs) auto
qed

text \<open>
  C20. On a cluster, a plan that names it takes effect at most once, whatever requests come in between. Along
  any history of split requests the epochs of the plans that named the cluster and took effect grow strictly,
  starting above the epoch the cluster had, and the cluster ends with the epoch and the plan of the last of
  them; so none took effect twice, each of them is refused when it is sent again, and the last one is then
  answered 201. Nothing of the kind holds of a plan that does not name the cluster, which leaves no trace of
  its epoch: \<open>unnamed_split_is_taken_again\<close> below.
\<close>

theorem split_epoch_grows_and_dedups:
  assumes "split_run groupId requests s = Inr (taken, s')"
  shows "sorted_wrt (<) (cs_mEpoch s # map ps_epoch (filter (split_names groupId) taken))
    \<and> cs_mEpoch s' = last (cs_mEpoch s # map ps_epoch (filter (split_names groupId) taken))
    \<and> cs_mPlanId s' = last (cs_mPlanId s # map ps_planId (filter (split_names groupId) taken))
    \<and> distinct (filter (split_names groupId) taken)
    \<and> (\<forall>r \<in> set taken. split_names groupId r \<longrightarrow> snd (SplitCommand_process r s') = None)
    \<and> (filter (split_names groupId) taken \<noteq> [] \<longrightarrow>
         SplitCommand_process (last (filter (split_names groupId) taken)) s' = (\<lparr>ph_mCode = 201, ph_mMessage = ''deduped''\<rparr>, None))"
proof -
  let ?named = "filter (split_names groupId) taken"
  note run = split_run_epochs[OF assms]
  have "distinct (map ps_epoch ?named)" using run strict_sorted_iff[of "map ps_epoch ?named"] by simp
  then have "distinct ?named" by (simp add: distinct_map)
  moreover have old: "cs_mEpoch s' > 0 \<and> ps_epoch r \<le> cs_mEpoch s'" if "r \<in> set ?named" for r
  proof -
    have "ps_epoch r \<in> set (map ps_epoch ?named)" using that by simp
    then have "cs_mEpoch s < ps_epoch r \<and> ps_epoch r \<le> cs_mEpoch s'" using run sorted_wrt_last by metis
    then show ?thesis by (auto simp: word_gt_0)
  qed
  then have "snd (SplitCommand_process r s') = None" if "r \<in> set taken" "split_names groupId r" for r
    using that by (force simp: SplitCommand_process_def CtrlState_hasState_def)
  moreover have "SplitCommand_process (last ?named) s' = (\<lparr>ph_mCode = 201, ph_mMessage = ''deduped''\<rparr>, None)" if "?named \<noteq> []"
  proof -
    have "cs_mEpoch s' = ps_epoch (last ?named)" "cs_mPlanId s' = ps_planId (last ?named)" using run that by (simp_all add: last_map)
    then show ?thesis using old[OF last_in_set[OF that]] by (simp add: SplitCommand_process_def CtrlState_hasState_def)
  qed
  ultimately show ?thesis using run by blast
qed

theorem split_epoch_grows_and_dedups_witness:
  "\<exists>s'. split_run 0 [(6, example_split), (7, example_split)] (CtrlState_new 0 0) = Inr ([example_split], s')
     \<and> split_names 0 example_split \<and> cs_mEpoch s' = 1
     \<and> SplitCommand_process example_split s' = (\<lparr>ph_mCode = 201, ph_mMessage = ''deduped''\<rparr>, None)"
proof -
  have "case split_run 0 [(6, example_split), (7, example_split)] (CtrlState_new 0 0) of Inl f \<Rightarrow> False | Inr (taken, s') \<Rightarrow> taken = [example_split]"
    by code_simp
  then obtain s' where run: "split_run 0 [(6, example_split), (7, example_split)] (CtrlState_new 0 0) = Inr ([example_split], s')"
    by (auto split: sum.splits)
  have "split_names 0 example_split" by code_simp
  then show ?thesis using split_epoch_grows_and_dedups[OF run] run by (auto simp: example_split_def)
qed

text \<open>
  An event that does not name this cluster is logged as having no impact, but the loop has already
  cleared the routes: the cluster keeps its epoch and plan and serves no group any more.
\<close>

lemma split_without_impact_clears_routes:
  assumes "\<forall>i \<in> set (ps_impacts r). pi_clusterId i \<noteq> groupId"
  shows "SplitEvent_apply groupId cid r s = Inr (s\<lparr>cs_mRouteMap := []\<rparr>)"
proof -
  have "fold_res (SplitEvent_applyImpact groupId cid) imps acc = Inr acc"
    if "\<forall>i \<in> set imps. pi_clusterId i \<noteq> groupId" for imps acc
    using that by (induction imps arbitrary: acc) (auto simp: SplitEvent_applyImpact_def)
  then show ?thesis using assms by (simp add: SplitEvent_apply_def)
qed

text \<open>Since it leaves the epoch as it is, such a request is taken every time it is sent and clears the routes again.\<close>

lemma unnamed_split_is_taken_again:
  assumes "SplitCommand_verifyCommand r = kVerifiedSuccess" and "\<not> split_names groupId r" and "cs_mEpoch s < ps_epoch r"
  shows "split_run groupId [(cid, r), (cid', r)] s = Inr ([r, r], s\<lparr>cs_mRouteMap := []\<rparr>)"
proof -
  have "SplitEvent_apply groupId c r t = Inr (t\<lparr>cs_mRouteMap := []\<rparr>)" for c t
    using assms(2) by (intro split_without_impact_clears_routes) (auto simp: split_names_def list_ex_iff)
  moreover have "snd (SplitCommand_process r t) = Some r" if "cs_mEpoch t = cs_mEpoch s" for t
    using that assms(3) by (auto simp: SplitCommand_process_def Let_def)
  ultimately show ?thesis using assms(1) by (simp add: split_step_def)
qed

end
