(* ===== verification/Proto_Wire.thy ===== *)
theory Proto_Wire
  imports Ledger_Domain Control_Plane "HOL-Library.Countable"
begin

text \<open>
  The messages of requests and events, and the boundary to the generated protobuf classes.
  \<open>proto_wire\<close> collects their serialisers and parsers; the parsers are total because the source
  never looks at the result of \<^verbatim>\<open>ParseFromString\<close>. What the code relies on is \<open>wire_ok\<close>:
  parsing what was serialised gives the message back. \<open>code_wire\<close> is one family of functions that
  has this property, built from the countability of the message types.
\<close>

section \<open>Messages\<close>

record pb_ConfigureRequest =
  pcr_metadata :: pb_AccountMetadata

record pb_CreateRequest =
  pcq_account :: pb_Account

record pb_RecordRequest =
  prq_journal_entry :: "pb_JournalEntry option"

record pb_ConfiguredEvent =
  pcf_version :: u64
  pcf_account_metadata :: pb_AccountMetadata

record pb_CreatedEvent =
  pce_version :: u64
  pce_account :: pb_Account

record pb_RecordedEvent =
  pre_version :: u64
  pre_journal_entry :: pb_JournalEntry

record proto_wire =
  ser_ConfigureRequest :: "pb_ConfigureRequest \<Rightarrow> string"
  parse_ConfigureRequest :: "string \<Rightarrow> pb_ConfigureRequest"
  ser_CreateRequest :: "pb_CreateRequest \<Rightarrow> string"
  parse_CreateRequest :: "string \<Rightarrow> pb_CreateRequest"
  ser_RecordRequest :: "pb_RecordRequest \<Rightarrow> string"
  parse_RecordRequest :: "string \<Rightarrow> pb_RecordRequest"
  ser_SplitRequest :: "pb_SplitRequest \<Rightarrow> string"
  parse_SplitRequest :: "string \<Rightarrow> pb_SplitRequest"
  ser_ConfiguredEvent :: "pb_ConfiguredEvent \<Rightarrow> string"
  parse_ConfiguredEvent :: "string \<Rightarrow> pb_ConfiguredEvent"
  ser_CreatedEvent :: "pb_CreatedEvent \<Rightarrow> string"
  parse_CreatedEvent :: "string \<Rightarrow> pb_CreatedEvent"
  ser_RecordedEvent :: "pb_RecordedEvent \<Rightarrow> string"
  parse_RecordedEvent :: "string \<Rightarrow> pb_RecordedEvent"
  ser_Account :: "pb_Account \<Rightarrow> string"
  parse_Account :: "string \<Rightarrow> pb_Account"
  ser_AccountMetadata :: "pb_AccountMetadata \<Rightarrow> string"
  parse_AccountMetadata :: "string \<Rightarrow> pb_AccountMetadata"

definition wire_ok :: "proto_wire \<Rightarrow> bool" where
  "wire_ok w =
     ((\<forall>m. parse_ConfigureRequest w (ser_ConfigureRequest w m) = m)
      \<and> (\<forall>m. parse_CreateRequest w (ser_CreateRequest w m) = m)
      \<and> (\<forall>m. parse_RecordRequest w (ser_RecordRequest w m) = m)
      \<and> (\<forall>m. parse_SplitRequest w (ser_SplitRequest w m) = m)
      \<and> (\<forall>m. parse_ConfiguredEvent w (ser_ConfiguredEvent w m) = m)
      \<and> (\<forall>m. parse_CreatedEvent w (ser_CreatedEvent w m) = m)
      \<and> (\<forall>m. parse_RecordedEvent w (ser_RecordedEvent w m) = m)
      \<and> (\<forall>m. parse_Account w (ser_Account w m) = m)
      \<and> (\<forall>m. parse_AccountMetadata w (ser_AccountMetadata w m) = m))"

definition pb_Balance_default :: pb_Balance where
  "pb_Balance_default = \<lparr>pba_version = 0, pba_value = 0\<rparr>"

definition pb_Account_default :: pb_Account where
  "pb_Account_default =
     \<lparr>pac_version = 0, pac_type = PA_UnknownAccountType, pac_balance = pb_Balance_default,
      pac_nominal_code = 0, pac_name = '''', pac_desc = '''', pac_iso4217_currency_code = 0\<rparr>"

definition pb_AccountMetadata_default :: pb_AccountMetadata where
  "pb_AccountMetadata_default =
     \<lparr>pmd_version = 0, pmd_type = PA_UnknownAccountType, pmd_low_inclusive = 0,
      pmd_high_inclusive = 0\<rparr>"

definition pb_JournalEntry_default :: pb_JournalEntry where
  "pb_JournalEntry_default =
     \<lparr>pje_version = 0, pje_id = '''', pje_valid_time = 0, pje_record_time = 0, pje_purpose = '''',
      pje_journal_lines = []\<rparr>"

section \<open>Serialisers with the round-trip property exist\<close>

instance pb_AccountType :: countable
  by countable_datatype

instance pb_TransactionType :: countable
  by countable_datatype

instance pb_Balance_ext :: (countable) countable
  by (rule countable_classI [of "\<lambda>r. to_nat (pba_version r, pba_value r,
        pb_Balance.more r)"]) simp

instance pb_Amount_ext :: (countable) countable
  by (rule countable_classI [of "\<lambda>r. to_nat (pam_version r, pam_value r,
        pb_Amount.more r)"]) simp

instance pb_Account_ext :: (countable) countable
  by (rule countable_classI [of "\<lambda>r. to_nat (pac_version r, pac_type r, pac_balance r, pac_nominal_code r, pac_name r, pac_desc r, pac_iso4217_currency_code r,
        pb_Account.more r)"]) simp

instance pb_AccountMetadata_ext :: (countable) countable
  by (rule countable_classI [of "\<lambda>r. to_nat (pmd_version r, pmd_type r, pmd_low_inclusive r, pmd_high_inclusive r,
        pb_AccountMetadata.more r)"]) simp

instance pb_JournalLine_ext :: (countable) countable
  by (rule countable_classI [of "\<lambda>r. to_nat (pjl_version r, pjl_nominal_code r, pjl_transaction_type r, pjl_amount r, pjl_iso4217_currency_code r, pjl_ref_data r,
        pb_JournalLine.more r)"]) simp

instance pb_JournalEntry_ext :: (countable) countable
  by (rule countable_classI [of "\<lambda>r. to_nat (pje_version r, pje_id r, pje_valid_time r, pje_record_time r, pje_purpose r, pje_journal_lines r,
        pb_JournalEntry.more r)"]) simp

instance pb_Route_ext :: (countable) countable
  by (rule countable_classI [of "\<lambda>r. to_nat (pr_type r, pr_groups r, pr_groupTotal r,
        pb_Route.more r)"]) simp

instance pb_Impact_ext :: (countable) countable
  by (rule countable_classI [of "\<lambda>r. to_nat (pi_route r, pi_clusterId r, pi_newCluster r,
        pb_Impact.more r)"]) simp

instance pb_SplitRequest_ext :: (countable) countable
  by (rule countable_classI [of "\<lambda>r. to_nat (ps_epoch r, ps_planId r, ps_impacts r,
        pb_SplitRequest.more r)"]) simp

instance pb_SplitState_ext :: (countable) countable
  by (rule countable_classI [of "\<lambda>r. to_nat (pst_routes r, pst_epoch r, pst_planId r, pst_clusterId r, pst_startIndex r,
        pb_SplitState.more r)"]) simp

instance pb_ConfigureRequest_ext :: (countable) countable
  by (rule countable_classI [of "\<lambda>r. to_nat (pcr_metadata r,
        pb_ConfigureRequest.more r)"]) simp

instance pb_CreateRequest_ext :: (countable) countable
  by (rule countable_classI [of "\<lambda>r. to_nat (pcq_account r,
        pb_CreateRequest.more r)"]) simp

instance pb_RecordRequest_ext :: (countable) countable
  by (rule countable_classI [of "\<lambda>r. to_nat (prq_journal_entry r,
        pb_RecordRequest.more r)"]) simp

instance pb_ConfiguredEvent_ext :: (countable) countable
  by (rule countable_classI [of "\<lambda>r. to_nat (pcf_version r, pcf_account_metadata r,
        pb_ConfiguredEvent.more r)"]) simp

instance pb_CreatedEvent_ext :: (countable) countable
  by (rule countable_classI [of "\<lambda>r. to_nat (pce_version r, pce_account r,
        pb_CreatedEvent.more r)"]) simp

instance pb_RecordedEvent_ext :: (countable) countable
  by (rule countable_classI [of "\<lambda>r. to_nat (pre_version r, pre_journal_entry r,
        pb_RecordedEvent.more r)"]) simp

definition ser_code :: "'m::countable \<Rightarrow> string" where
  "ser_code m = replicate (to_nat m) (CHR ''0'')"

definition parse_code :: "string \<Rightarrow> 'm::countable" where
  "parse_code s = from_nat (length s)"

lemma parse_code_ser_code [simp]: "parse_code (ser_code m) = m"
  by (simp add: ser_code_def parse_code_def)

definition code_wire :: proto_wire where
  "code_wire =
     \<lparr>ser_ConfigureRequest = ser_code, parse_ConfigureRequest = parse_code,
      ser_CreateRequest = ser_code, parse_CreateRequest = parse_code,
      ser_RecordRequest = ser_code, parse_RecordRequest = parse_code,
      ser_SplitRequest = ser_code, parse_SplitRequest = parse_code,
      ser_ConfiguredEvent = ser_code, parse_ConfiguredEvent = parse_code,
      ser_CreatedEvent = ser_code, parse_CreatedEvent = parse_code,
      ser_RecordedEvent = ser_code, parse_RecordedEvent = parse_code,
      ser_Account = ser_code, parse_Account = parse_code,
      ser_AccountMetadata = ser_code, parse_AccountMetadata = parse_code\<rparr>"

lemma code_wire_ok: "wire_ok code_wire"
  by (simp add: wire_ok_def code_wire_def)

end
