(* ===== verification/Ledger_Commands.thy ===== *)
theory Ledger_Commands
  imports Proto_Wire
begin

text \<open>
  The commands and events of the ledger (\<^verbatim>\<open>src/src/app_ledger/should_be_generated/domain\<close>,
  directories \<^verbatim>\<open>commands\<close> and \<^verbatim>\<open>events\<close>), their validation, their replies, their encodings and
  the decoders that rebuild them from the event store. A class derived from \<^verbatim>\<open>Command\<close> or
  \<^verbatim>\<open>Event\<close> is a constructor of a datatype next to the metadata of the base class, so that a
  \<^verbatim>\<open>dynamic_cast\<close> is a case distinction.
\<close>

section \<open>Commands\<close>

definition CREATE_ACCOUNT_COMMAND :: u64 where "CREATE_ACCOUNT_COMMAND = 1"
definition CONFIGURE_ACCOUNT_METADATA_COMMAND :: u64 where "CONFIGURE_ACCOUNT_METADATA_COMMAND = 2"
definition RECORD_JOURNAL_ENTRY_COMMAND :: u64 where "RECORD_JOURNAL_ENTRY_COMMAND = 3"
definition ACCOUNT_CREATED_EVENT :: u64 where "ACCOUNT_CREATED_EVENT = 51"
definition ACCOUNT_METADATA_CONFIGURED_EVENT :: u64 where "ACCOUNT_METADATA_CONFIGURED_EVENT = 52"
definition JOURNAL_ENTRY_RECORDED_EVENT :: u64 where "JOURNAL_ENTRY_RECORDED_EVENT = 53"

datatype command_body =
  ConfigureAccountMetadataCommand pb_ConfigureRequest "AccountMetadata option"
| CreateAccountCommand pb_CreateRequest "Account option"
| RecordJournalEntryCommand pb_RecordRequest "JournalEntry option"
| SplitCommand pb_SplitRequest

record Command =
  cmd_mMetaData :: CommandMetaData
  cmd_body :: command_body

definition ConfigureAccountMetadataCommand_verify :: "pb_ConfigureRequest \<Rightarrow> string" where
  "ConfigureAccountMetadataCommand_verify r =
     (if pmd_low_inclusive (pcr_metadata r) \<ge> pmd_high_inclusive (pcr_metadata r)
      then ''low inclusive is larger than high inclusive''
      else kVerifiedSuccess)"

definition CreateAccountCommand_verify :: "pb_CreateRequest \<Rightarrow> string" where
  "CreateAccountCommand_verify r =
     (if pac_type (pcq_account r) = PA_UnknownAccountType
      then ''account type should not be unknown''
      else kVerifiedSuccess)"

definition RecordJournalEntryCommand_verify :: "pb_RecordRequest \<Rightarrow> string" where
  "RecordJournalEntryCommand_verify r =
     (if prq_journal_entry r = None then ''Journal entry is required'' else kVerifiedSuccess)"

fun verifyCommand :: "command_body \<Rightarrow> string" where
  "verifyCommand (ConfigureAccountMetadataCommand r opt) = ConfigureAccountMetadataCommand_verify r"
| "verifyCommand (CreateAccountCommand r opt) = CreateAccountCommand_verify r"
| "verifyCommand (RecordJournalEntryCommand r opt) = RecordJournalEntryCommand_verify r"
| "verifyCommand (SplitCommand r) = SplitCommand_verifyCommand r"

text \<open>
  The constructors. \<^verbatim>\<open>tryInit...\<close> converts the request only if it verifies, so a command that does
  not verify carries no domain object; a conversion that stops the process does so here.
\<close>

definition tryInitAccountMetadata :: "pb_ConfigureRequest \<Rightarrow> AccountMetadata option res" where
  "tryInitAccountMetadata r =
     (if kVerifiedSuccess = ConfigureAccountMetadataCommand_verify r
      then res_bind (AccountMetadata_initWith (pcr_metadata r)) (\<lambda>m. Inr (Some m))
      else Inr None)"

definition tryInitAccount :: "pb_CreateRequest \<Rightarrow> Account option res" where
  "tryInitAccount r =
     (if kVerifiedSuccess = CreateAccountCommand_verify r
      then res_bind (Account_initWith (pcq_account r)) (\<lambda>a. Inr (Some a))
      else Inr None)"

definition tryInitJournalEntry :: "pb_RecordRequest \<Rightarrow> JournalEntry option res" where
  "tryInitJournalEntry r =
     (if kVerifiedSuccess = RecordJournalEntryCommand_verify r
      then res_bind (JournalEntry_initWith []
             (case prq_journal_entry r of None \<Rightarrow> pb_JournalEntry_default | Some e \<Rightarrow> e))
             (\<lambda>e. Inr (Some e))
      else Inr None)"

definition ConfigureAccountMetadataCommand_new ::
  "CommandMetaData \<Rightarrow> u64 \<Rightarrow> pb_ConfigureRequest \<Rightarrow> Command res" where
  "ConfigureAccountMetadataCommand_new junk created r =
     res_bind (tryInitAccountMetadata r) (\<lambda>opt.
       Inr \<lparr>cmd_mMetaData = CommandMeta_new junk CONFIGURE_ACCOUNT_METADATA_COMMAND created,
            cmd_body = ConfigureAccountMetadataCommand r opt\<rparr>)"

definition CreateAccountCommand_new ::
  "CommandMetaData \<Rightarrow> u64 \<Rightarrow> pb_CreateRequest \<Rightarrow> Command res" where
  "CreateAccountCommand_new junk created r =
     res_bind (tryInitAccount r) (\<lambda>opt.
       Inr \<lparr>cmd_mMetaData = CommandMeta_new junk CREATE_ACCOUNT_COMMAND created,
            cmd_body = CreateAccountCommand r opt\<rparr>)"

definition RecordJournalEntryCommand_new ::
  "CommandMetaData \<Rightarrow> u64 \<Rightarrow> pb_RecordRequest \<Rightarrow> Command res" where
  "RecordJournalEntryCommand_new junk created r =
     res_bind (tryInitJournalEntry r) (\<lambda>opt.
       Inr \<lparr>cmd_mMetaData = CommandMeta_new junk RECORD_JOURNAL_ENTRY_COMMAND created,
            cmd_body = RecordJournalEntryCommand r opt\<rparr>)"

definition SplitCommand_new :: "CommandMetaData \<Rightarrow> u64 \<Rightarrow> pb_SplitRequest \<Rightarrow> Command" where
  "SplitCommand_new junk created r =
     \<lparr>cmd_mMetaData = CommandMeta_new junk SPILT_COMMAND created, cmd_body = SplitCommand r\<rparr>"

text \<open>
  Replies. A command without a request handle, such as one rebuilt from the log, answers nobody.
  A control command answers 503 to every failure.
\<close>

definition Command_onPersisted :: "Command \<Rightarrow> string \<Rightarrow> reply list" where
  "Command_onPersisted c msg =
     (case cm_mRequestHandle (cmd_mMetaData c) of
        None \<Rightarrow> [] | Some h \<Rightarrow> [Reply h 200 msg None])"

definition Command_onPersistFailed :: "Command \<Rightarrow> u32 \<Rightarrow> string \<Rightarrow> u64 option \<Rightarrow> reply list" where
  "Command_onPersistFailed c code msg reserved =
     (case cm_mRequestHandle (cmd_mMetaData c) of
        None \<Rightarrow> []
      | Some h \<Rightarrow>
          (case cmd_body c of
             SplitCommand r \<Rightarrow> [Reply h 503 msg reserved]
           | _ \<Rightarrow> [Reply h code msg reserved]))"

fun Command_encodeToString :: "proto_wire \<Rightarrow> command_body \<Rightarrow> string" where
  "Command_encodeToString w (ConfigureAccountMetadataCommand r opt) = ser_ConfigureRequest w r"
| "Command_encodeToString w (CreateAccountCommand r opt) = ser_CreateRequest w r"
| "Command_encodeToString w (RecordJournalEntryCommand r opt) = ser_RecordRequest w r"
| "Command_encodeToString w (SplitCommand r) = ser_SplitRequest w r"

section \<open>Events\<close>

text \<open>The first component of an event is its \<^verbatim>\<open>mVersion\<close>.\<close>

datatype event_body =
  AccountMetadataConfiguredEvent u64 AccountMetadata
| AccountCreatedEvent u64 Account
| JournalEntryRecordedEvent u64 JournalEntry
| SplitEvent pb_SplitRequest

record Event =
  ev_mMetaData :: EventMetaData
  ev_body :: event_body

definition AccountMetadataConfiguredEvent_new :: "EventMetaData \<Rightarrow> u64 \<Rightarrow> AccountMetadata \<Rightarrow> Event" where
  "AccountMetadataConfiguredEvent_new junk now m =
     \<lparr>ev_mMetaData = EventMeta_new junk ACCOUNT_METADATA_CONFIGURED_EVENT now,
      ev_body = AccountMetadataConfiguredEvent 1 m\<rparr>"

definition AccountCreatedEvent_new :: "EventMetaData \<Rightarrow> u64 \<Rightarrow> Account \<Rightarrow> Event" where
  "AccountCreatedEvent_new junk now a =
     \<lparr>ev_mMetaData = EventMeta_new junk ACCOUNT_CREATED_EVENT now,
      ev_body = AccountCreatedEvent 1 a\<rparr>"

definition JournalEntryRecordedEvent_new :: "EventMetaData \<Rightarrow> u64 \<Rightarrow> JournalEntry \<Rightarrow> Event" where
  "JournalEntryRecordedEvent_new junk now e =
     \<lparr>ev_mMetaData = EventMeta_new junk JOURNAL_ENTRY_RECORDED_EVENT now,
      ev_body = JournalEntryRecordedEvent 1 e\<rparr>"

definition SplitEvent_new :: "EventMetaData \<Rightarrow> u64 \<Rightarrow> pb_SplitRequest \<Rightarrow> Event" where
  "SplitEvent_new junk now r =
     \<lparr>ev_mMetaData = EventMeta_new junk SPILT_EVENT now, ev_body = SplitEvent r\<rparr>"

definition AccountMetadataConfiguredEvent_encode :: "proto_wire \<Rightarrow> u64 \<Rightarrow> AccountMetadata \<Rightarrow> string res" where
  "AccountMetadataConfiguredEvent_encode w v m =
     (if v = 1 then
        res_bind (AccountMetadata_encodeTo m pb_AccountMetadata_default) (\<lambda>p.
          Inr (ser_ConfiguredEvent w \<lparr>pcf_version = v, pcf_account_metadata = p\<rparr>))
      else Inl Exit_1)"

definition AccountCreatedEvent_encode :: "proto_wire \<Rightarrow> u64 \<Rightarrow> Account \<Rightarrow> string res" where
  "AccountCreatedEvent_encode w v a =
     (if v = 1 then
        res_bind (Account_encodeTo a pb_Account_default) (\<lambda>p.
          Inr (ser_CreatedEvent w \<lparr>pce_version = v, pce_account = p\<rparr>))
      else Inl Exit_1)"

definition JournalEntryRecordedEvent_encode :: "proto_wire \<Rightarrow> u64 \<Rightarrow> JournalEntry \<Rightarrow> string res" where
  "JournalEntryRecordedEvent_encode w v e =
     (if v = 1 then
        res_bind (JournalEntry_encodeTo e pb_JournalEntry_default) (\<lambda>p.
          Inr (ser_RecordedEvent w \<lparr>pre_version = v, pre_journal_entry = p\<rparr>))
      else Inl Exit_1)"

fun Event_encodeToString :: "proto_wire \<Rightarrow> event_body \<Rightarrow> string res" where
  "Event_encodeToString w (AccountMetadataConfiguredEvent v m) = AccountMetadataConfiguredEvent_encode w v m"
| "Event_encodeToString w (AccountCreatedEvent v a) = AccountCreatedEvent_encode w v a"
| "Event_encodeToString w (JournalEntryRecordedEvent v e) = JournalEntryRecordedEvent_encode w v e"
| "Event_encodeToString w (SplitEvent r) = Inr (ser_SplitRequest w r)"

definition AccountMetadataConfiguredEvent_decode :: "proto_wire \<Rightarrow> string \<Rightarrow> event_body res" where
  "AccountMetadataConfiguredEvent_decode w payload =
     (let p = parse_ConfiguredEvent w payload in
      if \<not> (pcf_version p > 0) then Inl Assertion
      else if pcf_version p = 1 then
        res_bind (AccountMetadata_initWith (pcf_account_metadata p)) (\<lambda>m.
          Inr (AccountMetadataConfiguredEvent (pcf_version p) m))
      else Inl Exit_1)"

definition AccountCreatedEvent_decode :: "proto_wire \<Rightarrow> string \<Rightarrow> event_body res" where
  "AccountCreatedEvent_decode w payload =
     (let p = parse_CreatedEvent w payload in
      if \<not> (pce_version p > 0) then Inl Assertion
      else if pce_version p = 1 then
        res_bind (Account_initWith (pce_account p)) (\<lambda>a.
          Inr (AccountCreatedEvent (pce_version p) a))
      else Inl Exit_1)"

definition JournalEntryRecordedEvent_decode :: "proto_wire \<Rightarrow> string \<Rightarrow> event_body res" where
  "JournalEntryRecordedEvent_decode w payload =
     (let p = parse_RecordedEvent w payload in
      if \<not> (pre_version p > 0) then Inl Assertion
      else if pre_version p = 1 then
        res_bind (JournalEntry_initWith [] (pre_journal_entry p)) (\<lambda>e.
          Inr (JournalEntryRecordedEvent (pre_version p) e))
      else Inl Exit_1)"

section \<open>Decoders\<close>

text \<open>
  \<^verbatim>\<open>CommandDecoderImpl\<close>, \<^verbatim>\<open>EventDecoderImpl\<close>, \<^verbatim>\<open>CtrlDecoderUtil\<close> and the wrapper
  \<^verbatim>\<open>CommandEventDecoderImpl\<close> that chooses between them by type. \<open>None\<close> is the null pointer of an
  unknown type.
\<close>

definition set_command_meta :: "CommandMetaData \<Rightarrow> Command \<Rightarrow> Command" where
  "set_command_meta m c = c\<lparr>cmd_mMetaData := Command_setPartialMetaData m (cmd_mMetaData c)\<rparr>"

definition set_event_meta :: "EventMetaData \<Rightarrow> Event \<Rightarrow> Event" where
  "set_event_meta m e = e\<lparr>ev_mMetaData := Event_setPartialMetaData m (ev_mMetaData e)\<rparr>"

definition CommandDecoderImpl_decode ::
  "proto_wire \<Rightarrow> CommandMetaData \<Rightarrow> CommandMetaData \<Rightarrow> string \<Rightarrow> Command option res" where
  "CommandDecoderImpl_decode w junk m payload =
     (let t = mt_mType m; created = mt_mCreatedTimeInNanos m;
          finish = (\<lambda>c. Inr (Some (set_command_meta m c))) in
      if t = CREATE_ACCOUNT_COMMAND then
        res_bind (CreateAccountCommand_new junk created (parse_CreateRequest w payload)) finish
      else if t = CONFIGURE_ACCOUNT_METADATA_COMMAND then
        res_bind (ConfigureAccountMetadataCommand_new junk created
                    (parse_ConfigureRequest w payload)) finish
      else if t = RECORD_JOURNAL_ENTRY_COMMAND then
        res_bind (RecordJournalEntryCommand_new junk created (parse_RecordRequest w payload)) finish
      else Inr None)"

definition EventDecoderImpl_decode ::
  "proto_wire \<Rightarrow> EventMetaData \<Rightarrow> EventMetaData \<Rightarrow> string \<Rightarrow> Event option res" where
  "EventDecoderImpl_decode w junk m payload =
     (let t = mt_mType m; created = mt_mCreatedTimeInNanos m;
          finish = (\<lambda>t b. Inr (Some (set_event_meta m
                       \<lparr>ev_mMetaData = EventMeta_new junk t created, ev_body = b\<rparr>))) in
      if t = ACCOUNT_CREATED_EVENT then
        res_bind (AccountCreatedEvent_decode w payload) (finish ACCOUNT_CREATED_EVENT)
      else if t = ACCOUNT_METADATA_CONFIGURED_EVENT then
        res_bind (AccountMetadataConfiguredEvent_decode w payload)
          (finish ACCOUNT_METADATA_CONFIGURED_EVENT)
      else if t = JOURNAL_ENTRY_RECORDED_EVENT then
        res_bind (JournalEntryRecordedEvent_decode w payload) (finish JOURNAL_ENTRY_RECORDED_EVENT)
      else Inr None)"

definition CtrlDecoderUtil_decodeEvent ::
  "proto_wire \<Rightarrow> EventMetaData \<Rightarrow> EventMetaData \<Rightarrow> string \<Rightarrow> Event option" where
  "CtrlDecoderUtil_decodeEvent w junk m payload =
     (if mt_mType m = SPILT_EVENT then
        Some (set_event_meta m
          (SplitEvent_new junk (mt_mCreatedTimeInNanos m) (parse_SplitRequest w payload)))
      else None)"

definition CtrlDecoderUtil_decodeCommand ::
  "proto_wire \<Rightarrow> CommandMetaData \<Rightarrow> CommandMetaData \<Rightarrow> string \<Rightarrow> Command option" where
  "CtrlDecoderUtil_decodeCommand w junk m payload =
     (if mt_mType m = SPILT_COMMAND then
        Some (set_command_meta m
          (SplitCommand_new junk (mt_mCreatedTimeInNanos m) (parse_SplitRequest w payload)))
      else None)"

definition decodeEventFromString ::
  "proto_wire \<Rightarrow> EventMetaData \<Rightarrow> EventMetaData \<Rightarrow> string \<Rightarrow> Event option res" where
  "decodeEventFromString w junk m payload =
     (if isCtrlEvent (mt_mType m) then Inr (CtrlDecoderUtil_decodeEvent w junk m payload)
      else EventDecoderImpl_decode w junk m payload)"

definition decodeCommandFromString ::
  "proto_wire \<Rightarrow> CommandMetaData \<Rightarrow> CommandMetaData \<Rightarrow> string \<Rightarrow> Command option res" where
  "decodeCommandFromString w junk m payload =
     (if isCtrlCommand (mt_mType m) then Inr (CtrlDecoderUtil_decodeCommand w junk m payload)
      else CommandDecoderImpl_decode w junk m payload)"


section \<open>What the event store gives back\<close>

fun event_type :: "event_body \<Rightarrow> u64" where
  "event_type (AccountMetadataConfiguredEvent v m) = ACCOUNT_METADATA_CONFIGURED_EVENT"
| "event_type (AccountCreatedEvent v a) = ACCOUNT_CREATED_EVENT"
| "event_type (JournalEntryRecordedEvent v e) = JOURNAL_ENTRY_RECORDED_EVENT"
| "event_type (SplitEvent r) = SPILT_EVENT"

fun event_body_wf :: "event_body \<Rightarrow> bool" where
  "event_body_wf (AccountMetadataConfiguredEvent v m) = (v = 1 \<and> AccountMetadata_wf m)"
| "event_body_wf (AccountCreatedEvent v a) = (v = 1 \<and> Account_wf a)"
| "event_body_wf (JournalEntryRecordedEvent v e) = (v = 1 \<and> JournalEntry_wf e)"
| "event_body_wf (SplitEvent r) = True"

definition Event_wf :: "Event \<Rightarrow> bool" where
  "Event_wf e = (event_body_wf (ev_body e) \<and> mt_mType (ev_mMetaData e) = event_type (ev_body e))"

text \<open>The entry id is the one field of an event that its encoding drops.\<close>

fun without_entry_id :: "event_body \<Rightarrow> event_body" where
  "without_entry_id (JournalEntryRecordedEvent v e) = JournalEntryRecordedEvent v (e\<lparr>je_mId := ''''\<rparr>)"
| "without_entry_id b = b"

lemmas type_codes = CREATE_ACCOUNT_COMMAND_def CONFIGURE_ACCOUNT_METADATA_COMMAND_def
  RECORD_JOURNAL_ENTRY_COMMAND_def ACCOUNT_CREATED_EVENT_def ACCOUNT_METADATA_CONFIGURED_EVENT_def
  JOURNAL_ENTRY_RECORDED_EVENT_def SPILT_COMMAND_def SPILT_EVENT_def

lemma ctrl_types [simp]:
  "isCtrlEvent SPILT_EVENT" "isCtrlCommand SPILT_COMMAND"
  "\<not> isCtrlEvent ACCOUNT_CREATED_EVENT" "\<not> isCtrlEvent ACCOUNT_METADATA_CONFIGURED_EVENT"
  "\<not> isCtrlEvent JOURNAL_ENTRY_RECORDED_EVENT" "\<not> isCtrlCommand CREATE_ACCOUNT_COMMAND"
  "\<not> isCtrlCommand CONFIGURE_ACCOUNT_METADATA_COMMAND"
  "\<not> isCtrlCommand RECORD_JOURNAL_ENTRY_COMMAND"
  by (simp_all add: isCtrlEvent_def isCtrlCommand_def CTRL_TYPES_def type_codes)

lemma type_codes_distinct [simp]:
  "ACCOUNT_CREATED_EVENT \<noteq> ACCOUNT_METADATA_CONFIGURED_EVENT"
  "ACCOUNT_METADATA_CONFIGURED_EVENT \<noteq> ACCOUNT_CREATED_EVENT"
  "JOURNAL_ENTRY_RECORDED_EVENT \<noteq> ACCOUNT_CREATED_EVENT"
  "JOURNAL_ENTRY_RECORDED_EVENT \<noteq> ACCOUNT_METADATA_CONFIGURED_EVENT"
  "CONFIGURE_ACCOUNT_METADATA_COMMAND \<noteq> CREATE_ACCOUNT_COMMAND"
  "CREATE_ACCOUNT_COMMAND \<noteq> CONFIGURE_ACCOUNT_METADATA_COMMAND"
  "RECORD_JOURNAL_ENTRY_COMMAND \<noteq> CREATE_ACCOUNT_COMMAND"
  "RECORD_JOURNAL_ENTRY_COMMAND \<noteq> CONFIGURE_ACCOUNT_METADATA_COMMAND"
  by (simp_all add: type_codes)

lemma wire_ok_simps:
  assumes "wire_ok w"
  shows "parse_ConfigureRequest w (ser_ConfigureRequest w m1) = m1"
    and "parse_CreateRequest w (ser_CreateRequest w m2) = m2"
    and "parse_RecordRequest w (ser_RecordRequest w m3) = m3"
    and "parse_SplitRequest w (ser_SplitRequest w m4) = m4"
    and "parse_ConfiguredEvent w (ser_ConfiguredEvent w m5) = m5"
    and "parse_CreatedEvent w (ser_CreatedEvent w m6) = m6"
    and "parse_RecordedEvent w (ser_RecordedEvent w m7) = m7"
    and "parse_Account w (ser_Account w m8) = m8"
    and "parse_AccountMetadata w (ser_AccountMetadata w m9) = m9"
  using assms by (simp_all add: wire_ok_def)

lemma configured_event_roundtrip:
  assumes "wire_ok w" and "AccountMetadata_wf m"
  shows "\<exists>s. AccountMetadataConfiguredEvent_encode w 1 m = Inr s
           \<and> AccountMetadataConfiguredEvent_decode w s = Inr (AccountMetadataConfiguredEvent 1 m)"
proof -
  obtain p where "AccountMetadata_encodeTo m pb_AccountMetadata_default = Inr p"
    using metadata_codec.enc_total [OF assms(2)] by blast
  then show ?thesis using metadata_codec.dec_enc [OF assms(2)] assms(1)
    by (simp add: AccountMetadataConfiguredEvent_encode_def wire_ok_simps
        AccountMetadataConfiguredEvent_decode_def Let_def)
qed

lemma created_event_roundtrip:
  assumes "wire_ok w" and "Account_wf a"
  shows "\<exists>s. AccountCreatedEvent_encode w 1 a = Inr s
           \<and> AccountCreatedEvent_decode w s = Inr (AccountCreatedEvent 1 a)"
proof -
  obtain p where "Account_encodeTo a pb_Account_default = Inr p"
    using account_codec.enc_total [OF assms(2)] by blast
  then show ?thesis using account_codec.dec_enc [OF assms(2)] assms(1)
    by (simp add: AccountCreatedEvent_encode_def wire_ok_simps AccountCreatedEvent_decode_def Let_def)
qed

lemma recorded_event_roundtrip:
  assumes "wire_ok w" and "JournalEntry_wf e"
  shows "\<exists>s. JournalEntryRecordedEvent_encode w 1 e = Inr s
           \<and> JournalEntryRecordedEvent_decode w s
             = Inr (JournalEntryRecordedEvent 1 (e\<lparr>je_mId := ''''\<rparr>))"
proof -
  obtain p where "JournalEntry_encodeTo e pb_JournalEntry_default = Inr p"
      "JournalEntry_initWith [] p = Inr (e\<lparr>je_mId := ''''\<rparr>)"
    using JournalEntry_decode_encode [OF assms(2), of pb_JournalEntry_default]
    by (auto simp: pb_JournalEntry_default_def)
  then show ?thesis using assms(1)
    by (simp add: JournalEntryRecordedEvent_encode_def wire_ok_simps
        JournalEntryRecordedEvent_decode_def Let_def)
qed

lemma event_store_roundtrip:
  assumes "wire_ok w" and "Event_wf e"
  shows "\<exists>payload. Event_encodeToString w (ev_body e) = Inr payload
           \<and> decodeEventFromString w junk
               (EventMetaData_of_entry (populateEventEntry (ev_mMetaData e) entry)) payload
             = Inr (Some \<lparr>ev_mMetaData = (ev_mMetaData e)\<lparr>mt_mProcessTimeInNanos := 0,
                                mt_mLeaderReadyTimeInNanos := 0, mt_mFinishTimeInNanos := 0\<rparr>,
                          ev_body = without_entry_id (ev_body e)\<rparr>)"
proof -
  let ?m = "EventMetaData_of_entry (populateEventEntry (ev_mMetaData e) entry)"
  have m: "?m = (ev_mMetaData e)\<lparr>mt_mProcessTimeInNanos := 0,
             mt_mLeaderReadyTimeInNanos := 0, mt_mFinishTimeInNanos := 0\<rparr>"
    by (rule event_meta_roundtrip)
  then have type: "mt_mType ?m = event_type (ev_body e)"
    and body: "event_body_wf (ev_body e)" using assms(2) by (simp_all add: Event_wf_def)
  have meta: "Event_setPartialMetaData ?m (EventMeta_new junk (mt_mType ?m) (mt_mCreatedTimeInNanos ?m))
      = ?m"
    using event_meta_rebuilt [of ?m junk] m by simp
  show ?thesis
  proof (cases "ev_body e")
    case (AccountMetadataConfiguredEvent v md)
    with configured_event_roundtrip [OF assms(1), of md] body type meta show ?thesis
      by (auto simp: decodeEventFromString_def EventDecoderImpl_decode_def set_event_meta_def m)
  next
    case (AccountCreatedEvent v a)
    with created_event_roundtrip [OF assms(1), of a] body type meta show ?thesis
      by (auto simp: decodeEventFromString_def EventDecoderImpl_decode_def set_event_meta_def m)
  next
    case (JournalEntryRecordedEvent v je)
    with recorded_event_roundtrip [OF assms(1), of je] body type meta show ?thesis
      by (auto simp: decodeEventFromString_def EventDecoderImpl_decode_def set_event_meta_def m)
  next
    case (SplitEvent r)
    with type meta show ?thesis using assms(1)
      by (auto simp: decodeEventFromString_def CtrlDecoderUtil_decodeEvent_def set_event_meta_def
          SplitEvent_new_def wire_ok_simps m)
  qed
qed

text \<open>
  C18. Encoding a well-formed event and its metadata into a store entry and decoding the entry never
  stops the process and gives the event back, metadata included, except that a recorded journal
  entry comes back with an empty id.
\<close>

theorem stored_event_roundtrip:
  assumes "wire_ok w" and "Event_wf e"
  shows "\<exists>payload. Event_encodeToString w (ev_body e) = Inr payload
           \<and> decodeEventFromString w junk
               (EventMetaData_of_entry (populateEventEntry (ev_mMetaData e) entry)) payload
             = Inr (Some \<lparr>ev_mMetaData = (ev_mMetaData e)\<lparr>mt_mProcessTimeInNanos := 0,
                                mt_mLeaderReadyTimeInNanos := 0, mt_mFinishTimeInNanos := 0\<rparr>,
                          ev_body = without_entry_id (ev_body e)\<rparr>)"
  using assms by (rule event_store_roundtrip)

definition example_line :: "u64 \<Rightarrow> TransactionType \<Rightarrow> u64 \<Rightarrow> JournalLine" where
  "example_line code type v =
     \<lparr>jl_mVersion = 1, jl_mNominalCode = code, jl_mTransactionType = type,
      jl_mAmount = \<lparr>am_mVersion = 1, am_mValue = v\<rparr>, jl_mISO4217CurrencyCode = 840,
      jl_mRefData = ''receipt''\<rparr>"

definition example_entry :: JournalEntry where
  "example_entry =
     \<lparr>je_mVersion = 1, je_mId = ''e1'', je_mValidTime = 10, je_mRecordTime = 11,
      je_mJournalLines = [example_line 1 TT_Debit 5, example_line 2 TT_Credit 5],
      je_mPurpose = ''sale''\<rparr>"

definition example_event_meta :: EventMetaData where
  "example_event_meta =
     \<lparr>mt_mId = 0, mt_mType = JOURNAL_ENTRY_RECORDED_EVENT, mt_mCreatedTimeInNanos = 7,
      mt_mProcessTimeInNanos = 0, mt_mLeaderReadyTimeInNanos = 0, mt_mFinishTimeInNanos = 0,
      mt_mCreatorId = 1, mt_mGroupId = 0, mt_mGroupVersion = 0, mt_mTrackingContext = '''',
      em_mCommandId = 4\<rparr>"

definition example_event_entry :: EventEntry where
  "example_event_entry =
     \<lparr>ee_type = 0, ee_id = 0, ee_commandId = 0, ee_createdTimeInNanos = 0, ee_entry = '''',
      ee_creatorId = 0, ee_groupId = 0, ee_groupVersion = 0, ee_trackingContext = ''''\<rparr>"

theorem stored_event_roundtrip_witness:
  "je_mId example_entry = ''e1'' \<and>
   (\<exists>payload. Event_encodeToString code_wire (JournalEntryRecordedEvent 1 example_entry) = Inr payload
      \<and> decodeEventFromString code_wire example_event_meta
          (EventMetaData_of_entry (populateEventEntry example_event_meta example_event_entry)) payload
        = Inr (Some \<lparr>ev_mMetaData = example_event_meta,
                     ev_body = JournalEntryRecordedEvent 1 (example_entry\<lparr>je_mId := ''''\<rparr>)\<rparr>))"
proof -
  have "Event_wf \<lparr>ev_mMetaData = example_event_meta,
          ev_body = JournalEntryRecordedEvent 1 example_entry\<rparr>"
    by (simp add: Event_wf_def example_event_meta_def example_entry_def example_line_def wf_defs)
  from stored_event_roundtrip [OF code_wire_ok this, of example_event_meta example_event_entry]
  show ?thesis by (simp add: example_event_meta_def) (simp add: example_entry_def)
qed

section \<open>What a validated request gives the state machine\<close>

text \<open>
  The constructors give a verified request its domain object, well-formed, or stop the process when
  the message has an unsupported version; a request that does not verify carries none.
\<close>

lemma tryInitAccountMetadata_cases:
  "tryInitAccountMetadata r = Inr opt \<Longrightarrow>
     (case opt of
        None \<Rightarrow> ConfigureAccountMetadataCommand_verify r \<noteq> kVerifiedSuccess
      | Some m \<Rightarrow> ConfigureAccountMetadataCommand_verify r = kVerifiedSuccess \<and> AccountMetadata_wf m
          \<and> md_mLowInclusive m < md_mHighInclusive m
          \<and> md_mAccountType m = AccountTypeUtil_typeOf (pmd_type (pcr_metadata r)))"
  by (auto simp: tryInitAccountMetadata_def ConfigureAccountMetadataCommand_verify_def
      AccountMetadata_initWith_def AccountMetadata_wf_def res_bind_eq_Inr kVerifiedSuccess_def
      split: if_splits)

lemma tryInitAccount_cases:
  "tryInitAccount r = Inr opt \<Longrightarrow>
     (case opt of
        None \<Rightarrow> pac_type (pcq_account r) = PA_UnknownAccountType
      | Some a \<Rightarrow> pac_type (pcq_account r) \<noteq> PA_UnknownAccountType \<and> Account_wf a
          \<and> ac_mAccountType a = AccountTypeUtil_typeOf (pac_type (pcq_account r)))"
  by (auto simp: tryInitAccount_def CreateAccountCommand_verify_def res_bind_eq_Inr
      kVerifiedSuccess_def account_codec.dec_wf split: if_splits)
    (auto simp: Account_initWith_def res_bind_eq_Inr split: if_splits)

lemma tryInitJournalEntry_cases:
  "tryInitJournalEntry r = Inr opt \<Longrightarrow>
     (case opt of
        None \<Rightarrow> prq_journal_entry r = None
      | Some e \<Rightarrow> JournalEntry_wf e
          \<and> (\<exists>p. prq_journal_entry r = Some p \<and> je_mId e = pje_id p))"
  by (auto simp: tryInitJournalEntry_def RecordJournalEntryCommand_verify_def res_bind_eq_Inr
      kVerifiedSuccess_def JournalEntry_initWith_wf split: if_splits)
    (auto simp: JournalEntry_initWith_def res_bind_eq_Inr split: if_splits)

end
