(* ===== verification/Event_Sourcing.thy ===== *)
theory Event_Sourcing
  imports Ledger_Prelude
begin

text \<open>
  The contract of \<^verbatim>\<open>src/src/infra/es/StateMachine.h\<close> and \<^verbatim>\<open>ProcessCommandStateMachine.h\<close>: a
  command is processed into events without touching the state, and only applied events change it,
  so that the state can be rebuilt by applying the recorded events again. \<open>live_step\<close> is
  \<^verbatim>\<open>processCommandAndApply\<close>, \<open>live_run\<close> its repetition over a sequence of commands, and
  \<open>replay\<close> the application of recorded events after a restart.
\<close>

definition live_step ::
  "('s \<Rightarrow> 'c \<Rightarrow> ('h \<times> 'e list) res) \<Rightarrow> ('e \<Rightarrow> 's \<Rightarrow> 's res) \<Rightarrow> 'c \<Rightarrow> 's \<Rightarrow> ('h \<times> 'e list \<times> 's) res"
  where
  "live_step process apply_event c s =
     res_bind (process s c) (\<lambda>(h, events).
       if events = [] then Inr (h, events, s)
       else res_bind (fold_res apply_event events s) (\<lambda>s'. Inr (h, events, s')))"

fun live_run ::
  "('s \<Rightarrow> 'c \<Rightarrow> ('h \<times> 'e list) res) \<Rightarrow> ('e \<Rightarrow> 's \<Rightarrow> 's res) \<Rightarrow> 'c list \<Rightarrow> 's \<Rightarrow> ('e list \<times> 's) res"
  where
  "live_run process apply_event [] s = Inr ([], s)"
| "live_run process apply_event (c # cs) s =
     res_bind (live_step process apply_event c s) (\<lambda>(h, events, s').
       res_bind (live_run process apply_event cs s') (\<lambda>(rest, s''). Inr (events @ rest, s'')))"

definition replay :: "('e \<Rightarrow> 's \<Rightarrow> 's res) \<Rightarrow> 'e list \<Rightarrow> 's \<Rightarrow> 's res" where
  "replay apply_event events s = fold_res apply_event events s"

lemma replay_append:
  "replay apply_event (xs @ ys) s = res_bind (replay apply_event xs s) (replay apply_event ys)"
proof -
  have "replay apply_event ys = fold_res apply_event ys" by (simp add: fun_eq_iff replay_def)
  then show ?thesis by (simp add: replay_def fold_res_append)
qed

lemma live_step_replays:
  "live_step process apply_event c s = Inr (h, events, s') \<Longrightarrow> replay apply_event events s = Inr s'"
  by (auto simp: live_step_def replay_def res_bind_eq_Inr split: if_splits)

text \<open>
  The state machine's side: on a state that satisfies the invariant, an admissible command is
  processed, and the events it produces apply without stopping the process and keep the invariant.
\<close>

locale event_sourced =
  fixes process :: "'s \<Rightarrow> 'c \<Rightarrow> ('h \<times> 'e list) res"
    and apply_event :: "'e \<Rightarrow> 's \<Rightarrow> 's res"
    and inv :: "'s \<Rightarrow> bool"
    and admissible :: "'c \<Rightarrow> bool"
  assumes process_total: "inv s \<Longrightarrow> admissible c \<Longrightarrow> \<exists>h events. process s c = Inr (h, events)"
    and events_apply: "inv s \<Longrightarrow> admissible c \<Longrightarrow> process s c = Inr (h, events)
      \<Longrightarrow> \<exists>s'. fold_res apply_event events s = Inr s' \<and> inv s'"
begin

lemma step_total:
  assumes "inv s" and "admissible c"
  shows "\<exists>h events s'. live_step process apply_event c s = Inr (h, events, s') \<and> inv s'"
proof -
  obtain h events where p: "process s c = Inr (h, events)" using process_total assms by blast
  obtain s' where "fold_res apply_event events s = Inr s'" "inv s'"
    using events_apply [OF assms p] by blast
  then show ?thesis using p assms(1) by (cases "events = []") (auto simp: live_step_def)
qed

lemma run_total:
  "inv s \<Longrightarrow> list_all admissible cs \<Longrightarrow>
   \<exists>events s'. live_run process apply_event cs s = Inr (events, s') \<and> inv s'"
proof (induction cs arbitrary: s)
  case (Cons c cs)
  obtain h ev s' where "live_step process apply_event c s = Inr (h, ev, s')" "inv s'"
    using step_total [of s c] Cons.prems by auto
  moreover obtain rest s'' where "live_run process apply_event cs s' = Inr (rest, s'')" "inv s''"
    using Cons.IH [OF \<open>inv s'\<close>] Cons.prems by auto
  ultimately show ?case by simp
qed simp

lemma run_replays:
  "live_run process apply_event cs s = Inr (events, s') \<Longrightarrow> replay apply_event events s = Inr s'"
proof (induction cs arbitrary: s events)
  case Nil
  then show ?case by (simp add: replay_def)
next
  case (Cons c cs)
  then obtain h ev t rest where step: "live_step process apply_event c s = Inr (h, ev, t)"
    and rest: "live_run process apply_event cs t = Inr (rest, s')" and "events = ev @ rest"
    by (auto simp: res_bind_eq_Inr)
  then show ?case using Cons.IH [OF rest] live_step_replays [OF step] by (simp add: replay_append)
qed

text \<open>Any sequence of admissible commands runs to the end, and a replay reaches the same state.\<close>

lemma run_and_replay:
  assumes "inv s" and "list_all admissible cs"
  shows "\<exists>events s'. live_run process apply_event cs s = Inr (events, s') \<and> inv s'
           \<and> replay apply_event events s = Inr s'"
  using run_total [OF assms] run_replays by blast

end

end
