(* ===== verification/Ledger_State_Machine.thy ===== *)
theory Ledger_State_Machine
  imports Ledger_Commands Event_Sourcing
begin

text \<open>
  The ledger's state machine: \<^verbatim>\<open>src/src/app_ledger/v2/AppStateMachine.cpp\<close> and \<^verbatim>\<open>.h\<close> (processing
  and applying the three commands), \<^verbatim>\<open>src/src/app_ledger/AppStateMachine.cpp\<close> (registration of the
  handlers, \<^verbatim>\<open>processCommandAndApply\<close>) and \<^verbatim>\<open>src/src/app_util/AppStateMachine.h\<close> (dispatch by
  type, control commands included).

  The virtual callbacks \<^verbatim>\<open>onAccountInserted\<close> and so on are the fields of a record, each acting on
  an extra state of type \<open>'x\<close>: the base class does nothing, the RocksDB-backed machine appends to
  its write batch. The read of the done map from RocksDB is the argument \<open>getDone\<close>, the result of
  \<^verbatim>\<open>mRocksDB->Get(mReadOptions, DONE_MAP, id)\<close>. \<open>now\<close> is the clock and \<open>junk\<close> the indeterminate
  part of a new event's metadata.
\<close>

section \<open>State\<close>

record ledger =
  mDoneMap :: "(string, u64) smap"
  mCoA :: "(u64, Account) smap"
  mAccountMetadata :: "(AccountType, AccountMetadata) smap"

datatype db_status = Status_Ok string | Status_NotFound | Status_Error string

record 'x callbacks =
  onAccountInserted :: "Account \<Rightarrow> 'x \<Rightarrow> 'x res"
  onAccountMetadataUpdated :: "AccountMetadata \<Rightarrow> 'x \<Rightarrow> 'x res"
  onBookkeepingProcessed :: "string \<Rightarrow> u64 \<Rightarrow> 'x \<Rightarrow> 'x res"
  onAccountUpdated :: "Account \<Rightarrow> 'x \<Rightarrow> 'x res"

definition no_callbacks :: "'x callbacks" where
  "no_callbacks =
     \<lparr>onAccountInserted = \<lambda>_ x. Inr x, onAccountMetadataUpdated = \<lambda>_ x. Inr x,
      onBookkeepingProcessed = \<lambda>_ _ x. Inr x, onAccountUpdated = \<lambda>_ x. Inr x\<rparr>"

definition clearState :: "ledger \<Rightarrow> ledger" where
  "clearState s = s\<lparr>mDoneMap := [], mCoA := [], mAccountMetadata := []\<rparr>"

text \<open>
  \<^verbatim>\<open>hasSameState\<close> is called on the left argument; it walks the maps of the right one.
\<close>

definition hasSameState :: "ledger \<Rightarrow> ledger \<Rightarrow> bool" where
  "hasSameState s another =
     (if length (mCoA s) \<noteq> length (mCoA another) then False
      else if \<not> list_all (\<lambda>(k, v). case map_of (mCoA s) k of None \<Rightarrow> False
                                 | Some v' \<Rightarrow> Account_isSame v v') (mCoA another) then False
      else if \<not> list_all (\<lambda>(k, v). case map_of (mAccountMetadata s) k of None \<Rightarrow> False
                                 | Some v' \<Rightarrow> AccountMetadata_isSame v v') (mAccountMetadata another)
      then False
      else True)"

section \<open>Processing commands\<close>

definition ACCOUNT_ALREADY_EXISTS :: u64 where "ACCOUNT_ALREADY_EXISTS = 1000"
definition ACCOUNT_METADATA_RANGE_OVERLAP :: u64 where "ACCOUNT_METADATA_RANGE_OVERLAP = 1001"
definition ACCOUNT_METADATA_RANGE_NOT_COVER_EXISTING_ACCOUNT :: u64 where
  "ACCOUNT_METADATA_RANGE_NOT_COVER_EXISTING_ACCOUNT = 1002"
definition JOURNAL_ENTRY_ALREADY_PROCESSED :: u64 where "JOURNAL_ENTRY_ALREADY_PROCESSED = 1003"
definition ACCOUNT_IN_JOURNAL_ENTRY_NOT_EXIST :: u64 where
  "ACCOUNT_IN_JOURNAL_ENTRY_NOT_EXIST = 1004"
definition NO_DEBIT_IN_JOURNAL_ENTRY :: u64 where "NO_DEBIT_IN_JOURNAL_ENTRY = 1005"
definition NO_CREDIT_IN_JOURNAL_ENTRY :: u64 where "NO_CREDIT_IN_JOURNAL_ENTRY = 1006"
definition CREDIT_NOT_EQUAL_TO_DEBIT :: u64 where "CREDIT_NOT_EQUAL_TO_DEBIT = 1007"
definition INVALID_TRANSACTION_TYPE :: u64 where "INVALID_TRANSACTION_TYPE = 1008"
definition JOURNAL_LINE_ISO_CURRENCY_CODE_DOES_NOT_MATCH_ACCOUNT :: u64 where
  "JOURNAL_LINE_ISO_CURRENCY_CODE_DOES_NOT_MATCH_ACCOUNT = 1009"
definition HTTP_OK :: u64 where "HTTP_OK = 200"
definition HTTP_BAD_REQUEST :: u64 where "HTTP_BAD_REQUEST = 400"

abbreviation hint :: "u64 \<Rightarrow> string \<Rightarrow> ProcessHint" where
  "hint c m \<equiv> \<lparr>ph_mCode = c, ph_mMessage = m\<rparr>"

definition range_overlaps :: "AccountMetadata \<Rightarrow> AccountType \<times> AccountMetadata \<Rightarrow> bool" where
  "range_overlaps md kv =
     (if md_mAccountType md = fst kv then False
      else \<not> (md_mLowInclusive md > md_mHighInclusive (snd kv)
              \<or> md_mHighInclusive md < md_mLowInclusive (snd kv)))"

definition range_misses :: "AccountMetadata \<Rightarrow> u64 \<times> Account \<Rightarrow> bool" where
  "range_misses md kv =
     (if md_mAccountType md \<noteq> ac_mAccountType (snd kv) then False
      else fst kv < md_mLowInclusive md \<or> fst kv > md_mHighInclusive md)"

definition process_ConfigureAccountMetadata ::
  "u64 \<Rightarrow> EventMetaData \<Rightarrow> ledger \<Rightarrow> AccountMetadata option \<Rightarrow> ProcessHint \<times> Event list" where
  "process_ConfigureAccountMetadata now junk s opt =
     (case opt of
        None \<Rightarrow> (hint HTTP_OK ''Success'', [])
      | Some md \<Rightarrow>
          if list_ex (range_overlaps md) (mAccountMetadata s)
          then (hint ACCOUNT_METADATA_RANGE_OVERLAP ''range overlaps with other account metadata'', [])
          else if list_ex (range_misses md) (mCoA s)
          then (hint ACCOUNT_METADATA_RANGE_NOT_COVER_EXISTING_ACCOUNT
                  ''new range cannot cover existing account's nominal code'', [])
          else (hint HTTP_OK ''Success'', [AccountMetadataConfiguredEvent_new junk now md]))"

definition process_CreateAccount ::
  "u64 \<Rightarrow> EventMetaData \<Rightarrow> ledger \<Rightarrow> Account option \<Rightarrow> ProcessHint \<times> Event list" where
  "process_CreateAccount now junk s opt =
     (case opt of
        Some a \<Rightarrow>
          if map_of (mCoA s) (ac_mNominalCode a) \<noteq> None
          then (hint ACCOUNT_ALREADY_EXISTS ''Account already exists'', [])
          else (hint HTTP_OK ''Success'', [AccountCreatedEvent_new junk now a])
      | None \<Rightarrow> (hint HTTP_BAD_REQUEST ''Invalid command as no account passed'', []))"

text \<open>
  The loop over the journal lines, on \<^verbatim>\<open>debitCnt\<close>, \<^verbatim>\<open>creditCnt\<close>, \<^verbatim>\<open>debitSum\<close> and
  \<^verbatim>\<open>creditSum\<close>. \<open>Inr (Inl h)\<close> is an early return with hint \<open>h\<close>; the outer \<open>Inl\<close> is the failed
  \<^verbatim>\<open>assert\<close> of \<^verbatim>\<open>Amount::operator+=\<close>.
\<close>

record line_sums =
  ls_debitCnt :: u32
  ls_creditCnt :: u32
  ls_debitSum :: Amount
  ls_creditSum :: Amount

definition add_line :: "JournalLine \<Rightarrow> line_sums \<Rightarrow> line_sums res" where
  "add_line l a =
     res_bind (if jl_mTransactionType l = TT_Debit
               then res_bind (Amount_add (ls_debitSum a) (jl_mAmount l)) (\<lambda>s.
                      Inr (a\<lparr>ls_debitCnt := ls_debitCnt a + 1, ls_debitSum := s\<rparr>))
               else Inr a) (\<lambda>a1.
       if jl_mTransactionType l = TT_Credit
       then res_bind (Amount_add (ls_creditSum a1) (jl_mAmount l)) (\<lambda>s.
              Inr (a1\<lparr>ls_creditCnt := ls_creditCnt a1 + 1, ls_creditSum := s\<rparr>))
       else Inr a1)"

fun check_lines ::
  "(u64, Account) smap \<Rightarrow> JournalLine list \<Rightarrow> line_sums \<Rightarrow> (ProcessHint + line_sums) res" where
  "check_lines coa [] a = Inr (Inr a)"
| "check_lines coa (l # ls) a =
     (case map_of coa (jl_mNominalCode l) of
        None \<Rightarrow> Inr (Inl (hint ACCOUNT_IN_JOURNAL_ENTRY_NOT_EXIST
                 (''account '' @ to_string (unat (jl_mNominalCode l)) @ '' does not exist'')))
      | Some acct \<Rightarrow>
          if ac_mISO4217CurrencyCode acct \<noteq> jl_mISO4217CurrencyCode l
          then Inr (Inl (hint JOURNAL_LINE_ISO_CURRENCY_CODE_DOES_NOT_MATCH_ACCOUNT
                 (''the iso-4217 currency code: '' @ to_string (unat (jl_mISO4217CurrencyCode l))
                  @ '' in journal line doesn't match the code in account: ''
                  @ to_string (unat (ac_mISO4217CurrencyCode acct)))))
          else if jl_mTransactionType l = TT_Unknown
          then Inr (Inl (hint INVALID_TRANSACTION_TYPE
                 ''transaction type should be either debit or credit''))
          else res_bind (add_line l a) (check_lines coa ls))"

definition process_RecordJournalEntry ::
  "(string \<Rightarrow> db_status) \<Rightarrow> u64 \<Rightarrow> EventMetaData \<Rightarrow> ledger \<Rightarrow> JournalEntry option
   \<Rightarrow> (ProcessHint \<times> Event list) res" where
  "process_RecordJournalEntry getDone now junk s opt =
     (let done_hint = hint JOURNAL_ENTRY_ALREADY_PROCESSED
                        ''journal entry has already been processed'' in
      case opt of
        None \<Rightarrow> Inl Assertion
      | Some e \<Rightarrow>
          if map_of (mDoneMap s) (je_mId e) \<noteq> None then Inr (done_hint, [])
          else if getDone (je_mId e) \<noteq> Status_NotFound then Inr (done_hint, [])
          else
            res_bind (check_lines (mCoA s) (je_mJournalLines e)
              \<lparr>ls_debitCnt = 0, ls_creditCnt = 0, ls_debitSum = Amount_new,
               ls_creditSum = Amount_new\<rparr>) (\<lambda>r.
              case r of
                Inl h \<Rightarrow> Inr (h, [])
              | Inr a \<Rightarrow>
                  if ls_debitCnt a = 0
                  then Inr (hint NO_DEBIT_IN_JOURNAL_ENTRY ''no debit in journal entry'', [])
                  else if ls_creditCnt a = 0
                  then Inr (hint NO_CREDIT_IN_JOURNAL_ENTRY ''no credit in journal entry'', [])
                  else if Amount_neq (ls_debitSum a) (ls_creditSum a)
                  then Inr (hint CREDIT_NOT_EQUAL_TO_DEBIT ''credit amount not equal to debit amount'', [])
                  else Inr (hint HTTP_OK ''Success'', [JournalEntryRecordedEvent_new junk now e])))"

section \<open>Applying events\<close>

definition apply_AccountMetadataConfigured ::
  "'x callbacks \<Rightarrow> AccountMetadata \<Rightarrow> ledger \<times> 'x \<Rightarrow> (ledger \<times> 'x) res" where
  "apply_AccountMetadataConfigured cb md sx =
     (let s = (fst sx)\<lparr>mAccountMetadata :=
                 smap_put (md_mAccountType md) md (mAccountMetadata (fst sx))\<rparr> in
      res_bind (onAccountMetadataUpdated cb md (snd sx)) (\<lambda>x. Inr (s, x)))"

definition apply_AccountCreated ::
  "'x callbacks \<Rightarrow> Account \<Rightarrow> ledger \<times> 'x \<Rightarrow> (ledger \<times> 'x) res" where
  "apply_AccountCreated cb a sx =
     (if map_of (mCoA (fst sx)) (ac_mNominalCode a) \<noteq> None then Inl Assertion
      else
        (let s = (fst sx)\<lparr>mCoA := smap_put (ac_mNominalCode a) a (mCoA (fst sx))\<rparr> in
         res_bind (onAccountInserted cb a (snd sx)) (\<lambda>x. Inr (s, x))))"

text \<open>
  One journal line: \<^verbatim>\<open>mCoA.at\<close> throws \<^verbatim>\<open>out_of_range\<close> on an unknown account; the reference it
  returns is updated in place.
\<close>

definition apply_line ::
  "'x callbacks \<Rightarrow> JournalLine \<Rightarrow> ledger \<times> 'x \<Rightarrow> (ledger \<times> 'x) res" where
  "apply_line cb l sx =
     (case map_of (mCoA (fst sx)) (jl_mNominalCode l) of
        None \<Rightarrow> Inl (Exception ''out_of_range'')
      | Some a \<Rightarrow>
          if jl_mTransactionType l = TT_Unknown then Inl Assertion
          else
            res_bind (if jl_mTransactionType l = TT_Debit then Account_applyDebit (jl_mAmount l) a
                      else Account_applyCredit (jl_mAmount l) a) (\<lambda>a'.
            res_bind (onAccountUpdated cb a' (snd sx)) (\<lambda>x.
              Inr ((fst sx)\<lparr>mCoA := smap_put (jl_mNominalCode l) a' (mCoA (fst sx))\<rparr>, x))))"

definition apply_JournalEntryRecorded ::
  "'x callbacks \<Rightarrow> JournalEntry \<Rightarrow> ledger \<times> 'x \<Rightarrow> (ledger \<times> 'x) res" where
  "apply_JournalEntryRecorded cb e sx =
     (if map_of (mDoneMap (fst sx)) (je_mId e) \<noteq> None then Inl Assertion
      else
        (let s = (fst sx)\<lparr>mDoneMap := smap_put (je_mId e) (je_mValidTime e) (mDoneMap (fst sx))\<rparr> in
         res_bind (onBookkeepingProcessed cb (je_mId e) (je_mValidTime e) (snd sx)) (\<lambda>x.
           fold_res (apply_line cb) (je_mJournalLines e) (s, x))))"

section \<open>Dispatch\<close>

text \<open>
  The machine as \<^verbatim>\<open>app::AppStateMachine\<close> sees it: the ledger, the control state and the state of
  the callbacks. A \<^verbatim>\<open>dynamic_cast\<close> of a reference to the wrong class throws \<^verbatim>\<open>bad_cast\<close>.
  \<^verbatim>\<open>checkCommand\<close> and \<^verbatim>\<open>setCtrlState\<close> are the base class's, which accept everything and do
  nothing: no class of the repository overrides them.
\<close>

record 'x app_state =
  as_ledger :: ledger
  as_mCtrlState :: CtrlState
  as_ext :: 'x

definition processCommand ::
  "(string \<Rightarrow> db_status) \<Rightarrow> u64 \<Rightarrow> EventMetaData \<Rightarrow> Command \<Rightarrow> 'x app_state
   \<Rightarrow> (ProcessHint \<times> Event list) res" where
  "processCommand getDone now junk c st =
     (let t = mt_mType (cmd_mMetaData c) in
      if isCtrlCommand t then
        (case cmd_body c of
           SplitCommand r \<Rightarrow>
             (let (h, ev) = SplitCommand_process r (as_mCtrlState st) in
              Inr (h, case ev of None \<Rightarrow> [] | Some q \<Rightarrow> [SplitEvent_new junk now q]))
         | _ \<Rightarrow> Inl (Exception ''bad_cast''))
      else if t = CONFIGURE_ACCOUNT_METADATA_COMMAND then
        (case cmd_body c of
           ConfigureAccountMetadataCommand r opt \<Rightarrow>
             Inr (process_ConfigureAccountMetadata now junk (as_ledger st) opt)
         | _ \<Rightarrow> Inl (Exception ''bad_cast''))
      else if t = CREATE_ACCOUNT_COMMAND then
        (case cmd_body c of
           CreateAccountCommand r opt \<Rightarrow> Inr (process_CreateAccount now junk (as_ledger st) opt)
         | _ \<Rightarrow> Inl (Exception ''bad_cast''))
      else if t = RECORD_JOURNAL_ENTRY_COMMAND then
        (case cmd_body c of
           RecordJournalEntryCommand r opt \<Rightarrow>
             process_RecordJournalEntry getDone now junk (as_ledger st) opt
         | _ \<Rightarrow> Inl (Exception ''bad_cast''))
      else Inr (hint 503 (''Cannot find command processor for '' @ to_string_int (sint t)), []))"

definition applyEvent :: "'x callbacks \<Rightarrow> u64 \<Rightarrow> Event \<Rightarrow> 'x app_state \<Rightarrow> 'x app_state res" where
  "applyEvent cb groupId ev st =
     (let t = mt_mType (ev_mMetaData ev);
          store = (\<lambda>r. res_bind r (\<lambda>(s, x). Inr (st\<lparr>as_ledger := s, as_ext := x\<rparr>)));
          sx = (as_ledger st, as_ext st) in
      if isCtrlEvent t then
        (case ev_body ev of
           SplitEvent r \<Rightarrow>
             res_bind (SplitEvent_apply groupId (em_mCommandId (ev_mMetaData ev)) r
                         (as_mCtrlState st)) (\<lambda>c. Inr (st\<lparr>as_mCtrlState := c\<rparr>))
         | _ \<Rightarrow> Inl (Exception ''bad_cast''))
      else if t = ACCOUNT_METADATA_CONFIGURED_EVENT then
        (case ev_body ev of
           AccountMetadataConfiguredEvent v md \<Rightarrow> store (apply_AccountMetadataConfigured cb md sx)
         | _ \<Rightarrow> Inl (Exception ''bad_cast''))
      else if t = ACCOUNT_CREATED_EVENT then
        (case ev_body ev of
           AccountCreatedEvent v a \<Rightarrow> store (apply_AccountCreated cb a sx)
         | _ \<Rightarrow> Inl (Exception ''bad_cast''))
      else if t = JOURNAL_ENTRY_RECORDED_EVENT then
        (case ev_body ev of
           JournalEntryRecordedEvent v e \<Rightarrow> store (apply_JournalEntryRecorded cb e sx)
         | _ \<Rightarrow> Inl (Exception ''bad_cast''))
      else Inr st)"

definition processCommandAndApply ::
  "(string \<Rightarrow> db_status) \<Rightarrow> 'x callbacks \<Rightarrow> u64 \<Rightarrow> u64 \<Rightarrow> EventMetaData \<Rightarrow> Command \<Rightarrow> 'x app_state
   \<Rightarrow> (ProcessHint \<times> Event list \<times> 'x app_state) res" where
  "processCommandAndApply getDone cb groupId now junk c st =
     res_bind (processCommand getDone now junk c st) (\<lambda>(h, events).
       if events = [] then Inr (h, events, st)
       else res_bind (fold_res (applyEvent cb groupId) events st) (\<lambda>st'. Inr (h, events, st')))"

section \<open>Invariant\<close>

text \<open>
  Keys agree with the objects they index, every stored object is of the supported version, ranges
  are non-empty and those of different account types are disjoint.
\<close>

definition ranges_disjoint :: "AccountMetadata \<Rightarrow> AccountMetadata \<Rightarrow> bool" where
  "ranges_disjoint a b =
     (md_mHighInclusive a < md_mLowInclusive b \<or> md_mHighInclusive b < md_mLowInclusive a)"

definition coa_ok :: "(u64, Account) smap \<Rightarrow> bool" where
  "coa_ok coa = (smap_ok coa \<and> (\<forall>(k, a) \<in> set coa. ac_mNominalCode a = k \<and> Account_wf a))"

definition metadata_ok :: "(AccountType, AccountMetadata) smap \<Rightarrow> bool" where
  "metadata_ok m =
     (smap_ok m
      \<and> (\<forall>(t, d) \<in> set m. md_mAccountType d = t \<and> AccountMetadata_wf d
           \<and> md_mLowInclusive d < md_mHighInclusive d)
      \<and> (\<forall>(t, d) \<in> set m. \<forall>(t', d') \<in> set m. t \<noteq> t' \<longrightarrow> ranges_disjoint d d'))"

definition ledger_ok :: "ledger \<Rightarrow> bool" where
  "ledger_ok s = (smap_ok (mDoneMap s) \<and> coa_ok (mCoA s) \<and> metadata_ok (mAccountMetadata s))"

definition types_known :: "ledger \<Rightarrow> bool" where
  "types_known s = (\<forall>(k, a) \<in> set (mCoA s). ac_mAccountType a \<noteq> AT_Unknown)"

definition trial_balance :: "ledger \<Rightarrow> u64" where
  "trial_balance s = (\<Sum>(k, a) \<leftarrow> mCoA s. debit_balance a)"

section \<open>The journal entry check against its specification\<close>

text \<open>
  The specification does not accumulate: the first line with a problem decides; otherwise the
  numbers of debit and credit lines, as the 32-bit counters hold them, and the two 64-bit sums do.
\<close>

definition is_debit :: "JournalLine \<Rightarrow> bool" where
  "is_debit l = (jl_mTransactionType l = TT_Debit)"

definition is_credit :: "JournalLine \<Rightarrow> bool" where
  "is_credit l = (jl_mTransactionType l = TT_Credit)"

definition line_problem :: "(u64, Account) smap \<Rightarrow> JournalLine \<Rightarrow> ProcessHint option" where
  "line_problem coa l =
     (case map_of coa (jl_mNominalCode l) of
        None \<Rightarrow> Some (hint ACCOUNT_IN_JOURNAL_ENTRY_NOT_EXIST
                 (''account '' @ to_string (unat (jl_mNominalCode l)) @ '' does not exist''))
      | Some acct \<Rightarrow>
          if ac_mISO4217CurrencyCode acct \<noteq> jl_mISO4217CurrencyCode l
          then Some (hint JOURNAL_LINE_ISO_CURRENCY_CODE_DOES_NOT_MATCH_ACCOUNT
                 (''the iso-4217 currency code: '' @ to_string (unat (jl_mISO4217CurrencyCode l))
                  @ '' in journal line doesn't match the code in account: ''
                  @ to_string (unat (ac_mISO4217CurrencyCode acct))))
          else if jl_mTransactionType l = TT_Unknown
          then Some (hint INVALID_TRANSACTION_TYPE
                 ''transaction type should be either debit or credit'')
          else None)"

definition debit_sum :: "JournalLine list \<Rightarrow> u64" where
  "debit_sum ls = (\<Sum>l \<leftarrow> ls. debit_value l)"

definition credit_sum :: "JournalLine list \<Rightarrow> u64" where
  "credit_sum ls = (\<Sum>l \<leftarrow> ls. credit_value l)"

definition journal_verdict :: "(u64, Account) smap \<Rightarrow> JournalLine list \<Rightarrow> ProcessHint" where
  "journal_verdict coa ls =
     (case find (\<lambda>l. line_problem coa l \<noteq> None) ls of
        Some l \<Rightarrow> the (line_problem coa l)
      | None \<Rightarrow>
          if length (filter is_debit ls) mod 2 ^ 32 = 0
          then hint NO_DEBIT_IN_JOURNAL_ENTRY ''no debit in journal entry''
          else if length (filter is_credit ls) mod 2 ^ 32 = 0
          then hint NO_CREDIT_IN_JOURNAL_ENTRY ''no credit in journal entry''
          else if debit_sum ls \<noteq> credit_sum ls
          then hint CREDIT_NOT_EQUAL_TO_DEBIT ''credit amount not equal to debit amount''
          else hint HTTP_OK ''Success'')"

definition sum_lines :: "JournalLine list \<Rightarrow> line_sums \<Rightarrow> line_sums" where
  "sum_lines ls a =
     \<lparr>ls_debitCnt = ls_debitCnt a + of_nat (length (filter is_debit ls)),
      ls_creditCnt = ls_creditCnt a + of_nat (length (filter is_credit ls)),
      ls_debitSum = (ls_debitSum a)\<lparr>am_mValue := am_mValue (ls_debitSum a) + debit_sum ls\<rparr>,
      ls_creditSum = (ls_creditSum a)\<lparr>am_mValue := am_mValue (ls_creditSum a) + credit_sum ls\<rparr>\<rparr>"

lemma sum_lines_Nil: "sum_lines [] a = a"
  by (simp add: sum_lines_def debit_sum_def credit_sum_def)

lemma add_line_sum:
  assumes "JournalLine_wf l" and "am_mVersion (ls_debitSum a) = 1" and "am_mVersion (ls_creditSum a) = 1"
  shows "add_line l a = Inr (sum_lines [l] a)"
  using assms
  by (cases "jl_mTransactionType l")
    (simp_all add: add_line_def sum_lines_def is_debit_def is_credit_def Amount_add_def wf_defs
      debit_sum_def credit_sum_def debit_value_def credit_value_def)

lemma sum_lines_step: "sum_lines ls (sum_lines [l] a) = sum_lines (l # ls) a"
  by (simp add: sum_lines_def debit_sum_def credit_sum_def add.assoc)

lemma check_lines_spec:
  assumes "list_all JournalLine_wf ls"
    and "am_mVersion (ls_debitSum a) = 1" and "am_mVersion (ls_creditSum a) = 1"
  shows "check_lines coa ls a =
     Inr (case find (\<lambda>l. line_problem coa l \<noteq> None) ls of
            Some l \<Rightarrow> Inl (the (line_problem coa l)) | None \<Rightarrow> Inr (sum_lines ls a))"
  using assms
proof (induction ls arbitrary: a)
  case Nil
  then show ?case by (simp add: sum_lines_Nil)
next
  case (Cons l ls)
  show ?case
  proof (cases "line_problem coa l")
    case (Some h)
    then show ?thesis by (auto simp: line_problem_def split: option.splits if_splits)
  next
    case None
    have "check_lines coa (l # ls) a = res_bind (add_line l a) (check_lines coa ls)"
      using None by (auto simp: line_problem_def split: option.splits if_splits)
    also have "\<dots> = check_lines coa ls (sum_lines [l] a)"
      using Cons.prems by (simp add: add_line_sum)
    also have "\<dots> = Inr (case find (\<lambda>l. line_problem coa l \<noteq> None) ls of
        Some l \<Rightarrow> Inl (the (line_problem coa l)) | None \<Rightarrow> Inr (sum_lines ls (sum_lines [l] a)))"
      using Cons.prems by (intro Cons.IH) (simp_all add: sum_lines_def)
    finally show ?thesis unfolding sum_lines_step using None by simp
  qed
qed

lemma of_nat_u32_eq_0: "((of_nat n :: u32) = 0) = (n mod 2 ^ 32 = 0)"
  by (simp add: word_of_nat_eq_0_iff dvd_eq_mod_eq_0)

lemma business_codes_not_OK:
  "ph_mCode h = HTTP_OK \<Longrightarrow> line_problem coa l \<noteq> Some h"
  by (auto simp: line_problem_def HTTP_OK_def ACCOUNT_IN_JOURNAL_ENTRY_NOT_EXIST_def
      JOURNAL_LINE_ISO_CURRENCY_CODE_DOES_NOT_MATCH_ACCOUNT_def INVALID_TRANSACTION_TYPE_def
      split: option.splits if_splits)

lemma journal_verdict_OK:
  "(ph_mCode (journal_verdict coa ls) = HTTP_OK) =
   ((\<forall>l \<in> set ls. line_problem coa l = None)
    \<and> length (filter is_debit ls) mod 2 ^ 32 \<noteq> 0 \<and> length (filter is_credit ls) mod 2 ^ 32 \<noteq> 0
    \<and> debit_sum ls = credit_sum ls)"
proof (cases "find (\<lambda>l. line_problem coa l \<noteq> None) ls")
  case None
  then have "\<forall>l \<in> set ls. line_problem coa l = None" by (simp add: find_None_iff)
  then show ?thesis using None
    by (auto simp: journal_verdict_def HTTP_OK_def NO_DEBIT_IN_JOURNAL_ENTRY_def
        NO_CREDIT_IN_JOURNAL_ENTRY_def CREDIT_NOT_EQUAL_TO_DEBIT_def)
next
  case (Some l)
  then obtain h where h: "line_problem coa l = Some h" "l \<in> set ls"
    by (auto simp: find_Some_iff)
  then have "ph_mCode h \<noteq> HTTP_OK" using business_codes_not_OK by blast
  then show ?thesis using Some h by (auto simp: journal_verdict_def)
qed

lemma process_RecordJournalEntry_verdict:
  assumes "JournalEntry_wf e"
  shows "process_RecordJournalEntry getDone now junk s (Some e) =
     Inr (if map_of (mDoneMap s) (je_mId e) \<noteq> None \<or> getDone (je_mId e) \<noteq> Status_NotFound
          then (hint JOURNAL_ENTRY_ALREADY_PROCESSED ''journal entry has already been processed'', [])
          else (journal_verdict (mCoA s) (je_mJournalLines e),
                if ph_mCode (journal_verdict (mCoA s) (je_mJournalLines e)) = HTTP_OK
                then [JournalEntryRecordedEvent_new junk now e] else []))"
proof -
  let ?ls = "je_mJournalLines e" and ?coa = "mCoA s"
  let ?zero = "\<lparr>ls_debitCnt = 0, ls_creditCnt = 0, ls_debitSum = Amount_new,
    ls_creditSum = Amount_new\<rparr>"
  have wf: "list_all JournalLine_wf ?ls" using assms by (simp add: JournalEntry_wf_def)
  have check: "check_lines ?coa ?ls ?zero = Inr (case find (\<lambda>l. line_problem ?coa l \<noteq> None) ?ls of
      Some l \<Rightarrow> Inl (the (line_problem ?coa l)) | None \<Rightarrow> Inr (sum_lines ?ls ?zero))"
    by (rule check_lines_spec [OF wf]) (simp_all add: Amount_new_def)
  have codes: "NO_DEBIT_IN_JOURNAL_ENTRY \<noteq> HTTP_OK" "NO_CREDIT_IN_JOURNAL_ENTRY \<noteq> HTTP_OK"
    "CREDIT_NOT_EQUAL_TO_DEBIT \<noteq> HTTP_OK"
    by (simp_all add: HTTP_OK_def NO_DEBIT_IN_JOURNAL_ENTRY_def NO_CREDIT_IN_JOURNAL_ENTRY_def
        CREDIT_NOT_EQUAL_TO_DEBIT_def)
  show ?thesis
  proof (cases "find (\<lambda>l. line_problem ?coa l \<noteq> None) ?ls")
    case None
    then show ?thesis unfolding process_RecordJournalEntry_def Let_def option.case check
      using codes by (simp add: journal_verdict_def sum_lines_def Amount_new_def
          Amount_neq_def Amount_eq_def of_nat_u32_eq_0)
  next
    case (Some l)
    then obtain h where h: "line_problem ?coa l = Some h" by (auto simp: find_Some_iff)
    then have "ph_mCode h \<noteq> HTTP_OK" using business_codes_not_OK by blast
    then show ?thesis unfolding process_RecordJournalEntry_def Let_def option.case check
      using Some h by (simp add: journal_verdict_def)
  qed
qed

section \<open>Posting lines\<close>

lemma sum_smap_put:
  fixes f :: "'v \<Rightarrow> 'a::ab_group_add"
  assumes "smap_ok m"
  shows "(\<Sum>(k, v) \<leftarrow> smap_put k v m. f v)
         = (\<Sum>(k, v) \<leftarrow> m. f v) - (case map_of m k of None \<Rightarrow> 0 | Some old \<Rightarrow> f old) + f v"
  using assms
proof (induction k v m rule: smap_put.induct)
  case (2 k v k' v' m)
  consider "k < k'" | "k = k'" | "k' < k" by force
  then show ?case
  proof cases
    case 1
    then have "map_of m k = None"
      using 2 by (intro map_of_smap_ok_None) (auto simp: smap_ok_Cons)
    with 1 show ?thesis by (auto simp: algebra_simps)
  next
    case 3
    then show ?thesis using 2 by (auto simp: smap_ok_Cons algebra_simps)
  qed (simp add: algebra_simps)
qed simp

lemma coa_ok_put:
  "coa_ok m \<Longrightarrow> Account_wf a \<Longrightarrow> ac_mNominalCode a = k \<Longrightarrow> coa_ok (smap_put k a m)"
  by (auto simp: coa_ok_def smap_ok_put dest: smap_put_set)

lemma coa_ok_lookup:
  "coa_ok m \<Longrightarrow> map_of m k = Some a \<Longrightarrow> ac_mNominalCode a = k \<and> Account_wf a"
  by (auto simp: coa_ok_def dest!: map_of_SomeD)

text \<open>The effect of one line, callbacks aside: the account it names is posted, nothing else moves.\<close>

lemma apply_line_cases:
  assumes "apply_line cb l (s, x) = Inr (s', x')"
  obtains a a' where "map_of (mCoA s) (jl_mNominalCode l) = Some a"
    and "jl_mTransactionType l \<noteq> TT_Unknown"
    and "(if jl_mTransactionType l = TT_Debit then Account_applyDebit (jl_mAmount l) a
          else Account_applyCredit (jl_mAmount l) a) = Inr a'"
    and "onAccountUpdated cb a' x = Inr x'"
    and "s' = s\<lparr>mCoA := smap_put (jl_mNominalCode l) a' (mCoA s)\<rparr>"
  using assms
  by (cases "map_of (mCoA s) (jl_mNominalCode l)")
    (auto simp: apply_line_def res_bind_eq_Inr split: if_splits)

lemma posting_effect:
  assumes "(if jl_mTransactionType l = TT_Debit then Account_applyDebit (jl_mAmount l) a
            else Account_applyCredit (jl_mAmount l) a) = Inr a'"
    and "jl_mTransactionType l \<noteq> TT_Unknown"
  shows "debit_balance a' = debit_balance a + debit_value l - credit_value l"
  using assms applyDebit_effect [of "jl_mAmount l" a a'] applyCredit_effect [of "jl_mAmount l" a a']
  by (cases "jl_mTransactionType l") (auto simp: debit_value_def credit_value_def)

lemma apply_line_keeps:
  assumes "apply_line cb l (s, x) = Inr (s', x')"
  shows "ledger_ok s \<Longrightarrow> ledger_ok s'"
    and "types_known s \<Longrightarrow> types_known s'"
    and "mDoneMap s' = mDoneMap s" and "mAccountMetadata s' = mAccountMetadata s"
    and "fst ` set (mCoA s') = fst ` set (mCoA s)"
    and "ledger_ok s \<Longrightarrow> trial_balance s' = trial_balance s + debit_value l - credit_value l"
proof -
  obtain a a' where *: "map_of (mCoA s) (jl_mNominalCode l) = Some a"
      "jl_mTransactionType l \<noteq> TT_Unknown"
      "(if jl_mTransactionType l = TT_Debit then Account_applyDebit (jl_mAmount l) a
          else Account_applyCredit (jl_mAmount l) a) = Inr a'"
      "s' = s\<lparr>mCoA := smap_put (jl_mNominalCode l) a' (mCoA s)\<rparr>"
    using apply_line_cases [OF assms] by blast
  have posted: "Account_applyDebit (jl_mAmount l) a = Inr a' \<or> Account_applyCredit (jl_mAmount l) a = Inr a'"
    using *(3) by (auto split: if_splits)
  note kept = apply_amount_keeps [OF posted]
  show "ledger_ok s \<Longrightarrow> ledger_ok s'"
    using * kept coa_ok_lookup [of "mCoA s"] by (auto simp: ledger_ok_def intro!: coa_ok_put)
  show "types_known s \<Longrightarrow> types_known s'"
    using * kept(1) by (auto simp: types_known_def dest!: smap_put_set map_of_SomeD)
  show "mDoneMap s' = mDoneMap s" "mAccountMetadata s' = mAccountMetadata s" using *(4) by simp_all
  show "fst ` set (mCoA s') = fst ` set (mCoA s)"
    using *(1,4) by (force simp: smap_put_keys dest: map_of_SomeD)
  show "ledger_ok s \<Longrightarrow> trial_balance s' = trial_balance s + debit_value l - credit_value l"
    using *(1,4) posting_effect [OF *(3,2)]
    by (simp add: trial_balance_def sum_smap_put ledger_ok_def coa_ok_def algebra_simps)
qed

section \<open>Applying what was processed\<close>

text \<open>What the callbacks must do: succeed on well-formed objects.\<close>

definition callbacks_total :: "'x callbacks \<Rightarrow> bool" where
  "callbacks_total cb =
     ((\<forall>a x. Account_wf a \<longrightarrow> (\<exists>x'. onAccountInserted cb a x = Inr x'))
      \<and> (\<forall>a x. Account_wf a \<longrightarrow> (\<exists>x'. onAccountUpdated cb a x = Inr x'))
      \<and> (\<forall>m x. AccountMetadata_wf m \<longrightarrow> (\<exists>x'. onAccountMetadataUpdated cb m x = Inr x'))
      \<and> (\<forall>i t x. \<exists>x'. onBookkeepingProcessed cb i t x = Inr x'))"

lemma callbacks_totalD:
  assumes "callbacks_total cb"
  shows "Account_wf a \<Longrightarrow> \<exists>x'. onAccountInserted cb a x = Inr x'"
    and "Account_wf a \<Longrightarrow> \<exists>x'. onAccountUpdated cb a x = Inr x'"
    and "AccountMetadata_wf m \<Longrightarrow> \<exists>x'. onAccountMetadataUpdated cb m x = Inr x'"
    and "\<exists>x'. onBookkeepingProcessed cb i t x = Inr x'"
  using assms unfolding callbacks_total_def by blast+

lemma no_callbacks_total: "callbacks_total no_callbacks"
  by (simp add: callbacks_total_def no_callbacks_def)

lemma apply_line_total:
  assumes "callbacks_total cb" and "ledger_ok s" and "types_known s"
    and "jl_mNominalCode l \<in> fst ` set (mCoA s)" and "jl_mTransactionType l \<noteq> TT_Unknown"
  shows "\<exists>s' x'. apply_line cb l (s, x) = Inr (s', x')"
proof -
  obtain a where a: "map_of (mCoA s) (jl_mNominalCode l) = Some a"
    using assms(4) by (metis map_of_eq_None_iff not_Some_eq)
  have "ac_mAccountType a \<noteq> AT_Unknown"
    using a assms(3) by (auto simp: types_known_def dest!: map_of_SomeD)
  then obtain a' where a': "(if jl_mTransactionType l = TT_Debit then Account_applyDebit (jl_mAmount l) a
      else Account_applyCredit (jl_mAmount l) a) = Inr a'"
    using applyDebit_total [of "jl_mAmount l" a] by (cases "jl_mTransactionType l = TT_Debit") auto
  then have "Account_wf a'"
    using apply_amount_keeps(4) [of "jl_mAmount l" a a'] coa_ok_lookup [OF _ a] assms(2)
    by (auto simp: ledger_ok_def split: if_splits)
  then obtain x' where "onAccountUpdated cb a' x = Inr x'"
    using callbacks_totalD(2) [OF assms(1)] by blast
  then show ?thesis using a a' assms(5) by (simp add: apply_line_def)
qed

definition lines_postable :: "ledger \<Rightarrow> JournalLine list \<Rightarrow> bool" where
  "lines_postable s ls =
     (\<forall>l \<in> set ls. jl_mNominalCode l \<in> fst ` set (mCoA s) \<and> jl_mTransactionType l \<noteq> TT_Unknown)"

lemma verdict_OK_postable:
  assumes "ph_mCode (journal_verdict (mCoA s) ls) = HTTP_OK"
  shows "lines_postable s ls" and "debit_sum ls = credit_sum ls"
proof -
  have "jl_mNominalCode l \<in> fst ` set (mCoA s) \<and> jl_mTransactionType l \<noteq> TT_Unknown"
    if "l \<in> set ls" for l
  proof -
    have "line_problem (mCoA s) l = None" using assms that by (simp add: journal_verdict_OK)
    then obtain a where "map_of (mCoA s) (jl_mNominalCode l) = Some a" "jl_mTransactionType l \<noteq> TT_Unknown"
      by (auto simp: line_problem_def split: option.splits if_splits)
    then show ?thesis by (force dest: map_of_SomeD)
  qed
  then show "lines_postable s ls" by (simp add: lines_postable_def)
  show "debit_sum ls = credit_sum ls" using assms by (simp add: journal_verdict_OK)
qed

lemma apply_lines_total:
  fixes cb :: "'x callbacks"
  assumes "callbacks_total cb" and "ledger_ok s" and "types_known s" and "lines_postable s ls"
  shows "\<exists>s' x'. fold_res (apply_line cb) ls (s, x) = Inr (s', x')"
proof -
  let ?P = "\<lambda>(t, y :: 'x). ledger_ok t \<and> types_known t \<and> fst ` set (mCoA t) = fst ` set (mCoA s)"
  have "\<exists>r. fold_res (apply_line cb) ls (s, x) = Inr r \<and> ?P r"
  proof (rule fold_res_total)
    fix l ty assume l: "l \<in> set ls" and P: "?P ty"
    obtain t y where ty: "ty = (t, y)" by (cases ty)
    have "\<exists>t' y'. apply_line cb l (t, y) = Inr (t', y')"
      using l P ty assms(1,4) by (intro apply_line_total) (auto simp: lines_postable_def)
    then obtain t' y' where step: "apply_line cb l (t, y) = Inr (t', y')" by blast
    from apply_line_keeps [OF step] P ty have "?P (t', y')" by simp
    then show "\<exists>r. apply_line cb l ty = Inr r \<and> ?P r" using step ty by blast
  qed (use assms in simp)
  then show ?thesis by auto
qed

lemma apply_lines_keeps:
  assumes "fold_res (apply_line cb) ls (s, x) = Inr (s', x')" and "ledger_ok s"
  shows "ledger_ok s' \<and> (types_known s \<longrightarrow> types_known s') \<and> mDoneMap s' = mDoneMap s
    \<and> mAccountMetadata s' = mAccountMetadata s \<and> fst ` set (mCoA s') = fst ` set (mCoA s)
    \<and> trial_balance s' = trial_balance s + debit_sum ls - credit_sum ls"
  using assms
proof (induction ls arbitrary: s x)
  case Nil
  then show ?case by (simp add: debit_sum_def credit_sum_def)
next
  case (Cons l ls)
  then obtain t y where step: "apply_line cb l (s, x) = Inr (t, y)"
    and rest: "fold_res (apply_line cb) ls (t, y) = Inr (s', x')"
    by (auto simp: res_bind_eq_Inr)
  note kept = apply_line_keeps [OF step]
  from Cons.IH [OF rest kept(1) [OF Cons.prems(2)]] kept Cons.prems(2) show ?case
    by (simp add: debit_sum_def credit_sum_def algebra_simps)
qed

lemma ledger_ok_done: "ledger_ok s \<Longrightarrow> ledger_ok (s\<lparr>mDoneMap := smap_put i t (mDoneMap s)\<rparr>)"
  by (simp add: ledger_ok_def smap_ok_put)

lemma apply_JournalEntry_keeps:
  assumes "apply_JournalEntryRecorded cb e (s, x) = Inr (s', x')" and "ledger_ok s"
  shows "ledger_ok s' \<and> (types_known s \<longrightarrow> types_known s')
    \<and> mDoneMap s' = smap_put (je_mId e) (je_mValidTime e) (mDoneMap s)
    \<and> mAccountMetadata s' = mAccountMetadata s \<and> fst ` set (mCoA s') = fst ` set (mCoA s)
    \<and> trial_balance s' = trial_balance s + debit_sum (je_mJournalLines e) - credit_sum (je_mJournalLines e)"
proof -
  let ?s = "s\<lparr>mDoneMap := smap_put (je_mId e) (je_mValidTime e) (mDoneMap s)\<rparr>"
  obtain y where "fold_res (apply_line cb) (je_mJournalLines e) (?s, y) = Inr (s', x')"
    using assms(1)
    by (auto simp: apply_JournalEntryRecorded_def res_bind_eq_Inr Let_def split: if_splits)
  from apply_lines_keeps [OF this ledger_ok_done [OF assms(2)]] show ?thesis
    by (simp add: types_known_def trial_balance_def)
qed

lemma apply_JournalEntry_total:
  assumes "callbacks_total cb" and "ledger_ok s" and "types_known s"
    and "map_of (mDoneMap s) (je_mId e) = None" and "lines_postable s (je_mJournalLines e)"
  shows "\<exists>s' x'. apply_JournalEntryRecorded cb e (s, x) = Inr (s', x')"
proof -
  let ?s = "s\<lparr>mDoneMap := smap_put (je_mId e) (je_mValidTime e) (mDoneMap s)\<rparr>"
  obtain y where y: "onBookkeepingProcessed cb (je_mId e) (je_mValidTime e) x = Inr y"
    using callbacks_totalD(4) [OF assms(1)] by blast
  have "\<exists>s' x'. fold_res (apply_line cb) (je_mJournalLines e) (?s, y) = Inr (s', x')"
    using assms by (intro apply_lines_total)
      (simp_all add: ledger_ok_done types_known_def lines_postable_def)
  then show ?thesis using assms(4) y by (simp add: apply_JournalEntryRecorded_def)
qed

section \<open>Every emitted event applies\<close>

lemma configure_keeps:
  assumes "ledger_ok s" and "AccountMetadata_wf md" and "md_mLowInclusive md < md_mHighInclusive md"
    and "\<not> list_ex (range_overlaps md) (mAccountMetadata s)"
  shows "ledger_ok (s\<lparr>mAccountMetadata := smap_put (md_mAccountType md) md (mAccountMetadata s)\<rparr>)"
proof -
  let ?m = "mAccountMetadata s" and ?t = "md_mAccountType md"
  have apart: "ranges_disjoint md d \<and> ranges_disjoint d md" if "(t, d) \<in> set ?m" "t \<noteq> ?t" for t d
    using assms(4) that by (auto simp: list_ex_iff range_overlaps_def ranges_disjoint_def)
  have "metadata_ok ?m" using assms(1) by (simp add: ledger_ok_def)
  then have "metadata_ok (smap_put ?t md ?m)"
    using assms(2,3) apart unfolding metadata_ok_def
    by (auto simp: smap_ok_put dest!: smap_put_set)
  then show ?thesis using assms(1) by (simp add: ledger_ok_def)
qed

lemma create_keeps:
  assumes "ledger_ok s" and "Account_wf a"
  shows "ledger_ok (s\<lparr>mCoA := smap_put (ac_mNominalCode a) a (mCoA s)\<rparr>)"
  using assms by (simp add: ledger_ok_def coa_ok_put)

lemma create_types_known:
  "types_known s \<Longrightarrow> ac_mAccountType a \<noteq> AT_Unknown \<Longrightarrow>
   types_known (s\<lparr>mCoA := smap_put (ac_mNominalCode a) a (mCoA s)\<rparr>)"
  by (auto simp: types_known_def dest!: smap_put_set)

text \<open>
  Commands as the constructors build them from requests: of a supported version, with enumerators
  the server knows and, for a split, only clusters other than 0 marked as new.
\<close>

fun body_admissible :: "command_body \<Rightarrow> bool" where
  "body_admissible (ConfigureAccountMetadataCommand r opt) = (tryInitAccountMetadata r = Inr opt)"
| "body_admissible (CreateAccountCommand r opt) =
     (tryInitAccount r = Inr opt
      \<and> (pac_type (pcq_account r) = PA_UnknownAccountType
         \<or> AccountTypeUtil_typeOf (pac_type (pcq_account r)) \<noteq> AT_Unknown))"
| "body_admissible (RecordJournalEntryCommand r opt) =
     (tryInitJournalEntry r = Inr opt \<and> prq_journal_entry r \<noteq> None)"
| "body_admissible (SplitCommand r) =
     list_all (\<lambda>i. pi_newCluster i \<longrightarrow> pi_clusterId i \<noteq> 0) (ps_impacts r)"

fun command_type :: "command_body \<Rightarrow> u64" where
  "command_type (ConfigureAccountMetadataCommand r opt) = CONFIGURE_ACCOUNT_METADATA_COMMAND"
| "command_type (CreateAccountCommand r opt) = CREATE_ACCOUNT_COMMAND"
| "command_type (RecordJournalEntryCommand r opt) = RECORD_JOURNAL_ENTRY_COMMAND"
| "command_type (SplitCommand r) = SPILT_COMMAND"

definition Command_admissible :: "Command \<Rightarrow> bool" where
  "Command_admissible c =
     (body_admissible (cmd_body c) \<and> mt_mType (cmd_mMetaData c) = command_type (cmd_body c))"

text \<open>A timed command: the clock value and the indeterminate metadata its event will carry.\<close>

type_synonym timed_command = "u64 \<times> EventMetaData \<times> Command"

definition timed_admissible :: "timed_command \<Rightarrow> bool" where
  "timed_admissible tc = Command_admissible (snd (snd tc))"

definition process_timed ::
  "(string \<Rightarrow> db_status) \<Rightarrow> 'x app_state \<Rightarrow> timed_command \<Rightarrow> (ProcessHint \<times> Event list) res" where
  "process_timed getDone st tc = processCommand getDone (fst tc) (fst (snd tc)) (snd (snd tc)) st"

definition machine_ok :: "'x app_state \<Rightarrow> bool" where
  "machine_ok st = (ledger_ok (as_ledger st) \<and> types_known (as_ledger st))"

lemma processCommandAndApply_live_step:
  "processCommandAndApply getDone cb groupId now junk c st
   = live_step (process_timed getDone) (applyEvent cb groupId) (now, junk, c) st"
  by (simp add: processCommandAndApply_def live_step_def process_timed_def)

lemma event_new_types [simp]:
  "mt_mType (EventMeta_new junk t now) = t"
  by (simp add: EventMeta_new_def)

lemmas event_new_defs = AccountMetadataConfiguredEvent_new_def AccountCreatedEvent_new_def
  JournalEntryRecordedEvent_new_def SplitEvent_new_def

lemma configure_step:
  assumes "callbacks_total cb" and "machine_ok st" and "tryInitAccountMetadata r = Inr opt"
    and "process_ConfigureAccountMetadata now junk (as_ledger st) opt = (h, events)"
  shows "\<exists>st'. fold_res (applyEvent cb groupId) events st = Inr st' \<and> machine_ok st'"
proof (cases "events = []")
  case False
  then obtain md where md: "opt = Some md" "\<not> list_ex (range_overlaps md) (mAccountMetadata (as_ledger st))"
      "events = [AccountMetadataConfiguredEvent_new junk now md]"
    using assms(4)
    by (auto simp: process_ConfigureAccountMetadata_def split: option.splits if_splits)
  have wf: "AccountMetadata_wf md" "md_mLowInclusive md < md_mHighInclusive md"
    using tryInitAccountMetadata_cases [OF assms(3)] md(1) by simp_all
  obtain x where "onAccountMetadataUpdated cb md (as_ext st) = Inr x"
    using callbacks_totalD(3) [OF assms(1) wf(1)] by blast
  moreover have "ledger_ok ((as_ledger st)\<lparr>mAccountMetadata := smap_put (md_mAccountType md) md
      (mAccountMetadata (as_ledger st))\<rparr>)"
    using configure_keeps wf md(2) assms(2) by (simp add: machine_ok_def)
  ultimately show ?thesis using md(3) assms(2)
    by (simp add: applyEvent_def event_new_defs apply_AccountMetadataConfigured_def machine_ok_def
        types_known_def)
qed (use assms in simp)

lemma create_step:
  assumes "callbacks_total cb" and "machine_ok st"
    and "body_admissible (CreateAccountCommand r opt)"
    and "process_CreateAccount now junk (as_ledger st) opt = (h, events)"
  shows "\<exists>st'. fold_res (applyEvent cb groupId) events st = Inr st' \<and> machine_ok st'"
proof (cases "events = []")
  case False
  then obtain a where a: "opt = Some a" "map_of (mCoA (as_ledger st)) (ac_mNominalCode a) = None"
      "events = [AccountCreatedEvent_new junk now a]"
    using assms(4) by (auto simp: process_CreateAccount_def split: option.splits if_splits)
  have wf: "Account_wf a" "ac_mAccountType a \<noteq> AT_Unknown"
    using tryInitAccount_cases [of r opt] assms(3) a(1) by auto
  obtain x where "onAccountInserted cb a (as_ext st) = Inr x"
    using callbacks_totalD(1) [OF assms(1) wf(1)] by blast
  moreover have "ledger_ok ((as_ledger st)\<lparr>mCoA := smap_put (ac_mNominalCode a) a (mCoA (as_ledger st))\<rparr>)"
    "types_known ((as_ledger st)\<lparr>mCoA := smap_put (ac_mNominalCode a) a (mCoA (as_ledger st))\<rparr>)"
    using create_keeps create_types_known wf assms(2) by (simp_all add: machine_ok_def)
  ultimately show ?thesis using a(2,3)
    by (simp add: applyEvent_def event_new_defs apply_AccountCreated_def machine_ok_def)
qed (use assms in simp)

lemma record_accepted:
  assumes "JournalEntry_wf e"
    and "process_RecordJournalEntry getDone now junk s (Some e) = Inr (h, events)" and "events \<noteq> []"
  shows "map_of (mDoneMap s) (je_mId e) = None" and "getDone (je_mId e) = Status_NotFound"
    and "h = hint HTTP_OK ''Success''" and "events = [JournalEntryRecordedEvent_new junk now e]"
    and "ph_mCode (journal_verdict (mCoA s) (je_mJournalLines e)) = HTTP_OK"
proof -
  note eq = process_RecordJournalEntry_verdict [OF assms(1), of getDone now junk s]
  show "map_of (mDoneMap s) (je_mId e) = None" "getDone (je_mId e) = Status_NotFound"
    and ev: "events = [JournalEntryRecordedEvent_new junk now e]"
    and ok: "ph_mCode (journal_verdict (mCoA s) (je_mJournalLines e)) = HTTP_OK"
    using assms(2,3) unfolding eq by (auto split: if_splits)
  have "h = journal_verdict (mCoA s) (je_mJournalLines e)"
    using assms(2,3) unfolding eq by (auto split: if_splits)
  moreover have "find (\<lambda>l. line_problem (mCoA s) l \<noteq> None) (je_mJournalLines e) = None"
    using ok by (simp add: journal_verdict_OK find_None_iff)
  ultimately show "h = hint HTTP_OK ''Success''" using ok
    by (auto simp: journal_verdict_def HTTP_OK_def NO_DEBIT_IN_JOURNAL_ENTRY_def
        NO_CREDIT_IN_JOURNAL_ENTRY_def CREDIT_NOT_EQUAL_TO_DEBIT_def split: if_splits)
qed

lemma record_step:
  assumes "callbacks_total cb" and "machine_ok st" and "JournalEntry_wf e"
    and "process_RecordJournalEntry getDone now junk (as_ledger st) (Some e) = Inr (h, events)"
  shows "\<exists>st'. fold_res (applyEvent cb groupId) events st = Inr st' \<and> machine_ok st'"
proof (cases "events = []")
  case False
  note acc = record_accepted [OF assms(3,4) False]
  have inv: "ledger_ok (as_ledger st)" "types_known (as_ledger st)"
    using assms(2) by (simp_all add: machine_ok_def)
  obtain s' x' where run: "apply_JournalEntryRecorded cb e (as_ledger st, as_ext st) = Inr (s', x')"
    using apply_JournalEntry_total [OF assms(1) inv acc(1) verdict_OK_postable(1) [OF acc(5)]]
    by blast
  then have "ledger_ok s'" "types_known s'" using apply_JournalEntry_keeps [OF run inv(1)] inv(2) by auto
  then show ?thesis using run acc(4)
    by (simp add: applyEvent_def event_new_defs machine_ok_def)
qed (use assms in simp)

lemma split_apply_total:
  assumes "list_all (\<lambda>i. pi_newCluster i \<longrightarrow> pi_clusterId i \<noteq> 0) (ps_impacts r)"
  shows "\<exists>s'. SplitEvent_apply groupId cid r s = Inr s'"
proof -
  have "\<exists>acc'. fold_res (SplitEvent_applyImpact groupId cid) imps acc = Inr acc'"
    if "list_all (\<lambda>i. pi_newCluster i \<longrightarrow> pi_clusterId i \<noteq> 0) imps" for imps acc
    using that
  proof (induction imps arbitrary: acc)
    case (Cons i imps)
    then have "\<exists>acc1. SplitEvent_applyImpact groupId cid i acc = Inr acc1"
      by (auto simp: SplitEvent_applyImpact_def Let_def)
    then show ?case using Cons by fastforce
  qed simp
  then obtain acc where "fold_res (SplitEvent_applyImpact groupId cid) (ps_impacts r)
      (s\<lparr>cs_mRouteMap := []\<rparr>, False) = Inr acc"
    using assms by blast
  then show ?thesis by (simp add: SplitEvent_apply_def split_beta)
qed

lemma split_step:
  assumes "machine_ok st" and "body_admissible (SplitCommand r)"
    and "SplitCommand_process r (as_mCtrlState st) = (h, ev)"
  shows "\<exists>st'. fold_res (applyEvent cb groupId)
            (case ev of None \<Rightarrow> [] | Some q \<Rightarrow> [SplitEvent_new junk now q]) st = Inr st' \<and> machine_ok st'"
proof (cases ev)
  case (Some q)
  then have "q = r"
    using assms(3) by (auto simp: SplitCommand_process_def Let_def split: if_splits)
  have "list_all (\<lambda>i. pi_newCluster i \<longrightarrow> pi_clusterId i \<noteq> 0) (ps_impacts r)" using assms(2) by simp
  from split_apply_total [OF this] obtain c where
    "SplitEvent_apply groupId (em_mCommandId (EventMeta_new junk SPILT_EVENT now)) r
      (as_mCtrlState st) = Inr c"
    by blast
  then show ?thesis using Some \<open>q = r\<close> assms(1)
    by (simp add: applyEvent_def event_new_defs machine_ok_def)
qed (use assms in simp)

lemma processCommand_total:
  assumes "machine_ok st" and "Command_admissible c"
  shows "\<exists>h events. processCommand getDone now junk c st = Inr (h, events)"
proof (cases "cmd_body c")
  case (RecordJournalEntryCommand r opt)
  then have "tryInitJournalEntry r = Inr opt" "prq_journal_entry r \<noteq> None"
    "mt_mType (cmd_mMetaData c) = RECORD_JOURNAL_ENTRY_COMMAND"
    using assms(2) by (simp_all add: Command_admissible_def)
  moreover from this obtain e where "opt = Some e" "JournalEntry_wf e"
    using tryInitJournalEntry_cases [of r opt] by (cases opt) auto
  ultimately show ?thesis using RecordJournalEntryCommand
    process_RecordJournalEntry_verdict [of e getDone now junk "as_ledger st"]
    by (simp add: processCommand_def)
qed (use assms in \<open>auto simp: processCommand_def Command_admissible_def split_beta\<close>)

lemma processCommand_events_apply:
  assumes "callbacks_total cb" and "machine_ok st" and "Command_admissible c"
    and "processCommand getDone now junk c st = Inr (h, events)"
  shows "\<exists>st'. fold_res (applyEvent cb groupId) events st = Inr st' \<and> machine_ok st'"
proof (cases "cmd_body c")
  case (ConfigureAccountMetadataCommand r opt)
  with assms(3,4) configure_step [OF assms(1,2), of r opt now junk h events groupId] show ?thesis
    by (simp add: Command_admissible_def processCommand_def)
next
  case (CreateAccountCommand r opt)
  with assms(3,4) create_step [OF assms(1,2), of r opt now junk h events groupId] show ?thesis
    by (simp add: Command_admissible_def processCommand_def)
next
  case (RecordJournalEntryCommand r opt)
  then have adm: "tryInitJournalEntry r = Inr opt" "prq_journal_entry r \<noteq> None"
    using assms(3) by (simp_all add: Command_admissible_def)
  then obtain e where e: "opt = Some e" "JournalEntry_wf e"
    using tryInitJournalEntry_cases [of r opt] by (cases opt) auto
  with RecordJournalEntryCommand assms(3,4)
    record_step [OF assms(1,2) e(2), of getDone now junk h events groupId] show ?thesis
    by (simp add: Command_admissible_def processCommand_def)
next
  case (SplitCommand r)
  obtain h' ev where p: "SplitCommand_process r (as_mCtrlState st) = (h', ev)"
    by (cases "SplitCommand_process r (as_mCtrlState st)")
  with SplitCommand assms(3,4) split_step [OF assms(2) _ p, of cb groupId junk now] show ?thesis
    by (auto simp: Command_admissible_def processCommand_def)
qed

interpretation ledger_machine:
  event_sourced "process_timed getDone" "applyEvent no_callbacks groupId" machine_ok timed_admissible
  for getDone and groupId
proof unfold_locales
  fix st :: "'x app_state" and tc
  assume st: "machine_ok st" and tc: "timed_admissible tc"
  obtain now junk c where c: "tc = (now, junk, c)" by (cases tc)
  show "\<exists>h events. process_timed getDone st tc = Inr (h, events)"
    using processCommand_total [OF st] tc c by (simp add: process_timed_def timed_admissible_def)
  fix h events assume "process_timed getDone st tc = Inr (h, events)"
  then show "\<exists>st'. fold_res (applyEvent no_callbacks groupId) events st = Inr st' \<and> machine_ok st'"
    using processCommand_events_apply [OF no_callbacks_total st, of c getDone now junk h events groupId] tc c
    by (simp add: process_timed_def timed_admissible_def)
qed

section \<open>Properties of the ledger\<close>

text \<open>
  C1. Double entry. When a journal entry is accepted and its event applied, with any callbacks, the
  sum of all balances read on the debit side (the balance of accounts that grow by debits minus the
  balance of those that grow by credits, in the 64-bit arithmetic of the code) is unchanged, the
  set of accounts is unchanged, and the entry's id is recorded as done.
\<close>

theorem accepted_entry_keeps_trial_balance:
  assumes "ledger_ok s" and "JournalEntry_wf e"
    and "process_RecordJournalEntry getDone now junk s (Some e) = Inr (h, events)" and "events \<noteq> []"
    and "apply_JournalEntryRecorded cb e (s, x) = Inr (s', x')"
  shows "trial_balance s' = trial_balance s \<and> fst ` set (mCoA s') = fst ` set (mCoA s)
    \<and> map_of (mDoneMap s') (je_mId e) = Some (je_mValidTime e)"
proof -
  have "debit_sum (je_mJournalLines e) = credit_sum (je_mJournalLines e)"
    using verdict_OK_postable(2) [OF record_accepted(5) [OF assms(2-4)]] .
  with apply_JournalEntry_keeps [OF assms(5,1)] show ?thesis by (simp add: map_of_smap_put)
qed

definition example_account :: "u64 \<Rightarrow> AccountType \<Rightarrow> u64 \<Rightarrow> Account" where
  "example_account code type v =
     \<lparr>ac_mVersion = 1, ac_mAccountType = type, ac_mNominalCode = code, ac_mName = ''acct'',
      ac_mDesc = '''', ac_mISO4217CurrencyCode = 840,
      ac_mBalance = \<lparr>ba_mVersion = 1, ba_mValue = v\<rparr>\<rparr>"

definition example_ledger :: ledger where
  "example_ledger =
     \<lparr>mDoneMap = [], mCoA = [(1, example_account 1 AT_Asset 100), (2, example_account 2 AT_Income 30)],
      mAccountMetadata = []\<rparr>"

definition example_ledger_after :: ledger where
  "example_ledger_after =
     \<lparr>mDoneMap = [(''e1'', 10)],
      mCoA = [(1, example_account 1 AT_Asset 105), (2, example_account 2 AT_Income 35)],
      mAccountMetadata = []\<rparr>"

lemma example_ledger_ok: "ledger_ok example_ledger" "types_known example_ledger"
  by (simp_all add: ledger_ok_def example_ledger_def coa_ok_def metadata_ok_def types_known_def
      smap_ok_def example_account_def wf_defs)

lemma example_entry_wf: "JournalEntry_wf example_entry"
  by (simp add: example_entry_def example_line_def wf_defs)

lemma example_entry_processed:
  "process_RecordJournalEntry (\<lambda>_. Status_NotFound) 7 example_event_meta example_ledger (Some example_entry)
   = Inr (hint HTTP_OK ''Success'', [JournalEntryRecordedEvent_new example_event_meta 7 example_entry])"
  by (simp add: process_RecordJournalEntry_def example_ledger_def example_entry_def example_line_def
      example_account_def add_line_def Amount_add_def Amount_new_def Amount_neq_def Amount_eq_def)

lemma example_entry_applied:
  "apply_JournalEntryRecorded no_callbacks example_entry (example_ledger, ())
   = Inr (example_ledger_after, ())"
  by (simp add: apply_JournalEntryRecorded_def apply_line_def example_ledger_def
      example_ledger_after_def example_entry_def example_line_def example_account_def
      no_callbacks_def apply_amount_defs)

theorem accepted_entry_keeps_trial_balance_witness:
  "trial_balance example_ledger = 70 \<and> trial_balance example_ledger_after = 70
   \<and> map_of (mDoneMap example_ledger_after) ''e1'' = Some 10"
  using accepted_entry_keeps_trial_balance [OF example_ledger_ok(1) example_entry_wf
      example_entry_processed _ example_entry_applied]
  by (simp add: example_entry_def)
    (simp add: trial_balance_def example_ledger_def example_account_def debit_balance_def
      debit_normal_def)

text \<open>
  C16. A journal entry takes effect at most once: after it has been applied, every entry with the
  same id is answered ``already processed'' and emits no event, whatever else it contains and
  whatever RocksDB answers.
\<close>

theorem recorded_entry_deduplicated:
  assumes "ledger_ok s" and "apply_JournalEntryRecorded cb e (s, x) = Inr (s', x')"
    and "je_mId e' = je_mId e"
  shows "process_RecordJournalEntry getDone now junk s' (Some e')
    = Inr (hint JOURNAL_ENTRY_ALREADY_PROCESSED ''journal entry has already been processed'', [])"
  using apply_JournalEntry_keeps [OF assms(2,1)] assms(3)
  by (simp add: process_RecordJournalEntry_def map_of_smap_put)

theorem recorded_entry_deduplicated_witness:
  "process_RecordJournalEntry (\<lambda>_. Status_NotFound) 8 example_event_meta example_ledger_after
     (Some (example_entry\<lparr>je_mPurpose := ''again''\<rparr>))
   = Inr (hint 1003 ''journal entry has already been processed'', [])"
  using recorded_entry_deduplicated [OF example_ledger_ok(1) example_entry_applied,
      of "example_entry\<lparr>je_mPurpose := ''again''\<rparr>" "\<lambda>_. Status_NotFound" 8 example_event_meta]
  by (simp add: JOURNAL_ENTRY_ALREADY_PROCESSED_def)

text \<open>
  C14. The journal entry check computes its specification. For a well-formed entry the outcome is
  ``already processed'' if the id is done in memory or not reported missing by RocksDB; otherwise it
  is the verdict of \<open>journal_verdict\<close> (the first line with a missing account, a wrong currency or an
  unknown type decides; then the absence of a debit or of a credit; then the difference of the two
  64-bit sums), and an event is emitted exactly when the verdict is OK.
\<close>

theorem record_entry_meets_specification:
  assumes "JournalEntry_wf e"
  shows "process_RecordJournalEntry getDone now junk s (Some e) =
     Inr (if map_of (mDoneMap s) (je_mId e) \<noteq> None \<or> getDone (je_mId e) \<noteq> Status_NotFound
          then (hint JOURNAL_ENTRY_ALREADY_PROCESSED ''journal entry has already been processed'', [])
          else (journal_verdict (mCoA s) (je_mJournalLines e),
                if ph_mCode (journal_verdict (mCoA s) (je_mJournalLines e)) = HTTP_OK
                then [JournalEntryRecordedEvent_new junk now e] else []))
     \<and> (ph_mCode (journal_verdict (mCoA s) (je_mJournalLines e)) = HTTP_OK \<longleftrightarrow>
        (\<forall>l \<in> set (je_mJournalLines e). \<exists>a. map_of (mCoA s) (jl_mNominalCode l) = Some a
           \<and> ac_mISO4217CurrencyCode a = jl_mISO4217CurrencyCode l \<and> jl_mTransactionType l \<noteq> TT_Unknown)
        \<and> length (filter is_debit (je_mJournalLines e)) mod 2 ^ 32 \<noteq> 0
        \<and> length (filter is_credit (je_mJournalLines e)) mod 2 ^ 32 \<noteq> 0
        \<and> debit_sum (je_mJournalLines e) = credit_sum (je_mJournalLines e))"
proof -
  have "(line_problem (mCoA s) l = None) \<longleftrightarrow> (\<exists>a. map_of (mCoA s) (jl_mNominalCode l) = Some a
      \<and> ac_mISO4217CurrencyCode a = jl_mISO4217CurrencyCode l \<and> jl_mTransactionType l \<noteq> TT_Unknown)" for l
    by (auto simp: line_problem_def split: option.splits)
  then show ?thesis
    using process_RecordJournalEntry_verdict [OF assms] by (simp add: journal_verdict_OK)
qed

theorem record_entry_meets_specification_witness:
  "process_RecordJournalEntry (\<lambda>_. Status_NotFound) 7 example_event_meta example_ledger
     (Some (example_entry\<lparr>je_mJournalLines := [example_line 1 TT_Debit 5, example_line 2 TT_Credit 4]\<rparr>))
   = Inr (hint 1007 ''credit amount not equal to debit amount'', [])"
proof -
  let ?e = "example_entry\<lparr>je_mJournalLines := [example_line 1 TT_Debit 5, example_line 2 TT_Credit 4]\<rparr>"
  have wf: "JournalEntry_wf ?e" by (simp add: example_entry_def example_line_def wf_defs)
  have "journal_verdict (mCoA example_ledger) (je_mJournalLines ?e)
      = hint CREDIT_NOT_EQUAL_TO_DEBIT ''credit amount not equal to debit amount''"
    by (simp add: journal_verdict_def line_problem_def example_ledger_def example_line_def
        example_account_def is_debit_def is_credit_def debit_sum_def credit_sum_def debit_value_def
        credit_value_def)
  then show ?thesis
    using record_entry_meets_specification [OF wf, of "\<lambda>_. Status_NotFound" 7 example_event_meta example_ledger]
    by (simp add: CREDIT_NOT_EQUAL_TO_DEBIT_def HTTP_OK_def)
      (simp add: example_ledger_def)
qed

text \<open>
  C5. The machine never stops on its own events, and replaying them rebuilds its state. From a state
  that satisfies the invariant, any sequence of admissible commands, accepted or refused, runs
  through \<^verbatim>\<open>processCommandAndApply\<close> to the end; the invariant holds after it (in particular the
  number ranges of different account types are still disjoint); and applying the produced events in
  order to the initial state gives the same final state.
\<close>

theorem ledger_runs_and_replays:
  fixes st :: "'x app_state"
  assumes "machine_ok st" and "list_all timed_admissible cs"
  shows "\<exists>events st'.
     live_run (process_timed getDone) (applyEvent no_callbacks groupId) cs st = Inr (events, st')
     \<and> ledger_ok (as_ledger st') \<and> types_known (as_ledger st')
     \<and> replay (applyEvent no_callbacks groupId) events st = Inr st'"
proof -
  obtain events st' where
    "live_run (process_timed getDone) (applyEvent no_callbacks groupId) cs st = Inr (events, st')"
    "machine_ok st'" "replay (applyEvent no_callbacks groupId) events st = Inr st'"
    using ledger_machine.run_and_replay [OF assms] by blast
  then show ?thesis unfolding machine_ok_def by blast
qed

definition example_create_request :: pb_CreateRequest where
  "example_create_request =
     \<lparr>pcq_account = \<lparr>pac_version = 1, pac_type = PA_Asset,
        pac_balance = \<lparr>pba_version = 1, pba_value = 100\<rparr>, pac_nominal_code = 1, pac_name = ''acct'',
        pac_desc = '''', pac_iso4217_currency_code = 840\<rparr>\<rparr>"

definition example_command_meta :: "u64 \<Rightarrow> CommandMetaData" where
  "example_command_meta t =
     \<lparr>mt_mId = 0, mt_mType = t, mt_mCreatedTimeInNanos = 5, mt_mProcessTimeInNanos = 0,
      mt_mLeaderReadyTimeInNanos = 0, mt_mFinishTimeInNanos = 0, mt_mCreatorId = 1, mt_mGroupId = 0,
      mt_mGroupVersion = 0, mt_mTrackingContext = '''', cm_mRequestHandle = Some 3\<rparr>"

definition example_create :: Command where
  "example_create =
     \<lparr>cmd_mMetaData = example_command_meta CREATE_ACCOUNT_COMMAND,
      cmd_body = CreateAccountCommand example_create_request (Some (example_account 1 AT_Asset 100))\<rparr>"

definition empty_ledger :: ledger where
  "empty_ledger = \<lparr>mDoneMap = [], mCoA = [], mAccountMetadata = []\<rparr>"

definition empty_machine :: "unit app_state" where
  "empty_machine = \<lparr>as_ledger = empty_ledger, as_mCtrlState = CtrlState_new 0 0, as_ext = ()\<rparr>"

lemma empty_machine_ok: "machine_ok empty_machine"
  by (simp add: machine_ok_def ledger_ok_def types_known_def coa_ok_def metadata_ok_def
      empty_machine_def empty_ledger_def)

lemma example_create_admissible: "Command_admissible example_create"
  by (simp add: Command_admissible_def example_create_def example_create_request_def
      example_command_meta_def tryInitAccount_def CreateAccountCommand_verify_def Account_initWith_def
      Balance_of_proto_def example_account_def kVerifiedSuccess_def)

theorem ledger_runs_and_replays_witness:
  "\<exists>events st'.
     live_run (process_timed (\<lambda>_. Status_NotFound)) (applyEvent no_callbacks 0)
       [(7, example_event_meta, example_create), (8, example_event_meta, example_create)] empty_machine
     = Inr (events, st')
     \<and> ledger_ok (as_ledger st') \<and> types_known (as_ledger st')
     \<and> replay (applyEvent no_callbacks 0) events empty_machine = Inr st'"
  by (rule ledger_runs_and_replays [OF empty_machine_ok])
    (simp add: timed_admissible_def example_create_admissible)

text \<open>
  C17. Number ranges. When a metadata command is accepted and applied, its account type has the new
  range, that range is disjoint from the range of every other type, every existing account of the
  type lies inside it, and the accounts themselves are untouched.
\<close>

theorem configured_range_is_safe:
  assumes "ledger_ok s" and "tryInitAccountMetadata r = Inr (Some md)"
    and "process_ConfigureAccountMetadata now junk s (Some md) = (h, events)" and "events \<noteq> []"
    and "apply_AccountMetadataConfigured cb md (s, x) = Inr (s', x')"
  shows "ledger_ok s' \<and> mCoA s' = mCoA s
    \<and> map_of (mAccountMetadata s') (md_mAccountType md) = Some md
    \<and> (\<forall>(t, d) \<in> set (mAccountMetadata s'). t \<noteq> md_mAccountType md \<longrightarrow> ranges_disjoint md d)
    \<and> (\<forall>(k, a) \<in> set (mCoA s'). ac_mAccountType a = md_mAccountType md \<longrightarrow>
         md_mLowInclusive md \<le> k \<and> k \<le> md_mHighInclusive md)"
proof -
  have rules: "\<not> list_ex (range_overlaps md) (mAccountMetadata s)" "\<not> list_ex (range_misses md) (mCoA s)"
    using assms(3,4) by (auto simp: process_ConfigureAccountMetadata_def split: if_splits)
  have s': "s' = s\<lparr>mAccountMetadata := smap_put (md_mAccountType md) md (mAccountMetadata s)\<rparr>"
    using assms(5) by (auto simp: apply_AccountMetadataConfigured_def res_bind_eq_Inr Let_def)
  have "ledger_ok s'"
    using configure_keeps [OF assms(1) _ _ rules(1)] tryInitAccountMetadata_cases [OF assms(2)] s'
    by simp
  moreover have "\<forall>(t, d) \<in> set (mAccountMetadata s'). t \<noteq> md_mAccountType md \<longrightarrow> ranges_disjoint md d"
    using rules(1) s'
    by (auto simp: list_ex_iff range_overlaps_def ranges_disjoint_def dest!: smap_put_set)
  moreover have "\<forall>(k, a) \<in> set (mCoA s'). ac_mAccountType a = md_mAccountType md \<longrightarrow>
      md_mLowInclusive md \<le> k \<and> k \<le> md_mHighInclusive md"
    using rules(2) s' by (fastforce simp: list_ex_iff range_misses_def not_less)
  ultimately show ?thesis using s' by (simp add: map_of_smap_put)
qed

definition example_configure_request :: pb_ConfigureRequest where
  "example_configure_request =
     \<lparr>pcr_metadata = \<lparr>pmd_version = 1, pmd_type = PA_Asset, pmd_low_inclusive = 1,
        pmd_high_inclusive = 10\<rparr>\<rparr>"

definition example_metadata :: AccountMetadata where
  "example_metadata =
     \<lparr>md_mVersion = 1, md_mAccountType = AT_Asset, md_mLowInclusive = 1, md_mHighInclusive = 10\<rparr>"

theorem configured_range_is_safe_witness:
  "ledger_ok (example_ledger\<lparr>mAccountMetadata := [(AT_Asset, example_metadata)]\<rparr>)
   \<and> mCoA (example_ledger\<lparr>mAccountMetadata := [(AT_Asset, example_metadata)]\<rparr>) = mCoA example_ledger
   \<and> map_of (mAccountMetadata (example_ledger\<lparr>mAccountMetadata := [(AT_Asset, example_metadata)]\<rparr>)) AT_Asset
     = Some example_metadata"
proof -
  have init: "tryInitAccountMetadata example_configure_request = Inr (Some example_metadata)"
    by (simp add: tryInitAccountMetadata_def ConfigureAccountMetadataCommand_verify_def
        example_configure_request_def AccountMetadata_initWith_def example_metadata_def
        word_le_nat_alt)
  have process: "process_ConfigureAccountMetadata 7 example_event_meta example_ledger (Some example_metadata)
      = (hint HTTP_OK ''Success'', [AccountMetadataConfiguredEvent_new example_event_meta 7 example_metadata])"
    by (simp add: process_ConfigureAccountMetadata_def example_ledger_def range_misses_def
        example_account_def example_metadata_def)
  have applied: "apply_AccountMetadataConfigured no_callbacks example_metadata (example_ledger, ())
      = Inr (example_ledger\<lparr>mAccountMetadata := [(AT_Asset, example_metadata)]\<rparr>, ())"
    by (simp add: apply_AccountMetadataConfigured_def example_ledger_def no_callbacks_def
        example_metadata_def)
  from configured_range_is_safe [OF example_ledger_ok(1) init process _ applied] show ?thesis
    by (simp add: example_metadata_def)
qed

section \<open>Requests the checks let through\<close>

text \<open>
  An account type outside the enumerators passes \<^verbatim>\<open>CreateAccountCommand::verifyCommand\<close>, which only
  refuses the value 0, and becomes an account of type \<^verbatim>\<open>Unknown\<close>. A balanced journal entry on that
  account is accepted, and applying its event ends in \<^verbatim>\<open>exit(1)\<close>.
\<close>

definition unknown_enum_request :: pb_CreateRequest where
  "unknown_enum_request =
     \<lparr>pcq_account = (pcq_account example_create_request)\<lparr>pac_type := PA_Other 99\<rparr>\<rparr>"

definition unknown_ledger :: ledger where
  "unknown_ledger =
     example_ledger\<lparr>mCoA := [(1, example_account 1 AT_Unknown 100), (2, example_account 2 AT_Income 30)]\<rparr>"

lemma unknown_account_type_stops_the_process:
  "CreateAccountCommand_verify unknown_enum_request = kVerifiedSuccess"
  "tryInitAccount unknown_enum_request = Inr (Some (example_account 1 AT_Unknown 100))"
  "process_RecordJournalEntry (\<lambda>_. Status_NotFound) 7 example_event_meta unknown_ledger (Some example_entry)
   = Inr (hint HTTP_OK ''Success'', [JournalEntryRecordedEvent_new example_event_meta 7 example_entry])"
  "apply_JournalEntryRecorded no_callbacks example_entry (unknown_ledger, ()) = Inl Exit_1"
  by (simp_all add: CreateAccountCommand_verify_def unknown_enum_request_def example_create_request_def
      tryInitAccount_def Account_initWith_def Balance_of_proto_def example_account_def
      process_RecordJournalEntry_def unknown_ledger_def example_ledger_def example_entry_def
      example_line_def add_line_def Amount_add_def Amount_new_def Amount_neq_def Amount_eq_def
      apply_JournalEntryRecorded_def apply_line_def no_callbacks_def Account_applyDebit.simps)

text \<open>A request whose message has version 0 stops the process while the command is constructed.\<close>

lemma unset_version_stops_the_process:
  "CreateAccountCommand_new junk created
     \<lparr>pcq_account = (pcq_account example_create_request)\<lparr>pac_version := 0\<rparr>\<rparr> = Inl Assertion"
  by (simp add: CreateAccountCommand_new_def tryInitAccount_def CreateAccountCommand_verify_def
      example_create_request_def Account_initWith_def)

text \<open>Creating an account does not look at the configured ranges.\<close>

lemma account_created_outside_its_range:
  "process_CreateAccount now junk (example_ledger\<lparr>mAccountMetadata := [(AT_Asset, example_metadata)]\<rparr>)
     (Some (example_account 99 AT_Asset 0))
   = (hint HTTP_OK ''Success'', [AccountCreatedEvent_new junk now (example_account 99 AT_Asset 0)])"
  by (simp add: process_CreateAccount_def example_ledger_def example_account_def)

text \<open>
  \<^verbatim>\<open>hasSameState\<close> compares the charts of accounts exactly but the metadata in one direction only.
\<close>

lemma hasSameState_iff:
  assumes "ledger_ok s" and "ledger_ok t"
  shows "hasSameState s t \<longleftrightarrow> mCoA s = mCoA t \<and> set (mAccountMetadata t) \<subseteq> set (mAccountMetadata s)"
proof -
  have d: "distinct (map fst (mCoA s))" "distinct (map fst (mCoA t))"
    "distinct (map fst (mAccountMetadata s))"
    using assms by (simp_all add: ledger_ok_def coa_ok_def metadata_ok_def smap_ok_distinct)
  have acc: "(case map_of (mCoA s) k of None \<Rightarrow> False | Some v' \<Rightarrow> Account_isSame v v') = ((k, v) \<in> set (mCoA s))"
    if "(k, v) \<in> set (mCoA t)" for k v
  proof -
    have "Account_wf v" using that assms(2) by (auto simp: ledger_ok_def coa_ok_def)
    then show ?thesis using map_of_eq_Some_iff [OF d(1), of k v]
      by (cases "map_of (mCoA s) k") (auto simp: account_codec.same_iff)
  qed
  have md: "(case map_of (mAccountMetadata s) k of None \<Rightarrow> False | Some v' \<Rightarrow> AccountMetadata_isSame v v')
      = ((k, v) \<in> set (mAccountMetadata s))"
    if "(k, v) \<in> set (mAccountMetadata t)" for k v
  proof -
    have "AccountMetadata_wf v" using that assms(2) by (auto simp: ledger_ok_def metadata_ok_def)
    then show ?thesis using map_of_eq_Some_iff [OF d(3), of k v]
      by (cases "map_of (mAccountMetadata s) k") (auto simp: metadata_codec.same_iff)
  qed
  have "hasSameState s t \<longleftrightarrow> length (mCoA s) = length (mCoA t) \<and> set (mCoA t) \<subseteq> set (mCoA s)
      \<and> set (mAccountMetadata t) \<subseteq> set (mAccountMetadata s)"
    using acc md unfolding hasSameState_def list_all_iff by (auto split: if_splits)
  moreover have "mCoA s = mCoA t" if "length (mCoA s) = length (mCoA t)" "set (mCoA t) \<subseteq> set (mCoA s)"
  proof -
    have "distinct (mCoA s)" "distinct (mCoA t)" using d(1,2) by (simp_all add: distinct_map)
    then have "set (mCoA t) = set (mCoA s)"
      using that by (metis card_subset_eq distinct_card List.finite_set)
    then have "map_of (mCoA s) = map_of (mCoA t)" using d(1,2) map_of_inject_set by metis
    then show ?thesis using assms by (intro smap_eqI) (simp_all add: ledger_ok_def coa_ok_def)
  qed
  ultimately show ?thesis by auto
qed

end
