(* ===== verification/Crypto_Util.thy ===== *)
theory Crypto_Util
  imports Ledger_Prelude
begin

text \<open>
  The key store and the wrappers around OpenSSL of \<^verbatim>\<open>src/src/infra/util/CryptoUtil.h\<close> and
  \<^verbatim>\<open>CryptoUtil.cpp\<close>. The OpenSSL functions, the base64 reader, the file system and the text format
  parser of the key file are parameters. Key versions are only compared, so they are natural numbers.
\<close>

section \<open>State and parameters\<close>

definition kKeyLen :: nat where
  "kKeyLen = 32"

definition kInvalidSecKeyVersion :: nat where
  "kInvalidSecKeyVersion = 0"

record SecretKey =
  sk_mVersion :: nat
  sk_mKey :: string

definition SecretKey_new :: SecretKey where
  "SecretKey_new = \<lparr>sk_mVersion = kInvalidSecKeyVersion, sk_mKey = replicate kKeyLen (CHR 0x00)\<rparr>"

record CryptoUtil =
  cu_mEnabled :: bool
  cu_mDescendingSecKeyVersions :: "nat list"
  cu_mAllKeys :: "(nat, SecretKey) smap"
  cu_mLatestVersion :: nat
  cu_mIV :: string

definition CryptoUtil_new :: CryptoUtil where
  "CryptoUtil_new =
     \<lparr>cu_mEnabled = False, cu_mDescendingSecKeyVersions = [], cu_mAllKeys = [],
      cu_mLatestVersion = kInvalidSecKeyVersion, cu_mIV = replicate 16 (CHR 0x00)\<rparr>"

text \<open>
  OpenSSL: creating a cipher context, initialising it with key and initialisation vector, feeding it
  data and finalising it, each of which can fail; the HMAC, and the base64 reader, which gives at most
  the number of bytes asked for.
\<close>

record 'c openssl =
  os_ctx_new :: "'c option"
  os_EncryptInit :: "'c \<Rightarrow> string \<Rightarrow> string \<Rightarrow> 'c option"
  os_EncryptUpdate :: "'c \<Rightarrow> string \<Rightarrow> ('c \<times> string) option"
  os_EncryptFinal :: "'c \<Rightarrow> string option"
  os_DecryptInit :: "'c \<Rightarrow> string \<Rightarrow> string \<Rightarrow> 'c option"
  os_DecryptUpdate :: "'c \<Rightarrow> string \<Rightarrow> ('c \<times> string) option"
  os_DecryptFinal :: "'c \<Rightarrow> string option"
  os_HMAC :: "string \<Rightarrow> string \<Rightarrow> string option"
  os_base64_read :: "string \<Rightarrow> nat \<Rightarrow> string"

record key_sources =
  ks_enable :: bool
  ks_filename :: string
  ks_getFileContent :: "string \<Rightarrow> string option"
  ks_parse :: "string \<Rightarrow> (nat \<times> string) list option"

section \<open>Loading the keys\<close>

definition decodeBase64Key :: "'c openssl \<Rightarrow> string \<Rightarrow> nat \<Rightarrow> string res" where
  "decodeBase64Key os base64 keyLen =
     (let key = os_base64_read os base64 keyLen in
      if length key \<noteq> keyLen then Inl Exit_1 else Inr key)"

definition add_key :: "'c openssl \<Rightarrow> nat \<times> string \<Rightarrow> CryptoUtil \<Rightarrow> CryptoUtil res" where
  "add_key os keyAndVersion c =
     (case keyAndVersion of (version, key) \<Rightarrow>
        res_bind (c_assert (version > kInvalidSecKeyVersion))
          (\<lambda>_. res_bind (decodeBase64Key os key kKeyLen)
            (\<lambda>raw.
              Inr (c\<lparr>cu_mAllKeys := smap_put version \<lparr>sk_mVersion = version, sk_mKey = raw\<rparr> (cu_mAllKeys c),
                     cu_mLatestVersion := (if version > cu_mLatestVersion c then version else cu_mLatestVersion c),
                     cu_mDescendingSecKeyVersions := cu_mDescendingSecKeyVersions c @ [version]\<rparr>))))"

definition CryptoUtil_init :: "'c openssl \<Rightarrow> key_sources \<Rightarrow> CryptoUtil \<Rightarrow> CryptoUtil res" where
  "CryptoUtil_init os ks c =
     (if cu_mEnabled c then Inl Exit_1
      else if \<not> ks_enable ks \<or> ks_filename ks = [] then Inr c
      else
        case ks_getFileContent ks (ks_filename ks) of
          None \<Rightarrow> Inl (Exception ''failed to open file'')
        | Some content \<Rightarrow>
            (case ks_parse ks content of
               None \<Rightarrow> Inl Assertion
             | Some keys \<Rightarrow>
                 res_bind (fold_res (add_key os) keys (c\<lparr>cu_mAllKeys := [], cu_mDescendingSecKeyVersions := []\<rparr>))
                   (\<lambda>c1.
                     let c2 = c1\<lparr>cu_mDescendingSecKeyVersions := rev (sort (cu_mDescendingSecKeyVersions c1))\<rparr> in
                     res_bind (c_assert (cu_mLatestVersion c2 > 0))
                       (\<lambda>_. res_bind (c_assert (cu_mAllKeys c2 \<noteq> []))
                         (\<lambda>_. res_bind (c_assert (cu_mDescendingSecKeyVersions c2 \<noteq> []))
                           (\<lambda>_. Inr (c2\<lparr>cu_mEnabled := True\<rparr>)))))))"

definition CryptoUtil_init_key :: "nat \<Rightarrow> string \<Rightarrow> CryptoUtil \<Rightarrow> CryptoUtil res" where
  "CryptoUtil_init_key version key c =
     (if cu_mEnabled c then Inl Exit_1
      else if length key \<noteq> kKeyLen \<or> version \<le> kInvalidSecKeyVersion then Inl Exit_1
      else
        Inr (c\<lparr>cu_mAllKeys := [(version, \<lparr>sk_mVersion = version, sk_mKey = key\<rparr>)],
               cu_mDescendingSecKeyVersions := [version], cu_mLatestVersion := version, cu_mEnabled := True\<rparr>))"

section \<open>Encryption, decryption and digests\<close>

definition assertValidVersion :: "CryptoUtil \<Rightarrow> nat \<Rightarrow> SecretKey res" where
  "assertValidVersion c version =
     (case map_of (cu_mAllKeys c) version of None \<Rightarrow> Inl Exit_1 | Some k \<Rightarrow> Inr k)"

text \<open>The two static helpers: \<open>None\<close> is the error result \<^verbatim>\<open>-1\<close>.\<close>

definition evp_encrypt :: "'c openssl \<Rightarrow> string \<Rightarrow> string \<Rightarrow> string \<Rightarrow> string option" where
  "evp_encrypt os plain key iv =
     (case os_ctx_new os of
        None \<Rightarrow> None
      | Some ctx \<Rightarrow>
          (case os_EncryptInit os ctx key iv of
             None \<Rightarrow> None
           | Some ctx1 \<Rightarrow>
               (case os_EncryptUpdate os ctx1 plain of
                  None \<Rightarrow> None
                | Some (ctx2, out) \<Rightarrow>
                    (case os_EncryptFinal os ctx2 of None \<Rightarrow> None | Some rest \<Rightarrow> Some (out @ rest)))))"

definition evp_decrypt :: "'c openssl \<Rightarrow> string \<Rightarrow> string \<Rightarrow> string \<Rightarrow> string option" where
  "evp_decrypt os cipher key iv =
     (case os_ctx_new os of
        None \<Rightarrow> None
      | Some ctx \<Rightarrow>
          (case os_DecryptInit os ctx key iv of
             None \<Rightarrow> None
           | Some ctx1 \<Rightarrow>
               (case os_DecryptUpdate os ctx1 cipher of
                  None \<Rightarrow> None
                | Some (ctx2, out) \<Rightarrow>
                    (case os_DecryptFinal os ctx2 of None \<Rightarrow> None | Some rest \<Rightarrow> Some (out @ rest)))))"

text \<open>The result code and the payload after the call; output that does not fit the buffer is written past it.\<close>

definition CryptoUtil_encrypt :: "'c openssl \<Rightarrow> CryptoUtil \<Rightarrow> string \<Rightarrow> nat \<Rightarrow> (int \<times> string) res" where
  "CryptoUtil_encrypt os c payload version =
     (if \<not> cu_mEnabled c then Inr (0, payload)
      else
        res_bind (assertValidVersion c version)
          (\<lambda>k. case evp_encrypt os payload (sk_mKey k) (cu_mIV c) of
                 None \<Rightarrow> Inr (- 1, payload)
               | Some cipher \<Rightarrow> if length cipher > length payload + 16 then Inl Bad_Access else Inr (0, cipher)))"

definition CryptoUtil_decrypt :: "'c openssl \<Rightarrow> CryptoUtil \<Rightarrow> string \<Rightarrow> nat \<Rightarrow> (int \<times> string) res" where
  "CryptoUtil_decrypt os c payload version =
     (if \<not> cu_mEnabled c then Inr (0, payload)
      else
        res_bind (assertValidVersion c version)
          (\<lambda>k. case evp_decrypt os payload (sk_mKey k) (cu_mIV c) of
                 None \<Rightarrow> Inr (- 1, payload)
               | Some plain \<Rightarrow> if length plain > length payload then Inl Bad_Access else Inr (0, plain)))"

definition CryptoUtil_hmac :: "'c openssl \<Rightarrow> CryptoUtil \<Rightarrow> string \<Rightarrow> nat \<Rightarrow> string res" where
  "CryptoUtil_hmac os c payload version =
     (if \<not> cu_mEnabled c then Inr ''''
      else
        res_bind (assertValidVersion c version)
          (\<lambda>k. case os_HMAC os (sk_mKey k) payload of
                 None \<Rightarrow> Inl Assertion
               | Some digest \<Rightarrow> res_bind (c_assert (length digest = 32)) (\<lambda>_. Inr digest)))"

section \<open>The key store is well-formed\<close>

text \<open>
  What an enabled key store promises: the listed versions are exactly the stored ones, in descending
  order, the latest version is the first of them, and every key has its full length.
\<close>

definition crypto_ok :: "CryptoUtil \<Rightarrow> bool" where
  "crypto_ok c =
     (cu_mEnabled c \<longrightarrow>
        smap_ok (cu_mAllKeys c) \<and> set (cu_mDescendingSecKeyVersions c) = fst ` set (cu_mAllKeys c)
        \<and> sorted_wrt (\<ge>) (cu_mDescendingSecKeyVersions c)
        \<and> cu_mDescendingSecKeyVersions c \<noteq> [] \<and> hd (cu_mDescendingSecKeyVersions c) = cu_mLatestVersion c
        \<and> kInvalidSecKeyVersion \<notin> fst ` set (cu_mAllKeys c)
        \<and> (\<forall>(v, k) \<in> set (cu_mAllKeys c). sk_mVersion k = v \<and> length (sk_mKey k) = kKeyLen))"

definition loading :: "CryptoUtil \<Rightarrow> bool" where
  "loading c =
     (smap_ok (cu_mAllKeys c) \<and> set (cu_mDescendingSecKeyVersions c) = fst ` set (cu_mAllKeys c)
      \<and> cu_mLatestVersion c = Max (insert 0 (set (cu_mDescendingSecKeyVersions c)))
      \<and> kInvalidSecKeyVersion \<notin> fst ` set (cu_mAllKeys c)
      \<and> (\<forall>(v, k) \<in> set (cu_mAllKeys c). sk_mVersion k = v \<and> length (sk_mKey k) = kKeyLen))"

lemma add_key_shape:
  assumes "add_key os (version, key) c = Inr c'"
  shows "\<exists>raw. version > 0 \<and> length raw = kKeyLen
    \<and> c' = c\<lparr>cu_mAllKeys := smap_put version \<lparr>sk_mVersion = version, sk_mKey = raw\<rparr> (cu_mAllKeys c),
        cu_mLatestVersion := max (cu_mLatestVersion c) version,
        cu_mDescendingSecKeyVersions := cu_mDescendingSecKeyVersions c @ [version]\<rparr>"
proof -
  have "max (cu_mLatestVersion c) version = (if version > cu_mLatestVersion c then version else cu_mLatestVersion c)"
    by simp
  with assms show ?thesis
    by (intro exI[of _ "os_base64_read os key kKeyLen"])
      (auto simp: add_key_def decodeBase64Key_def res_bind_eq_Inr kInvalidSecKeyVersion_def Let_def
        simp del: max.absorb1 max.absorb2 split: if_splits)
qed

lemma add_key_loading:
  assumes "loading c" and "add_key os kv c = Inr c'"
  shows "loading c'"
proof -
  obtain version raw where v: "version > 0" "length raw = kKeyLen"
    and c': "c' = c\<lparr>cu_mAllKeys := smap_put version \<lparr>sk_mVersion = version, sk_mKey = raw\<rparr> (cu_mAllKeys c),
        cu_mLatestVersion := max (cu_mLatestVersion c) version,
        cu_mDescendingSecKeyVersions := cu_mDescendingSecKeyVersions c @ [version]\<rparr>"
    using assms(2) add_key_shape by (cases kv) blast
  have "max (cu_mLatestVersion c) version = Max (insert 0 (set (cu_mDescendingSecKeyVersions c) \<union> {version}))"
    using assms(1) Max_insert[of "insert 0 (set (cu_mDescendingSecKeyVersions c))" version]
    unfolding loading_def by (metis List.finite_set Un_insert_right finite_insert insert_commute insert_not_empty
        max.commute sup_bot.right_neutral)
  then show ?thesis
    using assms(1) v unfolding c' loading_def
    by (auto simp: smap_ok_put smap_put_keys kInvalidSecKeyVersion_def dest!: smap_put_set)
qed

lemma rev_sort_head:
  fixes xs :: "nat list"
  assumes "xs \<noteq> []"
  shows "hd (rev (sort xs)) = Max (insert 0 (set xs))"
proof -
  from assms obtain ys y where s: "sort xs = ys @ [y]" by (metis rev_exhaust set_empty set_sort)
  then have "set xs = insert y (set ys)" by (metis Un_insert_right append_Nil2 list.simps(15) set_append set_sort sup_bot.right_neutral empty_set)
  moreover have "\<forall>x \<in> set ys. x \<le> y" using sorted_sort[of xs] by (simp add: s sorted_append)
  ultimately have "Max (insert 0 (set xs)) = y" by (intro Max_eqI) auto
  then show ?thesis by (simp add: s)
qed

text \<open>Every listed version has a key.\<close>

lemma crypto_ok_valid:
  assumes "crypto_ok c" and "cu_mEnabled c" and "v \<in> set (cu_mDescendingSecKeyVersions c)"
  shows "\<exists>k. assertValidVersion c v = Inr k"
proof -
  from assms have "v \<in> fst ` set (cu_mAllKeys c)" by (simp add: crypto_ok_def)
  then obtain k where "map_of (cu_mAllKeys c) v = Some k" by (metis map_of_eq_None_iff not_None_eq)
  then show ?thesis by (simp add: assertValidVersion_def)
qed

text \<open>
  C30. Loading the keys gives a usable key store or stops the process. Whatever the key file holds, when
  the initialisation returns with encryption enabled, the versions are listed in descending order, the
  latest version is the first of them, exactly the listed versions have a key, each of 32 bytes, and the
  reserved version 0 is not among them; hence computing a digest with a listed version never exits. The
  comment at \<^verbatim>\<open>getDescendingVersions\<close> in \<^verbatim>\<open>CryptoUtil.h\<close> says that the order is ascending.
\<close>

theorem loaded_keys_are_usable:
  assumes "CryptoUtil_init os ks CryptoUtil_new = Inr c"
  shows "crypto_ok c
    \<and> (cu_mEnabled c \<longleftrightarrow> ks_enable ks \<and> ks_filename ks \<noteq> [])
    \<and> (\<forall>v \<in> set (cu_mDescendingSecKeyVersions c). CryptoUtil_hmac os c payload v \<noteq> Inl Exit_1)"
proof (cases "ks_enable ks \<and> ks_filename ks \<noteq> []")
  case False
  with assms show ?thesis by (auto simp: CryptoUtil_init_def CryptoUtil_new_def crypto_ok_def)
next
  case True
  with assms obtain content keys c1 where "ks_getFileContent ks (ks_filename ks) = Some content"
    and "ks_parse ks content = Some keys"
    and run: "fold_res (add_key os) keys CryptoUtil_new = Inr c1"
    and srt: "sort (cu_mDescendingSecKeyVersions c1) \<noteq> []"
    and c: "c = c1\<lparr>cu_mDescendingSecKeyVersions := rev (sort (cu_mDescendingSecKeyVersions c1)), cu_mEnabled := True\<rparr>"
    by (auto simp: CryptoUtil_init_def CryptoUtil_new_def res_bind_eq_Inr Let_def split: option.splits)
  have ne: "cu_mDescendingSecKeyVersions c1 \<noteq> []" using srt by force
  have "loading CryptoUtil_new" by (simp add: loading_def CryptoUtil_new_def kInvalidSecKeyVersion_def)
  then have ok: "loading c1" using fold_res_invariant[OF _ _ run, of loading] add_key_loading by blast
  have "sorted_wrt (\<ge>) (rev (sort (cu_mDescendingSecKeyVersions c1)))"
    by (simp add: sorted_wrt_rev)
  moreover have "hd (rev (sort (cu_mDescendingSecKeyVersions c1))) = cu_mLatestVersion c1"
    using ok rev_sort_head[OF ne] unfolding loading_def by simp
  moreover have "smap_ok (cu_mAllKeys c1)" "set (cu_mDescendingSecKeyVersions c1) = fst ` set (cu_mAllKeys c1)"
    "kInvalidSecKeyVersion \<notin> fst ` set (cu_mAllKeys c1)"
    "\<forall>(v, k) \<in> set (cu_mAllKeys c1). sk_mVersion k = v \<and> length (sk_mKey k) = kKeyLen"
    using ok by (auto simp: loading_def)
  ultimately have good: "crypto_ok c" using srt by (simp add: c crypto_ok_def)
  have "CryptoUtil_hmac os c payload v \<noteq> Inl Exit_1" if "v \<in> set (cu_mDescendingSecKeyVersions c)" for v
    using crypto_ok_valid[OF good _ that]
    by (auto simp: c CryptoUtil_hmac_def res_bind_eq_Inl split: option.splits)
  with good True show ?thesis by (simp add: c)
qed

definition sample_openssl :: "unit openssl" where
  "sample_openssl =
     \<lparr>os_ctx_new = Some (), os_EncryptInit = (\<lambda>c k iv. Some c), os_EncryptUpdate = (\<lambda>c p. Some (c, p)),
      os_EncryptFinal = (\<lambda>c. Some []), os_DecryptInit = (\<lambda>c k iv. Some c),
      os_DecryptUpdate = (\<lambda>c p. Some (c, p)), os_DecryptFinal = (\<lambda>c. Some []),
      os_HMAC = (\<lambda>key message. Some (take 32 (message @ key))), os_base64_read = (\<lambda>s n. take n s)\<rparr>"

definition sample_keys :: key_sources where
  "sample_keys =
     \<lparr>ks_enable = True, ks_filename = ''aes.key'', ks_getFileContent = (\<lambda>f. Some ''keys''),
      ks_parse = (\<lambda>t. Some [(1, replicate 32 (CHR ''a'')), (3, replicate 32 (CHR ''b''))])\<rparr>"

lemma sample_keys_load:
  "\<exists>c. CryptoUtil_init sample_openssl sample_keys CryptoUtil_new = Inr c
     \<and> cu_mDescendingSecKeyVersions c = [3, 1] \<and> cu_mLatestVersion c = 3"
  by (simp add: CryptoUtil_init_def sample_openssl_def sample_keys_def CryptoUtil_new_def add_key_def
      decodeBase64Key_def kKeyLen_def kInvalidSecKeyVersion_def Let_def)

theorem loaded_keys_are_usable_witness:
  "\<exists>c. CryptoUtil_init sample_openssl sample_keys CryptoUtil_new = Inr c
     \<and> cu_mEnabled c \<and> CryptoUtil_hmac sample_openssl c ''m'' 3 \<noteq> Inl Exit_1"
proof -
  obtain c where run: "CryptoUtil_init sample_openssl sample_keys CryptoUtil_new = Inr c"
    and vs: "cu_mDescendingSecKeyVersions c = [3, 1]"
    using sample_keys_load by blast
  from loaded_keys_are_usable[OF run, of "''m''"] vs have "cu_mEnabled c \<and> CryptoUtil_hmac sample_openssl c ''m'' 3 \<noteq> Inl Exit_1"
    by (simp add: sample_keys_def)
  with run show ?thesis by blast
qed

text \<open>
  Decrypting what was encrypted with the same version gives the payload back, if the cipher does: for
  each key and initialisation vector decryption inverts encryption, and the output of encryption is at
  least as long as its input.
\<close>

lemma decrypt_encrypt:
  assumes cipher: "\<And>p key iv s. evp_encrypt os p key iv = Some s \<Longrightarrow> evp_decrypt os s key iv = Some p \<and> length p \<le> length s"
    and enc: "CryptoUtil_encrypt os c payload version = Inr (0, s)"
  shows "CryptoUtil_decrypt os c s version = Inr (0, payload)"
proof (cases "cu_mEnabled c")
  case True
  with enc obtain k where k: "assertValidVersion c version = Inr k"
    and s: "evp_encrypt os payload (sk_mKey k) (cu_mIV c) = Some s"
    by (auto simp: CryptoUtil_encrypt_def res_bind_eq_Inr split: if_splits option.splits)
  with True cipher[OF s] show ?thesis by (simp add: CryptoUtil_decrypt_def)
qed (use enc in \<open>simp add: CryptoUtil_encrypt_def CryptoUtil_decrypt_def\<close>)

end
