(* ===== verification/Store_Codec.thy ===== *)
theory Store_Codec
  imports Ledger_State_Machine Crypto_Util Raft_Log
begin

text \<open>
  What a command and its events look like in a log entry, written by \<^verbatim>\<open>RaftLogStore::dequeue\<close>
  (\<^verbatim>\<open>src/src/infra/raft/RaftLogStore.cpp\<close>) through \<^verbatim>\<open>CommandEventEncodeWrapper\<close> and read back by
  \<^verbatim>\<open>ReadonlyRaftCommandEventStore::decryptEntries\<close> through \<^verbatim>\<open>CommandEventDecodeWrapper\<close>. The generated
  serialiser of the payload message is a parameter, like those of the messages in it. Key versions are
  natural numbers here, as in \<open>Crypto_Util\<close>.
\<close>

record 'c store_env =
  st_openssl :: "'c openssl"
  st_crypto :: CryptoUtil
  st_wire :: proto_wire
  st_ser_payload :: "RaftPayload \<Rightarrow> string"
  st_parse_payload :: "string \<Rightarrow> RaftPayload option"
  st_byteSize :: "LogEntry \<Rightarrow> nat"
  st_command_junk :: CommandMetaData
  st_event_junk :: EventMetaData

section \<open>Writing\<close>

definition CommandEntry_default :: CommandEntry where
  "CommandEntry_default =
     \<lparr>ce_type = 0, ce_id = 0, ce_createdTimeInNanos = 0, ce_entry = '''', ce_creatorId = 0, ce_groupId = 0,
      ce_groupVersion = 0, ce_trackingContext = ''''\<rparr>"

definition EventEntry_default :: EventEntry where
  "EventEntry_default =
     \<lparr>ee_type = 0, ee_id = 0, ee_commandId = 0, ee_createdTimeInNanos = 0, ee_entry = '''', ee_creatorId = 0,
      ee_groupId = 0, ee_groupVersion = 0, ee_trackingContext = ''''\<rparr>"

definition encodeCommand :: "proto_wire \<Rightarrow> Command \<Rightarrow> CommandEntry \<Rightarrow> CommandEntry" where
  "encodeCommand w command commandEntry =
     (populateCommandEntry (cmd_mMetaData command) commandEntry)\<lparr>ce_entry := Command_encodeToString w (cmd_body command)\<rparr>"

definition encodeEvent :: "proto_wire \<Rightarrow> Event \<Rightarrow> EventEntry \<Rightarrow> EventEntry res" where
  "encodeEvent w event eventEntry =
     res_bind (Event_encodeToString w (ev_body event))
       (\<lambda>bytes. Inr ((populateEventEntry (ev_mMetaData event) eventEntry)\<lparr>ee_entry := bytes\<rparr>))"

definition kMaxPayLoadSizeInBytes :: nat where
  "kMaxPayLoadSizeInBytes = 4000000"

text \<open>The part of \<^verbatim>\<open>dequeue\<close> that fills the payload of the entry.\<close>

definition fill_payload :: "'c store_env \<Rightarrow> Command \<Rightarrow> Event list \<Rightarrow> LogEntry \<Rightarrow> LogEntry res" where
  "fill_payload P command events entry =
     res_bind (map_res (\<lambda>e. encodeEvent (st_wire P) e EventEntry_default) events)
       (\<lambda>ees.
         let payload = \<lparr>rp_command = encodeCommand (st_wire P) command CommandEntry_default, rp_events = ees\<rparr> in
         res_bind (CryptoUtil_encrypt (st_openssl P) (st_crypto P) (st_ser_payload P payload) (le_version entry))
           (\<lambda>(rc, cipher).
             let entry1 = entry\<lparr>le_payload := cipher\<rparr> in
             res_bind (c_assert (rc = 0))
               (\<lambda>_. res_bind (c_assert (st_byteSize P entry1 \<le> kMaxPayLoadSizeInBytes)) (\<lambda>_. Inr entry1))))"

section \<open>Reading\<close>

text \<open>A decoder that does not know the type returns a null pointer.\<close>

type_synonym command_events = "Command option \<times> Event option list"

definition decodeCommand :: "'c store_env \<Rightarrow> CommandEntry \<Rightarrow> Command option res" where
  "decodeCommand P commandEntry =
     decodeCommandFromString (st_wire P) (st_command_junk P) (CommandMetaData_of_entry commandEntry) (ce_entry commandEntry)"

definition decodeEvent :: "'c store_env \<Rightarrow> EventEntry \<Rightarrow> Event option res" where
  "decodeEvent P eventEntry =
     decodeEventFromString (st_wire P) (st_event_junk P) (EventMetaData_of_entry eventEntry) (ee_entry eventEntry)"

text \<open>An entry without a key version uses the oldest one.\<close>

definition decrypt_payload :: "'c store_env \<Rightarrow> LogEntry \<Rightarrow> string res" where
  "decrypt_payload P entry =
     (if cu_mEnabled (st_crypto P)
      then
        res_bind (if le_version entry = kInvalidSecKeyVersion
                  then res_bind (c_assert (cu_mDescendingSecKeyVersions (st_crypto P) \<noteq> []))
                         (\<lambda>_. Inr (last (cu_mDescendingSecKeyVersions (st_crypto P))))
                  else Inr (le_version entry))
          (\<lambda>version. res_bind (CryptoUtil_decrypt (st_openssl P) (st_crypto P) (le_payload entry) version)
            (\<lambda>(rc, plain). res_bind (c_assert (rc = 0)) (\<lambda>_. Inr plain)))
      else Inr (le_payload entry))"

text \<open>One round of the loop: the bundles it adds.\<close>

definition decrypt_entry :: "'c store_env \<Rightarrow> LogEntry \<Rightarrow> command_events list res" where
  "decrypt_entry P entry =
     (if le_noop entry then Inr []
      else
        res_bind (decrypt_payload P entry)
          (\<lambda>plain.
            case st_parse_payload P plain of
              None \<Rightarrow> Inl Assertion
            | Some payload \<Rightarrow>
                if rp_events payload = [] then Inr []
                else
                  res_bind (decodeCommand P (rp_command payload))
                    (\<lambda>command. res_bind (map_res (decodeEvent P) (rp_events payload))
                      (\<lambda>events. Inr [(command, events)]))))"

definition decryptEntries :: "'c store_env \<Rightarrow> LogEntry list \<Rightarrow> command_events list res" where
  "decryptEntries P entries = res_bind (map_res (decrypt_entry P) entries) (\<lambda>bs. Inr (concat bs))"

lemma map_res_append:
  "map_res f (xs @ ys) = res_bind (map_res f xs) (\<lambda>us. res_bind (map_res f ys) (\<lambda>vs. Inr (us @ vs)))"
proof (induction xs)
  case Nil
  show ?case by (cases "map_res f ys") simp_all
next
  case (Cons x xs)
  then show ?case by (cases "f x"; cases "map_res f xs"; cases "map_res f ys") simp_all
qed

lemma map_res_total: "(\<And>x. x \<in> set xs \<Longrightarrow> f x = Inr (g x)) \<Longrightarrow> map_res f xs = Inr (map g xs)"
  by (induction xs) simp_all

lemma decryptEntries_append:
  "decryptEntries P (xs @ ys) = res_bind (decryptEntries P xs) (\<lambda>us. res_bind (decryptEntries P ys) (\<lambda>vs. Inr (us @ vs)))"
  unfolding decryptEntries_def map_res_append
  by (cases "map_res (decrypt_entry P) xs"; cases "map_res (decrypt_entry P) ys") simp_all

lemma decryptEntries_simps [simp]:
  "decryptEntries P [] = Inr []"
  by (simp add: decryptEntries_def)

lemma decryptEntries_Cons:
  "decryptEntries P (e # es) = res_bind (decrypt_entry P e) (\<lambda>us. res_bind (decryptEntries P es) (\<lambda>vs. Inr (us @ vs)))"
  unfolding decryptEntries_def by (cases "decrypt_entry P e"; cases "map_res (decrypt_entry P) es") simp_all

section \<open>What is read is what was written\<close>

text \<open>
  What the store relies on: the messages and the payload parse back, and the cipher decrypts what it
  encrypted.
\<close>

definition store_env_ok :: "'c store_env \<Rightarrow> bool" where
  "store_env_ok P =
     (wire_ok (st_wire P) \<and> (\<forall>p. st_parse_payload P (st_ser_payload P p) = Some p)
      \<and> (\<forall>plain key iv cipher. evp_encrypt (st_openssl P) plain key iv = Some cipher
           \<longrightarrow> evp_decrypt (st_openssl P) cipher key iv = Some plain \<and> length plain \<le> length cipher)
      \<and> crypto_ok (st_crypto P))"

definition stored_command :: "Command \<Rightarrow> Command" where
  "stored_command c = c\<lparr>cmd_mMetaData := (cmd_mMetaData c)\<lparr>mt_mProcessTimeInNanos := 0, mt_mLeaderReadyTimeInNanos := 0,
     mt_mFinishTimeInNanos := 0, cm_mRequestHandle := None\<rparr>\<rparr>"

definition stored_event :: "Event \<Rightarrow> Event" where
  "stored_event e = \<lparr>ev_mMetaData = (ev_mMetaData e)\<lparr>mt_mProcessTimeInNanos := 0, mt_mLeaderReadyTimeInNanos := 0,
     mt_mFinishTimeInNanos := 0\<rparr>, ev_body = without_entry_id (ev_body e)\<rparr>"

lemma command_store_roundtrip:
  assumes "wire_ok w" and "Command_admissible c"
  shows "decodeCommandFromString w junk (CommandMetaData_of_entry (populateCommandEntry (cmd_mMetaData c) entry))
    (Command_encodeToString w (cmd_body c)) = Inr (Some (stored_command c))"
proof -
  let ?m = "CommandMetaData_of_entry (populateCommandEntry (cmd_mMetaData c) entry)"
  have m: "?m = (cmd_mMetaData c)\<lparr>mt_mProcessTimeInNanos := 0, mt_mLeaderReadyTimeInNanos := 0, mt_mFinishTimeInNanos := 0,
      cm_mRequestHandle := None\<rparr>" by (rule command_meta_roundtrip)
  have meta: "Command_setPartialMetaData ?m (CommandMeta_new junk (mt_mType ?m) (mt_mCreatedTimeInNanos ?m)) = ?m"
    using command_meta_rebuilt[of ?m junk] m by simp
  have adm: "body_admissible (cmd_body c)" "mt_mType ?m = command_type (cmd_body c)"
    using assms(2) by (simp_all add: Command_admissible_def m)
  show ?thesis
    by (cases "cmd_body c") (use adm meta assms(1) in \<open>auto simp: decodeCommandFromString_def CommandDecoderImpl_decode_def
        CtrlDecoderUtil_decodeCommand_def ConfigureAccountMetadataCommand_new_def CreateAccountCommand_new_def
        RecordJournalEntryCommand_new_def SplitCommand_new_def set_command_meta_def stored_command_def wire_ok_simps m Let_def\<close>)
qed

lemma decode_encodeCommand:
  "wire_ok (st_wire P) \<Longrightarrow> Command_admissible c \<Longrightarrow>
   decodeCommand P (encodeCommand (st_wire P) c ce) = Inr (Some (stored_command c))"
  using command_store_roundtrip[of "st_wire P" c "st_command_junk P" ce]
  by (simp add: decodeCommand_def encodeCommand_def CommandMetaData_of_entry_def)

lemma decode_encodeEvent:
  assumes "wire_ok (st_wire P)" and "Event_wf e" and "encodeEvent (st_wire P) e ee = Inr ee'"
  shows "decodeEvent P ee' = Inr (Some (stored_event e))"
  using event_store_roundtrip[OF assms(1,2), of "st_event_junk P" ee] assms(3)
  by (auto simp: decodeEvent_def encodeEvent_def res_bind_eq_Inr EventMetaData_of_entry_def stored_event_def)

lemma decode_encodeEvents:
  assumes "wire_ok (st_wire P)" and "\<forall>e \<in> set es. Event_wf e"
    and "map_res (\<lambda>e. encodeEvent (st_wire P) e EventEntry_default) es = Inr ees"
  shows "map_res (decodeEvent P) ees = Inr (map (Some \<circ> stored_event) es)"
  using assms(2,3)
proof (induction es arbitrary: ees)
  case (Cons e es)
  then obtain ee rest where "encodeEvent (st_wire P) e EventEntry_default = Inr ee" "ees = ee # rest"
    "map_res (\<lambda>e. encodeEvent (st_wire P) e EventEntry_default) es = Inr rest"
    by (auto simp: res_bind_eq_Inr)
  with Cons.IH[of rest] Cons.prems(1) decode_encodeEvent[OF assms(1), of e EventEntry_default ee] show ?case by simp
qed simp

lemma decrypt_filled:
  assumes P: "store_env_ok P" and enc: "CryptoUtil_encrypt (st_openssl P) (st_crypto P) plain version = Inr (0, cipher)"
    and e: "le_payload entry = cipher" "le_version entry = version"
  shows "decrypt_payload P entry = Inr plain"
proof (cases "cu_mEnabled (st_crypto P)")
  case False
  with enc e show ?thesis by (simp add: CryptoUtil_encrypt_def decrypt_payload_def)
next
  case True
  then obtain k where "map_of (cu_mAllKeys (st_crypto P)) version = Some k"
    using enc by (auto simp: CryptoUtil_encrypt_def assertValidVersion_def split: option.splits)
  then have "version \<in> fst ` set (cu_mAllKeys (st_crypto P))" by (metis image_eqI fst_conv map_of_SomeD)
  moreover have "kInvalidSecKeyVersion \<notin> fst ` set (cu_mAllKeys (st_crypto P))" using P True by (simp add: store_env_ok_def crypto_ok_def)
  ultimately have "version \<noteq> kInvalidSecKeyVersion" by blast
  moreover have "CryptoUtil_decrypt (st_openssl P) (st_crypto P) cipher version = Inr (0, plain)"
    using P enc by (intro decrypt_encrypt) (auto simp: store_env_ok_def)
  ultimately show ?thesis using True e by (simp add: decrypt_payload_def)
qed

lemma decrypt_entry_filled:
  assumes "store_env_ok P" and "Command_admissible c" and "\<forall>e \<in> set es. Event_wf e" and "es \<noteq> []"
    and "\<not> le_noop entry" and "fill_payload P c es entry = Inr entry'"
  shows "decrypt_entry P entry' = Inr [(Some (stored_command c), map (Some \<circ> stored_event) es)]"
proof -
  have wire: "wire_ok (st_wire P)" using assms(1) by (simp add: store_env_ok_def)
  obtain ees cipher where ees: "map_res (\<lambda>e. encodeEvent (st_wire P) e EventEntry_default) es = Inr ees"
    and enc: "CryptoUtil_encrypt (st_openssl P) (st_crypto P)
      (st_ser_payload P \<lparr>rp_command = encodeCommand (st_wire P) c CommandEntry_default, rp_events = ees\<rparr>) (le_version entry) = Inr (0, cipher)"
    and entry': "entry' = entry\<lparr>le_payload := cipher\<rparr>"
    using assms(6) by (auto simp: fill_payload_def res_bind_eq_Inr Let_def)
  note plain = decrypt_filled[OF assms(1) enc, of entry']
  have "ees \<noteq> []" using ees assms(4) by (cases es) (auto simp: res_bind_eq_Inr)
  moreover have "st_parse_payload P (st_ser_payload P p) = Some p" for p using assms(1) by (simp add: store_env_ok_def)
  ultimately show "decrypt_entry P entry' = Inr [(Some (stored_command c), map (Some \<circ> stored_event) es)]"
    using plain assms(5) decode_encodeCommand[OF wire assms(2)] decode_encodeEvents[OF wire assms(3) ees]
    by (simp add: decrypt_entry_def entry')
qed

text \<open>
  C34. What the writer of the event store puts into a log entry, the reader takes out of it. If filling an
  entry with a command and its events succeeds, then decrypting and decoding that entry does not stop the
  process and gives one bundle with the command and the events, except for what a store does not keep: the
  process-local times, the request handle and the id of a recorded journal entry. This goes through the
  encoding of both, the payload message and the encryption with the key the entry names.
\<close>

theorem written_bundle_is_read_back:
  assumes "store_env_ok P" and "Command_admissible c" and "\<forall>e \<in> set es. Event_wf e" and "es \<noteq> []"
    and "\<not> le_noop entry" and "fill_payload P c es entry = Inr entry'"
  shows "decryptEntries P [entry'] = Inr [(Some (stored_command c), map (Some \<circ> stored_event) es)]"
  using decrypt_entry_filled[OF assms] by (simp add: decryptEntries_def)

instance CommandEntry_ext :: (countable) countable
  by (rule countable_classI [of "\<lambda>r. to_nat (ce_type r, ce_id r, ce_createdTimeInNanos r, ce_entry r, ce_creatorId r, ce_groupId r,
        ce_groupVersion r, ce_trackingContext r, CommandEntry.more r)"]) simp

instance EventEntry_ext :: (countable) countable
  by (rule countable_classI [of "\<lambda>r. to_nat (ee_type r, ee_id r, ee_commandId r, ee_createdTimeInNanos r, ee_entry r, ee_creatorId r,
        ee_groupId r, ee_groupVersion r, ee_trackingContext r, EventEntry.more r)"]) simp

instance RaftPayload_ext :: (countable) countable
  by (rule countable_classI [of "\<lambda>r. to_nat (rp_command r, rp_events r, RaftPayload.more r)"]) simp

text \<open>An environment with a cipher that leaves the text as it is, and two keys.\<close>

definition example_store_env :: "unit store_env" where
  "example_store_env =
     \<lparr>st_openssl = sample_openssl,
      st_crypto = CryptoUtil_new\<lparr>cu_mEnabled := True, cu_mDescendingSecKeyVersions := [3, 1],
        cu_mAllKeys := [(1, \<lparr>sk_mVersion = 1, sk_mKey = replicate 32 (CHR ''a'')\<rparr>),
                        (3, \<lparr>sk_mVersion = 3, sk_mKey = replicate 32 (CHR ''b'')\<rparr>)],
        cu_mLatestVersion := 3\<rparr>,
      st_wire = code_wire, st_ser_payload = ser_code, st_parse_payload = Some \<circ> parse_code, st_byteSize = (\<lambda>e. 100),
      st_command_junk = example_command_meta 0, st_event_junk = example_event_meta\<rparr>"

lemma example_store_env_ok: "store_env_ok example_store_env"
  by (auto simp: store_env_ok_def example_store_env_def code_wire_ok crypto_ok_def CryptoUtil_new_def smap_ok_def
      kInvalidSecKeyVersion_def kKeyLen_def evp_encrypt_def evp_decrypt_def sample_openssl_def)

definition example_events :: "Event list" where
  "example_events =
     [AccountCreatedEvent_new example_event_meta 7 (example_account 1 AT_Asset 100),
      JournalEntryRecordedEvent_new example_event_meta 8 example_entry]"

lemma encode_total:
  assumes "wire_ok w" and "\<forall>e \<in> set es. Event_wf e"
  shows "\<exists>ees. map_res (\<lambda>e. encodeEvent w e EventEntry_default) es = Inr ees"
proof -
  have "\<exists>ee. encodeEvent w e EventEntry_default = Inr ee" if "e \<in> set es" for e
    using event_store_roundtrip[OF assms(1), of e] assms(2) that by (fastforce simp: encodeEvent_def)
  then show ?thesis by (induction es) fastforce+
qed

lemma example_events_wf: "\<forall>e \<in> set example_events. Event_wf e"
  by (simp add: example_events_def Event_wf_def AccountCreatedEvent_new_def JournalEntryRecordedEvent_new_def EventMeta_new_def
      Account_wf_def Balance_wf_def example_account_def JournalEntry_wf_def example_entry_def example_line_def JournalLine_wf_def Amount_wf_def)

lemma example_fill:
  assumes "le_version entry = 3" and "\<forall>e \<in> set es. Event_wf e"
  shows "\<exists>payload. fill_payload example_store_env c es entry = Inr (entry\<lparr>le_payload := payload\<rparr>)"
proof -
  obtain ees where ees: "map_res (\<lambda>e. encodeEvent code_wire e EventEntry_default) es = Inr ees"
    using encode_total[OF code_wire_ok assms(2)] by blast
  show ?thesis
    by (simp add: fill_payload_def example_store_env_def ees CryptoUtil_encrypt_def CryptoUtil_new_def assertValidVersion_def
        evp_encrypt_def sample_openssl_def assms(1) kMaxPayLoadSizeInBytes_def Let_def, rule exI, rule refl)
qed

theorem written_bundle_is_read_back_witness:
  "\<exists>entry'. fill_payload example_store_env example_create example_events ((dummy_entry 3)\<lparr>le_index := 5\<rparr>) = Inr entry'
     \<and> decryptEntries example_store_env [entry']
       = Inr [(Some (stored_command example_create), map (Some \<circ> stored_event) example_events)]"
proof -
  obtain entry' where e: "fill_payload example_store_env example_create example_events ((dummy_entry 3)\<lparr>le_index := 5\<rparr>) = Inr entry'"
    using example_fill[OF _ example_events_wf, of "(dummy_entry 3)\<lparr>le_index := 5\<rparr>"] by (auto simp: dummy_entry_def)
  moreover have "example_events \<noteq> []" "\<not> le_noop ((dummy_entry 3)\<lparr>le_index := 5\<rparr>)"
    by (simp_all add: example_events_def dummy_entry_def)
  ultimately show ?thesis
    using written_bundle_is_read_back[OF example_store_env_ok example_create_admissible example_events_wf] by blast
qed

end
