(* ===== verification/Mpsc_Queue.thy ===== *)
theory Mpsc_Queue
  imports Ledger_Prelude
begin

text \<open>
  \<^verbatim>\<open>src/src/infra/mpscqueue\<close>: the blocking queue between threads. Producers append to one list under
  a mutex, the single consumer takes from another without locking and swaps the two when its own is
  empty. First the methods as functions on the queue object, with the interface their callers rely
  on as a locale; then the interleavings of producers, consumer and \<^verbatim>\<open>shutdown\<close> as a step
  relation, in which the unlocked test of \<^verbatim>\<open>mShouldExit\<close> in \<^verbatim>\<open>enqueue\<close> and the moment between the
  consumer's test of the wait condition and its blocking are steps of their own.
\<close>

section \<open>The methods\<close>

record 'a mpsc =
  mProducerQueue :: "'a list"
  mConsumerQueue :: "'a list"
  mQueueSize :: u64
  mShouldExit :: bool

definition mpsc_new :: "'a mpsc" where
  "mpsc_new = \<lparr>mProducerQueue = [], mConsumerQueue = [], mQueueSize = 0, mShouldExit = False\<rparr>"

definition queue_stopped :: string where
  "queue_stopped = ''Queue has stopped.''"

definition mpsc_push :: "'a \<Rightarrow> 'a mpsc \<Rightarrow> 'a mpsc" where
  "mpsc_push t q = q\<lparr>mProducerQueue := mProducerQueue q @ [t], mQueueSize := mQueueSize q + 1\<rparr>"

definition mpsc_enqueue :: "'a \<Rightarrow> 'a mpsc \<Rightarrow> string + 'a mpsc" where
  "mpsc_enqueue t q = (if mShouldExit q then Inl queue_stopped else Inr (mpsc_push t q))"

text \<open>\<open>Blocked\<close>: the caller waits on the condition variable.\<close>

datatype ('a, 'q) deq_result = Item 'a 'q | Stopped string | Blocked

definition mpsc_pop :: "'a mpsc \<Rightarrow> ('a, 'a mpsc) deq_result" where
  "mpsc_pop q =
     (case mConsumerQueue q of
        [] \<Rightarrow> Blocked
      | t # rest \<Rightarrow> Item t (q\<lparr>mConsumerQueue := rest, mQueueSize := mQueueSize q - 1\<rparr>))"

definition mpsc_swap :: "'a mpsc \<Rightarrow> 'a mpsc" where
  "mpsc_swap q = q\<lparr>mProducerQueue := mConsumerQueue q, mConsumerQueue := mProducerQueue q\<rparr>"

definition mpsc_dequeue :: "'a mpsc \<Rightarrow> ('a, 'a mpsc) deq_result" where
  "mpsc_dequeue q =
     (if mConsumerQueue q = [] then
        (if mProducerQueue q = [] then
           (if mShouldExit q then Stopped queue_stopped else Blocked)
         else mpsc_pop (mpsc_swap q))
      else mpsc_pop q)"

definition mpsc_size :: "'a mpsc \<Rightarrow> nat" where
  "mpsc_size q = length (mConsumerQueue q)"

definition mpsc_estimateTotalSize :: "'a mpsc \<Rightarrow> nat" where
  "mpsc_estimateTotalSize q = length (mConsumerQueue q) + length (mProducerQueue q)"

definition mpsc_empty :: "'a mpsc \<Rightarrow> bool" where
  "mpsc_empty q = (mQueueSize q = 0)"

definition mpsc_shutdown :: "'a mpsc \<Rightarrow> 'a mpsc" where
  "mpsc_shutdown q = q\<lparr>mShouldExit := True\<rparr>"

section \<open>The interface\<close>

locale fifo_queue =
  fixes new_queue :: 'q
    and enq :: "'a \<Rightarrow> 'q \<Rightarrow> string + 'q"
    and deq :: "'q \<Rightarrow> ('a, 'q) deq_result"
    and stop :: "'q \<Rightarrow> 'q"
    and items :: "'q \<Rightarrow> 'a list"
    and stopped :: "'q \<Rightarrow> bool"
  assumes new_items: "items new_queue = []" "\<not> stopped new_queue"
    and enq_running: "\<not> stopped q \<Longrightarrow> \<exists>q'. enq x q = Inr q' \<and> items q' = items q @ [x] \<and> \<not> stopped q'"
    and enq_stopped: "stopped q \<Longrightarrow> \<exists>msg. enq x q = Inl msg"
    and deq_item: "items q = x # xs \<Longrightarrow> \<exists>q'. deq q = Item x q' \<and> items q' = xs \<and> stopped q' = stopped q"
    and deq_stopped: "items q = [] \<Longrightarrow> stopped q \<Longrightarrow> \<exists>msg. deq q = Stopped msg"
    and deq_blocked: "items q = [] \<Longrightarrow> \<not> stopped q \<Longrightarrow> deq q = Blocked"
    and stop_items: "items (stop q) = items q" "stopped (stop q)"
begin

fun enq_all :: "'a list \<Rightarrow> 'q \<Rightarrow> string + 'q" where
  "enq_all [] q = Inr q"
| "enq_all (x # xs) q = (case enq x q of Inl e \<Rightarrow> Inl e | Inr q' \<Rightarrow> enq_all xs q')"

fun deq_all :: "nat \<Rightarrow> 'q \<Rightarrow> 'a list \<times> 'q" where
  "deq_all 0 q = ([], q)"
| "deq_all (Suc n) q =
     (case deq q of
        Item x q' \<Rightarrow> (let (xs, q'') = deq_all n q' in (x # xs, q''))
      | _ \<Rightarrow> ([], q))"

lemma enq_all_items:
  "\<not> stopped q \<Longrightarrow> \<exists>q'. enq_all xs q = Inr q' \<and> items q' = items q @ xs \<and> \<not> stopped q'"
proof (induction xs arbitrary: q)
  case (Cons x xs)
  then obtain q1 where "enq x q = Inr q1" "items q1 = items q @ [x]" "\<not> stopped q1"
    using enq_running [of q x] by blast
  then show ?case using Cons.IH [of q1] by auto
qed simp

lemma deq_all_items:
  "n \<le> length (items q) \<Longrightarrow>
   \<exists>q'. deq_all n q = (take n (items q), q') \<and> items q' = drop n (items q) \<and> stopped q' = stopped q"
proof (induction n arbitrary: q)
  case (Suc n)
  then obtain x xs where *: "items q = x # xs" by (cases "items q") auto
  then obtain q1 where "deq q = Item x q1" "items q1 = xs" "stopped q1 = stopped q"
    using deq_item by blast
  moreover have "n \<le> length xs" using Suc.prems * by simp
  ultimately show ?case using Suc.IH [of q1] * by fastforce
qed simp

text \<open>Items come out in the order they went in, also after the queue has been stopped.\<close>

lemma fifo_after_stop:
  assumes "\<not> stopped q" and "items q = []" and "enq_all xs q = Inr q'"
  shows "fst (deq_all (length xs) (stop q')) = xs"
    and "\<exists>msg. deq (snd (deq_all (length xs) (stop q'))) = Stopped msg"
proof -
  have "items (stop q') = xs" using enq_all_items [OF assms(1), of xs] assms(2,3) stop_items by auto
  then obtain q'' where "deq_all (length xs) (stop q') = (xs, q'')" "items q'' = []" "stopped q''"
    using deq_all_items [of "length xs" "stop q'"] stop_items(2) by auto
  then show "fst (deq_all (length xs) (stop q')) = xs"
    and "\<exists>msg. deq (snd (deq_all (length xs) (stop q'))) = Stopped msg"
    using deq_stopped [of q''] by auto
qed

end

definition mpsc_items :: "'a mpsc \<Rightarrow> 'a list" where
  "mpsc_items q = mConsumerQueue q @ mProducerQueue q"

lemmas mpsc_defs = mpsc_new_def mpsc_push_def mpsc_enqueue_def mpsc_pop_def mpsc_swap_def
  mpsc_dequeue_def mpsc_shutdown_def mpsc_items_def queue_stopped_def

interpretation mpsc: fifo_queue mpsc_new mpsc_enqueue mpsc_dequeue mpsc_shutdown mpsc_items mShouldExit
proof
  fix q :: "'a mpsc" and x xs
  assume "mpsc_items q = x # xs"
  then show "\<exists>q'. mpsc_dequeue q = Item x q' \<and> mpsc_items q' = xs \<and> mShouldExit q' = mShouldExit q"
    by (cases "mConsumerQueue q"; cases "mProducerQueue q") (auto simp: mpsc_defs)
qed (auto simp: mpsc_defs)

section \<open>Producers, consumer and shutdown interleaved\<close>

text \<open>
  \<open>sys_entering\<close> holds the items of producers that have passed the test of \<^verbatim>\<open>mShouldExit\<close> and not
  yet taken the lock. The consumer is between calls (\<open>C_Idle\<close>), holds the lock having found both
  lists empty and the flag unset (\<open>C_Checked\<close>), is blocked in \<^verbatim>\<open>wait\<close> (\<open>C_Waiting\<close>) or has left by
  the exception (\<open>C_Left\<close>). \<open>sys_in\<close> and \<open>sys_out\<close> record what was appended and what was taken.
  A woken consumer tests the condition again, which from here on is what a new call does.
\<close>

datatype consumer_pc = C_Idle | C_Checked | C_Waiting | C_Left

record 'a mpsc_sys =
  sys_queue :: "'a mpsc"
  sys_entering :: "'a list"
  sys_pc :: consumer_pc
  sys_in :: "'a list"
  sys_out :: "'a list"

datatype mpsc_label = L_enter | L_push | L_take | L_check | L_wait | L_leave | L_shutdown | L_spurious

definition wake :: "bool \<Rightarrow> consumer_pc \<Rightarrow> consumer_pc" where
  "wake notified pc = (if notified \<and> pc = C_Waiting then C_Idle else pc)"

inductive mpsc_step :: "mpsc_label \<Rightarrow> 'a mpsc_sys \<Rightarrow> 'a mpsc_sys \<Rightarrow> bool" where
  enter: "\<not> mShouldExit (sys_queue s) \<Longrightarrow>
    mpsc_step L_enter s (s\<lparr>sys_entering := sys_entering s @ [t]\<rparr>)"
| push: "sys_entering s = xs @ t # ys \<Longrightarrow> sys_pc s \<noteq> C_Checked \<Longrightarrow>
    mpsc_step L_push s (s\<lparr>sys_queue := mpsc_push t (sys_queue s), sys_entering := xs @ ys,
      sys_pc := wake (mProducerQueue (sys_queue s) = []) (sys_pc s), sys_in := sys_in s @ [t]\<rparr>)"
| take: "sys_pc s = C_Idle \<Longrightarrow> mpsc_dequeue (sys_queue s) = Item t q \<Longrightarrow>
    mpsc_step L_take s (s\<lparr>sys_queue := q, sys_out := sys_out s @ [t]\<rparr>)"
| check: "sys_pc s = C_Idle \<Longrightarrow> mpsc_dequeue (sys_queue s) = Blocked \<Longrightarrow>
    mpsc_step L_check s (s\<lparr>sys_pc := C_Checked\<rparr>)"
| wait: "sys_pc s = C_Checked \<Longrightarrow> mpsc_step L_wait s (s\<lparr>sys_pc := C_Waiting\<rparr>)"
| leave: "sys_pc s = C_Idle \<Longrightarrow> mpsc_dequeue (sys_queue s) = Stopped msg \<Longrightarrow>
    mpsc_step L_leave s (s\<lparr>sys_pc := C_Left\<rparr>)"
| shutdown: "mpsc_step L_shutdown s (s\<lparr>sys_queue := mpsc_shutdown (sys_queue s),
      sys_pc := wake True (sys_pc s)\<rparr>)"
| spurious: "sys_pc s = C_Waiting \<Longrightarrow> mpsc_step L_spurious s (s\<lparr>sys_pc := C_Idle\<rparr>)"

inductive_cases mpsc_stepE: "mpsc_step l s s'"

definition mpsc_start :: "'a mpsc_sys" where
  "mpsc_start = \<lparr>sys_queue = mpsc_new, sys_entering = [], sys_pc = C_Idle, sys_in = [], sys_out = []\<rparr>"

inductive mpsc_reachable :: "'a mpsc_sys \<Rightarrow> bool" where
  start: "mpsc_reachable mpsc_start"
| step: "mpsc_reachable s \<Longrightarrow> mpsc_step l s s' \<Longrightarrow> mpsc_reachable s'"

definition mpsc_inv :: "'a mpsc_sys \<Rightarrow> bool" where
  "mpsc_inv s =
     (sys_in s = sys_out s @ mpsc_items (sys_queue s)
      \<and> mQueueSize (sys_queue s) = of_nat (length (mpsc_items (sys_queue s)))
      \<and> (sys_pc s = C_Waiting \<or> sys_pc s = C_Checked \<longrightarrow> mpsc_items (sys_queue s) = [])
      \<and> (sys_pc s = C_Left \<longrightarrow> mShouldExit (sys_queue s)))"

lemma mpsc_dequeue_Item:
  assumes "mpsc_dequeue q = Item t q'"
  shows "mpsc_items q = t # mpsc_items q'" and "mQueueSize q' = mQueueSize q - 1"
    and "mShouldExit q' = mShouldExit q"
  using assms by (auto simp: mpsc_defs split: if_splits list.splits)

lemma mpsc_dequeue_empty:
  "mpsc_dequeue q = Blocked \<Longrightarrow> mpsc_items q = [] \<and> \<not> mShouldExit q"
  "mpsc_dequeue q = Stopped msg \<Longrightarrow> mpsc_items q = [] \<and> mShouldExit q"
  by (auto simp: mpsc_defs split: if_splits list.splits)

lemma mpsc_push_items:
  "mpsc_items (mpsc_push t q) = mpsc_items q @ [t]" "mQueueSize (mpsc_push t q) = mQueueSize q + 1"
  "mShouldExit (mpsc_push t q) = mShouldExit q"
  by (simp_all add: mpsc_push_def mpsc_items_def)

lemma mpsc_step_inv:
  assumes "mpsc_step l s s'" and "mpsc_inv s"
  shows "mpsc_inv s'"
  using assms
proof cases
  case (push xs t ys)
  moreover have "mProducerQueue (sys_queue s) = []" if "sys_pc s = C_Waiting"
    using assms(2) that by (auto simp: mpsc_inv_def mpsc_items_def)
  ultimately show ?thesis using assms(2) by (auto simp: mpsc_inv_def mpsc_push_items wake_def)
next
  case (take t q)
  then show ?thesis using assms(2) mpsc_dequeue_Item [OF take(4)] by (auto simp: mpsc_inv_def)
next
  case check
  then show ?thesis using assms(2) mpsc_dequeue_empty(1) by (auto simp: mpsc_inv_def)
next
  case (leave msg)
  then show ?thesis using assms(2) mpsc_dequeue_empty(2) by (auto simp: mpsc_inv_def)
next
  case shutdown
  then show ?thesis using assms(2)
    by (auto simp: mpsc_inv_def mpsc_shutdown_def mpsc_items_def wake_def)
qed (auto simp: mpsc_inv_def)

lemma mpsc_reachable_inv: "mpsc_reachable s \<Longrightarrow> mpsc_inv s"
proof (induction rule: mpsc_reachable.induct)
  case start
  then show ?case by (simp add: mpsc_inv_def mpsc_start_def mpsc_new_def mpsc_items_def)
next
  case (step s l s')
  then show ?case using mpsc_step_inv by blast
qed

text \<open>
  C23. Whatever the interleaving of producers, consumer and \<^verbatim>\<open>shutdown\<close>, nothing is lost,
  duplicated or reordered: what was appended is what was taken followed by what the two lists still
  hold, and \<^verbatim>\<open>mQueueSize\<close> counts the latter. The consumer leaves by the exception only with the
  queue stopped.
\<close>

theorem queue_is_fifo_under_concurrency:
  assumes "mpsc_reachable s"
  shows "sys_in s = sys_out s @ mConsumerQueue (sys_queue s) @ mProducerQueue (sys_queue s)
    \<and> mQueueSize (sys_queue s)
      = of_nat (length (mConsumerQueue (sys_queue s)) + length (mProducerQueue (sys_queue s)))
    \<and> (sys_pc s = C_Left \<longrightarrow> mShouldExit (sys_queue s))"
  using mpsc_reachable_inv [OF assms] by (simp add: mpsc_inv_def mpsc_items_def)

text \<open>One item in, the queue stopped, the item out.\<close>

definition run_example :: "nat mpsc_sys" where
  "run_example =
     \<lparr>sys_queue = \<lparr>mProducerQueue = [], mConsumerQueue = [], mQueueSize = 0, mShouldExit = True\<rparr>,
      sys_entering = [], sys_pc = C_Idle, sys_in = [5], sys_out = [5]\<rparr>"

lemma run_example_reachable: "mpsc_reachable run_example"
proof -
  let ?s1 = "mpsc_start\<lparr>sys_entering := [5 :: nat]\<rparr>"
  let ?q = "\<lparr>mProducerQueue = [5], mConsumerQueue = [], mQueueSize = 1, mShouldExit = False\<rparr>"
  let ?s2 = "\<lparr>sys_queue = ?q, sys_entering = [], sys_pc = C_Idle, sys_in = [5], sys_out = []\<rparr>"
  let ?s3 = "?s2\<lparr>sys_queue := ?q\<lparr>mShouldExit := True\<rparr>\<rparr>"
  have "mpsc_step L_enter mpsc_start ?s1"
    using enter [of mpsc_start "5 :: nat"] by (simp add: mpsc_start_def mpsc_new_def)
  moreover have "mpsc_step L_push ?s1 ?s2"
    using push [of ?s1 "[]" 5 "[]"] by (simp add: mpsc_start_def mpsc_new_def mpsc_push_def wake_def)
  moreover have "mpsc_step L_shutdown ?s2 ?s3"
    using shutdown [of ?s2] by (simp add: mpsc_shutdown_def wake_def)
  moreover have "mpsc_step L_take ?s3 run_example"
    using take [of ?s3 5 "?q\<lparr>mProducerQueue := [], mQueueSize := 0, mShouldExit := True\<rparr>"]
    by (simp add: mpsc_defs run_example_def)
  ultimately show ?thesis using mpsc_reachable.start mpsc_reachable.step by metis
qed

theorem queue_is_fifo_under_concurrency_witness:
  "sys_in run_example = [5] \<and> mQueueSize (sys_queue run_example) = 0 \<and> sys_in run_example = sys_out run_example"
  using queue_is_fifo_under_concurrency [OF run_example_reachable] by (simp add: run_example_def)

text \<open>
  \<^verbatim>\<open>shutdown\<close> sets the flag and notifies without taking the mutex. If it runs between the
  consumer's test and its blocking, the notification finds nobody waiting: the consumer then blocks
  with the flag set and both lists empty, no producer may enter any more, and only a spurious wakeup
  (or another \<^verbatim>\<open>shutdown\<close>) can move it.
\<close>

definition lost_wakeup :: "nat mpsc_sys" where
  "lost_wakeup = mpsc_start\<lparr>sys_queue := mpsc_shutdown mpsc_new, sys_pc := C_Waiting\<rparr>"

lemma shutdown_can_lose_its_wakeup:
  "mpsc_reachable lost_wakeup"
  "mpsc_step l lost_wakeup s \<Longrightarrow> l = L_spurious \<or> l = L_shutdown"
proof -
  let ?s1 = "mpsc_start\<lparr>sys_pc := C_Checked\<rparr> :: nat mpsc_sys"
  let ?s2 = "?s1\<lparr>sys_queue := mpsc_shutdown mpsc_new\<rparr>"
  have "mpsc_step L_check mpsc_start ?s1"
    using check [of mpsc_start] by (simp add: mpsc_start_def mpsc_defs)
  moreover have "mpsc_step L_shutdown ?s1 ?s2"
    using shutdown [of ?s1] by (simp add: mpsc_start_def wake_def)
  moreover have "mpsc_step L_wait ?s2 lost_wakeup"
    using wait [of ?s2] by (simp add: lost_wakeup_def mpsc_start_def)
  ultimately show "mpsc_reachable lost_wakeup"
    using mpsc_reachable.start mpsc_reachable.step by metis
  show "l = L_spurious \<or> l = L_shutdown" if "mpsc_step l lost_wakeup s"
    using that by cases (auto simp: lost_wakeup_def mpsc_start_def mpsc_shutdown_def)
qed

end
