(* ===== verification/Raft_Log_Store.thy ===== *)
theory Raft_Log_Store
  imports Store_Codec Mpsc_Queue Raft_Node
begin

text \<open>
  The writing half of the event store. \<^verbatim>\<open>src/src/infra/raft/RaftLogStore.cpp\<close> turns a command and its
  events into a log entry and hands entries to the Raft node in batches;
  \<^verbatim>\<open>src/src/infra/raft/RaftReplyLoop.cpp\<close> answers the client once the entry is committed or lost;
  \<^verbatim>\<open>src/src/infra/es/store/RaftCommandEventStore.cpp\<close> puts the two together and reports to the command
  process loop when leadership changes.

  What a loop reads from the Raft node in its rounds is an argument of the operation; a loop that has not
  returned when these reads are used up gives \<open>None\<close>.
\<close>

section \<open>RaftLogStore\<close>

record persist_entry =
  pe_command :: Command
  pe_events :: "Event list"
  pe_clientRequest :: ClientRequest

record log_store =
  lg_mLogStoreTerm :: nat
  lg_mLogStoreRole :: RaftRole
  lg_mPersistQueue :: "persist_entry mpsc"
  lg_mLastSentTimeInNano :: nat
  lg_mBatch :: "ClientRequest list"

definition kMaxDelayInMs :: nat where
  "kMaxDelayInMs = 20"

definition kMaxBatchSize :: nat where
  "kMaxBatchSize = 100"

definition log_store_new :: log_store where
  "log_store_new =
     \<lparr>lg_mLogStoreTerm = 0, lg_mLogStoreRole = Follower, lg_mPersistQueue = mpsc_new, lg_mLastSentTimeInNano = 0, lg_mBatch = []\<rparr>"

text \<open>The loop that reads the term, the role and the term again until both terms are the same.\<close>

fun read_term_role :: "(nat \<times> RaftRole \<times> nat) list \<Rightarrow> (nat \<times> RaftRole) option" where
  "read_term_role [] = None"
| "read_term_role ((term1, role, term2) # reads) = (if term1 \<noteq> term2 then read_term_role reads else Some (term1, role))"

definition refresh :: "(nat \<times> RaftRole \<times> nat) list \<Rightarrow> log_store \<Rightarrow> log_store option" where
  "refresh reads s =
     (case read_term_role reads of
        None \<Rightarrow> None
      | Some (term1, role) \<Rightarrow>
          if lg_mLogStoreTerm s = term1 \<and> lg_mLogStoreRole s = Leader \<and> role \<noteq> Leader then Some s
          else Some (s\<lparr>lg_mLogStoreTerm := term1, lg_mLogStoreRole := role\<rparr>))"

definition Command_specialTag :: "Command \<Rightarrow> string option" where
  "Command_specialTag c = (case cmd_body c of SplitCommand r \<Rightarrow> Some (ps_planId r) | _ \<Rightarrow> None)"

definition log_entry_for :: "'c store_env \<Rightarrow> Command \<Rightarrow> nat \<Rightarrow> log_store \<Rightarrow> LogEntry" where
  "log_entry_for P command index s =
     \<lparr>le_term = lg_mLogStoreTerm s, le_index = index, le_noop = False, le_checksum = 0, le_payload = '''',
      le_version = cu_mLatestVersion (st_crypto P),
      le_specialTag = map_option (\<lambda>tag. (unat (mt_mType (cmd_mMetaData command)), tag)) (Command_specialTag command)\<rparr>"

definition LogStore_persistAsync ::
  "'c store_env \<Rightarrow> Command \<Rightarrow> Event list \<Rightarrow> nat \<Rightarrow> nat option \<Rightarrow> log_store \<Rightarrow> log_store res" where
  "LogStore_persistAsync P command events index requestHandle s =
     (case mpsc_enqueue \<lparr>pe_command = command, pe_events = events,
             pe_clientRequest = \<lparr>cr_mEntry = log_entry_for P command index s, cr_mRequestHandle = requestHandle\<rparr>\<rparr> (lg_mPersistQueue s) of
        Inl msg \<Rightarrow> Inl (Exception msg)
      | Inr q \<Rightarrow> Inr (s\<lparr>lg_mPersistQueue := q\<rparr>))"

text \<open>The persist thread. It asks for the size before it takes an item, so it never blocks.\<close>

definition fill_request :: "'c store_env \<Rightarrow> persist_entry \<Rightarrow> ClientRequest res" where
  "fill_request P pe =
     res_bind (fill_payload P (pe_command pe) (pe_events pe) (cr_mEntry (pe_clientRequest pe)))
       (\<lambda>entry. Inr ((pe_clientRequest pe)\<lparr>cr_mEntry := entry\<rparr>))"

definition LogStore_dequeue :: "'c store_env \<Rightarrow> log_store \<Rightarrow> log_store res" where
  "LogStore_dequeue P s =
     (case mpsc_dequeue (lg_mPersistQueue s) of
        Item pe q \<Rightarrow>
          res_bind (fill_request P pe)
            (\<lambda>clientRequest. Inr (s\<lparr>lg_mPersistQueue := q, lg_mBatch := lg_mBatch s @ [clientRequest]\<rparr>))
      | Stopped msg \<Rightarrow> Inl (Exception msg)
      | Blocked \<Rightarrow> Inr s)"

text \<open>The elapsed time is unsigned: 20 ms are 20000000 ns.\<close>

definition maySendBatch :: "nat \<Rightarrow> log_store \<Rightarrow> 'l raft_core \<Rightarrow> log_store \<times> 'l raft_core" where
  "maySendBatch nowInNano s raft =
     (if lg_mBatch s = [] then (s, raft)
      else
        let elapsed = (nowInNano + (2 ^ 64 - lg_mLastSentTimeInNano s)) mod 2 ^ 64 in
        if length (lg_mBatch s) < kMaxBatchSize \<and> elapsed < kMaxDelayInMs * 1000000 then (s, raft)
        else (s\<lparr>lg_mBatch := [], lg_mLastSentTimeInNano := nowInNano\<rparr>, enqueueClientRequests (lg_mBatch s) raft))"

fun dequeue_many :: "'c store_env \<Rightarrow> nat \<Rightarrow> log_store \<Rightarrow> log_store res" where
  "dequeue_many P 0 s = Inr s"
| "dequeue_many P (Suc n) s = res_bind (LogStore_dequeue P s) (dequeue_many P n)"

definition persist_round :: "'c store_env \<Rightarrow> nat \<Rightarrow> log_store \<Rightarrow> 'l raft_core \<Rightarrow> (log_store \<times> 'l raft_core) res" where
  "persist_round P nowInNano s raft =
     res_bind
       (if mpsc_size (lg_mPersistQueue s) \<noteq> 0 then dequeue_many P (mpsc_size (lg_mPersistQueue s)) s
        else if \<not> mpsc_empty (lg_mPersistQueue s) then LogStore_dequeue P s
        else Inr s)
       (\<lambda>s1. Inr (maySendBatch nowInNano s1 raft))"

section \<open>RaftReplyLoop\<close>

record reply_task =
  rt_index :: nat
  rt_term :: nat
  rt_handle :: "nat option"
  rt_code :: u64
  rt_message :: string
  rt_flag :: nat

text \<open>
  A task is an object the queue and a reply thread both point to: \<open>rq_tasks\<close> holds every task made, by its
  address, and the queue is a list of addresses.
\<close>

record reply_loop =
  rq_mRunning :: bool
  rq_tasks :: "reply_task list"
  rq_mTaskQueue :: "nat list"
  rq_mPendingReplyQueueSize :: nat

definition reply_concurrency :: nat where
  "reply_concurrency = 2"

definition reply_loop_new :: reply_loop where
  "reply_loop_new = \<lparr>rq_mRunning = True, rq_tasks = [], rq_mTaskQueue = [], rq_mPendingReplyQueueSize = 0\<rparr>"

definition pushTask :: "nat \<Rightarrow> nat \<Rightarrow> nat option \<Rightarrow> u64 \<Rightarrow> string \<Rightarrow> reply_loop \<Rightarrow> reply_loop" where
  "pushTask index trm handle code message q =
     q\<lparr>rq_tasks := rq_tasks q @ [\<lparr>rt_index = index, rt_term = trm, rt_handle = handle, rt_code = code,
         rt_message = message, rt_flag = 0\<rparr>],
       rq_mTaskQueue := rq_mTaskQueue q @ [length (rq_tasks q)],
       rq_mPendingReplyQueueSize := rq_mPendingReplyQueueSize q + 1\<rparr>"

definition queued_tasks :: "reply_loop \<Rightarrow> reply_task list" where
  "queued_tasks q = map (\<lambda>p. rq_tasks q ! p) (rq_mTaskQueue q)"

text \<open>The pop thread looks at the front under the read lock and pops under the write lock.\<close>

definition pop_busy :: "reply_loop \<Rightarrow> bool" where
  "pop_busy q = (case rq_mTaskQueue q of [] \<Rightarrow> False | p # ps \<Rightarrow> rt_flag (rq_tasks q ! p) = 2)"

definition pop_front :: "reply_loop \<Rightarrow> reply_loop" where
  "pop_front q =
     q\<lparr>rq_mTaskQueue := tl (rq_mTaskQueue q), rq_mPendingReplyQueueSize := rq_mPendingReplyQueueSize q - 1\<rparr>"

text \<open>
  What one round of the waiting loop reads: the running flag, the terms and the last index until both terms
  are the same, then the commit index and the entry.
\<close>

record commit_view =
  cv_running :: bool
  cv_reads :: "(nat \<times> nat \<times> nat) list"
  cv_commitIndex :: nat
  cv_entry :: "LogEntry option res"

fun read_term_last :: "(nat \<times> nat \<times> nat) list \<Rightarrow> (nat \<times> nat) option" where
  "read_term_last [] = None"
| "read_term_last ((term1, lastLogIndex, term2) # reads) =
     (if term1 \<noteq> term2 then read_term_last reads else Some (term1, lastLogIndex))"

fun waitTillCommittedOrQuit :: "nat \<Rightarrow> nat \<Rightarrow> commit_view list \<Rightarrow> bool option res" where
  "waitTillCommittedOrQuit index trm [] = Inr None"
| "waitTillCommittedOrQuit index trm (v # vs) =
     (if \<not> cv_running v then Inr (Some False)
      else
        (case read_term_last (cv_reads v) of
           None \<Rightarrow> Inr None
         | Some (term1, lastLogIndex) \<Rightarrow>
             res_bind (c_assert (term1 \<ge> trm))
               (\<lambda>_.
                 if lastLogIndex < index \<and> term1 > trm then Inr (Some False)
                 else if cv_commitIndex v < index then waitTillCommittedOrQuit index trm vs
                 else
                   res_bind (cv_entry v)
                     (\<lambda>e. case e of None \<Rightarrow> Inl Assertion | Some entry \<Rightarrow> Inr (Some (le_term entry = trm))))))"

text \<open>
  Waiting, the reply to the client, and the task marked as done; \<open>None\<close> while it is still waiting. The code of
  a task has 64 bits, that of a reply 32.
\<close>

definition replyTask :: "commit_view list \<Rightarrow> nat option \<Rightarrow> reply_task \<Rightarrow> (reply list \<times> reply_task) option res" where
  "replyTask views leaderHint t =
     res_bind (waitTillCommittedOrQuit (rt_index t) (rt_term t) views)
       (\<lambda>r. case r of
          None \<Rightarrow> Inr None
        | Some isCommitted \<Rightarrow>
            let t1 = (if isCommitted then t else t\<lparr>rt_code := 301, rt_message := ''NotLeaderAnyMore''\<rparr>) in
            Inr (Some
              ((case rt_handle t1 of None \<Rightarrow> [] | Some h \<Rightarrow> [Reply h (ucast (rt_code t1)) (rt_message t1) (map_option of_nat leaderHint)]),
               t1\<lparr>rt_flag := 2\<rparr>)))"

text \<open>
  A reply thread: at the top, going through the queue as it was when the thread took the read lock, or at
  work on the task it has claimed. Every compare and exchange is a step of its own.
\<close>

datatype reply_pc = R_Top | R_Scan "nat list" | R_Reply nat

definition replyThread_step ::
  "commit_view list \<Rightarrow> nat option \<Rightarrow> reply_pc \<Rightarrow> reply_loop \<Rightarrow> (reply_pc \<times> reply_loop \<times> reply list) res" where
  "replyThread_step views leaderHint pc q =
     (case pc of
        R_Top \<Rightarrow> Inr (if rq_mRunning q then R_Scan (rq_mTaskQueue q) else R_Top, q, [])
      | R_Scan [] \<Rightarrow> Inr (R_Top, q, [])
      | R_Scan (currPtr # rest) \<Rightarrow>
          if rt_flag (rq_tasks q ! currPtr) = 0
          then Inr (R_Reply currPtr, q\<lparr>rq_tasks := (rq_tasks q)[currPtr := (rq_tasks q ! currPtr)\<lparr>rt_flag := 1\<rparr>]\<rparr>, [])
          else Inr (R_Scan rest, q, [])
      | R_Reply taskPtr \<Rightarrow>
          res_bind (replyTask views leaderHint (rq_tasks q ! taskPtr))
            (\<lambda>r. case r of
               None \<Rightarrow> Inr (R_Reply taskPtr, q, [])
             | Some (out, t) \<Rightarrow> Inr (R_Top, q\<lparr>rq_tasks := (rq_tasks q)[taskPtr := t]\<rparr>, out)))"

section \<open>RaftCommandEventStore\<close>

datatype Transition = SameLeader | SameFollower | LeaderToFollower | FollowerToLeader | OldLeaderToNewLeader
  | OldFollowerToNewFollower

record event_store =
  es_mRaftReplyLoop :: reply_loop
  es_mRaftLogStore :: log_store
  es_mLastCheckedTerm :: nat
  es_mLastCheckedRole :: RaftRole

definition event_store_new :: event_store where
  "event_store_new =
     \<lparr>es_mRaftReplyLoop = reply_loop_new, es_mRaftLogStore = log_store_new,
      es_mLastCheckedTerm = lg_mLogStoreTerm log_store_new, es_mLastCheckedRole = lg_mLogStoreRole log_store_new\<rparr>"

fun number_events :: "u64 \<Rightarrow> u64 \<Rightarrow> Event list \<Rightarrow> Event list" where
  "number_events commandId nextEventId [] = []"
| "number_events commandId nextEventId (e # es) =
     e\<lparr>ev_mMetaData := (ev_mMetaData e)\<lparr>mt_mId := nextEventId, em_mCommandId := commandId\<rparr>\<rparr> # number_events commandId (nextEventId + 1) es"

definition EventStore_persistAsync ::
  "'c store_env \<Rightarrow> Command \<Rightarrow> Event list \<Rightarrow> u64 \<Rightarrow> string \<Rightarrow> event_store \<Rightarrow> event_store res" where
  "EventStore_persistAsync P command events code message s =
     (let commandId = mt_mId (cmd_mMetaData command);
          s1 = s\<lparr>es_mRaftReplyLoop := pushTask (unat commandId) (es_mLastCheckedTerm s) (cm_mRequestHandle (cmd_mMetaData command))
                   code message (es_mRaftReplyLoop s)\<rparr> in
      if events = [] then Inr s1
      else
        res_bind (LogStore_persistAsync P command (number_events commandId 0 events) (unat commandId) None (es_mRaftLogStore s1))
          (\<lambda>l. Inr (s1\<lparr>es_mRaftLogStore := l\<rparr>)))"

definition transition_of :: "nat \<Rightarrow> RaftRole \<Rightarrow> nat \<Rightarrow> RaftRole \<Rightarrow> Transition res" where
  "transition_of lastTerm lastRole currentTerm currentRole =
     (if lastTerm \<noteq> currentTerm then
        res_bind (c_assert (lastTerm < currentTerm))
          (\<lambda>_.
            Inr (if lastRole = Leader then (if currentRole = Leader then OldLeaderToNewLeader else LeaderToFollower)
                 else (if currentRole = Leader then FollowerToLeader else OldFollowerToNewFollower)))
      else if lastRole = Leader then res_bind (c_assert (currentRole = Leader)) (\<lambda>_. Inr SameLeader)
      else Inr (if currentRole = Leader then FollowerToLeader else SameFollower))"

definition detectTransition :: "(nat \<times> RaftRole \<times> nat) list \<Rightarrow> event_store \<Rightarrow> (Transition \<times> event_store) option res" where
  "detectTransition reads s =
     (case refresh reads (es_mRaftLogStore s) of
        None \<Rightarrow> Inr None
      | Some l \<Rightarrow>
          res_bind (transition_of (es_mLastCheckedTerm s) (es_mLastCheckedRole s) (lg_mLogStoreTerm l) (lg_mLogStoreRole l))
            (\<lambda>t. Inr (Some (t, s\<lparr>es_mRaftLogStore := l, es_mLastCheckedTerm := lg_mLogStoreTerm l,
                                 es_mLastCheckedRole := lg_mLogStoreRole l\<rparr>))))"

definition EventStore_getCurrentTerm :: "event_store \<Rightarrow> nat" where
  "EventStore_getCurrentTerm s = es_mLastCheckedTerm s"

definition EventStore_getLeaderHint :: "'l raft_core \<Rightarrow> nat option" where
  "EventStore_getLeaderHint raft = getLeaderHint raft"

section \<open>Leadership as the process loop sees it\<close>

text \<open>The store has looked at least as recently as its log store; the two change together.\<close>

definition checked_ok :: "event_store \<Rightarrow> bool" where
  "checked_ok s =
     (es_mLastCheckedTerm s = lg_mLogStoreTerm (es_mRaftLogStore s) \<and> es_mLastCheckedRole s = lg_mLogStoreRole (es_mRaftLogStore s))"

definition enters_leadership :: "Transition \<Rightarrow> bool" where
  "enters_leadership t = (t = FollowerToLeader \<or> t = OldLeaderToNewLeader)"

definition keeps_leadership :: "Transition \<Rightarrow> bool" where
  "keeps_leadership t = (t = SameLeader)"

text \<open>The calls of the process loop one after the other, each with what it reads, and the terms with the transitions they report.\<close>

fun detect_all ::
  "(nat \<times> RaftRole \<times> nat) list list \<Rightarrow> event_store \<Rightarrow> ((nat \<times> Transition) list \<times> event_store) option res" where
  "detect_all [] s = Inr (Some ([], s))"
| "detect_all (reads # rest) s =
     res_bind (detectTransition reads s)
       (\<lambda>r. case r of
          None \<Rightarrow> Inr None
        | Some (t, s1) \<Rightarrow>
            res_bind (detect_all rest s1)
              (\<lambda>r2. Inr (map_option (\<lambda>(trace, s2). ((es_mLastCheckedTerm s1, t) # trace, s2)) r2)))"

text \<open>Each call gets to read the same term twice, and these terms do not decrease, as those of a node outside its sync phase do not.\<close>

fun terms_grow :: "nat \<Rightarrow> (nat \<times> RaftRole \<times> nat) list list \<Rightarrow> bool" where
  "terms_grow trm [] = True"
| "terms_grow trm (reads # rest) =
     (case read_term_role reads of None \<Rightarrow> False | Some (t, role) \<Rightarrow> trm \<le> t \<and> terms_grow t rest)"

text \<open>Once leadership of a term has been reported, every later report for the term is \<open>SameLeader\<close>.\<close>

definition stays_leader :: "(nat \<times> Transition) list \<Rightarrow> bool" where
  "stays_leader trace =
     (\<forall>before after trm t t'. trace = before @ (trm, t) # after \<and> (enters_leadership t \<or> keeps_leadership t) \<and> (trm, t') \<in> set after
        \<longrightarrow> keeps_leadership t')"

lemma stays_leader_Cons:
  "stays_leader ((trm, t) # trace) \<longleftrightarrow>
   (enters_leadership t \<or> keeps_leadership t \<longrightarrow> (\<forall>t'. (trm, t') \<in> set trace \<longrightarrow> keeps_leadership t')) \<and> stays_leader trace"
  unfolding stays_leader_def Cons_eq_append_conv by blast

lemma detect_step:
  assumes "checked_ok s" and "read_term_role reads = Some (t, role)" and "es_mLastCheckedTerm s \<le> t"
  shows "\<exists>tr s1. detectTransition reads s = Inr (Some (tr, s1)) \<and> checked_ok s1 \<and> es_mLastCheckedTerm s1 = t
    \<and> es_mRaftReplyLoop s1 = es_mRaftReplyLoop s
    \<and> (es_mLastCheckedRole s1 = Leader \<longleftrightarrow> enters_leadership tr \<or> keeps_leadership tr)
    \<and> (keeps_leadership tr \<longleftrightarrow> es_mLastCheckedRole s = Leader \<and> es_mLastCheckedTerm s = t)
    \<and> (es_mLastCheckedRole s = Leader \<and> es_mLastCheckedTerm s = t \<longrightarrow> es_mLastCheckedRole s1 = Leader)"
proof -
  let ?l = "es_mRaftLogStore s"
  show ?thesis
  proof (cases "lg_mLogStoreTerm ?l = t \<and> lg_mLogStoreRole ?l = Leader \<and> role \<noteq> Leader")
    case True
    then have "refresh reads ?l = Some ?l" using assms(2) by (simp add: refresh_def)
    then show ?thesis using True assms(1)
      by (simp add: detectTransition_def transition_of_def checked_ok_def enters_leadership_def keeps_leadership_def)
  next
    case False
    then have "refresh reads ?l = Some (?l\<lparr>lg_mLogStoreTerm := t, lg_mLogStoreRole := role\<rparr>)" using assms(2) by (auto simp: refresh_def)
    then show ?thesis using False assms(1,3)
      by (auto simp: detectTransition_def transition_of_def checked_ok_def enters_leadership_def keeps_leadership_def)
  qed
qed

lemma detect_run:
  assumes "checked_ok s" and "terms_grow (es_mLastCheckedTerm s) reads"
  shows "\<exists>trace s'. detect_all reads s = Inr (Some (trace, s')) \<and> checked_ok s' \<and> length trace = length reads
    \<and> sorted (es_mLastCheckedTerm s # map fst trace)
    \<and> distinct (map fst (filter (\<lambda>x. enters_leadership (snd x)) trace))
    \<and> (es_mLastCheckedRole s = Leader \<longrightarrow> es_mLastCheckedTerm s \<notin> set (map fst (filter (\<lambda>x. \<not> keeps_leadership (snd x)) trace)))
    \<and> es_mLastCheckedTerm s' = last (es_mLastCheckedTerm s # map fst trace) \<and> stays_leader trace"
  using assms
proof (induction reads arbitrary: s)
  case (Cons r rest)
  from Cons.prems(2) obtain t role where t: "read_term_role r = Some (t, role)" "es_mLastCheckedTerm s \<le> t" "terms_grow t rest"
    by (auto split: option.splits)
  obtain tr s1 where s1: "detectTransition r s = Inr (Some (tr, s1))" "checked_ok s1" "es_mLastCheckedTerm s1 = t"
    "es_mLastCheckedRole s1 = Leader \<longleftrightarrow> enters_leadership tr \<or> keeps_leadership tr"
    "keeps_leadership tr \<longleftrightarrow> es_mLastCheckedRole s = Leader \<and> es_mLastCheckedTerm s = t"
    "es_mLastCheckedRole s = Leader \<and> es_mLastCheckedTerm s = t \<longrightarrow> es_mLastCheckedRole s1 = Leader"
    using detect_step[OF Cons.prems(1) t(1,2)] by blast
  obtain trace s' where tr: "detect_all rest s1 = Inr (Some (trace, s'))" "checked_ok s'" "length trace = length rest"
    "sorted (t # map fst trace)" "distinct (map fst (filter (\<lambda>x. enters_leadership (snd x)) trace))"
    "es_mLastCheckedRole s1 = Leader \<longrightarrow> t \<notin> set (map fst (filter (\<lambda>x. \<not> keeps_leadership (snd x)) trace))"
    "es_mLastCheckedTerm s' = last (t # map fst trace)" "stays_leader trace"
    using Cons.IH[OF s1(2)] t(3) unfolding s1(3) by blast
  have not_both: "enters_leadership x \<Longrightarrow> \<not> keeps_leadership x" for x by (auto simp: enters_leadership_def keeps_leadership_def)
  have "enters_leadership tr \<longrightarrow> t \<notin> set (map fst (filter (\<lambda>x. enters_leadership (snd x)) trace))"
    using tr(6) s1(4) not_both by fastforce
  then have d: "distinct (map fst (filter (\<lambda>x. enters_leadership (snd x)) ((t, tr) # trace)))" using tr(5) by simp
  have "es_mLastCheckedRole s = Leader \<longrightarrow> es_mLastCheckedTerm s \<notin> set (map fst (filter (\<lambda>x. \<not> keeps_leadership (snd x)) ((t, tr) # trace)))"
  proof (cases "es_mLastCheckedTerm s = t")
    case True
    then show ?thesis using tr(6) s1(5,6) by auto
  next
    case False
    then have "es_mLastCheckedTerm s < t" using t(2) by simp
    moreover have "\<forall>x \<in> set trace. t \<le> fst x" using tr(4) by auto
    ultimately have "\<forall>x \<in> set ((t, tr) # trace). es_mLastCheckedTerm s \<noteq> fst x" by auto
    then show ?thesis by auto
  qed
  moreover have "keeps_leadership t'" if "es_mLastCheckedRole s1 = Leader" "(t, t') \<in> set trace" for t'
    using tr(6) that by force
  then have "stays_leader ((t, tr) # trace)" using tr(8) s1(4) by (auto simp: stays_leader_Cons)
  ultimately show ?case using s1(1,3) tr(1-4,7) d t(2) by (intro exI[of _ "(t, tr) # trace"] exI[of _ s']) auto
qed (simp add: stays_leader_def)

text \<open>
  C35. The command process loop can rely on what the event store reports about leadership. However often it
  asks and whatever role and term the node has in between, with terms that do not decrease, no call stops the
  process, the reported terms do not decrease, becoming leader is reported at most once for each term, and
  after leadership of a term was reported no other report for that term says anything else: a leader never
  steps down within its term, also when the store sees the role change before the term.
\<close>

theorem leadership_is_reported_once_per_term:
  assumes "terms_grow 0 reads"
  shows "\<exists>trace s. detect_all reads event_store_new = Inr (Some (trace, s)) \<and> length trace = length reads
    \<and> sorted (map fst trace) \<and> distinct (map fst (filter (\<lambda>x. enters_leadership (snd x)) trace))
    \<and> stays_leader trace"
proof -
  have "checked_ok event_store_new" "es_mLastCheckedTerm event_store_new = 0" by (simp_all add: checked_ok_def event_store_new_def log_store_new_def)
  then show ?thesis using detect_run[of event_store_new reads] assms by auto
qed

text \<open>Follower, leader of term 2, the role gone before the term, follower in term 3, then leader of term 5.\<close>

definition example_reads :: "(nat \<times> RaftRole \<times> nat) list list" where
  "example_reads =
     [[(1, Follower, 1)], [(1, Candidate, 2), (2, Leader, 2)], [(2, Leader, 2)], [(2, Follower, 2)], [(3, Follower, 3)], [(5, Leader, 5)]]"

theorem leadership_is_reported_once_per_term_witness:
  "terms_grow 0 example_reads \<and> (\<exists>s. detect_all example_reads event_store_new = Inr (Some ([(1, OldFollowerToNewFollower),
     (2, FollowerToLeader), (2, SameLeader), (2, SameLeader), (3, LeaderToFollower), (5, FollowerToLeader)], s))
     \<and> distinct [2, 5 :: nat])"
proof -
  have grow: "terms_grow 0 example_reads" by (simp add: example_reads_def)
  moreover have "\<exists>s. detect_all example_reads event_store_new = Inr (Some ([(1, OldFollowerToNewFollower),
     (2, FollowerToLeader), (2, SameLeader), (2, SameLeader), (3, LeaderToFollower), (5, FollowerToLeader)], s))"
    by (simp add: example_reads_def event_store_new_def log_store_new_def detectTransition_def refresh_def transition_of_def)
  ultimately show ?thesis using leadership_is_reported_once_per_term[OF grow] by (auto simp: enters_leadership_def)
qed

section \<open>The write path\<close>

datatype write_action = Persist Command "Event list" u64 string | Persist_Round nat

fun write_run :: "'c store_env \<Rightarrow> write_action list \<Rightarrow> event_store \<Rightarrow> 'l raft_core \<Rightarrow> (event_store \<times> 'l raft_core) res" where
  "write_run P [] s raft = Inr (s, raft)"
| "write_run P (Persist c es code message # acts) s raft =
     res_bind (EventStore_persistAsync P c es code message s) (\<lambda>s1. write_run P acts s1 raft)"
| "write_run P (Persist_Round now # acts) s raft =
     res_bind (persist_round P now (es_mRaftLogStore s) raft)
       (\<lambda>(l, raft1). write_run P acts (s\<lparr>es_mRaftLogStore := l\<rparr>) raft1)"

text \<open>The entry a command with its events asks for.\<close>

definition entry_wanted :: "'c store_env \<Rightarrow> nat \<Rightarrow> Command \<Rightarrow> Event list \<Rightarrow> persist_entry" where
  "entry_wanted P trm c es =
     \<lparr>pe_command = c, pe_events = number_events (mt_mId (cmd_mMetaData c)) 0 es,
      pe_clientRequest = \<lparr>cr_mEntry = log_entry_for P c (unat (mt_mId (cmd_mMetaData c))) (log_store_new\<lparr>lg_mLogStoreTerm := trm\<rparr>),
                          cr_mRequestHandle = None\<rparr>\<rparr>"

fun entries_wanted :: "'c store_env \<Rightarrow> nat \<Rightarrow> write_action list \<Rightarrow> persist_entry list" where
  "entries_wanted P trm [] = []"
| "entries_wanted P trm (Persist c es code message # acts) =
     (if es = [] then [] else [entry_wanted P trm c es]) @ entries_wanted P trm acts"
| "entries_wanted P trm (Persist_Round now # acts) = entries_wanted P trm acts"

definition queued_requests :: "'l raft_core \<Rightarrow> ClientRequest list" where
  "queued_requests raft =
     concat (map (\<lambda>e. case e of ClientRequests cs \<Rightarrow> cs | _ \<Rightarrow> []) (rc_mClientRequestsQueue raft))"

text \<open>How far the persist thread has come: it filled the entries it took, in order, and sent all but the batch it is filling.\<close>

definition write_progress :: "'c store_env \<Rightarrow> persist_entry list \<Rightarrow> log_store \<Rightarrow> 'l raft_core \<Rightarrow> log_store \<Rightarrow> 'l raft_core \<Rightarrow> bool" where
  "write_progress P added l raft l' raft' =
     (\<exists>taken filled sent. mpsc_items (lg_mPersistQueue l) @ added = taken @ mpsc_items (lg_mPersistQueue l')
        \<and> map_res (fill_request P) taken = Inr filled \<and> lg_mBatch l @ filled = sent @ lg_mBatch l'
        \<and> queued_requests raft' = queued_requests raft @ sent
        \<and> lg_mLogStoreTerm l' = lg_mLogStoreTerm l \<and> mShouldExit (lg_mPersistQueue l') = mShouldExit (lg_mPersistQueue l))"

lemma write_progress_refl [simp]: "write_progress P [] l raft l raft"
  unfolding write_progress_def by (intro exI[of _ "[]"]) simp

lemma write_progress_term: "write_progress P added l raft l' raft' \<Longrightarrow> lg_mLogStoreTerm l' = lg_mLogStoreTerm l"
  unfolding write_progress_def by blast

lemma write_progress_trans:
  assumes "write_progress P xs a r b s" and "write_progress P ys b s c t"
  shows "write_progress P (xs @ ys) a r c t"
proof -
  obtain t1 f1 s1 where 1: "mpsc_items (lg_mPersistQueue a) @ xs = t1 @ mpsc_items (lg_mPersistQueue b)" "map_res (fill_request P) t1 = Inr f1"
    "lg_mBatch a @ f1 = s1 @ lg_mBatch b" "queued_requests s = queued_requests r @ s1" using assms(1) unfolding write_progress_def by blast
  obtain t2 f2 s2 where 2: "mpsc_items (lg_mPersistQueue b) @ ys = t2 @ mpsc_items (lg_mPersistQueue c)" "map_res (fill_request P) t2 = Inr f2"
    "lg_mBatch b @ f2 = s2 @ lg_mBatch c" "queued_requests t = queued_requests s @ s2" using assms(2) unfolding write_progress_def by blast
  have "mpsc_items (lg_mPersistQueue a) @ xs @ ys = (t1 @ t2) @ mpsc_items (lg_mPersistQueue c)" using 1(1) 2(1) by (metis append_assoc)
  moreover have "map_res (fill_request P) (t1 @ t2) = Inr (f1 @ f2)" using 1(2) 2(2) by (simp add: map_res_append)
  moreover have "lg_mBatch a @ f1 @ f2 = (s1 @ s2) @ lg_mBatch c" using 1(3) 2(3) by (metis append_assoc)
  moreover have "queued_requests t = queued_requests r @ s1 @ s2" using 1(4) 2(4) by simp
  moreover have "lg_mLogStoreTerm c = lg_mLogStoreTerm a" "mShouldExit (lg_mPersistQueue c) = mShouldExit (lg_mPersistQueue a)"
    using assms unfolding write_progress_def by auto
  ultimately show ?thesis unfolding write_progress_def
    by (rule_tac x = "t1 @ t2" in exI, rule_tac x = "f1 @ f2" in exI, rule_tac x = "s1 @ s2" in exI) blast
qed

lemma dequeue_progress:
  assumes "LogStore_dequeue P l = Inr l'"
  shows "write_progress P [] l raft l' raft"
proof (cases "mpsc_items (lg_mPersistQueue l)")
  case Nil
  then have "mpsc_dequeue (lg_mPersistQueue l) = Blocked \<or> (\<exists>msg. mpsc_dequeue (lg_mPersistQueue l) = Stopped msg)"
    using mpsc.deq_blocked[OF Nil] mpsc.deq_stopped[OF Nil] by blast
  then have "l' = l" using assms by (elim disjE exE) (simp_all add: LogStore_dequeue_def)
  then show ?thesis by simp
next
  case (Cons pe rest)
  then obtain q where q: "mpsc_dequeue (lg_mPersistQueue l) = Item pe q" "mpsc_items q = rest" "mShouldExit q = mShouldExit (lg_mPersistQueue l)"
    using mpsc.deq_item[OF Cons] by blast
  then obtain cr where cr: "fill_request P pe = Inr cr" "l' = l\<lparr>lg_mPersistQueue := q, lg_mBatch := lg_mBatch l @ [cr]\<rparr>"
    using assms by (auto simp: LogStore_dequeue_def res_bind_eq_Inr)
  have "map_res (fill_request P) [pe] = Inr [cr]" using cr(1) by simp
  then show ?thesis unfolding write_progress_def cr(2) using Cons q
    by (rule_tac x = "[pe]" in exI, rule_tac x = "[cr]" in exI, rule_tac x = "[]" in exI) (simp del: map_res.simps)
qed

lemma dequeue_many_progress: "dequeue_many P n l = Inr l' \<Longrightarrow> write_progress P [] l raft l' raft"
proof (induction n arbitrary: l)
  case (Suc n)
  then obtain l1 where l1: "LogStore_dequeue P l = Inr l1" "dequeue_many P n l1 = Inr l'" by (auto simp: res_bind_eq_Inr)
  from write_progress_trans[OF dequeue_progress[OF l1(1)] Suc.IH[OF l1(2)]] show ?case by simp
qed simp

lemma send_progress: "maySendBatch now l raft = (l', raft') \<Longrightarrow> write_progress P [] l raft l' raft'"
  unfolding write_progress_def
  by (intro exI[of _ "[]"] exI[of _ "if lg_mBatch l' = [] then lg_mBatch l else []"])
    (auto simp: maySendBatch_def Let_def enqueueClientRequests_def queued_requests_def split: if_splits)

lemma round_progress:
  assumes "persist_round P now l raft = Inr (l', raft')"
  shows "write_progress P [] l raft l' raft'"
proof -
  obtain l1 where l1: "(if mpsc_size (lg_mPersistQueue l) \<noteq> 0 then dequeue_many P (mpsc_size (lg_mPersistQueue l)) l
      else if \<not> mpsc_empty (lg_mPersistQueue l) then LogStore_dequeue P l else Inr l) = Inr l1" "maySendBatch now l1 raft = (l', raft')"
    using assms by (auto simp: persist_round_def res_bind_eq_Inr)
  have "write_progress P [] l raft l1 raft"
    using l1(1) dequeue_progress[of P l l1 raft] dequeue_many_progress[of P _ l l1 raft] by (auto split: if_splits)
  from write_progress_trans[OF this send_progress[OF l1(2)]] show ?thesis by simp
qed

lemma persist_progress:
  assumes "EventStore_persistAsync P c es code message s = Inr s'"
  shows "write_progress P (if es = [] then [] else [entry_wanted P (lg_mLogStoreTerm (es_mRaftLogStore s)) c es])
    (es_mRaftLogStore s) raft (es_mRaftLogStore s') raft"
proof (cases "es = []")
  case True
  then show ?thesis using assms by (auto simp: EventStore_persistAsync_def Let_def)
next
  case False
  let ?l = "es_mRaftLogStore s"
  let ?w = "entry_wanted P (lg_mLogStoreTerm ?l) c es"
  have w: "\<lparr>pe_command = c, pe_events = number_events (mt_mId (cmd_mMetaData c)) 0 es,
      pe_clientRequest = \<lparr>cr_mEntry = log_entry_for P c (unat (mt_mId (cmd_mMetaData c))) ?l, cr_mRequestHandle = None\<rparr>\<rparr> = ?w"
    by (simp add: entry_wanted_def log_entry_for_def)
  have "\<not> mShouldExit (lg_mPersistQueue ?l)" and l': "es_mRaftLogStore s' = ?l\<lparr>lg_mPersistQueue := mpsc_push ?w (lg_mPersistQueue ?l)\<rparr>"
    using assms False unfolding EventStore_persistAsync_def LogStore_persistAsync_def Let_def
    by (auto simp: w mpsc_enqueue_def res_bind_eq_Inr split: if_splits)
  then show ?thesis using False unfolding write_progress_def
    by (rule_tac x = "[]" in exI, rule_tac x = "[]" in exI, rule_tac x = "[]" in exI) (simp add: mpsc_items_def mpsc_push_def)
qed

lemma write_run_progress:
  assumes "write_run P acts s raft = Inr (s', raft')"
  shows "write_progress P (entries_wanted P (lg_mLogStoreTerm (es_mRaftLogStore s)) acts) (es_mRaftLogStore s) raft (es_mRaftLogStore s') raft'"
  using assms
proof (induction acts arbitrary: s raft)
  case (Cons act acts)
  show ?case
  proof (cases act)
    case (Persist c es code message)
    then obtain s1 where s1: "EventStore_persistAsync P c es code message s = Inr s1" "write_run P acts s1 raft = Inr (s', raft')"
      using Cons.prems by (auto simp: res_bind_eq_Inr)
    note a = persist_progress[OF s1(1), of raft]
    from write_progress_trans[OF a Cons.IH[OF s1(2)]] show ?thesis by (simp add: Persist write_progress_term[OF a])
  next
    case (Persist_Round now)
    then obtain l1 raft1 where l1: "persist_round P now (es_mRaftLogStore s) raft = Inr (l1, raft1)"
      "write_run P acts (s\<lparr>es_mRaftLogStore := l1\<rparr>) raft1 = Inr (s', raft')" using Cons.prems by (auto simp: res_bind_eq_Inr)
    note a = round_progress[OF l1(1)]
    have "write_progress P (entries_wanted P (lg_mLogStoreTerm (es_mRaftLogStore s)) acts) l1 raft1 (es_mRaftLogStore s') raft'"
      using Cons.IH[OF l1(2)] by (simp add: write_progress_term[OF a])
    from write_progress_trans[OF a this] show ?thesis by (simp add: Persist_Round)
  qed
qed simp

text \<open>The persist thread does not stop the process if what is queued can be encoded, encrypted and is not too large.\<close>

definition can_persist :: "'c store_env \<Rightarrow> log_store \<Rightarrow> bool" where
  "can_persist P l =
     (\<not> mShouldExit (lg_mPersistQueue l) \<and> (\<forall>pe \<in> set (mpsc_items (lg_mPersistQueue l)). \<exists>cr. fill_request P pe = Inr cr))"

lemma dequeue_returns:
  assumes "can_persist P l"
  shows "\<exists>l'. LogStore_dequeue P l = Inr l' \<and> can_persist P l' \<and> mpsc_items (lg_mPersistQueue l') = tl (mpsc_items (lg_mPersistQueue l))"
proof (cases "mpsc_items (lg_mPersistQueue l)")
  case Nil
  then have "mpsc_dequeue (lg_mPersistQueue l) = Blocked" using mpsc.deq_blocked[OF Nil] assms by (simp add: can_persist_def)
  then show ?thesis using assms Nil by (simp add: LogStore_dequeue_def)
next
  case (Cons pe rest)
  obtain q where q: "mpsc_dequeue (lg_mPersistQueue l) = Item pe q" "mpsc_items q = rest" "mShouldExit q = mShouldExit (lg_mPersistQueue l)"
    using mpsc.deq_item[OF Cons] by blast
  obtain cr where "fill_request P pe = Inr cr" using assms Cons by (auto simp: can_persist_def)
  then show ?thesis using q assms Cons by (simp add: LogStore_dequeue_def can_persist_def)
qed

lemma dequeue_many_returns:
  "can_persist P l \<Longrightarrow> \<exists>l'. dequeue_many P n l = Inr l' \<and> can_persist P l' \<and> mpsc_items (lg_mPersistQueue l') = drop n (mpsc_items (lg_mPersistQueue l))"
proof (induction n arbitrary: l)
  case (Suc n)
  obtain l1 where l1: "LogStore_dequeue P l = Inr l1" "can_persist P l1" "mpsc_items (lg_mPersistQueue l1) = tl (mpsc_items (lg_mPersistQueue l))"
    using dequeue_returns[OF Suc.prems] by blast
  then show ?case using Suc.IH[OF l1(2)] by (simp add: drop_Suc)
qed simp

lemma maySendBatch_queue: "maySendBatch now l raft = (l', raft') \<Longrightarrow> lg_mPersistQueue l' = lg_mPersistQueue l"
  by (auto simp: maySendBatch_def Let_def split: if_splits)

lemma round_returns:
  assumes "can_persist P l"
  shows "\<exists>l' raft'. persist_round P now l raft = Inr (l', raft') \<and> can_persist P l'"
proof -
  let ?m = "if mpsc_size (lg_mPersistQueue l) \<noteq> 0 then dequeue_many P (mpsc_size (lg_mPersistQueue l)) l
      else if \<not> mpsc_empty (lg_mPersistQueue l) then LogStore_dequeue P l else Inr l"
  have "\<exists>l1. ?m = Inr l1 \<and> can_persist P l1" using dequeue_many_returns[OF assms] dequeue_returns[OF assms] assms by auto
  then obtain l1 where l1: "?m = Inr l1" "can_persist P l1" by blast
  obtain l' raft' where s: "maySendBatch now l1 raft = (l', raft')" by fastforce
  have "persist_round P now l raft = Inr (l', raft')" unfolding persist_round_def l1(1) using s by simp
  moreover have "can_persist P l'" using l1(2) maySendBatch_queue[OF s] by (simp add: can_persist_def)
  ultimately show ?thesis by blast
qed

lemma persist_returns:
  assumes "can_persist P (es_mRaftLogStore s)"
    and "es \<noteq> [] \<Longrightarrow> \<exists>cr. fill_request P (entry_wanted P (lg_mLogStoreTerm (es_mRaftLogStore s)) c es) = Inr cr"
  shows "\<exists>s'. EventStore_persistAsync P c es code message s = Inr s' \<and> can_persist P (es_mRaftLogStore s')
    \<and> rq_tasks (es_mRaftReplyLoop s') = rq_tasks (es_mRaftReplyLoop s) @
        [\<lparr>rt_index = unat (mt_mId (cmd_mMetaData c)), rt_term = es_mLastCheckedTerm s, rt_handle = cm_mRequestHandle (cmd_mMetaData c),
          rt_code = code, rt_message = message, rt_flag = 0\<rparr>]
    \<and> es_mLastCheckedTerm s' = es_mLastCheckedTerm s"
proof (cases "es = []")
  case True
  then show ?thesis using assms(1) by (simp add: EventStore_persistAsync_def pushTask_def Let_def)
next
  case False
  let ?l = "es_mRaftLogStore s"
  have w: "\<lparr>pe_command = c, pe_events = number_events (mt_mId (cmd_mMetaData c)) 0 es,
      pe_clientRequest = \<lparr>cr_mEntry = log_entry_for P c (unat (mt_mId (cmd_mMetaData c))) ?l, cr_mRequestHandle = None\<rparr>\<rparr>
      = entry_wanted P (lg_mLogStoreTerm ?l) c es" by (simp add: entry_wanted_def log_entry_for_def)
  show ?thesis using False assms unfolding EventStore_persistAsync_def LogStore_persistAsync_def Let_def can_persist_def
    by (auto simp: w mpsc_enqueue_def pushTask_def mpsc_items_def mpsc_push_def)
qed

lemma write_run_returns:
  assumes "can_persist P (es_mRaftLogStore s)"
    and "\<forall>pe \<in> set (entries_wanted P (lg_mLogStoreTerm (es_mRaftLogStore s)) acts). \<exists>cr. fill_request P pe = Inr cr"
  shows "\<exists>s' raft'. write_run P acts s raft = Inr (s', raft')"
  using assms
proof (induction acts arbitrary: s raft)
  case (Cons act acts)
  show ?case
  proof (cases act)
    case (Persist c es code message)
    have "es \<noteq> [] \<Longrightarrow> \<exists>cr. fill_request P (entry_wanted P (lg_mLogStoreTerm (es_mRaftLogStore s)) c es) = Inr cr"
      using Cons.prems(2) Persist by simp
    then obtain s1 where s1: "EventStore_persistAsync P c es code message s = Inr s1" "can_persist P (es_mRaftLogStore s1)"
      using persist_returns[OF Cons.prems(1), of es c code message] by blast
    then show ?thesis using Cons.IH[OF s1(2)] Cons.prems(2) write_progress_term[OF persist_progress[OF s1(1)]] by (simp add: Persist)
  next
    case (Persist_Round now)
    obtain l1 raft1 where l1: "persist_round P now (es_mRaftLogStore s) raft = Inr (l1, raft1)" "can_persist P l1"
      using round_returns[OF Cons.prems(1)] by blast
    then show ?thesis using Cons.IH[of "s\<lparr>es_mRaftLogStore := l1\<rparr>" raft1] Cons.prems(2) write_progress_term[OF round_progress[OF l1(1)]]
      by (simp add: Persist_Round)
  qed
qed simp

text \<open>
  C36. Nothing that is persisted is lost, reordered or repeated on its way to the Raft node. For any sequence
  of commands handed to the event store and rounds of the persist thread, if the queue runs and the entries
  asked for can be encoded and encrypted, the sequence runs through, and the requests handed to the node,
  then the batch being filled, then the queue are together exactly the entries asked for, in the order of
  the calls, each filled with its command and its numbered events.
\<close>

theorem persisted_commands_reach_raft_in_order:
  assumes "can_persist P (es_mRaftLogStore s)"
    and "\<forall>pe \<in> set (entries_wanted P (lg_mLogStoreTerm (es_mRaftLogStore s)) acts). \<exists>cr. fill_request P pe = Inr cr"
  shows "\<exists>s' raft' taken filled sent. write_run P acts s raft = Inr (s', raft')
    \<and> mpsc_items (lg_mPersistQueue (es_mRaftLogStore s)) @ entries_wanted P (lg_mLogStoreTerm (es_mRaftLogStore s)) acts
        = taken @ mpsc_items (lg_mPersistQueue (es_mRaftLogStore s'))
    \<and> map_res (fill_request P) taken = Inr filled
    \<and> lg_mBatch (es_mRaftLogStore s) @ filled = sent @ lg_mBatch (es_mRaftLogStore s')
    \<and> queued_requests raft' = queued_requests raft @ sent"
proof -
  obtain s' raft' where run: "write_run P acts s raft = Inr (s', raft')" using write_run_returns[OF assms] by blast
  with write_run_progress[OF run] show ?thesis unfolding write_progress_def by blast
qed

section \<open>Everything persisted is sent\<close>

definition queue_counted :: "'a mpsc \<Rightarrow> bool" where
  "queue_counted q = (mQueueSize q = of_nat (length (mpsc_items q)) \<and> length (mpsc_items q) < 2 ^ 64)"

lemma counted_empty: "queue_counted q \<Longrightarrow> mpsc_empty q \<longleftrightarrow> mpsc_items q = []"
proof -
  assume q: "queue_counted q"
  then have "unat (mQueueSize q) = length (mpsc_items q)" by (simp add: queue_counted_def unat_of_nat take_bit_nat_eq_self)
  then show ?thesis by (auto simp: mpsc_empty_def unat_eq_0[symmetric])
qed

lemma take_front:
  assumes "can_persist P l" and "queue_counted (lg_mPersistQueue l)" and "mpsc_items (lg_mPersistQueue l) \<noteq> []"
  shows "\<exists>l'. LogStore_dequeue P l = Inr l' \<and> can_persist P l' \<and> queue_counted (lg_mPersistQueue l')
    \<and> lg_mLastSentTimeInNano l' = lg_mLastSentTimeInNano l
    \<and> (if mConsumerQueue (lg_mPersistQueue l) = []
       then mConsumerQueue (lg_mPersistQueue l') = tl (mProducerQueue (lg_mPersistQueue l)) \<and> mProducerQueue (lg_mPersistQueue l') = []
       else mConsumerQueue (lg_mPersistQueue l') = tl (mConsumerQueue (lg_mPersistQueue l))
         \<and> mProducerQueue (lg_mPersistQueue l') = mProducerQueue (lg_mPersistQueue l))"
proof -
  let ?q = "lg_mPersistQueue l"
  obtain l' where l': "LogStore_dequeue P l = Inr l'" "can_persist P l'" using dequeue_returns[OF assms(1)] by blast
  obtain pe q where d: "mpsc_dequeue ?q = Item pe q" using mpsc.deq_item[of ?q "hd (mpsc_items ?q)" "tl (mpsc_items ?q)"] assms(3) by auto
  then have q: "lg_mPersistQueue l' = q" "lg_mLastSentTimeInNano l' = lg_mLastSentTimeInNano l"
    using l'(1) by (auto simp: LogStore_dequeue_def res_bind_eq_Inr)
  have shape: "if mConsumerQueue ?q = [] then mConsumerQueue q = tl (mProducerQueue ?q) \<and> mProducerQueue q = []
      else mConsumerQueue q = tl (mConsumerQueue ?q) \<and> mProducerQueue q = mProducerQueue ?q" "mQueueSize q = mQueueSize ?q - 1"
    using d by (auto simp: mpsc_dequeue_def mpsc_pop_def mpsc_swap_def split: if_splits list.splits)
  then have "Suc (length (mpsc_items q)) = length (mpsc_items ?q)" using assms(3)
    by (cases "mConsumerQueue ?q"; cases "mProducerQueue ?q") (auto simp: mpsc_items_def)
  then have len: "length (mpsc_items ?q) = Suc (length (mpsc_items q))" by simp
  then have "queue_counted q" using assms(2) shape(2) unfolding queue_counted_def len by simp
  then show ?thesis using l' q shape(1) by auto
qed

lemma take_consumer:
  assumes "can_persist P l" and "queue_counted (lg_mPersistQueue l)" and "n = mpsc_size (lg_mPersistQueue l)"
  shows "\<exists>l'. dequeue_many P n l = Inr l' \<and> can_persist P l' \<and> queue_counted (lg_mPersistQueue l')
    \<and> lg_mLastSentTimeInNano l' = lg_mLastSentTimeInNano l
    \<and> mConsumerQueue (lg_mPersistQueue l') = [] \<and> mProducerQueue (lg_mPersistQueue l') = mProducerQueue (lg_mPersistQueue l)"
  using assms
proof (induction n arbitrary: l)
  case (Suc n)
  then have ne: "mConsumerQueue (lg_mPersistQueue l) \<noteq> []" by (auto simp: mpsc_size_def)
  then obtain l1 where l1: "LogStore_dequeue P l = Inr l1" "can_persist P l1" "queue_counted (lg_mPersistQueue l1)"
    "lg_mLastSentTimeInNano l1 = lg_mLastSentTimeInNano l" "mConsumerQueue (lg_mPersistQueue l1) = tl (mConsumerQueue (lg_mPersistQueue l))"
    "mProducerQueue (lg_mPersistQueue l1) = mProducerQueue (lg_mPersistQueue l)"
    using take_front[OF Suc.prems(1,2)] by (auto simp: mpsc_items_def)
  then have "n = mpsc_size (lg_mPersistQueue l1)" using Suc.prems(3) ne by (simp add: mpsc_size_def)
  from Suc.IH[OF l1(2,3) this] show ?case using l1 by simp
qed (simp add: mpsc_size_def)

text \<open>What a round leaves in the two lists of the queue.\<close>

lemma round_drains:
  assumes "can_persist P l" and "queue_counted (lg_mPersistQueue l)"
  shows "\<exists>l' raft'. persist_round P now l raft = Inr (l', raft') \<and> can_persist P l' \<and> queue_counted (lg_mPersistQueue l')
    \<and> lg_mLastSentTimeInNano l' \<in> {lg_mLastSentTimeInNano l, now}
    \<and> (mpsc_items (lg_mPersistQueue l) = [] \<longrightarrow> mpsc_items (lg_mPersistQueue l') = []
         \<and> (lg_mLastSentTimeInNano l + kMaxDelayInMs * 1000000 \<le> now \<and> now < 2 ^ 64 \<longrightarrow> lg_mBatch l' = []))
    \<and> (if mConsumerQueue (lg_mPersistQueue l) = [] then mProducerQueue (lg_mPersistQueue l') = []
       else mConsumerQueue (lg_mPersistQueue l') = [])
    \<and> (mProducerQueue (lg_mPersistQueue l) = [] \<longrightarrow> mProducerQueue (lg_mPersistQueue l') = [])"
proof -
  let ?q = "lg_mPersistQueue l"
  let ?m = "if mpsc_size ?q \<noteq> 0 then dequeue_many P (mpsc_size ?q) l else if \<not> mpsc_empty ?q then LogStore_dequeue P l else Inr l"
  have "\<exists>l1. ?m = Inr l1 \<and> can_persist P l1 \<and> queue_counted (lg_mPersistQueue l1) \<and> lg_mLastSentTimeInNano l1 = lg_mLastSentTimeInNano l
      \<and> (mpsc_items ?q = [] \<longrightarrow> mpsc_items (lg_mPersistQueue l1) = [])
      \<and> (if mConsumerQueue ?q = [] then mProducerQueue (lg_mPersistQueue l1) = [] else mConsumerQueue (lg_mPersistQueue l1) = [])
      \<and> (mProducerQueue ?q = [] \<longrightarrow> mProducerQueue (lg_mPersistQueue l1) = [])"
  proof (cases "mConsumerQueue ?q = []")
    case False
    then show ?thesis using take_consumer[OF assms refl] by (auto simp: mpsc_size_def mpsc_items_def)
  next
    case True
    then show ?thesis using take_front[OF assms] counted_empty[OF assms(2)] assms
      by (cases "mProducerQueue ?q = []") (auto simp: mpsc_size_def mpsc_items_def)
  qed
  then obtain l1 where l1: "?m = Inr l1" "can_persist P l1" "queue_counted (lg_mPersistQueue l1)" "lg_mLastSentTimeInNano l1 = lg_mLastSentTimeInNano l"
      "mpsc_items ?q = [] \<longrightarrow> mpsc_items (lg_mPersistQueue l1) = []"
      "if mConsumerQueue ?q = [] then mProducerQueue (lg_mPersistQueue l1) = [] else mConsumerQueue (lg_mPersistQueue l1) = []"
      "mProducerQueue ?q = [] \<longrightarrow> mProducerQueue (lg_mPersistQueue l1) = []"
    by blast
  obtain l' raft' where s: "maySendBatch now l1 raft = (l', raft')" by fastforce
  have run: "persist_round P now l raft = Inr (l', raft')" unfolding persist_round_def l1(1) using s by simp
  note q = maySendBatch_queue[OF s]
  have "lg_mLastSentTimeInNano l' \<in> {lg_mLastSentTimeInNano l, now}" using s l1(4) by (auto simp: maySendBatch_def Let_def split: if_splits)
  moreover have "lg_mBatch l' = []" if late: "lg_mLastSentTimeInNano l + kMaxDelayInMs * 1000000 \<le> now" "now < 2 ^ 64"
  proof -
    have eq: "now + (2 ^ 64 - lg_mLastSentTimeInNano l) = (now - lg_mLastSentTimeInNano l) + 2 ^ 64" using late by simp
    have "(now + (2 ^ 64 - lg_mLastSentTimeInNano l)) mod 2 ^ 64 = now - lg_mLastSentTimeInNano l" unfolding eq using late(2) by simp
    then show ?thesis using s late l1(4) by (auto simp: maySendBatch_def Let_def split: if_splits)
  qed
  moreover have "can_persist P l'" using l1(2) q by (simp add: can_persist_def)
  ultimately show ?thesis using run l1(3,5,6,7) q by auto
qed

lemma three_rounds_empty_the_queue:
  assumes l: "can_persist P l" "queue_counted (lg_mPersistQueue l)" and t: "lg_mLastSentTimeInNano l \<le> n1" "n1 \<le> n2" "n2 \<le> n3"
  shows "\<exists>l1 r1 l2 r2 l3 r3. persist_round P n1 l raft = Inr (l1, r1) \<and> persist_round P n2 l1 r1 = Inr (l2, r2)
    \<and> persist_round P n3 l2 r2 = Inr (l3, r3) \<and> can_persist P l3 \<and> queue_counted (lg_mPersistQueue l3)
    \<and> mpsc_items (lg_mPersistQueue l3) = [] \<and> lg_mLastSentTimeInNano l3 \<le> n3"
proof -
  obtain l1 r1 where 1: "persist_round P n1 l raft = Inr (l1, r1)" "can_persist P l1" "queue_counted (lg_mPersistQueue l1)"
    "lg_mLastSentTimeInNano l1 \<in> {lg_mLastSentTimeInNano l, n1}"
    "if mConsumerQueue (lg_mPersistQueue l) = [] then mProducerQueue (lg_mPersistQueue l1) = [] else mConsumerQueue (lg_mPersistQueue l1) = []"
    using round_drains[OF l, of n1 raft] by blast
  obtain l2 r2 where 2: "persist_round P n2 l1 r1 = Inr (l2, r2)" "can_persist P l2" "queue_counted (lg_mPersistQueue l2)"
    "lg_mLastSentTimeInNano l2 \<in> {lg_mLastSentTimeInNano l1, n2}"
    "if mConsumerQueue (lg_mPersistQueue l1) = [] then mProducerQueue (lg_mPersistQueue l2) = [] else mConsumerQueue (lg_mPersistQueue l2) = []"
    "mProducerQueue (lg_mPersistQueue l1) = [] \<longrightarrow> mProducerQueue (lg_mPersistQueue l2) = []"
    using round_drains[OF 1(2,3), of n2 r1] by blast
  obtain l3 r3 where 3: "persist_round P n3 l2 r2 = Inr (l3, r3)" "can_persist P l3" "queue_counted (lg_mPersistQueue l3)"
    "lg_mLastSentTimeInNano l3 \<in> {lg_mLastSentTimeInNano l2, n3}"
    "mpsc_items (lg_mPersistQueue l2) = [] \<longrightarrow> mpsc_items (lg_mPersistQueue l3) = []"
    "if mConsumerQueue (lg_mPersistQueue l2) = [] then mProducerQueue (lg_mPersistQueue l3) = [] else mConsumerQueue (lg_mPersistQueue l3) = []"
    "mProducerQueue (lg_mPersistQueue l2) = [] \<longrightarrow> mProducerQueue (lg_mPersistQueue l3) = []"
    using round_drains[OF 2(2,3), of n3 r2] by blast
  have "mProducerQueue (lg_mPersistQueue l2) = []" using 1(5) 2(5,6) by (auto split: if_splits)
  then have "mpsc_items (lg_mPersistQueue l3) = []" using 3(5-7) by (auto simp: mpsc_items_def split: if_splits)
  moreover have "lg_mLastSentTimeInNano l3 \<le> n3" using 1(4) 2(4) 3(4) t by auto
  ultimately show ?thesis using 1(1) 2(1) 3(1-3) by blast
qed

text \<open>
  C37. What is persisted is sent. Whatever is queued or in the batch, after three rounds of the persist thread
  and a fourth one at least 20 ms after the third, everything has been handed to the Raft node: the queue
  and the batch are empty. The size the queue keeps is a 64-bit counter of its items.
\<close>

theorem persisted_commands_are_sent:
  assumes "can_persist P (es_mRaftLogStore s)" and "queue_counted (lg_mPersistQueue (es_mRaftLogStore s))"
    and "lg_mLastSentTimeInNano (es_mRaftLogStore s) \<le> n1" and "n1 \<le> n2" and "n2 \<le> n3"
    and "n3 + 20000000 \<le> n4" and "n4 < 2 ^ 64"
  shows "\<exists>s' raft' filled. write_run P (map Persist_Round [n1, n2, n3, n4]) s raft = Inr (s', raft')
    \<and> map_res (fill_request P) (mpsc_items (lg_mPersistQueue (es_mRaftLogStore s))) = Inr filled
    \<and> queued_requests raft' = queued_requests raft @ lg_mBatch (es_mRaftLogStore s) @ filled
    \<and> mpsc_items (lg_mPersistQueue (es_mRaftLogStore s')) = [] \<and> lg_mBatch (es_mRaftLogStore s') = []"
proof -
  let ?l = "es_mRaftLogStore s"
  obtain l1 r1 l2 r2 l3 r3 where 3: "persist_round P n1 ?l raft = Inr (l1, r1)" "persist_round P n2 l1 r1 = Inr (l2, r2)"
    "persist_round P n3 l2 r2 = Inr (l3, r3)" "can_persist P l3" "queue_counted (lg_mPersistQueue l3)"
    "mpsc_items (lg_mPersistQueue l3) = []" "lg_mLastSentTimeInNano l3 \<le> n3"
    using three_rounds_empty_the_queue[OF assms(1-5)] by blast
  obtain l4 r4 where 4: "persist_round P n4 l3 r3 = Inr (l4, r4)" "mpsc_items (lg_mPersistQueue l4) = []"
    "lg_mLastSentTimeInNano l3 + kMaxDelayInMs * 1000000 \<le> n4 \<and> n4 < 2 ^ 64 \<longrightarrow> lg_mBatch l4 = []"
    using round_drains[OF 3(4,5), of n4 r3] 3(6) by blast
  have batch: "lg_mBatch l4 = []" using 4(3) 3(7) assms(6,7) by (simp add: kMaxDelayInMs_def)
  let ?s = "s\<lparr>es_mRaftLogStore := l4\<rparr>"
  have run: "write_run P (map Persist_Round [n1, n2, n3, n4]) s raft = Inr (?s, r4)" using 3(1-3) 4(1) by simp
  obtain taken filled sent where "mpsc_items (lg_mPersistQueue ?l) @ [] = taken @ mpsc_items (lg_mPersistQueue l4)"
    "map_res (fill_request P) taken = Inr filled" "lg_mBatch ?l @ filled = sent @ lg_mBatch l4" "queued_requests r4 = queued_requests raft @ sent"
    using write_run_progress[OF run] unfolding write_progress_def by auto
  then show ?thesis using run 4(2) batch by (intro exI[of _ ?s] exI[of _ r4] exI[of _ filled]) simp
qed

lemma number_events_wf: "\<forall>e \<in> set es. Event_wf e \<Longrightarrow> \<forall>e \<in> set (number_events i n es). Event_wf e"
proof (induction es arbitrary: n)
  case (Cons e es)
  have "Event_wf (e\<lparr>ev_mMetaData := (ev_mMetaData e)\<lparr>mt_mId := n, em_mCommandId := i\<rparr>\<rparr>)" using Cons.prems by (simp add: Event_wf_def)
  then show ?case using Cons.IH[of "n + 1"] Cons.prems by simp
qed simp

lemma example_fillable: "\<forall>e \<in> set es. Event_wf e \<Longrightarrow> \<exists>cr. fill_request example_store_env (entry_wanted example_store_env trm c es) = Inr cr"
proof -
  assume "\<forall>e \<in> set es. Event_wf e"
  then have wf: "\<forall>e \<in> set (number_events (mt_mId (cmd_mMetaData c)) 0 es). Event_wf e" by (rule number_events_wf)
  have "le_version (log_entry_for example_store_env c (unat (mt_mId (cmd_mMetaData c))) (log_store_new\<lparr>lg_mLogStoreTerm := trm\<rparr>)) = 3"
    by (simp add: log_entry_for_def example_store_env_def)
  from example_fill[OF this wf, of c] show ?thesis by (auto simp: fill_request_def entry_wanted_def)
qed

text \<open>Two commands with events, one refused command without, and rounds in between.\<close>

definition example_writes :: "write_action list" where
  "example_writes =
     [Persist example_create example_events 200 ''Success'', Persist_Round 5, Persist example_create [] 400 ''refused'',
      Persist example_create example_events 200 ''Success'', Persist_Round 9]"

definition example_raft :: "mem_log raft_core" where
  "example_raft =
     \<lparr>rc_mMaxBatchSize = 100, rc_mMaxLenInBytes = 1000, rc_mMaxDecrStep = 5, rc_mPeers = [], rc_selfId = 1, rc_selfAddress = ''a'',
      rc_mLeaderId = 1, rc_mElectionTimePointInNano = 0, rc_mCommitIndex = 0, rc_mBeginIndex = 0, rc_mRaftRole = Leader, rc_mLog = mem_new,
      rc_mPendingClientRequests = [], rc_mAeRvQueue = [], rc_mClientRequestsQueue = [], rc_mClients = []\<rparr>"

lemma fresh_store_can_persist: "can_persist P (es_mRaftLogStore event_store_new)" "queue_counted (lg_mPersistQueue (es_mRaftLogStore event_store_new))"
  by (simp_all add: can_persist_def queue_counted_def event_store_new_def log_store_new_def mpsc_new_def mpsc_items_def)

lemma example_writes_fillable:
  "\<forall>pe \<in> set (entries_wanted example_store_env trm example_writes). \<exists>cr. fill_request example_store_env pe = Inr cr"
  using example_fillable[OF example_events_wf] by (simp add: example_writes_def)

theorem persisted_commands_reach_raft_in_order_witness:
  "\<exists>s' raft' taken filled sent. write_run example_store_env example_writes event_store_new example_raft = Inr (s', raft')
     \<and> entries_wanted example_store_env 0 example_writes = taken @ mpsc_items (lg_mPersistQueue (es_mRaftLogStore s'))
     \<and> map_res (fill_request example_store_env) taken = Inr filled \<and> filled = sent @ lg_mBatch (es_mRaftLogStore s')
     \<and> queued_requests raft' = sent"
  using persisted_commands_reach_raft_in_order[OF fresh_store_can_persist(1) example_writes_fillable, of example_raft]
  by (simp add: event_store_new_def log_store_new_def mpsc_new_def mpsc_items_def queued_requests_def example_raft_def)

definition example_queued :: event_store where
  "example_queued = event_store_new\<lparr>es_mRaftLogStore := log_store_new\<lparr>lg_mPersistQueue :=
     mpsc_push (entry_wanted example_store_env 2 example_create example_events) mpsc_new\<rparr>\<rparr>"

theorem persisted_commands_are_sent_witness:
  "\<exists>s' raft' filled. write_run example_store_env (map Persist_Round [10, 11, 12, 20000012]) example_queued example_raft = Inr (s', raft')
     \<and> length filled = 1 \<and> queued_requests raft' = filled \<and> lg_mBatch (es_mRaftLogStore s') = []"
proof -
  have items: "mpsc_items (lg_mPersistQueue (es_mRaftLogStore example_queued)) = [entry_wanted example_store_env 2 example_create example_events]"
    "mQueueSize (lg_mPersistQueue (es_mRaftLogStore example_queued)) = 1" "\<not> mShouldExit (lg_mPersistQueue (es_mRaftLogStore example_queued))"
    "lg_mBatch (es_mRaftLogStore example_queued) = []" "lg_mLastSentTimeInNano (es_mRaftLogStore example_queued) = 0"
    by (simp_all add: example_queued_def mpsc_items_def mpsc_push_def mpsc_new_def log_store_new_def)
  have "can_persist example_store_env (es_mRaftLogStore example_queued)" "queue_counted (lg_mPersistQueue (es_mRaftLogStore example_queued))"
    using items example_fillable[OF example_events_wf] by (simp_all add: can_persist_def queue_counted_def)
  note step = persisted_commands_are_sent[OF this]
  have "(0 :: nat) \<le> 10" "(10 :: nat) \<le> 11" "(11 :: nat) \<le> 12" "12 + 20000000 \<le> (20000012 :: nat)" "(20000012 :: nat) < 2 ^ 64" by simp_all
  with step[of 10 11 12 20000012 example_raft] obtain s' raft' filled where
    r: "write_run example_store_env (map Persist_Round [10, 11, 12, 20000012]) example_queued example_raft = Inr (s', raft')"
    "map_res (fill_request example_store_env) [entry_wanted example_store_env 2 example_create example_events] = Inr filled"
    "queued_requests raft' = queued_requests example_raft @ filled" "lg_mBatch (es_mRaftLogStore s') = []"
    unfolding items(1,4,5) append_Nil by blast
  have "length filled = 1" using map_res_length[OF r(2)] by simp
  moreover have "queued_requests example_raft = []" by (simp add: queued_requests_def example_raft_def)
  ultimately show ?thesis using r by auto
qed

end
