(* ===== verification/Segment_File.thy ===== *)
theory Segment_File
  imports Raft_Log Crypto_Util
begin

text \<open>
  One segment of the persistent Raft log: \<^verbatim>\<open>src/src/infra/raft/storage/Segment.h\<close> and \<^verbatim>\<open>Segment.cpp\<close>.
  A segment is a pair of files mapped into memory, the serialised entries and an array of fixed-size
  meta records. The mappings are shared, so what is written to them is what the files hold.

  The generated serialiser of log entries and OpenSSL are parameters. Calls of the operating system
  succeed; an access outside a mapping is a fault. Indices and offsets are natural numbers, and the
  first index of a segment is positive.
\<close>

section \<open>Parameters and state\<close>

record 'c seg_env =
  sv_serialize :: "LogEntry \<Rightarrow> string"
  sv_parse :: "string \<Rightarrow> LogEntry option"
  sv_openssl :: "'c openssl"
  sv_crypto :: CryptoUtil

abbreviation byteSizeLong :: "'c seg_env \<Rightarrow> LogEntry \<Rightarrow> nat" where
  "byteSizeLong P e \<equiv> length (sv_serialize P e)"

abbreviation isEnabled :: "'c seg_env \<Rightarrow> bool" where
  "isEnabled P \<equiv> cu_mEnabled (sv_crypto P)"

record LogMeta =
  lm_offset :: nat
  lm_length :: nat
  lm_term :: nat
  lm_index :: nat
  lm_digest :: string

definition no_digest :: string where
  "no_digest = replicate 32 (CHR 0x00)"

definition zero_meta :: LogMeta where
  "zero_meta = \<lparr>lm_offset = 0, lm_length = 0, lm_term = 0, lm_index = 0, lm_digest = no_digest\<rparr>"

text \<open>\<^verbatim>\<open>sizeof(LogMeta)\<close>: four 64-bit numbers and 32 bytes.\<close>

definition sizeof_LogMeta :: nat where
  "sizeof_LogMeta = 64"

record Segment =
  sg_mDataSizeLimit :: nat
  sg_mDataOffset :: nat
  sg_mDataMem :: string
  sg_mMetaSizeLimit :: nat
  sg_mMetaOffset :: nat
  sg_mMetaMem :: "LogMeta list"
  sg_mFirstIndex :: nat
  sg_mLastIndex :: nat
  sg_mIsActive :: bool
  sg_mRecentUsedSecKeyIndex :: nat

text \<open>A pair of files of the log directory: the two paths and the two contents.\<close>

record file_pair =
  fp_dataPath :: string
  fp_metaPath :: string
  fp_data :: string
  fp_meta :: "LogMeta list"

section \<open>File names\<close>

definition dataFileNameForActiveSegment :: "nat \<Rightarrow> string" where
  "dataFileNameForActiveSegment firstIndex = ''segment_in_progress_'' @ to_string firstIndex @ ''.data''"

definition metaFileNameForActiveSegment :: "nat \<Rightarrow> string" where
  "metaFileNameForActiveSegment firstIndex = ''segment_in_progress_'' @ to_string firstIndex @ ''.meta''"

definition dataFileNameForClosedSegment :: "nat \<Rightarrow> nat \<Rightarrow> string" where
  "dataFileNameForClosedSegment firstIndex lastIndex =
     ''segment_'' @ to_string firstIndex @ ''_'' @ to_string lastIndex @ ''.data''"

definition metaFileNameForClosedSegment :: "nat \<Rightarrow> nat \<Rightarrow> string" where
  "metaFileNameForClosedSegment firstIndex lastIndex =
     ''segment_'' @ to_string firstIndex @ ''_'' @ to_string lastIndex @ ''.meta''"

text \<open>The paths of a segment's files, in the directory prefix \<^verbatim>\<open>mLogDir\<close>, and the files as the directory has them.\<close>

definition seg_dataPath :: "string \<Rightarrow> Segment \<Rightarrow> string" where
  "seg_dataPath logDir s =
     logDir @ (if sg_mIsActive s then dataFileNameForActiveSegment (sg_mFirstIndex s)
               else dataFileNameForClosedSegment (sg_mFirstIndex s) (sg_mLastIndex s))"

definition seg_metaPath :: "string \<Rightarrow> Segment \<Rightarrow> string" where
  "seg_metaPath logDir s =
     logDir @ (if sg_mIsActive s then metaFileNameForActiveSegment (sg_mFirstIndex s)
               else metaFileNameForClosedSegment (sg_mFirstIndex s) (sg_mLastIndex s))"

definition files_of :: "string \<Rightarrow> Segment \<Rightarrow> file_pair" where
  "files_of logDir s =
     \<lparr>fp_dataPath = seg_dataPath logDir s, fp_metaPath = seg_metaPath logDir s,
      fp_data = sg_mDataMem s, fp_meta = sg_mMetaMem s\<rparr>"

section \<open>Memory\<close>

definition write_mem :: "nat \<Rightarrow> 'a list \<Rightarrow> 'a list \<Rightarrow> 'a list res" where
  "write_mem off xs mem =
     (if off + length xs \<le> length mem then Inr (take off mem @ xs @ drop (off + length xs) mem) else Inl Bad_Access)"

definition read_mem :: "nat \<Rightarrow> nat \<Rightarrow> 'a list \<Rightarrow> 'a list res" where
  "read_mem off n mem = (if off + n \<le> length mem then Inr (take n (drop off mem)) else Inl Bad_Access)"

section \<open>Creating, recovering and closing\<close>

text \<open>The constructor of a new active segment: \<^verbatim>\<open>setFileSize\<close> wants whole pages, and an empty file cannot be mapped.\<close>

definition createActiveSegment :: "nat \<Rightarrow> nat \<Rightarrow> nat \<Rightarrow> Segment res" where
  "createActiveSegment firstIndex maxDataSize maxMetaSize =
     res_bind (c_assert (maxDataSize mod 4096 = 0 \<and> 0 < maxDataSize))
       (\<lambda>_. res_bind (c_assert (maxMetaSize mod 4096 = 0 \<and> 0 < maxMetaSize))
         (\<lambda>_. Inr \<lparr>sg_mDataSizeLimit = maxDataSize, sg_mDataOffset = 0,
                   sg_mDataMem = replicate maxDataSize (CHR 0x00),
                   sg_mMetaSizeLimit = maxMetaSize, sg_mMetaOffset = 0,
                   sg_mMetaMem = replicate (maxMetaSize div sizeof_LogMeta) zero_meta,
                   sg_mFirstIndex = firstIndex, sg_mLastIndex = firstIndex - 1, sg_mIsActive = True,
                   sg_mRecentUsedSecKeyIndex = 0\<rparr>))"

text \<open>The two constructors used for recovery, which map nothing yet.\<close>

definition Segment_unopened :: "nat \<Rightarrow> nat \<Rightarrow> bool \<Rightarrow> Segment" where
  "Segment_unopened firstIndex lastIndex isActive =
     \<lparr>sg_mDataSizeLimit = 0, sg_mDataOffset = 0, sg_mDataMem = [], sg_mMetaSizeLimit = 0, sg_mMetaOffset = 0,
      sg_mMetaMem = [], sg_mFirstIndex = firstIndex, sg_mLastIndex = lastIndex, sg_mIsActive = isActive,
      sg_mRecentUsedSecKeyIndex = 0\<rparr>"

definition Segment_active :: "nat \<Rightarrow> Segment" where
  "Segment_active firstIndex = Segment_unopened firstIndex (firstIndex - 1) True"

definition Segment_closed :: "nat \<Rightarrow> nat \<Rightarrow> Segment" where
  "Segment_closed firstIndex lastIndex = Segment_unopened firstIndex lastIndex False"

text \<open>The scan over the meta records: it ends at the first one whose index is not the next.\<close>

fun scan_meta :: "nat \<Rightarrow> LogMeta list \<Rightarrow> nat" where
  "scan_meta lastIndex [] = lastIndex"
| "scan_meta lastIndex (m # ms) = (if lm_index m = lastIndex + 1 then scan_meta (lastIndex + 1) ms else lastIndex)"

definition isEmpty :: "nat \<Rightarrow> nat \<Rightarrow> bool" where
  "isEmpty firstIndex lastIndex = (lastIndex + 1 = firstIndex)"

definition recoverActiveOrClosedSegment :: "string \<Rightarrow> file_pair list \<Rightarrow> Segment \<Rightarrow> Segment res" where
  "recoverActiveOrClosedSegment logDir dir s =
     (case find (\<lambda>f. fp_dataPath f = seg_dataPath logDir s \<and> fp_metaPath f = seg_metaPath logDir s) dir of
        None \<Rightarrow> Inl Assertion
      | Some f \<Rightarrow>
          let dataLimit = length (fp_data f); metaLimit = sizeof_LogMeta * length (fp_meta f);
              lastIndex = scan_meta (sg_mFirstIndex s - 1) (fp_meta f);
              metaOffset = (lastIndex + 1 - sg_mFirstIndex s) * sizeof_LogMeta;
              lastMeta = fp_meta f ! (lastIndex - sg_mFirstIndex s);
              dataOffset = (if isEmpty (sg_mFirstIndex s) lastIndex then 0 else lm_offset lastMeta + lm_length lastMeta) in
          res_bind (c_assert (0 < dataLimit))
            (\<lambda>_. res_bind (c_assert (0 < metaLimit))
              (\<lambda>_. res_bind (c_assert (sg_mIsActive s \<or> lastIndex = sg_mLastIndex s))
                (\<lambda>_. res_bind (c_assert (metaOffset \<le> metaLimit))
                  (\<lambda>_. res_bind (c_assert (dataOffset \<le> dataLimit))
                    (\<lambda>_. Inr (s\<lparr>sg_mDataSizeLimit := dataLimit, sg_mDataOffset := dataOffset,
                                sg_mDataMem := fp_data f, sg_mMetaSizeLimit := metaLimit,
                                sg_mMetaOffset := metaOffset, sg_mMetaMem := fp_meta f,
                                sg_mLastIndex := lastIndex\<rparr>)))))))"

text \<open>Closing renames both files, which the paths of the result show.\<close>

definition Segment_closeActiveSegment :: "Segment \<Rightarrow> Segment res" where
  "Segment_closeActiveSegment s =
     res_bind (c_assert (sg_mIsActive s)) (\<lambda>_. Inr (s\<lparr>sg_mIsActive := False\<rparr>))"

text \<open>Dropping renames both files to names that no longer look like a segment; \<open>ts\<close> is the clock.\<close>

definition dropSegment :: "string \<Rightarrow> nat \<Rightarrow> Segment \<Rightarrow> file_pair" where
  "dropSegment logDir ts s =
     (files_of logDir s)\<lparr>fp_dataPath := seg_dataPath logDir s @ ''.dropped.'' @ to_string ts,
                         fp_metaPath := seg_metaPath logDir s @ ''.dropped.'' @ to_string ts\<rparr>"

section \<open>Appending\<close>

definition shouldRoll :: "'c seg_env \<Rightarrow> LogEntry list \<Rightarrow> Segment \<Rightarrow> bool res" where
  "shouldRoll P entries s =
     res_bind (c_assert (sg_mIsActive s))
       (\<lambda>_.
         let metaLen = length entries * sizeof_LogMeta in
         if sg_mMetaOffset s + metaLen > sg_mMetaSizeLimit s then Inr True
         else
           let dataLen = sum_list (map (byteSizeLong P) entries) in
           Inr (sg_mDataOffset s + dataLen > sg_mDataSizeLimit s))"

definition createHMAC :: "'c seg_env \<Rightarrow> string \<Rightarrow> nat \<Rightarrow> LogMeta \<Rightarrow> LogMeta res" where
  "createHMAC P mem version meta =
     (if \<not> isEnabled P then Inr meta
      else
        res_bind (read_mem (lm_offset meta) (lm_length meta) mem)
          (\<lambda>bytes. res_bind (CryptoUtil_hmac (sv_openssl P) (sv_crypto P) (to_string (lm_index meta) @ bytes) version)
            (\<lambda>digest. res_bind (c_assert (length digest = 32)) (\<lambda>_. Inr (meta\<lparr>lm_digest := digest\<rparr>)))))"

text \<open>An entry without a key version is signed with the oldest key.\<close>

definition hmac_version :: "'c seg_env \<Rightarrow> LogEntry \<Rightarrow> nat res" where
  "hmac_version P entry =
     (if le_version entry = kInvalidSecKeyVersion
      then res_bind (c_assert (cu_mDescendingSecKeyVersions (sv_crypto P) \<noteq> []))
             (\<lambda>_. Inr (last (cu_mDescendingSecKeyVersions (sv_crypto P))))
      else Inr (le_version entry))"

text \<open>One round of the loop that copies to the data file: position, data offset, mapping and meta array.\<close>

definition append_one ::
  "'c seg_env \<Rightarrow> nat \<Rightarrow> LogEntry \<Rightarrow> nat \<times> nat \<times> string \<times> LogMeta list \<Rightarrow> (nat \<times> nat \<times> string \<times> LogMeta list) res" where
  "append_one P lastIndex entry st =
     (case st of (i, dataOffset, mem, metaArr) \<Rightarrow>
        res_bind (c_assert (lastIndex + 1 + i = le_index entry))
          (\<lambda>_.
            let meta = \<lparr>lm_offset = dataOffset, lm_length = byteSizeLong P entry, lm_term = le_term entry,
                        lm_index = le_index entry, lm_digest = no_digest\<rparr> in
            res_bind (write_mem dataOffset (sv_serialize P entry) mem)
              (\<lambda>mem1.
                res_bind (if isEnabled P
                          then res_bind (hmac_version P entry) (\<lambda>version. createHMAC P mem1 version meta)
                          else Inr meta)
                  (\<lambda>meta1. Inr (i + 1, dataOffset + lm_length meta, mem1, metaArr @ [meta1])))))"

definition Segment_appendEntries :: "'c seg_env \<Rightarrow> LogEntry list \<Rightarrow> Segment \<Rightarrow> Segment res" where
  "Segment_appendEntries P entries s =
     res_bind (c_assert (sg_mIsActive s))
       (\<lambda>_. res_bind (fold_res (append_one P (sg_mLastIndex s)) entries (0, sg_mDataOffset s, sg_mDataMem s, []))
         (\<lambda>(i, dataOffset, mem, metaArr).
           if entries = [] then Inl Bad_Access
           else
             let metaLen = length entries * sizeof_LogMeta in
             res_bind (write_mem (sg_mMetaOffset s div sizeof_LogMeta) metaArr (sg_mMetaMem s))
               (\<lambda>metaMem.
                 Inr (s\<lparr>sg_mDataMem := mem, sg_mMetaMem := metaMem, sg_mDataOffset := dataOffset,
                        sg_mMetaOffset := sg_mMetaOffset s + metaLen,
                        sg_mLastIndex := sg_mLastIndex s + length entries\<rparr>))))"

section \<open>Reading\<close>

definition isWithInBoundary :: "nat \<Rightarrow> Segment \<Rightarrow> bool" where
  "isWithInBoundary index s =
     (if isEmpty (sg_mFirstIndex s) (sg_mLastIndex s) then False
      else if index < sg_mFirstIndex s \<or> index > sg_mLastIndex s then False
      else True)"

definition getMeta :: "nat \<Rightarrow> Segment \<Rightarrow> LogMeta res" where
  "getMeta index s =
     res_bind (c_assert (isWithInBoundary index s))
       (\<lambda>_.
         if index - sg_mFirstIndex s \<ge> length (sg_mMetaMem s) then Inl Bad_Access
         else
           let meta = sg_mMetaMem s ! (index - sg_mFirstIndex s) in
           res_bind (c_assert (lm_index meta = index)) (\<lambda>_. Inr meta))"

text \<open>The bytes at \<^verbatim>\<open>getEntryAddr(meta.offset)\<close>.\<close>

definition entry_bytes :: "LogMeta \<Rightarrow> Segment \<Rightarrow> string res" where
  "entry_bytes meta s =
     res_bind (c_assert (lm_offset meta \<le> sg_mDataOffset s))
       (\<lambda>_. read_mem (lm_offset meta) (lm_length meta) (sg_mDataMem s))"

text \<open>
  The loop over the key versions, starting at the one used last: \<open>remaining\<close> rounds from round \<open>i\<close> on.
  The result is the last digest computed and the index to remember.
\<close>

fun try_versions :: "'c seg_env \<Rightarrow> string \<Rightarrow> string \<Rightarrow> nat \<Rightarrow> nat \<Rightarrow> nat \<Rightarrow> string \<Rightarrow> (string \<times> nat) res" where
  "try_versions P message expectDigest recent i 0 realDigest = Inr (realDigest, recent)"
| "try_versions P message expectDigest recent i (Suc remaining) realDigest =
     (let versions = cu_mDescendingSecKeyVersions (sv_crypto P);
          versionCnt = length versions;
          tryVersionIndex = (recent + i + versionCnt) mod versionCnt in
      res_bind (CryptoUtil_hmac (sv_openssl P) (sv_crypto P) message (versions ! tryVersionIndex))
        (\<lambda>digest.
          if digest \<noteq> [] \<and> digest = expectDigest then Inr (digest, tryVersionIndex)
          else try_versions P message expectDigest recent (i + 1) remaining digest))"

text \<open>The index to remember after the check.\<close>

definition verifyHMAC :: "'c seg_env \<Rightarrow> LogMeta \<Rightarrow> Segment \<Rightarrow> nat res" where
  "verifyHMAC P meta s =
     (if \<not> isEnabled P then Inr (sg_mRecentUsedSecKeyIndex s)
      else if lm_digest meta = no_digest then Inr (sg_mRecentUsedSecKeyIndex s)
      else
        res_bind (entry_bytes meta s)
          (\<lambda>bytes.
            res_bind (try_versions P (to_string (lm_index meta) @ bytes) (lm_digest meta)
                        (sg_mRecentUsedSecKeyIndex s) 0 (length (cu_mDescendingSecKeyVersions (sv_crypto P))) [])
              (\<lambda>(realDigest, recent). res_bind (c_assert (realDigest = lm_digest meta)) (\<lambda>_. Inr recent))))"

text \<open>Reading one entry: \<open>None\<close> is the result \<^verbatim>\<open>false\<close>; the second part is the segment with the key index remembered.\<close>

definition read_entry :: "'c seg_env \<Rightarrow> nat \<Rightarrow> Segment \<Rightarrow> (LogEntry option \<times> Segment) res" where
  "read_entry P index s =
     res_bind (getMeta index s)
       (\<lambda>meta. res_bind (verifyHMAC P meta s)
         (\<lambda>recent. res_bind (entry_bytes meta s)
           (\<lambda>bytes. Inr (sv_parse P bytes, s\<lparr>sg_mRecentUsedSecKeyIndex := recent\<rparr>))))"

definition Segment_getEntry :: "'c seg_env \<Rightarrow> nat \<Rightarrow> Segment \<Rightarrow> (LogEntry option \<times> Segment) res" where
  "Segment_getEntry P index s = (if \<not> isWithInBoundary index s then Inr (None, s) else read_entry P index s)"

definition Segment_getTerm :: "nat \<Rightarrow> Segment \<Rightarrow> nat option res" where
  "Segment_getTerm index s =
     (if \<not> isWithInBoundary index s then Inr None
      else res_bind (getMeta index s) (\<lambda>meta. Inr (Some (lm_term meta))))"

fun read_array :: "'c seg_env \<Rightarrow> nat \<Rightarrow> nat \<Rightarrow> Segment \<Rightarrow> (LogEntry list option \<times> Segment) res" where
  "read_array P index 0 s = Inr (Some [], s)"
| "read_array P index (Suc n) s =
     res_bind (read_entry P index s)
       (\<lambda>(entry, s1). case entry of
          None \<Rightarrow> Inr (None, s1)
        | Some e \<Rightarrow> res_bind (read_array P (index + 1) n s1) (\<lambda>(rest, s2). Inr (map_option ((#) e) rest, s2)))"

text \<open>\<^verbatim>\<open>index + size - 1\<close> is unsigned; with \<^verbatim>\<open>size = 0\<close> it is \<^verbatim>\<open>index - 1\<close>.\<close>

definition Segment_getEntriesArray :: "'c seg_env \<Rightarrow> nat \<Rightarrow> nat \<Rightarrow> Segment \<Rightarrow> (LogEntry list option \<times> Segment) res" where
  "Segment_getEntriesArray P index sz s =
     (if \<not> isWithInBoundary index s \<or> \<not> isWithInBoundary (index + sz - 1) s then Inr (None, s)
      else read_array P index sz s)"

text \<open>
  The batching loop: \<open>remaining\<close> rounds are left. When an entry does not parse, the count returned is 0
  although the entries read so far are in the vector.
\<close>

fun read_batch ::
  "'c seg_env \<Rightarrow> nat \<Rightarrow> nat \<Rightarrow> nat \<Rightarrow> nat \<Rightarrow> LogEntry list \<Rightarrow> Segment \<Rightarrow> (nat \<times> LogEntry list \<times> Segment) res" where
  "read_batch P nextIndex maxLenInBytes lenInBytes 0 entries s = Inr (length entries, entries, s)"
| "read_batch P nextIndex maxLenInBytes lenInBytes (Suc remaining) entries s =
     res_bind (getMeta nextIndex s)
       (\<lambda>meta.
         if lenInBytes + lm_length meta > maxLenInBytes then Inr (length entries, entries, s)
         else
           res_bind (read_entry P nextIndex s)
             (\<lambda>(entry, s1). case entry of
                None \<Rightarrow> Inr (0, entries, s1)
              | Some e \<Rightarrow> read_batch P (nextIndex + 1) maxLenInBytes (lenInBytes + lm_length meta) remaining
                            (entries @ [e]) s1))"

definition Segment_getEntries ::
  "'c seg_env \<Rightarrow> nat \<Rightarrow> nat \<Rightarrow> nat \<Rightarrow> Segment \<Rightarrow> (nat \<times> LogEntry list \<times> Segment) res" where
  "Segment_getEntries P startIndex maxLenInBytes maxBatchSize s =
     res_bind (c_assert (isWithInBoundary startIndex s))
       (\<lambda>_. read_batch P startIndex maxLenInBytes 0 (min maxBatchSize (sg_mLastIndex s - startIndex + 1)) [] s)"

section \<open>Truncating\<close>

definition Segment_truncateSuffix :: "nat \<Rightarrow> Segment \<Rightarrow> Segment res" where
  "Segment_truncateSuffix lastIndexKept s =
     (if lastIndexKept \<ge> sg_mLastIndex s then Inr s
      else if lastIndexKept + 1 < sg_mFirstIndex s then Inl Bad_Access
      else
        let prevLastIndex = sg_mLastIndex s;
            pos = lastIndexKept + 1 - sg_mFirstIndex s in
        res_bind (write_mem pos (replicate (prevLastIndex - lastIndexKept) zero_meta) (sg_mMetaMem s))
          (\<lambda>metaMem.
            let s1 = s\<lparr>sg_mLastIndex := lastIndexKept, sg_mMetaOffset := pos * sizeof_LogMeta,
                       sg_mMetaMem := metaMem\<rparr> in
            res_bind (getMeta lastIndexKept s1)
              (\<lambda>meta. Inr (s1\<lparr>sg_mDataOffset := lm_offset meta + lm_length meta\<rparr>))))"

section \<open>What a segment holds\<close>

text \<open>
  What the segments rely on: parsing inverts serialising, the key store is well-formed, and an HMAC is
  32 bytes long.
\<close>

definition seg_env_ok :: "'c seg_env \<Rightarrow> bool" where
  "seg_env_ok P =
     ((\<forall>e. sv_parse P (sv_serialize P e) = Some e) \<and> crypto_ok (sv_crypto P)
      \<and> (\<forall>key m. \<exists>d. os_HMAC (sv_openssl P) key m = Some d \<and> length d = 32))"

definition signing_version :: "'c seg_env \<Rightarrow> LogEntry \<Rightarrow> nat" where
  "signing_version P e =
     (if le_version e = kInvalidSecKeyVersion then last (cu_mDescendingSecKeyVersions (sv_crypto P)) else le_version e)"

text \<open>The key an entry names exists.\<close>

definition signable :: "'c seg_env \<Rightarrow> LogEntry \<Rightarrow> bool" where
  "signable P e = (isEnabled P \<longrightarrow> signing_version P e \<in> set (cu_mDescendingSecKeyVersions (sv_crypto P)))"

definition digest_of :: "'c seg_env \<Rightarrow> LogEntry \<Rightarrow> string" where
  "digest_of P e =
     (if isEnabled P
      then case CryptoUtil_hmac (sv_openssl P) (sv_crypto P) (to_string (le_index e) @ sv_serialize P e) (signing_version P e) of
             Inl f \<Rightarrow> no_digest
           | Inr d \<Rightarrow> d
      else no_digest)"

definition meta_of :: "'c seg_env \<Rightarrow> nat \<Rightarrow> LogEntry \<Rightarrow> LogMeta" where
  "meta_of P off e =
     \<lparr>lm_offset = off, lm_length = byteSizeLong P e, lm_term = le_term e, lm_index = le_index e,
      lm_digest = digest_of P e\<rparr>"

fun metas_of :: "'c seg_env \<Rightarrow> nat \<Rightarrow> LogEntry list \<Rightarrow> LogMeta list" where
  "metas_of P off [] = []"
| "metas_of P off (e # es) = meta_of P off e # metas_of P (off + byteSizeLong P e) es"

definition bytes_of :: "'c seg_env \<Rightarrow> LogEntry list \<Rightarrow> string" where
  "bytes_of P es = concat (map (sv_serialize P) es)"

definition seg_holds :: "'c seg_env \<Rightarrow> Segment \<Rightarrow> LogEntry list \<Rightarrow> bool" where
  "seg_holds P s es =
     (0 < sg_mFirstIndex s \<and> sg_mFirstIndex s + length es = Suc (sg_mLastIndex s)
      \<and> indexed_from (sg_mFirstIndex s) es \<and> (\<forall>e \<in> set es. signable P e)
      \<and> (\<exists>rest. sg_mDataMem s = bytes_of P es @ rest)
      \<and> sg_mDataOffset s = length (bytes_of P es) \<and> sg_mDataSizeLimit s = length (sg_mDataMem s)
      \<and> (\<exists>k. sg_mMetaMem s = metas_of P 0 es @ replicate k zero_meta)
      \<and> sg_mMetaOffset s = length es * sizeof_LogMeta
      \<and> sg_mMetaSizeLimit s = sizeof_LogMeta * length (sg_mMetaMem s))"

lemma bytes_of_simps [simp]:
  "bytes_of P [] = []"
  "bytes_of P (e # es) = sv_serialize P e @ bytes_of P es"
  "bytes_of P (es @ fs) = bytes_of P es @ bytes_of P fs"
  by (simp_all add: bytes_of_def)

lemma length_bytes_of: "length (bytes_of P es) = sum_list (map (byteSizeLong P) es)"
  by (induction es) simp_all

lemma length_metas_of [simp]: "length (metas_of P off es) = length es"
  by (induction P off es rule: metas_of.induct) simp_all

lemma metas_of_append: "metas_of P off (es @ fs) = metas_of P off es @ metas_of P (off + length (bytes_of P es)) fs"
  by (induction P off es rule: metas_of.induct) (simp_all add: add.assoc)

lemma metas_of_nth:
  "i < length es \<Longrightarrow> metas_of P off es ! i = meta_of P (off + length (bytes_of P (take i es))) (es ! i)"
proof (induction P off es arbitrary: i rule: metas_of.induct)
  case (2 P off e es)
  then show ?case by (cases i) (simp_all add: add.assoc)
qed simp

lemma bytes_of_split:
  "i < length es \<Longrightarrow> bytes_of P es = bytes_of P (take i es) @ sv_serialize P (es ! i) @ bytes_of P (drop (Suc i) es)"
  by (metis bytes_of_simps(2,3) id_take_nth_drop)

text \<open>Digests under the assumptions on the environment.\<close>

lemma hmac_listed:
  assumes "seg_env_ok P" and "isEnabled P" and "v \<in> set (cu_mDescendingSecKeyVersions (sv_crypto P))"
  shows "\<exists>d. CryptoUtil_hmac (sv_openssl P) (sv_crypto P) m v = Inr d \<and> length d = 32"
proof -
  have "crypto_ok (sv_crypto P)" using assms(1) by (simp add: seg_env_ok_def)
  then obtain k where k: "assertValidVersion (sv_crypto P) v = Inr k" using crypto_ok_valid assms(2,3) by blast
  obtain d where "os_HMAC (sv_openssl P) (sk_mKey k) m = Some d" "length d = 32"
    using assms(1) unfolding seg_env_ok_def by blast
  with k assms(2) show ?thesis by (simp add: CryptoUtil_hmac_def)
qed

lemma hmac_unlisted:
  assumes "seg_env_ok P" and "isEnabled P" and "v \<notin> set (cu_mDescendingSecKeyVersions (sv_crypto P))"
  shows "CryptoUtil_hmac (sv_openssl P) (sv_crypto P) m v = Inl Exit_1"
proof -
  have "v \<notin> fst ` set (cu_mAllKeys (sv_crypto P))"
    using assms by (auto simp: seg_env_ok_def crypto_ok_def)
  then have "map_of (cu_mAllKeys (sv_crypto P)) v = None" by (simp add: map_of_eq_None_iff)
  with assms(2) show ?thesis by (simp add: CryptoUtil_hmac_def assertValidVersion_def)
qed

lemma digest_of_signable:
  assumes "seg_env_ok P" and "signable P e" and "isEnabled P"
  shows "CryptoUtil_hmac (sv_openssl P) (sv_crypto P) (to_string (le_index e) @ sv_serialize P e) (signing_version P e)
      = Inr (digest_of P e)"
    and "length (digest_of P e) = 32"
  using hmac_listed[OF assms(1,3), of "signing_version P e" "to_string (le_index e) @ sv_serialize P e"] assms(2,3)
  by (auto simp: digest_of_def signable_def)

lemma write_mem_end:
  "write_mem (length a) xs (a @ rest) = (if length xs \<le> length rest then Inr (a @ xs @ drop (length xs) rest) else Inl Bad_Access)"
  by (simp add: write_mem_def)

lemma read_mem_mid: "read_mem (length a) (length xs) (a @ xs @ rest) = Inr xs"
  by (simp add: read_mem_def)

text \<open>One round of the copying loop.\<close>

lemma append_one_run:
  assumes P: "seg_env_ok P"
  shows "append_one P li e (i, length a, a @ rest, M) =
    (if li + 1 + i \<noteq> le_index e then Inl Assertion
     else if length rest < byteSizeLong P e then Inl Bad_Access
     else if \<not> signable P e then Inl Exit_1
     else Inr (i + 1, length a + byteSizeLong P e, a @ sv_serialize P e @ drop (byteSizeLong P e) rest,
               M @ [meta_of P (length a) e]))"
proof (cases "li + 1 + i = le_index e \<and> byteSizeLong P e \<le> length rest \<and> isEnabled P")
  case False
  then show ?thesis
    by (auto simp: append_one_def write_mem_end Let_def signable_def meta_of_def digest_of_def not_less)
next
  case True
  have ne: "cu_mDescendingSecKeyVersions (sv_crypto P) \<noteq> []"
    using P True by (auto simp: seg_env_ok_def crypto_ok_def)
  have ver: "hmac_version P e = Inr (signing_version P e)" using ne by (simp add: hmac_version_def signing_version_def)
  have "createHMAC P (a @ sv_serialize P e @ drop (byteSizeLong P e) rest) (signing_version P e)
      \<lparr>lm_offset = length a, lm_length = byteSizeLong P e, lm_term = le_term e, lm_index = le_index e, lm_digest = no_digest\<rparr>
    = (if signable P e then Inr (meta_of P (length a) e) else Inl Exit_1)"
  proof (cases "signable P e")
    case s: True
    then show ?thesis
      using True digest_of_signable[OF P s] by (simp add: createHMAC_def read_mem_mid meta_of_def)
  next
    case False
    then show ?thesis
      using True hmac_unlisted[OF P] by (simp add: createHMAC_def read_mem_mid signable_def)
  qed
  with True ver show ?thesis by (simp add: append_one_def write_mem_end Let_def)
qed

lemma append_fold:
  assumes P: "seg_env_ok P"
  shows "fold_res (append_one P li) fs (i, length a, a @ rest, M) = Inr r \<longleftrightarrow>
    indexed_from (li + 1 + i) fs \<and> length (bytes_of P fs) \<le> length rest \<and> (\<forall>e \<in> set fs. signable P e)
    \<and> r = (i + length fs, length a + length (bytes_of P fs), a @ bytes_of P fs @ drop (length (bytes_of P fs)) rest,
           M @ metas_of P (length a) fs)"
proof (induction fs arbitrary: i a rest M)
  case Nil
  then show ?case by auto
next
  case (Cons e fs)
  have step: "append_one P li e (i, length a, a @ rest, M) =
    (if li + 1 + i \<noteq> le_index e then Inl Assertion
     else if length rest < byteSizeLong P e then Inl Bad_Access
     else if \<not> signable P e then Inl Exit_1
     else Inr (i + 1, length (a @ sv_serialize P e), (a @ sv_serialize P e) @ drop (byteSizeLong P e) rest,
               M @ [meta_of P (length a) e]))"
    by (simp add: append_one_run[OF P])
  show ?case
  proof (cases "li + 1 + i = le_index e \<and> byteSizeLong P e \<le> length rest \<and> signable P e")
    case True
    then have "fold_res (append_one P li) (e # fs) (i, length a, a @ rest, M)
        = fold_res (append_one P li) fs (i + 1, length (a @ sv_serialize P e),
            (a @ sv_serialize P e) @ drop (byteSizeLong P e) rest, M @ [meta_of P (length a) e])"
      by (simp only: fold_res.simps step) simp
    with True Cons.IH[of "i + 1" "a @ sv_serialize P e" "drop (byteSizeLong P e) rest" "M @ [meta_of P (length a) e]"]
    show ?thesis by (auto simp: add.commute)
  next
    case False
    then have "\<nexists>r. append_one P li e (i, length a, a @ rest, M) = Inr r" unfolding step by auto
    with False show ?thesis by (auto simp: res_bind_eq_Inr)
  qed
qed

lemma seg_holds_data: "seg_holds P s es \<Longrightarrow> \<exists>rest. sg_mDataMem s = bytes_of P es @ rest
    \<and> sg_mDataOffset s = length (bytes_of P es) \<and> length rest = sg_mDataSizeLimit s - sg_mDataOffset s"
  by (auto simp: seg_holds_def)

lemma seg_holds_meta: "seg_holds P s es \<Longrightarrow> \<exists>k. sg_mMetaMem s = metas_of P 0 es @ replicate k zero_meta
    \<and> sg_mMetaOffset s = length es * sizeof_LogMeta \<and> sg_mMetaSizeLimit s = sizeof_LogMeta * (length es + k)"
  by (auto simp: seg_holds_def)

text \<open>
  Appending returns exactly when the segment is active, the entries continue the indices, their keys
  exist and both files have room, and then the segment holds the old and the new entries.
\<close>

definition has_room :: "'c seg_env \<Rightarrow> LogEntry list \<Rightarrow> Segment \<Rightarrow> bool" where
  "has_room P fs s =
     (sg_mDataOffset s + length (bytes_of P fs) \<le> sg_mDataSizeLimit s
      \<and> sg_mMetaOffset s + length fs * sizeof_LogMeta \<le> sg_mMetaSizeLimit s)"

lemma shouldRoll_room: "sg_mIsActive s \<Longrightarrow> shouldRoll P fs s = Inr (\<not> has_room P fs s)"
  by (auto simp: shouldRoll_def has_room_def Let_def length_bytes_of)

lemma append_returns:
  assumes P: "seg_env_ok P" and s: "seg_holds P s es"
  shows "(\<exists>s'. Segment_appendEntries P fs s = Inr s') \<longleftrightarrow>
    sg_mIsActive s \<and> fs \<noteq> [] \<and> indexed_from (Suc (sg_mLastIndex s)) fs \<and> (\<forall>e \<in> set fs. signable P e) \<and> has_room P fs s"
    and "Segment_appendEntries P fs s = Inr s' \<Longrightarrow>
      seg_holds P s' (es @ fs) \<and> sg_mIsActive s' \<and> sg_mFirstIndex s' = sg_mFirstIndex s
      \<and> sg_mDataSizeLimit s' = sg_mDataSizeLimit s \<and> sg_mMetaSizeLimit s' = sg_mMetaSizeLimit s"
proof -
  obtain rest where d: "sg_mDataMem s = bytes_of P es @ rest" "sg_mDataOffset s = length (bytes_of P es)"
    "length rest = sg_mDataSizeLimit s - sg_mDataOffset s"
    using seg_holds_data[OF s] by blast
  obtain k where m: "sg_mMetaMem s = metas_of P 0 es @ replicate k zero_meta"
    "sg_mMetaOffset s = length es * sizeof_LogMeta" "sg_mMetaSizeLimit s = sizeof_LogMeta * (length es + k)"
    using seg_holds_meta[OF s] by blast
  have lim: "length (bytes_of P es) + length rest = sg_mDataSizeLimit s" using s d by (auto simp: seg_holds_def)
  let ?room = "length (bytes_of P fs) \<le> length rest" and ?ok = "indexed_from (Suc (sg_mLastIndex s)) fs \<and> (\<forall>e \<in> set fs. signable P e)"
  have room: "has_room P fs s \<longleftrightarrow> ?room \<and> length fs \<le> k"
    using lim d m by (auto simp: has_room_def sizeof_LogMeta_def)
  have meta: "write_mem (sg_mMetaOffset s div sizeof_LogMeta) N (sg_mMetaMem s)
      = (if length N \<le> k then Inr (metas_of P 0 es @ N @ replicate (k - length N) zero_meta) else Inl Bad_Access)" for N
    using write_mem_end[of "metas_of P 0 es" N "replicate k zero_meta"] m by (simp add: sizeof_LogMeta_def)
  have run: "Segment_appendEntries P fs s = Inr s'' \<longleftrightarrow> sg_mIsActive s \<and> fs \<noteq> [] \<and> ?ok \<and> ?room \<and> length fs \<le> k
      \<and> s'' = s\<lparr>sg_mDataMem := bytes_of P es @ bytes_of P fs @ drop (length (bytes_of P fs)) rest,
            sg_mMetaMem := metas_of P 0 es @ metas_of P (length (bytes_of P es)) fs @ replicate (k - length fs) zero_meta,
            sg_mDataOffset := length (bytes_of P es) + length (bytes_of P fs),
            sg_mMetaOffset := sg_mMetaOffset s + length fs * sizeof_LogMeta,
            sg_mLastIndex := sg_mLastIndex s + length fs\<rparr>" for s''
    unfolding Segment_appendEntries_def res_bind_eq_Inr d append_fold[OF P] Let_def
    by (auto simp: meta split: if_splits)
  show "(\<exists>s'. Segment_appendEntries P fs s = Inr s') \<longleftrightarrow>
    sg_mIsActive s \<and> fs \<noteq> [] \<and> indexed_from (Suc (sg_mLastIndex s)) fs \<and> (\<forall>e \<in> set fs. signable P e) \<and> has_room P fs s"
    unfolding run room by blast
  assume "Segment_appendEntries P fs s = Inr s'"
  then show "seg_holds P s' (es @ fs) \<and> sg_mIsActive s' \<and> sg_mFirstIndex s' = sg_mFirstIndex s
      \<and> sg_mDataSizeLimit s' = sg_mDataSizeLimit s \<and> sg_mMetaSizeLimit s' = sg_mMetaSizeLimit s"
    unfolding run using s lim m
    by (auto simp: seg_holds_def metas_of_append indexed_from_append algebra_simps)
qed

section \<open>Reading gives back what was appended\<close>

lemma getMeta_holds:
  assumes "seg_holds P s es" and "i < length es"
  shows "getMeta (sg_mFirstIndex s + i) s = Inr (meta_of P (length (bytes_of P (take i es))) (es ! i))"
proof -
  obtain k where m: "sg_mMetaMem s = metas_of P 0 es @ replicate k zero_meta" using seg_holds_meta[OF assms(1)] by blast
  have "sg_mMetaMem s ! i = meta_of P (length (bytes_of P (take i es))) (es ! i)"
    using assms(2) by (simp add: m nth_append metas_of_nth)
  moreover have "le_index (es ! i) = sg_mFirstIndex s + i"
    using assms indexed_from_nth by (auto simp: seg_holds_def)
  moreover have "isWithInBoundary (sg_mFirstIndex s + i) s"
    using assms by (auto simp: seg_holds_def isWithInBoundary_def isEmpty_def)
  ultimately show ?thesis using assms(2) by (simp add: getMeta_def Let_def meta_of_def m)
qed

lemma entry_bytes_holds:
  assumes "seg_holds P s es" and "i < length es"
  shows "entry_bytes (meta_of P (length (bytes_of P (take i es))) (es ! i)) s = Inr (sv_serialize P (es ! i))"
proof -
  obtain rest where d: "sg_mDataMem s = bytes_of P es @ rest" "sg_mDataOffset s = length (bytes_of P es)"
    using seg_holds_data[OF assms(1)] by blast
  note split = bytes_of_split[OF assms(2), of P]
  have "length (bytes_of P (take i es)) \<le> length (bytes_of P es)" by (simp add: split)
  moreover have "sg_mDataMem s = bytes_of P (take i es) @ sv_serialize P (es ! i) @ (bytes_of P (drop (Suc i) es) @ rest)"
    unfolding d(1) by (subst split) simp
  ultimately show ?thesis by (simp add: entry_bytes_def meta_of_def d(2) read_mem_mid)
qed

text \<open>
  The loop over the key versions finds a key with the expected digest whenever there is one, from
  whichever key it starts.
\<close>

definition tried :: "'c seg_env \<Rightarrow> string \<Rightarrow> nat \<Rightarrow> nat \<Rightarrow> string res" where
  "tried P m recent i =
     (let versions = cu_mDescendingSecKeyVersions (sv_crypto P) in
      CryptoUtil_hmac (sv_openssl P) (sv_crypto P) m (versions ! ((recent + i + length versions) mod length versions)))"

lemma try_versions_misses:
  assumes "\<And>j. j < n \<Longrightarrow> \<exists>x. tried P m recent (i + j) = Inr x \<and> x \<noteq> d" and "real \<noteq> d"
  shows "\<exists>x. try_versions P m d recent i n real = Inr (x, recent) \<and> x \<noteq> d"
  using assms
proof (induction n arbitrary: i real)
  case (Suc n)
  from Suc.prems(1)[of 0] obtain x where x: "tried P m recent i = Inr x" "x \<noteq> d" by auto
  have "\<exists>y. try_versions P m d recent (i + 1) n x = Inr (y, recent) \<and> y \<noteq> d"
    by (rule Suc.IH) (use Suc.prems(1)[of "Suc _"] x in auto)
  with x show ?case by (auto simp: tried_def Let_def)
qed auto

lemma try_versions_hits:
  assumes "\<And>j. j < n \<Longrightarrow> \<exists>x. tried P m recent (i + j) = Inr x"
    and "j < n" and "tried P m recent (i + j) = Inr d" and "d \<noteq> []"
  shows "\<exists>r. try_versions P m d recent i n real = Inr (d, r)"
  using assms
proof (induction n arbitrary: i j real)
  case (Suc n)
  from Suc.prems(1)[of 0] obtain x where x: "tried P m recent i = Inr x" by auto
  show ?case
  proof (cases "x = d")
    case True
    with x Suc.prems(4) show ?thesis by (simp add: tried_def Let_def)
  next
    case False
    with x Suc.prems(3) have "j \<noteq> 0" by (intro notI) simp
    then obtain j' where j: "j = Suc j'" by (cases j) auto
    have "\<exists>r. try_versions P m d recent (i + 1) n x = Inr (d, r)"
      by (rule Suc.IH[of _ j']) (use Suc.prems(1)[of "Suc _"] Suc.prems(2-4) j in auto)
    with x False show ?thesis by (auto simp: tried_def Let_def)
  qed
qed simp

lemma tried_all:
  assumes "q < length (cu_mDescendingSecKeyVersions (sv_crypto P))"
  shows "\<exists>j < length (cu_mDescendingSecKeyVersions (sv_crypto P)).
    tried P m recent j = CryptoUtil_hmac (sv_openssl P) (sv_crypto P) m (cu_mDescendingSecKeyVersions (sv_crypto P) ! q)"
proof -
  define n where "n = length (cu_mDescendingSecKeyVersions (sv_crypto P))"
  define r where "r = recent mod n"
  have "0 < n" using assms by (auto simp: n_def)
  then have "r < n" by (simp add: r_def)
  define j where "j = (q + (n - r)) mod n"
  have "(recent + j) mod n = (r + (q + (n - r))) mod n" by (simp add: j_def r_def mod_simps)
  also have "\<dots> = q" using \<open>r < n\<close> assms by (simp add: n_def)
  finally have "tried P m recent j = CryptoUtil_hmac (sv_openssl P) (sv_crypto P) m (cu_mDescendingSecKeyVersions (sv_crypto P) ! q)"
    by (simp add: tried_def Let_def n_def)
  moreover have "j < n" using \<open>r < n\<close> by (simp add: j_def)
  ultimately show ?thesis unfolding n_def by blast
qed

lemma tried_listed:
  assumes "cu_mDescendingSecKeyVersions (sv_crypto P) \<noteq> []"
  shows "\<exists>v \<in> set (cu_mDescendingSecKeyVersions (sv_crypto P)).
    tried P m recent j = CryptoUtil_hmac (sv_openssl P) (sv_crypto P) m v"
  using assms by (auto simp: tried_def Let_def intro!: bexI[of _ "cu_mDescendingSecKeyVersions (sv_crypto P) ! _"])


lemma hmac_check:
  assumes P: "seg_env_ok P" and en: "isEnabled P" and d: "lm_digest meta \<noteq> no_digest" "length (lm_digest meta) = 32"
    and bytes: "entry_bytes meta s = Inr bytes"
  shows "(\<exists>r. verifyHMAC P meta s = Inr r) \<longleftrightarrow>
    (\<exists>v \<in> set (cu_mDescendingSecKeyVersions (sv_crypto P)).
       CryptoUtil_hmac (sv_openssl P) (sv_crypto P) (to_string (lm_index meta) @ bytes) v = Inr (lm_digest meta))"
    (is "?L = (\<exists>v \<in> set ?versions. ?hmac v = _)")
proof -
  let ?m = "to_string (lm_index meta) @ bytes" and ?n = "length ?versions" and ?recent = "sg_mRecentUsedSecKeyIndex s"
  let ?d = "lm_digest meta"
  have vs: "?versions \<noteq> []" using P en by (auto simp: seg_env_ok_def crypto_ok_def)
  have some: "\<exists>x. tried P ?m ?recent j = Inr x" for j
    using tried_listed[OF vs] hmac_listed[OF P en] by metis
  show ?thesis
  proof (cases "\<exists>v \<in> set ?versions. ?hmac v = Inr ?d")
    case True
    then obtain q where "q < ?n" "?hmac (?versions ! q) = Inr ?d" by (auto simp: in_set_conv_nth)
    then obtain j where "j < ?n" "tried P ?m ?recent (0 + j) = Inr ?d" using tried_all[of q P ?m ?recent] by auto
    moreover have "?d \<noteq> []" using d(2) by auto
    ultimately obtain r where "try_versions P ?m ?d ?recent 0 ?n [] = Inr (?d, r)"
      using try_versions_hits[of ?n P ?m ?recent 0 j ?d "[]"] some by auto
    with True bytes en d show ?thesis by (auto simp: verifyHMAC_def)
  next
    case False
    have "\<exists>x. tried P ?m ?recent (0 + j) = Inr x \<and> x \<noteq> ?d" for j
      using some tried_listed[OF vs] False by metis
    moreover have "[] \<noteq> ?d" using d(2) by auto
    ultimately obtain x where "try_versions P ?m ?d ?recent 0 ?n [] = Inr (x, ?recent)" "x \<noteq> ?d"
      using try_versions_misses[of ?n P ?m ?recent 0 ?d "[]"] by blast
    with False bytes en d show ?thesis by (auto simp: verifyHMAC_def)
  qed
qed

lemma verify_holds:
  assumes P: "seg_env_ok P" and s: "seg_holds P s es" and i: "i < length es"
  shows "\<exists>r. verifyHMAC P (meta_of P (length (bytes_of P (take i es))) (es ! i)) s = Inr r"
    (is "\<exists>r. verifyHMAC P ?meta s = Inr r")
proof (cases "isEnabled P \<and> lm_digest ?meta \<noteq> no_digest")
  case False
  then show ?thesis by (auto simp: verifyHMAC_def)
next
  case True
  have sg: "signable P (es ! i)" using s i by (simp add: seg_holds_def)
  note dg = digest_of_signable[OF P sg]
  have "signing_version P (es ! i) \<in> set (cu_mDescendingSecKeyVersions (sv_crypto P))"
    using sg True by (simp add: signable_def)
  then show ?thesis
    using hmac_check[OF P _ _ _ entry_bytes_holds[OF s i]] True dg by (auto simp: meta_of_def)
qed

lemma seg_holds_recent [simp]: "seg_holds P (s\<lparr>sg_mRecentUsedSecKeyIndex := r\<rparr>) es = seg_holds P s es"
  by (simp add: seg_holds_def)

lemma read_entry_holds:
  assumes "seg_env_ok P" and "seg_holds P s es" and "i < length es"
  shows "\<exists>r. read_entry P (sg_mFirstIndex s + i) s = Inr (Some (es ! i), s\<lparr>sg_mRecentUsedSecKeyIndex := r\<rparr>)"
proof -
  obtain r where "verifyHMAC P (meta_of P (length (bytes_of P (take i es))) (es ! i)) s = Inr r"
    using verify_holds[OF assms] by blast
  moreover have "sv_parse P (sv_serialize P (es ! i)) = Some (es ! i)" using assms(1) by (simp add: seg_env_ok_def)
  ultimately have "read_entry P (sg_mFirstIndex s + i) s = Inr (Some (es ! i), s\<lparr>sg_mRecentUsedSecKeyIndex := r\<rparr>)"
    by (simp add: read_entry_def getMeta_holds[OF assms(2,3)] entry_bytes_holds[OF assms(2,3)])
  then show ?thesis ..
qed

lemma within_holds:
  "seg_holds P s es \<Longrightarrow> isWithInBoundary index s \<longleftrightarrow> sg_mFirstIndex s \<le> index \<and> index < sg_mFirstIndex s + length es"
  by (auto simp: seg_holds_def isWithInBoundary_def isEmpty_def)

lemma getEntry_holds:
  assumes "seg_env_ok P" and "seg_holds P s es"
  shows "\<exists>r. Segment_getEntry P index s =
    Inr (if sg_mFirstIndex s \<le> index \<and> index < sg_mFirstIndex s + length es then Some (es ! (index - sg_mFirstIndex s)) else None,
         s\<lparr>sg_mRecentUsedSecKeyIndex := r\<rparr>)"
proof (cases "sg_mFirstIndex s \<le> index \<and> index < sg_mFirstIndex s + length es")
  case True
  then have i: "index - sg_mFirstIndex s < length es" and eq: "sg_mFirstIndex s + (index - sg_mFirstIndex s) = index" by auto
  obtain r where "read_entry P index s = Inr (Some (es ! (index - sg_mFirstIndex s)), s\<lparr>sg_mRecentUsedSecKeyIndex := r\<rparr>)"
    using read_entry_holds[OF assms i] unfolding eq by blast
  with True within_holds[OF assms(2), of index] show ?thesis
    unfolding Segment_getEntry_def by (intro exI[of _ r]) (simp only: if_True not_True_eq_False if_False HOL.simp_thms)
next
  case False
  have "s\<lparr>sg_mRecentUsedSecKeyIndex := sg_mRecentUsedSecKeyIndex s\<rparr> = s" by simp
  with False within_holds[OF assms(2), of index] show ?thesis
    unfolding Segment_getEntry_def by (intro exI[of _ "sg_mRecentUsedSecKeyIndex s"]) (simp only: if_True not_False_eq_True if_False HOL.simp_thms)
qed

lemma getTerm_holds:
  assumes "seg_holds P s es"
  shows "Segment_getTerm index s =
    Inr (if sg_mFirstIndex s \<le> index \<and> index < sg_mFirstIndex s + length es
         then Some (le_term (es ! (index - sg_mFirstIndex s))) else None)"
  using within_holds[OF assms, of index] getMeta_holds[OF assms, of "index - sg_mFirstIndex s"]
  by (auto simp: Segment_getTerm_def meta_of_def)

text \<open>The batching loop reads what the in-memory log's loop would take.\<close>

lemma read_batch_holds:
  assumes "seg_env_ok P" and "seg_holds P s es" and "i + n \<le> length es"
  shows "\<exists>r. read_batch P (sg_mFirstIndex s + i) maxLen len n acc s =
    Inr (length (acc @ batch_entries (byteSizeLong P) len maxLen n (drop i es)),
         acc @ batch_entries (byteSizeLong P) len maxLen n (drop i es), s\<lparr>sg_mRecentUsedSecKeyIndex := r\<rparr>)"
  using assms(2,3)
proof (induction n arbitrary: i len acc s)
  case 0
  have none: "batch_entries (byteSizeLong P) len maxLen 0 xs = []" for xs by (cases xs) simp_all
  show ?case by (rule exI[of _ "sg_mRecentUsedSecKeyIndex s"]) (simp add: none)
next
  case (Suc n)
  then have i: "i < length es" by simp
  then have dr: "drop i es = es ! i # drop (Suc i) es" by (simp add: Cons_nth_drop_Suc)
  note meta = getMeta_holds[OF Suc.prems(1) i]
  show ?case
  proof (cases "len + byteSizeLong P (es ! i) > maxLen")
    case True
    then show ?thesis
      by (intro exI[of _ "sg_mRecentUsedSecKeyIndex s"]) (simp add: meta dr meta_of_def)
  next
    case False
    obtain r where r: "read_entry P (sg_mFirstIndex s + i) s = Inr (Some (es ! i), s\<lparr>sg_mRecentUsedSecKeyIndex := r\<rparr>)"
      using read_entry_holds[OF assms(1) Suc.prems(1) i] by blast
    have "seg_holds P (s\<lparr>sg_mRecentUsedSecKeyIndex := r\<rparr>) es" using Suc.prems(1) by simp
    from Suc.IH[OF this, of "Suc i" "len + byteSizeLong P (es ! i)" "acc @ [es ! i]"] Suc.prems(2)
    obtain r' where "read_batch P (sg_mFirstIndex s + Suc i) maxLen (len + byteSizeLong P (es ! i)) n (acc @ [es ! i])
        (s\<lparr>sg_mRecentUsedSecKeyIndex := r\<rparr>)
      = Inr (length (acc @ [es ! i] @ batch_entries (byteSizeLong P) (len + byteSizeLong P (es ! i)) maxLen n (drop (Suc i) es)),
          acc @ [es ! i] @ batch_entries (byteSizeLong P) (len + byteSizeLong P (es ! i)) maxLen n (drop (Suc i) es),
          s\<lparr>sg_mRecentUsedSecKeyIndex := r'\<rparr>)" by auto
    with False show ?thesis by (intro exI[of _ r']) (simp add: meta r dr meta_of_def)
  qed
qed

lemma getEntries_holds:
  assumes "seg_env_ok P" and "seg_holds P s es" and "sg_mFirstIndex s \<le> start" and "start < sg_mFirstIndex s + length es"
  shows "\<exists>r. Segment_getEntries P start maxLen maxBatch s =
    Inr (let b = batch_entries (byteSizeLong P) 0 maxLen (min maxBatch (sg_mLastIndex s - start + 1)) (drop (start - sg_mFirstIndex s) es)
         in (length b, b, s\<lparr>sg_mRecentUsedSecKeyIndex := r\<rparr>))"
proof -
  let ?n = "min maxBatch (sg_mLastIndex s - start + 1)" and ?i = "start - sg_mFirstIndex s"
  have last: "sg_mFirstIndex s + length es = Suc (sg_mLastIndex s)" using assms(2) by (simp add: seg_holds_def)
  then have "?i + ?n \<le> length es" using assms(3,4) by linarith
  from read_batch_holds[OF assms(1,2) this, of maxLen 0 "[]"] assms(3)
  obtain r where "read_batch P start maxLen 0 ?n [] s
      = Inr (let b = batch_entries (byteSizeLong P) 0 maxLen ?n (drop ?i es) in (length b, b, s\<lparr>sg_mRecentUsedSecKeyIndex := r\<rparr>))"
    by (auto simp: Let_def)
  moreover have "isWithInBoundary start s" using within_holds[OF assms(2)] assms(3,4) by simp
  ultimately show ?thesis by (intro exI[of _ r]) (simp add: Segment_getEntries_def)
qed

section \<open>Truncating and recovering\<close>

lemma take_metas_of: "take n (metas_of P off es) = metas_of P off (take n es)"
proof (induction P off es arbitrary: n rule: metas_of.induct)
  case (2 P off e es)
  then show ?case by (cases n) simp_all
qed simp

lemma write_mem_clear:
  assumes "n \<le> length xs"
  shows "write_mem n (replicate (length xs - n) z) (xs @ replicate k z) = Inr (take n xs @ replicate (length xs - n + k) z)"
  using assms by (simp add: write_mem_def flip: replicate_add)

lemma truncateSuffix_holds:
  assumes s: "seg_holds P s es" and k: "sg_mFirstIndex s \<le> k" "k \<le> sg_mLastIndex s"
  shows "\<exists>s'. Segment_truncateSuffix k s = Inr s' \<and> seg_holds P s' (take (Suc k - sg_mFirstIndex s) es)
    \<and> sg_mFirstIndex s' = sg_mFirstIndex s \<and> sg_mLastIndex s' = k \<and> sg_mIsActive s' = sg_mIsActive s
    \<and> sg_mDataSizeLimit s' = sg_mDataSizeLimit s \<and> sg_mMetaSizeLimit s' = sg_mMetaSizeLimit s"
proof (cases "k = sg_mLastIndex s")
  case True
  have "Suc k - sg_mFirstIndex s = length es" using s True by (auto simp: seg_holds_def)
  with True s show ?thesis by (simp add: Segment_truncateSuffix_def)
next
  case False
  define n where "n = Suc k - sg_mFirstIndex s"
  have last: "sg_mFirstIndex s + length es = Suc (sg_mLastIndex s)" using s by (simp add: seg_holds_def)
  have n: "0 < n" "n < length es" "sg_mLastIndex s - k = length es - n" "k = sg_mFirstIndex s + (n - 1)"
    using k False last by (auto simp: n_def)
  obtain j where m: "sg_mMetaMem s = metas_of P 0 es @ replicate j zero_meta" using seg_holds_meta[OF s] by blast
  obtain rest where d: "sg_mDataMem s = bytes_of P es @ rest" using seg_holds_data[OF s] by blast
  define s1 where "s1 = s\<lparr>sg_mLastIndex := k, sg_mMetaOffset := n * sizeof_LogMeta,
      sg_mMetaMem := metas_of P 0 (take n es) @ replicate (length es - n + j) zero_meta\<rparr>"
  have w: "write_mem n (replicate (sg_mLastIndex s - k) zero_meta) (sg_mMetaMem s)
      = Inr (metas_of P 0 (take n es) @ replicate (length es - n + j) zero_meta)"
    using write_mem_clear[of n "metas_of P 0 es" zero_meta j] n by (simp add: m take_metas_of)
  let ?s' = "s1\<lparr>sg_mDataOffset := length (bytes_of P (take n es))\<rparr>"
  have split: "bytes_of P es = bytes_of P (take n es) @ bytes_of P (drop n es)"
    by (metis append_take_drop_id bytes_of_simps(3))
  have "\<forall>e \<in> set (take n es). signable P e" using s by (auto simp: seg_holds_def dest: in_set_takeD)
  then have holds: "seg_holds P ?s' (take n es)"
    using s n last k by (auto simp: seg_holds_def s1_def indexed_from_take d split m)
  have cut: "take (n - 1) (take n es) = take (n - 1) es" by (simp add: min_def)
  have "getMeta k s1 = getMeta k ?s'" by (simp add: getMeta_def isWithInBoundary_def)
  also have "\<dots> = Inr (meta_of P (length (bytes_of P (take (n - 1) es))) (es ! (n - 1)))"
    using getMeta_holds[OF holds, of "n - 1"] n by (simp add: s1_def cut)
  finally have "getMeta k s1 = Inr (meta_of P (length (bytes_of P (take (n - 1) es))) (es ! (n - 1)))" .
  moreover have "take n es = take (n - 1) es @ [es ! (n - 1)]"
    using n take_Suc_conv_app_nth[of "n - 1" es] by simp
  then have "length (bytes_of P (take n es)) = length (bytes_of P (take (n - 1) es)) + byteSizeLong P (es ! (n - 1))"
    by simp
  ultimately have "Segment_truncateSuffix k s = Inr ?s'"
    using k False w by (simp add: Segment_truncateSuffix_def Let_def n_def s1_def meta_of_def)
  with holds show ?thesis by (simp add: s1_def n_def)
qed

lemma scan_metas:
  assumes "indexed_from (Suc n) es"
  shows "scan_meta n (metas_of P off es @ replicate k zero_meta) = n + length es"
  using assms
proof (induction es arbitrary: n off)
  case Nil
  then show ?case by (cases k) (simp_all add: zero_meta_def)
next
  case (Cons e es)
  then show ?case by (simp add: meta_of_def)
qed

text \<open>A segment's files recover the segment, up to the remembered key.\<close>

lemma recover_holds:
  assumes s: "seg_holds P s es" and lim: "0 < sg_mDataSizeLimit s" "0 < sg_mMetaSizeLimit s"
    and f: "find (\<lambda>f. fp_dataPath f = seg_dataPath logDir u \<and> fp_metaPath f = seg_metaPath logDir u) dir = Some (files_of logDir s)"
    and u: "u = Segment_unopened (sg_mFirstIndex s) l (sg_mIsActive s)" "sg_mIsActive s \<or> l = sg_mLastIndex s"
  shows "recoverActiveOrClosedSegment logDir dir u = Inr (s\<lparr>sg_mRecentUsedSecKeyIndex := 0\<rparr>)"
proof -
  obtain k where m: "sg_mMetaMem s = metas_of P 0 es @ replicate k zero_meta"
    "sg_mMetaOffset s = length es * sizeof_LogMeta" "sg_mMetaSizeLimit s = sizeof_LogMeta * (length es + k)"
    using seg_holds_meta[OF s] by blast
  obtain rest where d: "sg_mDataMem s = bytes_of P es @ rest" "sg_mDataOffset s = length (bytes_of P es)"
    using seg_holds_data[OF s] by blast
  have h: "0 < sg_mFirstIndex s" "sg_mFirstIndex s + length es = Suc (sg_mLastIndex s)"
    "sg_mDataSizeLimit s = length (sg_mDataMem s)" "indexed_from (sg_mFirstIndex s) es"
    using s by (auto simp: seg_holds_def)
  have scan: "scan_meta (sg_mFirstIndex s - 1) (sg_mMetaMem s) = sg_mLastIndex s"
    using scan_metas[of "sg_mFirstIndex s - 1" es P 0 k] h m by simp
  have off: "(if isEmpty (sg_mFirstIndex s) (sg_mLastIndex s) then 0
      else lm_offset (sg_mMetaMem s ! (sg_mLastIndex s - sg_mFirstIndex s)) + lm_length (sg_mMetaMem s ! (sg_mLastIndex s - sg_mFirstIndex s)))
    = length (bytes_of P es)"
  proof (cases es rule: rev_cases)
    case Nil
    then show ?thesis using h by (simp add: isEmpty_def)
  next
    case (snoc fs e)
    then have "sg_mLastIndex s - sg_mFirstIndex s = length fs" using h by simp
    with snoc h show ?thesis by (simp add: isEmpty_def m metas_of_append nth_append meta_of_def)
  qed
  have eq: "fp_data (files_of logDir s) = sg_mDataMem s" "fp_meta (files_of logDir s) = sg_mMetaMem s"
    by (simp_all add: files_of_def)
  have u': "sg_mFirstIndex u = sg_mFirstIndex s" "sg_mIsActive u = sg_mIsActive s" "sg_mLastIndex u = l"
    by (simp_all add: u Segment_unopened_def)
  have "length (bytes_of P es) \<le> length (sg_mDataMem s)" by (simp add: d)
  moreover have "Suc (sg_mLastIndex s) - sg_mFirstIndex s = length es" using h by simp
  moreover have "length es \<le> length (sg_mMetaMem s)" "sg_mMetaSizeLimit s = sizeof_LogMeta * length (sg_mMetaMem s)"
    using m by simp_all
  ultimately have "recoverActiveOrClosedSegment logDir dir u
      = Inr (u\<lparr>sg_mDataSizeLimit := length (sg_mDataMem s), sg_mDataOffset := length (bytes_of P es),
          sg_mDataMem := sg_mDataMem s, sg_mMetaSizeLimit := sizeof_LogMeta * length (sg_mMetaMem s),
          sg_mMetaOffset := length es * sizeof_LogMeta, sg_mMetaMem := sg_mMetaMem s, sg_mLastIndex := sg_mLastIndex s\<rparr>)"
    using lim h(3) u(2)
    by (auto simp: recoverActiveOrClosedSegment_def f Let_def eq u' scan[unfolded One_nat_def] off mult.commute)
  then show ?thesis
    using h m d by (simp add: u Segment_unopened_def)
qed

section \<open>A concrete environment\<close>

text \<open>
  An encoding of entries, a digest and two keys, on which the assumptions hold: numbers in unary, strings
  with their length in front.
\<close>

definition put_nat :: "nat \<Rightarrow> string" where
  "put_nat n = replicate n (CHR ''1'') @ ''0''"

definition get_nat :: "string \<Rightarrow> nat \<times> string" where
  "get_nat s = (let d = takeWhile (\<lambda>c. c = CHR ''1'') s in (length d, drop (Suc (length d)) s))"

definition put_string :: "string \<Rightarrow> string" where
  "put_string s = put_nat (length s) @ s"

definition get_string :: "string \<Rightarrow> string \<times> string" where
  "get_string s = (let (n, r) = get_nat s in (take n r, drop n r))"

lemma get_put [simp]: "get_nat (put_nat n @ r) = (n, r)" "get_string (put_string s @ r) = (s, r)"
proof -
  have "takeWhile (\<lambda>c. c = CHR ''1'') (put_nat n @ r) = replicate n (CHR ''1'')" for n r
    by (induction n) (simp_all add: put_nat_def)
  then show n: "get_nat (put_nat n @ r) = (n, r)" for n r by (simp add: get_nat_def put_nat_def)
  show "get_string (put_string s @ r) = (s, r)" by (simp add: get_string_def put_string_def n)
qed

definition sample_serialize :: "LogEntry \<Rightarrow> string" where
  "sample_serialize e =
     put_nat (le_term e) @ put_nat (le_index e) @ put_nat (if le_noop e then 1 else 0) @ put_nat (le_checksum e)
     @ put_string (le_payload e) @ put_nat (le_version e)
     @ (case le_specialTag e of None \<Rightarrow> put_nat 0 @ put_nat 0 @ put_string [] | Some (t, s) \<Rightarrow> put_nat 1 @ put_nat t @ put_string s)"

definition sample_parse :: "string \<Rightarrow> LogEntry option" where
  "sample_parse b =
     (let (trm, b1) = get_nat b; (i, b2) = get_nat b1; (noop, b3) = get_nat b2; (sum, b4) = get_nat b3;
          (payload, b5) = get_string b4; (v, b6) = get_nat b5; (tagged, b7) = get_nat b6;
          (t, b8) = get_nat b7; (s, b9) = get_string b8 in
      Some \<lparr>le_term = trm, le_index = i, le_noop = (noop = 1), le_checksum = sum, le_payload = payload, le_version = v,
            le_specialTag = (if tagged = 0 then None else Some (t, s))\<rparr>)"

lemma sample_roundtrip: "sample_parse (sample_serialize e) = Some e"
proof -
  have [simp]: "get_string (put_string s) = (s, [])" for s using get_put(2)[of s "[]"] by simp
  show ?thesis
    by (cases "le_specialTag e") (auto simp: sample_parse_def sample_serialize_def Let_def)
qed

definition sample_crypto :: CryptoUtil where
  "sample_crypto = CryptoUtil_new\<lparr>cu_mEnabled := True, cu_mDescendingSecKeyVersions := [3, 1],
     cu_mAllKeys := [(1, \<lparr>sk_mVersion = 1, sk_mKey = replicate 32 (CHR ''a'')\<rparr>),
                     (3, \<lparr>sk_mVersion = 3, sk_mKey = replicate 32 (CHR ''b'')\<rparr>)],
     cu_mLatestVersion := 3\<rparr>"

definition sample_env :: "unit seg_env" where
  "sample_env =
     \<lparr>sv_serialize = sample_serialize, sv_parse = sample_parse,
      sv_openssl = sample_openssl\<lparr>os_HMAC := \<lambda>key m. Some (take 32 (m @ key @ replicate 32 (CHR 0x00)))\<rparr>,
      sv_crypto = sample_crypto\<rparr>"

lemma sample_env_ok: "seg_env_ok sample_env"
  by (auto simp: seg_env_ok_def sample_env_def sample_roundtrip crypto_ok_def sample_crypto_def CryptoUtil_new_def
      smap_ok_def kInvalidSecKeyVersion_def kKeyLen_def)

definition sample_entry :: "nat \<Rightarrow> nat \<Rightarrow> nat \<Rightarrow> LogEntry" where
  "sample_entry trm i n =
     \<lparr>le_term = trm, le_index = i, le_noop = False, le_checksum = 0, le_payload = replicate n (CHR ''x''),
      le_version = 3, le_specialTag = None\<rparr>"

lemma sample_entry_simps [simp]:
  "le_index (sample_entry trm i n) = i" "le_term (sample_entry trm i n) = trm"
  "signable sample_env (sample_entry trm i n)"
  "length (sv_serialize sample_env (sample_entry trm i n)) = trm + i + 2 * n + 12"
  by (simp_all add: sample_entry_def sample_env_def signable_def signing_version_def sample_crypto_def kInvalidSecKeyVersion_def
      sample_serialize_def put_nat_def put_string_def)

end
