(* ===== verification/Segment_Log.thy ===== *)
theory Segment_Log
  imports Segment_File
begin

text \<open>
  The persistent Raft log \<^verbatim>\<open>src/src/infra/raft/storage/SegmentLog.h\<close> and \<^verbatim>\<open>SegmentLog.cpp\<close>: a chain of
  closed segments and one active segment, three small files for term, vote and first index, and the
  recovery of all of it from the log directory. It is shown to implement the interface \<open>raft_log\<close>.

  The directory consists of the files of the segments the log maps and of files left behind by segments
  it no longer maps; \<open>sl_retained\<close> holds the latter. The key a segment remembers from its last check is
  not threaded through the reading methods here: by lemma \<open>hmac_check\<close> it never changes a verdict.
\<close>

section \<open>Term, vote and first index on disk\<close>

record meta_files =
  mf_current_term :: "string option"
  mf_vote_for :: "string option"
  mf_first_index :: "string option"

definition persistCurrentTerm :: "nat \<Rightarrow> meta_files \<Rightarrow> meta_files" where
  "persistCurrentTerm t f = f\<lparr>mf_current_term := Some (to_string t)\<rparr>"

definition persistVoteFor :: "nat \<Rightarrow> meta_files \<Rightarrow> meta_files" where
  "persistVoteFor v f = f\<lparr>mf_vote_for := Some (to_string v)\<rparr>"

definition persistFirstIndex :: "nat \<Rightarrow> meta_files \<Rightarrow> meta_files" where
  "persistFirstIndex i f = f\<lparr>mf_first_index := Some (to_string i)\<rparr>"

definition stoull_nat :: "string \<Rightarrow> nat res" where
  "stoull_nat s = res_bind (stoull s) (\<lambda>w. Inr (unat w))"

definition recoverCurrentTerm :: "meta_files \<Rightarrow> (nat \<times> meta_files) res" where
  "recoverCurrentTerm f =
     (case mf_current_term f of
        Some s \<Rightarrow> res_bind (stoull_nat s) (\<lambda>t. Inr (t, f))
      | None \<Rightarrow> Inr (0, persistCurrentTerm 0 f))"

definition recoverVoteFor :: "meta_files \<Rightarrow> (nat \<times> meta_files) res" where
  "recoverVoteFor f =
     (case mf_vote_for f of
        Some s \<Rightarrow> res_bind (stoull_nat s) (\<lambda>v. Inr (v, f))
      | None \<Rightarrow> Inr (0, persistVoteFor 0 f))"

definition recoverFirstIndex :: "meta_files \<Rightarrow> (nat \<times> meta_files) res" where
  "recoverFirstIndex f =
     (case mf_first_index f of
        Some s \<Rightarrow> res_bind (stoull_nat s) (\<lambda>i. Inr (i, f))
      | None \<Rightarrow> Inr (1, persistFirstIndex 1 f))"

section \<open>The log\<close>

record segment_log =
  sl_mLogDir :: string
  sl_metaStorage :: meta_files
  sl_mSegmentDataSizeLimit :: nat
  sl_mSegmentMetaSizeLimit :: nat
  sl_mFirstIndex :: nat
  sl_mLastIndex :: nat
  sl_mCurrentTerm :: nat
  sl_mVoteFor :: nat
  sl_mClosedSegments :: "(nat, Segment) smap"
  sl_mActiveSegment :: "Segment option"
  sl_retained :: "file_pair list"

text \<open>The directory prefix the segments use.\<close>

abbreviation seg_dir :: "segment_log \<Rightarrow> string" where
  "seg_dir l \<equiv> sl_mLogDir l @ ''/''"

definition segments :: "segment_log \<Rightarrow> Segment list" where
  "segments l = map snd (sl_mClosedSegments l) @ (case sl_mActiveSegment l of None \<Rightarrow> [] | Some s \<Rightarrow> [s])"

text \<open>What is on disk.\<close>

record log_disk =
  ld_meta :: meta_files
  ld_dir :: "file_pair list"

definition disk_of :: "segment_log \<Rightarrow> log_disk" where
  "disk_of l = \<lparr>ld_meta = sl_metaStorage l, ld_dir = map (files_of (seg_dir l)) (segments l) @ sl_retained l\<rparr>"

text \<open>Creating a file, or renaming one, replaces a file of that name.\<close>

definition claim_path :: "Segment \<Rightarrow> segment_log \<Rightarrow> segment_log" where
  "claim_path s l =
     l\<lparr>sl_retained := filter (\<lambda>f. fp_metaPath f \<noteq> seg_metaPath (seg_dir l) s) (sl_retained l)\<rparr>"

definition newActiveSegment :: "segment_log \<Rightarrow> segment_log res" where
  "newActiveSegment l =
     res_bind (createActiveSegment (sl_mLastIndex l + 1) (sl_mSegmentDataSizeLimit l) (sl_mSegmentMetaSizeLimit l))
       (\<lambda>s. Inr (claim_path s (l\<lparr>sl_mActiveSegment := Some s\<rparr>)))"

section \<open>Recovery\<close>

text \<open>
  The two regular expressions, matched at the end of the path from the back: \<^verbatim>\<open>meta\<close>, one character
  that is not a line end, digits, and the parts before them.
\<close>

definition back_digits :: "string \<Rightarrow> (string \<times> string) option" where
  "back_digits r = (let d = takeWhile is_digit r in if d = [] then None else Some (rev d, drop (length d) r))"

definition match_meta :: "string \<Rightarrow> string option" where
  "match_meta path =
     (let r = rev path in
      if take 4 r = ''atem'' \<and> 4 < length r \<and> r ! 4 \<noteq> CHR 0x0A then Some (drop 5 r) else None)"

definition match_closed :: "string \<Rightarrow> (string \<times> string) option" where
  "match_closed path =
     (case match_meta path of
        None \<Rightarrow> None
      | Some r \<Rightarrow>
          (case back_digits r of
             None \<Rightarrow> None
           | Some (d2, r2) \<Rightarrow>
               if take 1 r2 \<noteq> ''_'' then None
               else
                 (case back_digits (drop 1 r2) of
                    None \<Rightarrow> None
                  | Some (d1, r3) \<Rightarrow> if take 8 r3 = rev ''segment_'' then Some (d1, d2) else None)))"

definition match_active :: "string \<Rightarrow> string option" where
  "match_active path =
     (case match_meta path of
        None \<Rightarrow> None
      | Some r \<Rightarrow>
          (case back_digits r of
             None \<Rightarrow> None
           | Some (d, r2) \<Rightarrow> if take 20 r2 = rev ''segment_in_progress_'' then Some d else None))"

definition list_one :: "file_pair \<Rightarrow> (nat, Segment) smap \<times> Segment option \<Rightarrow> ((nat, Segment) smap \<times> Segment option) res" where
  "list_one f st =
     (case st of (closed, active) \<Rightarrow>
        (case match_closed (fp_metaPath f) of
           Some (d1, d2) \<Rightarrow>
             res_bind (stoull_nat d1)
               (\<lambda>firstIndex. res_bind (stoull_nat d2)
                 (\<lambda>lastIndex. res_bind (c_assert (map_of closed firstIndex = None))
                   (\<lambda>_. Inr (smap_put firstIndex (Segment_closed firstIndex lastIndex) closed, active))))
         | None \<Rightarrow>
             (case match_active (fp_metaPath f) of
                Some d \<Rightarrow>
                  res_bind (stoull_nat d)
                    (\<lambda>firstIndex. res_bind (c_assert (active = None))
                      (\<lambda>_. Inr (closed, Some (Segment_active firstIndex))))
              | None \<Rightarrow> Inr (closed, active))))"

definition listSegments :: "file_pair list \<Rightarrow> ((nat, Segment) smap \<times> Segment option) res" where
  "listSegments dir = fold_res list_one dir ([], None)"

text \<open>One round of the loop over the closed segments: the previous segment, those kept and the last index.\<close>

definition recover_one ::
  "string \<Rightarrow> file_pair list \<Rightarrow> nat \<Rightarrow> nat \<times> Segment \<Rightarrow> Segment option \<times> (nat, Segment) smap \<times> nat
    \<Rightarrow> (Segment option \<times> (nat, Segment) smap \<times> nat) res" where
  "recover_one logDir dir firstIndex ks st =
     (case (ks, st) of ((k, s), (prev, kept, lastIndex)) \<Rightarrow>
        res_bind (c_assert (sg_mFirstIndex s \<le> sg_mLastIndex s))
          (\<lambda>_. res_bind (c_assert (case prev of None \<Rightarrow> True | Some p \<Rightarrow> sg_mFirstIndex s = sg_mLastIndex p + 1))
            (\<lambda>_. res_bind (c_assert (prev \<noteq> None \<or> firstIndex \<ge> sg_mFirstIndex s))
              (\<lambda>_.
                if prev = None \<and> firstIndex > sg_mLastIndex s then Inr (prev, kept, lastIndex)
                else
                  res_bind (recoverActiveOrClosedSegment logDir dir s)
                    (\<lambda>s1. Inr (Some s1, kept @ [(k, s1)], sg_mLastIndex s1))))))"

definition recoverSegments ::
  "string \<Rightarrow> file_pair list \<Rightarrow> nat \<Rightarrow> (nat, Segment) smap \<times> Segment option
    \<Rightarrow> ((nat, Segment) smap \<times> Segment option \<times> nat) res" where
  "recoverSegments logDir dir firstIndex listed =
     (case listed of (closed, active) \<Rightarrow>
        res_bind (fold_res (recover_one logDir dir firstIndex) closed (None, [], 0))
          (\<lambda>(prev, kept, lastIndex).
            case active of
              None \<Rightarrow> Inr (kept, None, lastIndex)
            | Some s \<Rightarrow>
                res_bind (c_assert (prev \<noteq> None \<or> firstIndex \<ge> sg_mFirstIndex s))
                  (\<lambda>_. res_bind (c_assert (case prev of None \<Rightarrow> True | Some p \<Rightarrow> sg_mFirstIndex s = sg_mLastIndex p + 1))
                    (\<lambda>_. res_bind (recoverActiveOrClosedSegment logDir dir s)
                      (\<lambda>s1.
                        if firstIndex > sg_mLastIndex s1 then Inr (kept, None, lastIndex)
                        else Inr (kept, Some s1, sg_mLastIndex s1))))))"

definition SegmentLog_init :: "string \<Rightarrow> nat \<Rightarrow> nat \<Rightarrow> log_disk \<Rightarrow> segment_log res" where
  "SegmentLog_init logDir dataLimit metaLimit disk =
     res_bind (recoverCurrentTerm (ld_meta disk))
       (\<lambda>(trm, f1). res_bind (recoverVoteFor f1)
         (\<lambda>(vote, f2). res_bind (recoverFirstIndex f2)
           (\<lambda>(firstIndex, f3). res_bind (listSegments (ld_dir disk))
             (\<lambda>listed. res_bind (recoverSegments (logDir @ ''/'') (ld_dir disk) firstIndex listed)
               (\<lambda>(closed, active, lastIndex).
                 let live = map snd closed @ (case active of None \<Rightarrow> [] | Some s \<Rightarrow> [s]);
                     l = \<lparr>sl_mLogDir = logDir, sl_metaStorage = f3,
                          sl_mSegmentDataSizeLimit = dataLimit, sl_mSegmentMetaSizeLimit = metaLimit,
                          sl_mFirstIndex = firstIndex,
                          sl_mLastIndex = (if lastIndex = 0 then firstIndex - 1 else lastIndex),
                          sl_mCurrentTerm = trm, sl_mVoteFor = vote,
                          sl_mClosedSegments = closed, sl_mActiveSegment = active,
                          sl_retained = filter (\<lambda>f. fp_metaPath f \<notin> set (map (seg_metaPath (logDir @ ''/'')) live)) (ld_dir disk)\<rparr> in
                 if active = None then newActiveSegment l else Inr l)))))"

section \<open>Appending\<close>

definition rollActiveSegment :: "segment_log \<Rightarrow> segment_log res" where
  "rollActiveSegment l =
     (case sl_mActiveSegment l of
        None \<Rightarrow> Inl Bad_Access
      | Some active \<Rightarrow>
          res_bind (Segment_closeActiveSegment active)
            (\<lambda>s. newActiveSegment (claim_path s (l\<lparr>sl_mClosedSegments := smap_put (sg_mFirstIndex s) s (sl_mClosedSegments l)\<rparr>))))"

text \<open>Closing without rolling, which leaves the log with a closed segment where its active one was.\<close>

definition SegmentLog_closeActiveSegment :: "segment_log \<Rightarrow> segment_log res" where
  "SegmentLog_closeActiveSegment l =
     (case sl_mActiveSegment l of
        None \<Rightarrow> Inl Bad_Access
      | Some active \<Rightarrow>
          res_bind (Segment_closeActiveSegment active) (\<lambda>s. Inr (claim_path s (l\<lparr>sl_mActiveSegment := Some s\<rparr>))))"

definition append_to_active :: "'c seg_env \<Rightarrow> LogEntry list \<Rightarrow> segment_log \<Rightarrow> (bool \<times> segment_log) res" where
  "append_to_active P entries l =
     (case sl_mActiveSegment l of
        None \<Rightarrow> Inl Assertion
      | Some active \<Rightarrow>
          res_bind (shouldRoll P entries active)
            (\<lambda>roll. res_bind (if roll then rollActiveSegment l else Inr l)
              (\<lambda>l1. case sl_mActiveSegment l1 of
                 None \<Rightarrow> Inl Bad_Access
               | Some active1 \<Rightarrow>
                   res_bind (Segment_appendEntries P entries active1)
                     (\<lambda>s. Inr (True, l1\<lparr>sl_mActiveSegment := Some s, sl_mLastIndex := sl_mLastIndex l1 + length entries\<rparr>)))))"

definition SegmentLog_appendEntry :: "'c seg_env \<Rightarrow> LogEntry \<Rightarrow> segment_log \<Rightarrow> (bool \<times> segment_log) res" where
  "SegmentLog_appendEntry P entry l =
     (if le_index entry \<noteq> sl_mLastIndex l + 1 then Inr (False, l) else append_to_active P [entry] l)"

definition SegmentLog_appendEntries :: "'c seg_env \<Rightarrow> LogEntry list \<Rightarrow> segment_log \<Rightarrow> (bool \<times> segment_log) res" where
  "SegmentLog_appendEntries P entries l =
     (case entries of
        [] \<Rightarrow> Inr (True, l)
      | e # es \<Rightarrow> if le_index e \<noteq> sl_mLastIndex l + 1 then Inr (False, l) else append_to_active P entries l)"

section \<open>Reading\<close>

text \<open>\<open>None\<close> is the null pointer; \<^verbatim>\<open>--iter\<close> at the first key leaves the map.\<close>

definition find_closed :: "nat \<Rightarrow> (nat, Segment) smap \<Rightarrow> Segment res" where
  "find_closed index closed =
     (let below = takeWhile (\<lambda>(k, s). k \<le> index) closed in
      res_bind (c_assert (closed \<noteq> []))
        (\<lambda>_. if below = [] then Inl Bad_Access else Inr (snd (last below))))"

definition getSegment :: "nat \<Rightarrow> segment_log \<Rightarrow> Segment option res" where
  "getSegment index l =
     (if isEmpty (sl_mFirstIndex l) (sl_mLastIndex l) then Inr None
      else if index < sl_mFirstIndex l \<or> index > sl_mLastIndex l then Inr None
      else if (case sl_mActiveSegment l of None \<Rightarrow> False | Some s \<Rightarrow> index \<ge> sg_mFirstIndex s)
      then Inr (sl_mActiveSegment l)
      else res_bind (find_closed index (sl_mClosedSegments l)) (\<lambda>s. Inr (Some s)))"

definition SegmentLog_getEntry :: "'c seg_env \<Rightarrow> nat \<Rightarrow> segment_log \<Rightarrow> LogEntry option res" where
  "SegmentLog_getEntry P index l =
     res_bind (getSegment index l)
       (\<lambda>seg. case seg of None \<Rightarrow> Inr None | Some s \<Rightarrow> res_bind (Segment_getEntry P index s) (\<lambda>(e, s1). Inr e))"

definition SegmentLog_getTerm :: "nat \<Rightarrow> segment_log \<Rightarrow> nat option res" where
  "SegmentLog_getTerm index l =
     (if index + 1 = sl_mFirstIndex l then Inr (Some 0)
      else
        res_bind (getSegment index l)
          (\<lambda>seg. case seg of None \<Rightarrow> Inr None | Some s \<Rightarrow> Segment_getTerm index s))"

text \<open>The number returned and the entries in the vector.\<close>

definition SegmentLog_getEntries :: "'c seg_env \<Rightarrow> nat \<Rightarrow> nat \<Rightarrow> nat \<Rightarrow> segment_log \<Rightarrow> (nat \<times> LogEntry list) res" where
  "SegmentLog_getEntries P startIndex maxLenInBytes maxBatchSize l =
     (let lastIndex = sl_mLastIndex l in
      if startIndex > lastIndex then res_bind (c_assert (startIndex = lastIndex + 1)) (\<lambda>_. Inr (0, []))
      else
        res_bind (getSegment startIndex l)
          (\<lambda>seg. case seg of
             None \<Rightarrow> Inr (0, [])
           | Some s \<Rightarrow> res_bind (Segment_getEntries P startIndex maxLenInBytes maxBatchSize s) (\<lambda>(n, es, s1). Inr (n, es))))"

section \<open>Truncating\<close>

definition SegmentLog_truncatePrefix :: "nat \<Rightarrow> segment_log \<Rightarrow> segment_log res" where
  "SegmentLog_truncatePrefix firstIndexKept l =
     (if sl_mFirstIndex l \<ge> firstIndexKept then Inr l
      else
        let erased = takeWhile (\<lambda>(k, s). sg_mLastIndex s < firstIndexKept) (sl_mClosedSegments l);
            kept = dropWhile (\<lambda>(k, s). sg_mLastIndex s < firstIndexKept) (sl_mClosedSegments l);
            l1 = l\<lparr>sl_metaStorage := persistFirstIndex firstIndexKept (sl_metaStorage l), sl_mFirstIndex := firstIndexKept,
                   sl_mClosedSegments := kept,
                   sl_retained := map (files_of (seg_dir l) \<circ> snd) erased @ sl_retained l\<rparr> in
        if kept \<noteq> [] then Inr l1
        else
          (case sl_mActiveSegment l1 of
             None \<Rightarrow> Inl Assertion
           | Some active \<Rightarrow>
               if sg_mLastIndex active < firstIndexKept
               then newActiveSegment (l1\<lparr>sl_mLastIndex := firstIndexKept - 1,
                                         sl_retained := files_of (seg_dir l) active # sl_retained l1\<rparr>)
               else Inr l1))"

text \<open>
  The files of dropped segments are renamed to names no recovery looks at (lemma \<open>dropped_not_listed\<close>), so
  they leave the model's directory. \<open>back_to\<close> drops from the back the segments that start after the index.
\<close>

definition back_to :: "nat \<Rightarrow> (nat, Segment) smap \<Rightarrow> (nat, Segment) smap" where
  "back_to lastIndexKept closed = rev (dropWhile (\<lambda>(k, s). \<not> sg_mFirstIndex s \<le> lastIndexKept) (rev closed))"

definition ensure_active :: "segment_log \<Rightarrow> segment_log res" where
  "ensure_active l = (case sl_mActiveSegment l of None \<Rightarrow> newActiveSegment l | Some s \<Rightarrow> Inr l)"

definition SegmentLog_truncateSuffix :: "nat \<Rightarrow> segment_log \<Rightarrow> segment_log res" where
  "SegmentLog_truncateSuffix lastIndexKept l =
     (if sl_mLastIndex l \<le> lastIndexKept then Inr l
      else
        let l1 = l\<lparr>sl_mLastIndex := lastIndexKept\<rparr> in
        case sl_mActiveSegment l1 of
          None \<Rightarrow> Inl Assertion
        | Some active \<Rightarrow>
            if sg_mFirstIndex active \<le> lastIndexKept then
              if sl_mFirstIndex l1 \<le> sl_mLastIndex l1
              then res_bind (Segment_truncateSuffix lastIndexKept active)
                     (\<lambda>s. ensure_active (l1\<lparr>sl_mActiveSegment := Some s\<rparr>))
              else ensure_active (l1\<lparr>sl_mActiveSegment := None\<rparr>)
            else
              let closed = back_to lastIndexKept (sl_mClosedSegments l1);
                  l2 = l1\<lparr>sl_mActiveSegment := None, sl_mClosedSegments := closed,
                          sl_mFirstIndex := (if closed = [] then sl_mLastIndex l1 + 1 else sl_mFirstIndex l1)\<rparr> in
              if closed = [] then ensure_active l2
              else
                let (k, s) = last closed in
                if sl_mFirstIndex l2 \<le> sl_mLastIndex l2
                then res_bind (Segment_truncateSuffix lastIndexKept s)
                       (\<lambda>s1. ensure_active (claim_path s1 (l2\<lparr>sl_mClosedSegments := butlast closed @ [(k, s1)]\<rparr>)))
                else ensure_active (l2\<lparr>sl_mClosedSegments := butlast closed\<rparr>))"

section \<open>Term and vote, and the table of operations\<close>

definition SegmentLog_setCurrentTerm :: "nat \<Rightarrow> segment_log \<Rightarrow> segment_log" where
  "SegmentLog_setCurrentTerm t l =
     l\<lparr>sl_metaStorage := persistCurrentTerm t (sl_metaStorage l), sl_mCurrentTerm := t\<rparr>"

definition SegmentLog_setVoteFor :: "nat \<Rightarrow> segment_log \<Rightarrow> segment_log" where
  "SegmentLog_setVoteFor v l =
     l\<lparr>sl_metaStorage := persistVoteFor v (sl_metaStorage l), sl_mVoteFor := v\<rparr>"

text \<open>
  The virtual methods. The callers of \<^verbatim>\<open>getTerm\<close> in \<^verbatim>\<open>RaftCore\<close> stop the process when it has no result, so a
  fault in it is no result here. The caller of \<^verbatim>\<open>getEntries\<close> sends the entries that were counted.
\<close>

definition seg_ops :: "'c seg_env \<Rightarrow> segment_log log_ops" where
  "seg_ops P =
     \<lparr>lo_appendEntry = SegmentLog_appendEntry P,
      lo_appendEntries = SegmentLog_appendEntries P,
      lo_getEntry = SegmentLog_getEntry P,
      lo_getTerm = \<lambda>index l. case SegmentLog_getTerm index l of Inl f \<Rightarrow> None | Inr t \<Rightarrow> t,
      lo_getEntries = \<lambda>start maxLen maxBatch l.
        res_bind (SegmentLog_getEntries P start maxLen maxBatch l) (\<lambda>(n, es). Inr (take n es)),
      lo_truncatePrefix = SegmentLog_truncatePrefix,
      lo_truncateSuffix = SegmentLog_truncateSuffix,
      lo_getFirstLogIndex = sl_mFirstIndex,
      lo_getLastLogIndex = sl_mLastIndex,
      lo_setCurrentTerm = SegmentLog_setCurrentTerm,
      lo_setVoteFor = SegmentLog_setVoteFor,
      lo_getCurrentTerm = sl_mCurrentTerm,
      lo_getVote = sl_mVoteFor,
      lo_getLatestSecKeyVersion = \<lambda>l. cu_mLatestVersion (sv_crypto P)\<rparr>"

section \<open>The invariant\<close>

text \<open>The entries of a segment, read off its memory.\<close>

definition seg_entries :: "'c seg_env \<Rightarrow> Segment \<Rightarrow> LogEntry list" where
  "seg_entries P s =
     map (\<lambda>m. the (sv_parse P (take (lm_length m) (drop (lm_offset m) (sg_mDataMem s)))))
       (take (Suc (sg_mLastIndex s) - sg_mFirstIndex s) (sg_mMetaMem s))"

lemma seg_entries_holds:
  assumes P: "seg_env_ok P" and s: "seg_holds P s es"
  shows "seg_entries P s = es"
proof (rule nth_equalityI)
  obtain rest where d: "sg_mDataMem s = bytes_of P es @ rest" using seg_holds_data[OF s] by blast
  obtain k where m: "sg_mMetaMem s = metas_of P 0 es @ replicate k zero_meta" using seg_holds_meta[OF s] by blast
  have n: "Suc (sg_mLastIndex s) - sg_mFirstIndex s = length es" using s by (auto simp: seg_holds_def)
  show len: "length (seg_entries P s) = length es" by (simp add: seg_entries_def m n)
  fix i
  assume "i < length (seg_entries P s)"
  then have i: "i < length es" using len by simp
  have "take (byteSizeLong P (es ! i)) (drop (length (bytes_of P (take i es))) (sg_mDataMem s)) = sv_serialize P (es ! i)"
    unfolding d by (subst bytes_of_split[OF i]) simp
  moreover have "sv_parse P (sv_serialize P (es ! i)) = Some (es ! i)" using P by (simp add: seg_env_ok_def)
  ultimately show "seg_entries P s ! i = es ! i"
    using i by (simp add: seg_entries_def m n metas_of_nth meta_of_def)
qed

definition seg_wf :: "'c seg_env \<Rightarrow> nat \<Rightarrow> nat \<Rightarrow> Segment \<Rightarrow> bool" where
  "seg_wf P DS MS s =
     (seg_holds P s (seg_entries P s) \<and> sg_mDataSizeLimit s = DS \<and> sg_mMetaSizeLimit s = MS)"

lemma seg_wfI: "seg_env_ok P \<Longrightarrow> seg_holds P s es \<Longrightarrow> sg_mDataSizeLimit s = DS \<Longrightarrow> sg_mMetaSizeLimit s = MS \<Longrightarrow> seg_wf P DS MS s"
  using seg_entries_holds[of P s es] by (simp add: seg_wf_def)

lemma seg_wf_bounds:
  assumes "seg_wf P DS MS s"
  shows "0 < sg_mFirstIndex s" and "sg_mFirstIndex s + length (seg_entries P s) = Suc (sg_mLastIndex s)"
    and "indexed_from (sg_mFirstIndex s) (seg_entries P s)"
  using assms by (simp_all add: seg_wf_def seg_holds_def)

text \<open>Segments that follow each other without a gap.\<close>

fun chain :: "nat \<Rightarrow> Segment list \<Rightarrow> bool" where
  "chain n [] = True"
| "chain n (s # ss) = (sg_mFirstIndex s = n \<and> chain (Suc (sg_mLastIndex s)) ss)"

definition all_entries :: "'c seg_env \<Rightarrow> Segment list \<Rightarrow> LogEntry list" where
  "all_entries P ss = concat (map (seg_entries P) ss)"

lemma all_entries_simps [simp]:
  "all_entries P [] = []"
  "all_entries P (s # ss) = seg_entries P s @ all_entries P ss"
  "all_entries P (ss @ ts) = all_entries P ss @ all_entries P ts"
  by (simp_all add: all_entries_def)

lemma chain_append:
  assumes "\<forall>s \<in> set ss. seg_wf P DS MS s"
  shows "chain n (ss @ ts) = (chain n ss \<and> chain (n + length (all_entries P ss)) ts)"
  using assms
proof (induction ss arbitrary: n)
  case (Cons s ss)
  then have "sg_mFirstIndex s + length (seg_entries P s) = Suc (sg_mLastIndex s)" using seg_wf_bounds(2) by auto
  with Cons show ?case by (auto simp flip: add.assoc)
qed simp

lemma chain_indexed:
  assumes "\<forall>s \<in> set ss. seg_wf P DS MS s" and "chain n ss"
  shows "indexed_from n (all_entries P ss)"
  using assms
proof (induction ss arbitrary: n)
  case (Cons s ss)
  then have "seg_wf P DS MS s" by simp
  with Cons seg_wf_bounds[OF this] show ?case by (simp add: indexed_from_append)
qed simp

definition seg_ok :: "'c seg_env \<Rightarrow> nat \<Rightarrow> nat \<Rightarrow> segment_log \<Rightarrow> bool" where
  "seg_ok P DS MS l =
     (seg_env_ok P \<and> DS mod 4096 = 0 \<and> 0 < DS \<and> MS mod 4096 = 0 \<and> 0 < MS
      \<and> sl_mSegmentDataSizeLimit l = DS \<and> sl_mSegmentMetaSizeLimit l = MS
      \<and> (\<forall>(k, s) \<in> set (sl_mClosedSegments l). k = sg_mFirstIndex s \<and> \<not> sg_mIsActive s \<and> sg_mFirstIndex s \<le> sg_mLastIndex s)
      \<and> (\<exists>a. sl_mActiveSegment l = Some a \<and> sg_mIsActive a \<and> sl_mLastIndex l = sg_mLastIndex a)
      \<and> (\<forall>s \<in> set (segments l). seg_wf P DS MS s)
      \<and> chain (sg_mFirstIndex (hd (segments l))) (segments l)
      \<and> sg_mFirstIndex (hd (segments l)) \<le> sl_mFirstIndex l
      \<and> (case sl_mClosedSegments l of
           [] \<Rightarrow> sl_mFirstIndex l \<le> sl_mLastIndex l
               \<or> sl_mFirstIndex l = Suc (sl_mLastIndex l) \<and> sg_mFirstIndex (hd (segments l)) = sl_mFirstIndex l
         | (k, s) # _ \<Rightarrow> sl_mFirstIndex l \<le> sg_mLastIndex s))"

definition seg_contents :: "'c seg_env \<Rightarrow> segment_log \<Rightarrow> LogEntry list" where
  "seg_contents P l =
     drop (sl_mFirstIndex l - sg_mFirstIndex (hd (segments l))) (all_entries P (segments l))"

text \<open>The invariant with the chain taken apart.\<close>

lemma seg_okE:
  assumes "seg_ok P DS MS l"
  obtains a base where "sl_mActiveSegment l = Some a" and "sg_mIsActive a" and "sl_mLastIndex l = sg_mLastIndex a"
    and "segments l = map snd (sl_mClosedSegments l) @ [a]" and "base = sg_mFirstIndex (hd (segments l))"
    and "\<forall>s \<in> set (segments l). seg_wf P DS MS s" and "chain base (segments l)"
    and "0 < base" and "base \<le> sl_mFirstIndex l" and "sl_mFirstIndex l \<le> Suc (sl_mLastIndex l)"
    and "base + length (all_entries P (segments l)) = Suc (sl_mLastIndex l)"
    and "indexed_from base (all_entries P (segments l))"
proof -
  obtain a where a: "sl_mActiveSegment l = Some a" "sg_mIsActive a" "sl_mLastIndex l = sg_mLastIndex a"
    using assms by (auto simp: seg_ok_def)
  define base where "base = sg_mFirstIndex (hd (segments l))"
  have segs: "segments l = map snd (sl_mClosedSegments l) @ [a]" by (simp add: segments_def a)
  have wf: "\<forall>s \<in> set (segments l). seg_wf P DS MS s" and ch: "chain base (segments l)" and base: "base \<le> sl_mFirstIndex l"
    using assms by (auto simp: seg_ok_def base_def)
  have wa: "seg_wf P DS MS a" using wf segs by simp
  have wc: "\<forall>s \<in> set (map snd (sl_mClosedSegments l)). seg_wf P DS MS s" using wf segs by simp
  have "sg_mFirstIndex a = base + length (all_entries P (map snd (sl_mClosedSegments l)))"
    using ch unfolding segs chain_append[OF wc] by simp
  then have total: "base + length (all_entries P (segments l)) = Suc (sl_mLastIndex l)"
    using seg_wf_bounds(2)[OF wa] by (simp add: segs a)
  have "hd (segments l) \<in> set (segments l)" by (intro hd_in_set) (simp add: segs)
  then have "seg_wf P DS MS (hd (segments l))" using wf by blast
  then have pos: "0 < base" unfolding base_def by (rule seg_wf_bounds(1))
  have "sl_mFirstIndex l \<le> Suc (sl_mLastIndex l)"
  proof (cases "sl_mClosedSegments l")
    case Nil
    then show ?thesis using assms by (auto simp: seg_ok_def)
  next
    case (Cons c cs)
    then obtain k s where c: "c = (k, s)" by (cases c)
    with Cons assms have "sl_mFirstIndex l \<le> sg_mLastIndex s" by (simp add: seg_ok_def)
    moreover have "seg_wf P DS MS s" using wc Cons c by simp
    then have "base + length (seg_entries P s) = Suc (sg_mLastIndex s)"
      using seg_wf_bounds(2) by (simp add: base_def segs Cons c)
    ultimately show ?thesis using total by (simp add: segs Cons c)
  qed
  then show thesis using that[OF a segs base_def wf ch pos base _ total] chain_indexed[OF wf ch] by blast
qed

section \<open>Reading\<close>

lemma seg_okD:
  assumes "seg_ok P DS MS l"
  shows "seg_env_ok P" and "\<forall>s \<in> set (segments l). seg_wf P DS MS s"
    and "\<And>k s. (k, s) \<in> set (sl_mClosedSegments l) \<Longrightarrow> k = sg_mFirstIndex s \<and> \<not> sg_mIsActive s \<and> sg_mFirstIndex s \<le> sg_mLastIndex s"
  using assms by (auto simp: seg_ok_def)

text \<open>The position of a segment's entries in the whole.\<close>

lemma entry_position:
  assumes wf: "\<forall>s \<in> set (xs @ s # ys). seg_wf P DS MS s" and ch: "chain base (xs @ s # ys)"
    and i: "sg_mFirstIndex s \<le> index" "index \<le> sg_mLastIndex s"
  shows "base \<le> index"
    and "drop (index - base) (all_entries P (xs @ s # ys))
      = drop (index - sg_mFirstIndex s) (seg_entries P s) @ all_entries P ys"
    and "index - sg_mFirstIndex s < length (seg_entries P s)"
proof -
  have "\<forall>s \<in> set xs. seg_wf P DS MS s" using wf by simp
  then have f: "sg_mFirstIndex s = base + length (all_entries P xs)" using ch chain_append by fastforce
  have len: "sg_mFirstIndex s + length (seg_entries P s) = Suc (sg_mLastIndex s)" using wf seg_wf_bounds(2) by auto
  show "base \<le> index" using f i by simp
  show "drop (index - base) (all_entries P (xs @ s # ys))
      = drop (index - sg_mFirstIndex s) (seg_entries P s) @ all_entries P ys"
    using f i len by (simp add: diff_diff_left)
  show "index - sg_mFirstIndex s < length (seg_entries P s)" using i len by linarith
qed

lemma find_closed_ok:
  assumes keys: "\<forall>(k, s) \<in> set closed. k = sg_mFirstIndex s"
    and ch: "chain base (map snd closed @ [a])" and i: "base \<le> index" "index < sg_mFirstIndex a"
  shows "\<exists>xs s ys. find_closed index closed = Inr s \<and> map snd closed = xs @ s # ys
    \<and> sg_mFirstIndex s \<le> index \<and> index \<le> sg_mLastIndex s"
  using assms
proof (induction closed arbitrary: base)
  case (Cons c cs)
  obtain k s where c: "c = (k, s)" by (cases c)
  with Cons.prems have s: "k = sg_mFirstIndex s" "sg_mFirstIndex s = base" "chain (Suc (sg_mLastIndex s)) (map snd cs @ [a])" by auto
  show ?case
  proof (cases "index \<le> sg_mLastIndex s")
    case True
    have "takeWhile (\<lambda>(k, s). k \<le> index) cs = []"
    proof (cases cs)
      case (Cons d ds)
      with s(3) Cons.prems(1) \<open>cs = d # ds\<close> True show ?thesis using Cons.prems by (cases d) auto
    qed simp
    then have "find_closed index (c # cs) = Inr s" using s Cons.prems(3) by (simp add: find_closed_def c)
    with s Cons.prems(3) True show ?thesis
      by (intro exI[of _ "[]"] exI[of _ s] exI[of _ "map snd cs"]) (simp add: c)
  next
    case False
    have "\<exists>xs t ys. find_closed index cs = Inr t \<and> map snd cs = xs @ t # ys
      \<and> sg_mFirstIndex t \<le> index \<and> index \<le> sg_mLastIndex t"
      by (rule Cons.IH[OF _ s(3)]) (use Cons.prems False in auto)
    then obtain xs t ys where t: "find_closed index cs = Inr t" "map snd cs = xs @ t # ys"
      "sg_mFirstIndex t \<le> index" "index \<le> sg_mLastIndex t" by blast
    then have "find_closed index (c # cs) = Inr t"
      using s Cons.prems(3) by (auto simp: find_closed_def c Let_def res_bind_eq_Inr split: if_splits)
    with t show ?thesis by (intro exI[of _ "s # xs"] exI[of _ t] exI[of _ ys]) (simp add: c)
  qed
qed simp

lemma getSegment_ok:
  assumes ok: "seg_ok P DS MS l" and i: "sl_mFirstIndex l \<le> index" "index \<le> sl_mLastIndex l"
  shows "\<exists>xs s ys. getSegment index l = Inr (Some s) \<and> segments l = xs @ s # ys
    \<and> sg_mFirstIndex s \<le> index \<and> index \<le> sg_mLastIndex s"
proof -
  obtain a base where a: "sl_mActiveSegment l = Some a" "sl_mLastIndex l = sg_mLastIndex a"
    and segs: "segments l = map snd (sl_mClosedSegments l) @ [a]" and ch: "chain base (segments l)"
    and base: "base \<le> sl_mFirstIndex l"
    by (rule seg_okE[OF ok])
  have ne: "\<not> isEmpty (sl_mFirstIndex l) (sl_mLastIndex l)" using i by (simp add: isEmpty_def)
  show ?thesis
  proof (cases "sg_mFirstIndex a \<le> index")
    case True
    then have "getSegment index l = Inr (Some a)" using ne i a by (simp add: getSegment_def)
    with True i a segs show ?thesis by auto
  next
    case False
    have "\<forall>(k, s) \<in> set (sl_mClosedSegments l). k = sg_mFirstIndex s" using seg_okD(3)[OF ok] by blast
    from find_closed_ok[OF this, of base a index] ch segs base i False
    obtain xs s ys where s: "find_closed index (sl_mClosedSegments l) = Inr s"
      "map snd (sl_mClosedSegments l) = xs @ s # ys" "sg_mFirstIndex s \<le> index" "index \<le> sg_mLastIndex s"
      by auto
    then have "getSegment index l = Inr (Some s)" using ne i a False by (simp add: getSegment_def)
    with s segs show ?thesis by (intro exI[of _ xs] exI[of _ s] exI[of _ "ys @ [a]"]) simp
  qed
qed

lemma contents_position:
  assumes ok: "seg_ok P DS MS l" and segs: "segments l = xs @ s # ys"
    and i: "sl_mFirstIndex l \<le> index" "sg_mFirstIndex s \<le> index" "index \<le> sg_mLastIndex s"
  shows "drop (index - sl_mFirstIndex l) (seg_contents P l) = drop (index - sg_mFirstIndex s) (seg_entries P s) @ all_entries P ys"
    and "index - sg_mFirstIndex s < length (seg_entries P s)"
proof -
  obtain base where base: "base = sg_mFirstIndex (hd (segments l))" and ch: "chain base (segments l)"
    and le: "base \<le> sl_mFirstIndex l"
    by (rule seg_okE[OF ok])
  note pos = entry_position[OF _ _ i(2,3), of xs ys P DS MS base]
  from le i(1) have "index - sl_mFirstIndex l + (sl_mFirstIndex l - base) = index - base" by simp
  then have "drop (index - sl_mFirstIndex l) (seg_contents P l) = drop (index - base) (all_entries P (segments l))"
    by (simp add: seg_contents_def base)
  with pos ch seg_okD(2)[OF ok] segs
  show "drop (index - sl_mFirstIndex l) (seg_contents P l) = drop (index - sg_mFirstIndex s) (seg_entries P s) @ all_entries P ys"
    and "index - sg_mFirstIndex s < length (seg_entries P s)" by simp_all
qed

lemma contents_length:
  assumes "seg_ok P DS MS l"
  shows "sl_mFirstIndex l + length (seg_contents P l) = Suc (sl_mLastIndex l)" and "0 < sl_mFirstIndex l"
    and "indexed_from (sl_mFirstIndex l) (seg_contents P l)"
proof -
  obtain base where base: "base = sg_mFirstIndex (hd (segments l))" "0 < base" "base \<le> sl_mFirstIndex l"
    "sl_mFirstIndex l \<le> Suc (sl_mLastIndex l)"
    and total: "base + length (all_entries P (segments l)) = Suc (sl_mLastIndex l)"
    and idx: "indexed_from base (all_entries P (segments l))"
    by (rule seg_okE[OF assms])
  show "sl_mFirstIndex l + length (seg_contents P l) = Suc (sl_mLastIndex l)" "0 < sl_mFirstIndex l"
    using base total by (simp_all add: seg_contents_def)
  show "indexed_from (sl_mFirstIndex l) (seg_contents P l)"
    using indexed_from_drop[OF idx, of "sl_mFirstIndex l - base"] base total by (simp add: seg_contents_def)
qed

text \<open>Every read in range is answered from the contents, without a fault.\<close>

lemma log_getTerm:
  assumes ok: "seg_ok P DS MS l" and i: "i < length (seg_contents P l)"
  shows "SegmentLog_getTerm (sl_mFirstIndex l + i) l = Inr (Some (le_term (seg_contents P l ! i)))"
proof -
  let ?index = "sl_mFirstIndex l + i"
  have range: "sl_mFirstIndex l \<le> ?index" "?index \<le> sl_mLastIndex l" using contents_length(1)[OF ok] i by auto
  obtain xs s ys where s: "getSegment ?index l = Inr (Some s)" "segments l = xs @ s # ys"
    "sg_mFirstIndex s \<le> ?index" "?index \<le> sg_mLastIndex s"
    using getSegment_ok[OF ok range] by blast
  note pos = contents_position[OF ok s(2) range(1) s(3,4)]
  have "seg_contents P l ! i = seg_entries P s ! (?index - sg_mFirstIndex s)"
    using arg_cong[OF pos(1), of hd] pos(2) i by (simp add: hd_drop_conv_nth hd_append)
  moreover have "seg_holds P s (seg_entries P s)" using seg_okD(2)[OF ok] s(2) by (simp add: seg_wf_def)
  ultimately show ?thesis
    using getTerm_holds[of P s "seg_entries P s" ?index] pos(2) s by (simp add: SegmentLog_getTerm_def less_diff_conv2)
qed

lemma log_getEntry:
  assumes ok: "seg_ok P DS MS l"
  shows "SegmentLog_getEntry P index l
    = Inr (if sl_mFirstIndex l \<le> index \<and> index \<le> sl_mLastIndex l then Some (seg_contents P l ! (index - sl_mFirstIndex l)) else None)"
proof (cases "sl_mFirstIndex l \<le> index \<and> index \<le> sl_mLastIndex l")
  case False
  then have "getSegment index l = Inr None" by (auto simp: getSegment_def)
  with False show ?thesis by (auto simp: SegmentLog_getEntry_def)
next
  case True
  then obtain xs s ys where s: "getSegment index l = Inr (Some s)" "segments l = xs @ s # ys"
    "sg_mFirstIndex s \<le> index" "index \<le> sg_mLastIndex s"
    using getSegment_ok[OF ok] by blast
  note pos = contents_position[OF ok s(2) conjunct1[OF True] s(3,4)]
  have "index - sl_mFirstIndex l < length (seg_contents P l)" using True contents_length(1)[OF ok] by linarith
  then have "seg_contents P l ! (index - sl_mFirstIndex l) = seg_entries P s ! (index - sg_mFirstIndex s)"
    using arg_cong[OF pos(1), of hd] pos(2) by (simp add: hd_drop_conv_nth hd_append)
  moreover have "seg_holds P s (seg_entries P s)" using seg_okD(2)[OF ok] s(2) by (simp add: seg_wf_def)
  then obtain r where "Segment_getEntry P index s
      = Inr (Some (seg_entries P s ! (index - sg_mFirstIndex s)), s\<lparr>sg_mRecentUsedSecKeyIndex := r\<rparr>)"
    using getEntry_holds[OF seg_okD(1)[OF ok], of s "seg_entries P s" index] pos(2) s(3) by (auto simp: less_diff_conv2)
  ultimately show ?thesis using True s(1) by (simp add: SegmentLog_getEntry_def)
qed

lemma log_getEntries:
  assumes ok: "seg_ok P DS MS l" and n: "sl_mFirstIndex l \<le> n" "n \<le> Suc (sl_mLastIndex l)"
  shows "\<exists>es. SegmentLog_getEntries P n maxLen maxBatch l = Inr (length es, es)
    \<and> (\<exists>k. es = take k (drop (n - sl_mFirstIndex l) (seg_contents P l)))
    \<and> length es \<le> maxBatch \<and> sum_list (map (byteSizeLong P) es) \<le> maxLen
    \<and> (n \<le> sl_mLastIndex l \<and> 0 < maxBatch \<and> byteSizeLong P (seg_contents P l ! (n - sl_mFirstIndex l)) \<le> maxLen \<longrightarrow> es \<noteq> [])"
proof (cases "n = Suc (sl_mLastIndex l)")
  case True
  then show ?thesis by (intro exI[of _ "[]"]) (simp add: SegmentLog_getEntries_def)
next
  case False
  with n have range: "n \<le> sl_mLastIndex l" by simp
  obtain xs s ys where s: "getSegment n l = Inr (Some s)" "segments l = xs @ s # ys"
    "sg_mFirstIndex s \<le> n" "n \<le> sg_mLastIndex s"
    using getSegment_ok[OF ok n(1) range] by blast
  note pos = contents_position[OF ok s(2) n(1) s(3,4)]
  let ?b = "batch_entries (byteSizeLong P) 0 maxLen (min maxBatch (sg_mLastIndex s - n + 1)) (drop (n - sg_mFirstIndex s) (seg_entries P s))"
  have "seg_holds P s (seg_entries P s)" using seg_okD(2)[OF ok] s(2) by (simp add: seg_wf_def)
  from getEntries_holds[OF seg_okD(1)[OF ok] this s(3)] pos(2) s(3)
  obtain r where "Segment_getEntries P n maxLen maxBatch s = Inr (length ?b, ?b, s\<lparr>sg_mRecentUsedSecKeyIndex := r\<rparr>)"
    by (auto simp: Let_def less_diff_conv2)
  then have "SegmentLog_getEntries P n maxLen maxBatch l = Inr (length ?b, ?b)"
    using range s(1) by (simp add: SegmentLog_getEntries_def Let_def)
  moreover obtain k where k: "?b = take k (drop (n - sg_mFirstIndex s) (seg_entries P s))"
    using batch_entries_prefix by blast
  then have "?b = take (min k (length (drop (n - sg_mFirstIndex s) (seg_entries P s)))) (drop (n - sl_mFirstIndex l) (seg_contents P l))"
    unfolding pos(1) by (simp add: min_def)
  moreover have "length ?b \<le> maxBatch" "sum_list (map (byteSizeLong P) ?b) \<le> maxLen"
    using batch_entries_within(1)[of "byteSizeLong P" 0 maxLen "min maxBatch (sg_mLastIndex s - n + 1)"]
      batch_entries_within(2)[of 0 maxLen "byteSizeLong P" "min maxBatch (sg_mLastIndex s - n + 1)"] by (auto intro: order_trans)
  moreover have "?b \<noteq> []" if "0 < maxBatch" "byteSizeLong P (seg_contents P l ! (n - sl_mFirstIndex l)) \<le> maxLen"
  proof -
    have ne: "drop (n - sg_mFirstIndex s) (seg_entries P s) \<noteq> []" using pos(2) by simp
    have "seg_contents P l ! (n - sl_mFirstIndex l) = hd (drop (n - sl_mFirstIndex l) (seg_contents P l))"
      using contents_length(1)[OF ok] n(1) range by (simp add: hd_drop_conv_nth)
    also have "\<dots> = hd (drop (n - sg_mFirstIndex s) (seg_entries P s))" unfolding pos(1) using ne by simp
    finally show ?thesis using batch_entries_take[OF ne, of "byteSizeLong P" maxLen maxBatch "sg_mLastIndex s - n + 1"] that ne
      by auto
  qed
  ultimately show ?thesis by (intro exI[of _ ?b]) blast
qed

section \<open>Appending\<close>

text \<open>What one call can append at all: it has to fit into an empty segment, and its keys have to exist.\<close>

definition fits_segment :: "'c seg_env \<Rightarrow> nat \<Rightarrow> nat \<Rightarrow> LogEntry list \<Rightarrow> bool" where
  "fits_segment P DS MS es =
     (length (bytes_of P es) \<le> DS \<and> length es * sizeof_LogMeta \<le> MS \<and> (\<forall>e \<in> set es. signable P e))"

lemma claim_path_simps [simp]:
  "sl_mClosedSegments (claim_path s l) = sl_mClosedSegments l"
  "sl_mActiveSegment (claim_path s l) = sl_mActiveSegment l"
  "sl_mFirstIndex (claim_path s l) = sl_mFirstIndex l"
  "sl_mLastIndex (claim_path s l) = sl_mLastIndex l"
  "sl_mCurrentTerm (claim_path s l) = sl_mCurrentTerm l"
  "sl_mVoteFor (claim_path s l) = sl_mVoteFor l"
  "sl_mSegmentDataSizeLimit (claim_path s l) = sl_mSegmentDataSizeLimit l"
  "sl_mSegmentMetaSizeLimit (claim_path s l) = sl_mSegmentMetaSizeLimit l"
  "sl_metaStorage (claim_path s l) = sl_metaStorage l"
  "sl_mLogDir (claim_path s l) = sl_mLogDir l"
  by (simp_all add: claim_path_def)

lemma createActive_holds:
  assumes "0 < n" and "DS mod 4096 = 0" "0 < DS" "MS mod 4096 = 0" "0 < MS"
  shows "\<exists>s. createActiveSegment n DS MS = Inr s \<and> seg_holds P s [] \<and> sg_mIsActive s \<and> sg_mFirstIndex s = n
    \<and> sg_mLastIndex s = n - 1 \<and> sg_mDataSizeLimit s = DS \<and> sg_mMetaSizeLimit s = MS"
proof -
  have "(64 :: nat) dvd 4096" "4096 dvd MS" using assms(4) by (simp_all add: mod_eq_0_iff_dvd)
  then have "64 * (MS div 64) = MS" using dvd_trans dvd_mult_div_cancel by blast
  then show ?thesis using assms by (simp add: createActiveSegment_def seg_holds_def sizeof_LogMeta_def)
qed

lemma newActive_ok:
  assumes "sl_mSegmentDataSizeLimit l = DS" "sl_mSegmentMetaSizeLimit l = MS"
    and "DS mod 4096 = 0" "0 < DS" "MS mod 4096 = 0" "0 < MS"
  shows "\<exists>s. newActiveSegment l = Inr (claim_path s (l\<lparr>sl_mActiveSegment := Some s\<rparr>)) \<and> seg_holds P s [] \<and> sg_mIsActive s
    \<and> sg_mFirstIndex s = Suc (sl_mLastIndex l) \<and> sg_mLastIndex s = sl_mLastIndex l
    \<and> sg_mDataSizeLimit s = DS \<and> sg_mMetaSizeLimit s = MS"
  using createActive_holds[of "Suc (sl_mLastIndex l)" DS MS P] assms by (auto simp: newActiveSegment_def)

lemma seg_okI:
  assumes "seg_env_ok P" "DS mod 4096 = 0" "0 < DS" "MS mod 4096 = 0" "0 < MS"
    and "sl_mSegmentDataSizeLimit l = DS" "sl_mSegmentMetaSizeLimit l = MS"
    and "\<And>k s. (k, s) \<in> set (sl_mClosedSegments l) \<Longrightarrow> k = sg_mFirstIndex s \<and> \<not> sg_mIsActive s \<and> sg_mFirstIndex s \<le> sg_mLastIndex s"
    and "sl_mActiveSegment l = Some a" "sg_mIsActive a" "sl_mLastIndex l = sg_mLastIndex a"
    and "\<forall>s \<in> set (map snd (sl_mClosedSegments l) @ [a]). seg_wf P DS MS s"
    and "chain base (map snd (sl_mClosedSegments l) @ [a])" and "base \<le> sl_mFirstIndex l"
    and "case sl_mClosedSegments l of
        [] \<Rightarrow> sl_mFirstIndex l \<le> sl_mLastIndex l \<or> sl_mFirstIndex l = Suc (sl_mLastIndex l) \<and> base = sl_mFirstIndex l
      | (k, s) # _ \<Rightarrow> sl_mFirstIndex l \<le> sg_mLastIndex s"
  shows "seg_ok P DS MS l" and "seg_contents P l = drop (sl_mFirstIndex l - base) (all_entries P (map snd (sl_mClosedSegments l) @ [a]))"
proof -
  have segs: "segments l = map snd (sl_mClosedSegments l) @ [a]" by (simp add: segments_def assms)
  have hd: "sg_mFirstIndex (hd (segments l)) = base" using assms(13) by (cases "map snd (sl_mClosedSegments l)") (auto simp: segs)
  show "seg_ok P DS MS l" unfolding seg_ok_def hd using assms segs by auto
  show "seg_contents P l = drop (sl_mFirstIndex l - base) (all_entries P (map snd (sl_mClosedSegments l) @ [a]))"
    using hd by (simp add: seg_contents_def segs)
qed

lemma chain_less:
  assumes "\<forall>s \<in> set ss. seg_wf P DS MS s" and "chain base (ss @ [a])" and "s \<in> set ss"
  shows "sg_mLastIndex s < sg_mFirstIndex a"
proof -
  obtain xs ys where ss: "ss = xs @ s # ys" using assms(3) by (auto simp: in_set_conv_decomp)
  then have xs: "\<forall>s \<in> set xs. seg_wf P DS MS s" and s: "seg_wf P DS MS s" using assms(1) by auto
  have "sg_mFirstIndex a = base + length (all_entries P ss)" using assms(2) chain_append[OF assms(1)] by simp
  moreover have "sg_mFirstIndex s = base + length (all_entries P xs)"
    using assms(2) chain_append[OF xs] by (simp add: ss)
  ultimately show ?thesis using seg_wf_bounds(2)[OF s] by (simp add: ss)
qed

lemma smap_put_last: "\<forall>x \<in> set m. fst x < k \<Longrightarrow> smap_put k v m = m @ [(k, v)]"
  by (induction k v m rule: smap_put.induct) auto

lemma seg_entries_active [simp]: "seg_entries P (s\<lparr>sg_mIsActive := b\<rparr>) = seg_entries P s"
  by (simp add: seg_entries_def)

lemma seg_wf_active [simp]: "seg_wf P DS MS (s\<lparr>sg_mIsActive := b\<rparr>) = seg_wf P DS MS s"
  by (simp add: seg_wf_def seg_holds_def)

text \<open>Replacing the active segment by one that holds more.\<close>

lemma append_room:
  assumes ok: "seg_ok P DS MS l" and a: "sl_mActiveSegment l = Some a" and room: "has_room P es a"
    and run: "Segment_appendEntries P es a = Inr s"
    and l': "l' = l\<lparr>sl_mActiveSegment := Some s, sl_mLastIndex := sl_mLastIndex l + length es\<rparr>"
  shows "seg_ok P DS MS l' \<and> seg_contents P l' = seg_contents P l @ es"
proof -
  obtain a' base where a': "sl_mActiveSegment l = Some a'" "sl_mLastIndex l = sg_mLastIndex a'"
    and segs: "segments l = map snd (sl_mClosedSegments l) @ [a']" and base: "base = sg_mFirstIndex (hd (segments l))"
    and wf: "\<forall>s \<in> set (segments l). seg_wf P DS MS s" and ch: "chain base (segments l)" and "base \<le> sl_mFirstIndex l"
    and le: "sl_mFirstIndex l \<le> Suc (sl_mLastIndex l)"
    and total: "base + length (all_entries P (segments l)) = Suc (sl_mLastIndex l)"
    by (rule seg_okE[OF ok])
  have "a' = a" using a a' by simp
  then have wa: "seg_wf P DS MS a" using wf segs by simp
  then have holds: "seg_holds P a (seg_entries P a)" and lims: "sg_mDataSizeLimit a = DS" "sg_mMetaSizeLimit a = MS"
    by (simp_all add: seg_wf_def)
  have P: "seg_env_ok P" by (rule seg_okD(1)[OF ok])
  note s = append_returns(2)[OF P holds run]
  have es: "seg_entries P s = seg_entries P a @ es" using seg_entries_holds[OF P] s by blast
  have ws: "seg_wf P DS MS s" using seg_wfI[OF P] s lims by blast
  have last: "sl_mLastIndex l + length es = sg_mLastIndex s"
    using seg_wf_bounds(2)[OF ws] seg_wf_bounds(2)[OF wa] s es a' \<open>a' = a\<close> by simp
  have wc: "\<forall>s \<in> set (map snd (sl_mClosedSegments l)). seg_wf P DS MS s" using wf segs by simp
  have ch': "chain base (map snd (sl_mClosedSegments l') @ [s])"
    using ch s \<open>a' = a\<close> unfolding segs l' by (simp add: chain_append[OF wc])
  have all: "all_entries P (map snd (sl_mClosedSegments l') @ [s]) = all_entries P (segments l) @ es"
    by (simp add: l' segs es \<open>a' = a\<close>)
  have "es \<noteq> []" using append_returns(1)[OF P holds, of es] run by auto
  then have "1 \<le> length es" by (cases es) simp_all
  then have "case sl_mClosedSegments l' of
        [] \<Rightarrow> sl_mFirstIndex l' \<le> sl_mLastIndex l' \<or> sl_mFirstIndex l' = Suc (sl_mLastIndex l') \<and> base = sl_mFirstIndex l'
      | (k, s) # _ \<Rightarrow> sl_mFirstIndex l' \<le> sg_mLastIndex s"
    using ok by (auto simp: l' seg_ok_def trans_le_add1 split: list.splits)
  note I = seg_okI[of P DS MS l' s base, OF P _ _ _ _ _ _ _ _ _ _ _ ch' _ this]
  have "seg_ok P DS MS l' \<and> seg_contents P l' = drop (sl_mFirstIndex l' - base) (all_entries P (map snd (sl_mClosedSegments l') @ [s]))"
    by (intro conjI I) (use ok seg_okD(3)[OF ok] s ws wc last \<open>base \<le> _\<close> in \<open>auto simp: l' seg_ok_def\<close>)
  moreover have "sl_mFirstIndex l - base \<le> length (all_entries P (segments l))" using le total by linarith
  ultimately show ?thesis unfolding all by (simp add: seg_contents_def base l')
qed

lemma fresh_room:
  "seg_holds P b [] \<Longrightarrow> sg_mDataSizeLimit b = DS \<Longrightarrow> sg_mMetaSizeLimit b = MS \<Longrightarrow>
   has_room P es b \<and> (\<forall>e \<in> set es. signable P e) \<longleftrightarrow> fits_segment P DS MS es"
  by (auto simp: has_room_def fits_segment_def seg_holds_def)

lemma roll_shape:
  assumes ok: "seg_ok P DS MS l" and a: "sl_mActiveSegment l = Some a"
  obtains b where "rollActiveSegment l
      = Inr (claim_path b (claim_path (a\<lparr>sg_mIsActive := False\<rparr>)
          (l\<lparr>sl_mClosedSegments := sl_mClosedSegments l @ [(sg_mFirstIndex a, a\<lparr>sg_mIsActive := False\<rparr>)], sl_mActiveSegment := Some b\<rparr>)))"
    and "seg_holds P b []" "sg_mIsActive b" "sg_mFirstIndex b = Suc (sl_mLastIndex l)" "sg_mLastIndex b = sl_mLastIndex l"
    "sg_mDataSizeLimit b = DS" "sg_mMetaSizeLimit b = MS"
proof -
  obtain a' base where a': "sl_mActiveSegment l = Some a'" "sg_mIsActive a'"
    and segs: "segments l = map snd (sl_mClosedSegments l) @ [a']"
    and wf: "\<forall>s \<in> set (segments l). seg_wf P DS MS s" and ch: "chain base (segments l)"
    by (rule seg_okE[OF ok])
  have wc: "\<forall>s \<in> set (map snd (sl_mClosedSegments l)). seg_wf P DS MS s" using wf segs by simp
  have "fst x < sg_mFirstIndex a" if "x \<in> set (sl_mClosedSegments l)" for x
  proof -
    obtain k s where x: "x = (k, s)" by (cases x)
    with that have "s \<in> set (map snd (sl_mClosedSegments l))" by force
    then have "sg_mLastIndex s < sg_mFirstIndex a'" using chain_less[OF wc, of base a'] ch segs by simp
    moreover have "k = sg_mFirstIndex s" "sg_mFirstIndex s \<le> sg_mLastIndex s" using seg_okD(3)[OF ok] that x by blast+
    ultimately show ?thesis using a a' x by simp
  qed
  then have put: "smap_put (sg_mFirstIndex a) v (sl_mClosedSegments l) = sl_mClosedSegments l @ [(sg_mFirstIndex a, v)]" for v
    by (intro smap_put_last) blast
  let ?l = "claim_path (a\<lparr>sg_mIsActive := False\<rparr>)
      (l\<lparr>sl_mClosedSegments := sl_mClosedSegments l @ [(sg_mFirstIndex a, a\<lparr>sg_mIsActive := False\<rparr>)]\<rparr>)"
  have "sl_mSegmentDataSizeLimit ?l = DS" "sl_mSegmentMetaSizeLimit ?l = MS" "DS mod 4096 = 0" "0 < DS" "MS mod 4096 = 0" "0 < MS"
    using ok by (auto simp: seg_ok_def)
  from newActive_ok[OF this, of P] obtain b where
    b: "newActiveSegment ?l = Inr (claim_path b (?l\<lparr>sl_mActiveSegment := Some b\<rparr>))" "seg_holds P b []" "sg_mIsActive b"
    "sg_mFirstIndex b = Suc (sl_mLastIndex ?l)" "sg_mLastIndex b = sl_mLastIndex ?l"
    "sg_mDataSizeLimit b = DS" "sg_mMetaSizeLimit b = MS" by blast
  have "rollActiveSegment l = Inr (claim_path b (?l\<lparr>sl_mActiveSegment := Some b\<rparr>))"
    using a a' by (simp add: rollActiveSegment_def Segment_closeActiveSegment_def put b(1))
  moreover have "?l\<lparr>sl_mActiveSegment := Some b\<rparr> = claim_path (a\<lparr>sg_mIsActive := False\<rparr>)
      (l\<lparr>sl_mClosedSegments := sl_mClosedSegments l @ [(sg_mFirstIndex a, a\<lparr>sg_mIsActive := False\<rparr>)], sl_mActiveSegment := Some b\<rparr>)"
    by (simp add: claim_path_def)
  ultimately show thesis using that[of b] b by simp
qed

lemma segments_claim [simp]: "segments (claim_path s l) = segments l"
  by (simp add: segments_def)

lemma seg_ok_claim [simp]:
  "seg_ok P DS MS (claim_path s l) = seg_ok P DS MS l" "seg_contents P (claim_path s l) = seg_contents P l"
  unfolding seg_ok_def seg_contents_def claim_path_simps segments_claim by (rule refl)+

lemma roll_ok:
  assumes ok: "seg_ok P DS MS l" and a: "sl_mActiveSegment l = Some a" and ne: "sg_mFirstIndex a \<le> sg_mLastIndex a"
    and b: "seg_holds P b []" "sg_mIsActive b" "sg_mFirstIndex b = Suc (sl_mLastIndex l)" "sg_mLastIndex b = sl_mLastIndex l"
      "sg_mDataSizeLimit b = DS" "sg_mMetaSizeLimit b = MS"
    and l': "l' = l\<lparr>sl_mClosedSegments := sl_mClosedSegments l @ [(sg_mFirstIndex a, a\<lparr>sg_mIsActive := False\<rparr>)], sl_mActiveSegment := Some b\<rparr>"
  shows "seg_ok P DS MS l' \<and> seg_contents P l' = seg_contents P l"
proof -
  obtain a' base where a': "sl_mActiveSegment l = Some a'" "sl_mLastIndex l = sg_mLastIndex a'"
    and segs: "segments l = map snd (sl_mClosedSegments l) @ [a']" and base: "base = sg_mFirstIndex (hd (segments l))"
    and wf: "\<forall>s \<in> set (segments l). seg_wf P DS MS s" and ch: "chain base (segments l)" and le: "base \<le> sl_mFirstIndex l"
    by (rule seg_okE[OF ok])
  have eq: "a' = a" using a a' by simp
  have P: "seg_env_ok P" by (rule seg_okD(1)[OF ok])
  have wb: "seg_wf P DS MS b" using seg_wfI[OF P b(1)] b by simp
  have eb: "seg_entries P b = []" by (rule seg_entries_holds[OF P b(1)])
  let ?a = "a\<lparr>sg_mIsActive := False\<rparr>"
  have wc: "\<forall>s \<in> set (map snd (sl_mClosedSegments l)). seg_wf P DS MS s" and wa: "seg_wf P DS MS a" using wf segs eq by auto
  have ch': "chain base (map snd (sl_mClosedSegments l') @ [b])"
    using ch a'(2) b(3) eq unfolding segs l' by (simp add: chain_append[OF wc])
  have all: "all_entries P (map snd (sl_mClosedSegments l') @ [b]) = all_entries P (segments l)"
    by (simp add: l' segs eb eq)
  have "case sl_mClosedSegments l' of
        [] \<Rightarrow> sl_mFirstIndex l' \<le> sl_mLastIndex l' \<or> sl_mFirstIndex l' = Suc (sl_mLastIndex l') \<and> base = sl_mFirstIndex l'
      | (k, s) # _ \<Rightarrow> sl_mFirstIndex l' \<le> sg_mLastIndex s"
    using ok ne a' eq segs by (auto simp: l' seg_ok_def split: list.splits)
  note I = seg_okI[of P DS MS l' b base, OF P _ _ _ _ _ _ _ _ _ _ _ ch' _ this]
  have "seg_ok P DS MS l' \<and> seg_contents P l' = drop (sl_mFirstIndex l' - base) (all_entries P (map snd (sl_mClosedSegments l') @ [b]))"
    by (intro conjI I) (use ok seg_okD(3)[OF ok] b wb wc wa le ne in \<open>auto simp: l' seg_ok_def\<close>)
  then show ?thesis unfolding all by (simp add: seg_contents_def base l')
qed

lemma append_to_active_ok:
  assumes ok: "seg_ok P DS MS l" and es: "es \<noteq> []"
  shows "(\<exists>r. append_to_active P es l = Inr r) \<longleftrightarrow> indexed_from (Suc (sl_mLastIndex l)) es \<and> fits_segment P DS MS es"
    and "append_to_active P es l = Inr r \<Longrightarrow>
      \<exists>l'. r = (True, l') \<and> seg_ok P DS MS l' \<and> seg_contents P l' = seg_contents P l @ es
        \<and> sl_mFirstIndex l' = sl_mFirstIndex l \<and> sl_mCurrentTerm l' = sl_mCurrentTerm l \<and> sl_mVoteFor l' = sl_mVoteFor l"
proof -
  obtain a where a: "sl_mActiveSegment l = Some a" "sg_mIsActive a" "sl_mLastIndex l = sg_mLastIndex a"
    and segs: "segments l = map snd (sl_mClosedSegments l) @ [a]" and wf: "\<forall>s \<in> set (segments l). seg_wf P DS MS s"
    by (rule seg_okE[OF ok])
  have P: "seg_env_ok P" by (rule seg_okD(1)[OF ok])
  have wa: "seg_wf P DS MS a" using wf segs by simp
  then have ha: "seg_holds P a (seg_entries P a)" and lims: "sg_mDataSizeLimit a = DS" "sg_mMetaSizeLimit a = MS"
    by (simp_all add: seg_wf_def)
  let ?goal1 = "(\<exists>r. append_to_active P es l = Inr r) \<longleftrightarrow> indexed_from (Suc (sl_mLastIndex l)) es \<and> fits_segment P DS MS es"
  let ?goal2 = "\<forall>r. append_to_active P es l = Inr r \<longrightarrow>
      (\<exists>l'. r = (True, l') \<and> seg_ok P DS MS l' \<and> seg_contents P l' = seg_contents P l @ es
        \<and> sl_mFirstIndex l' = sl_mFirstIndex l \<and> sl_mCurrentTerm l' = sl_mCurrentTerm l \<and> sl_mVoteFor l' = sl_mVoteFor l)"
  have "?goal1 \<and> ?goal2"
  proof (cases "has_room P es a")
    case True
    have run: "append_to_active P es l = res_bind (Segment_appendEntries P es a)
        (\<lambda>s. Inr (True, l\<lparr>sl_mActiveSegment := Some s, sl_mLastIndex := sl_mLastIndex l + length es\<rparr>))"
      using True a by (simp add: append_to_active_def shouldRoll_room)
    have "fits_segment P DS MS es \<longleftrightarrow> (\<forall>e \<in> set es. signable P e)"
      using True lims by (auto simp: has_room_def fits_segment_def)
    then have ?goal1
      using append_returns(1)[OF P ha, of es] True a es unfolding run res_bind_eq_Inr by auto
    moreover have ?goal2 unfolding run res_bind_eq_Inr using append_room[OF ok a(1) True] by auto
    ultimately show ?thesis ..
  next
    case False
    obtain b where roll: "rollActiveSegment l
        = Inr (claim_path b (claim_path (a\<lparr>sg_mIsActive := False\<rparr>)
          (l\<lparr>sl_mClosedSegments := sl_mClosedSegments l @ [(sg_mFirstIndex a, a\<lparr>sg_mIsActive := False\<rparr>)], sl_mActiveSegment := Some b\<rparr>)))"
      and b: "seg_holds P b []" "sg_mIsActive b" "sg_mFirstIndex b = Suc (sl_mLastIndex l)" "sg_mLastIndex b = sl_mLastIndex l"
        "sg_mDataSizeLimit b = DS" "sg_mMetaSizeLimit b = MS"
      by (rule roll_shape[OF ok a(1)])
    let ?l = "claim_path b (claim_path (a\<lparr>sg_mIsActive := False\<rparr>)
          (l\<lparr>sl_mClosedSegments := sl_mClosedSegments l @ [(sg_mFirstIndex a, a\<lparr>sg_mIsActive := False\<rparr>)], sl_mActiveSegment := Some b\<rparr>))"
    have run: "append_to_active P es l = res_bind (Segment_appendEntries P es b)
        (\<lambda>s. Inr (True, ?l\<lparr>sl_mActiveSegment := Some s, sl_mLastIndex := sl_mLastIndex ?l + length es\<rparr>))"
      using False a by (simp add: append_to_active_def shouldRoll_room roll)
    have ret: "(\<exists>s. Segment_appendEntries P es b = Inr s) \<longleftrightarrow> indexed_from (Suc (sl_mLastIndex l)) es \<and> fits_segment P DS MS es"
      using append_returns(1)[OF P b(1), of es] fresh_room[OF b(1,5,6), of es] b es by auto
    then have ?goal1 unfolding run res_bind_eq_Inr by auto
    moreover have ?goal2
    proof (intro allI impI)
      fix r
      assume "append_to_active P es l = Inr r"
      then obtain s where s: "Segment_appendEntries P es b = Inr s"
        and r: "r = (True, ?l\<lparr>sl_mActiveSegment := Some s, sl_mLastIndex := sl_mLastIndex ?l + length es\<rparr>)"
        unfolding run res_bind_eq_Inr by auto
      then have fit: "fits_segment P DS MS es" using ret by blast
      have "sg_mFirstIndex a \<le> sg_mLastIndex a"
      proof (rule ccontr)
        assume "\<not> ?thesis"
        then have "length (seg_entries P a) = 0" using seg_wf_bounds(2)[OF wa] by linarith
        then show False using fresh_room[of P a DS MS es] ha lims fit False by auto
      qed
      then have ok': "seg_ok P DS MS ?l" "seg_contents P ?l = seg_contents P l"
        using roll_ok[OF ok a(1) _ b] by auto
      have "has_room P es b" using fresh_room[OF b(1,5,6), of es] fit by blast
      from append_room[OF ok'(1) _ this s refl] ok'(2)
      show "\<exists>l'. r = (True, l') \<and> seg_ok P DS MS l' \<and> seg_contents P l' = seg_contents P l @ es
        \<and> sl_mFirstIndex l' = sl_mFirstIndex l \<and> sl_mCurrentTerm l' = sl_mCurrentTerm l \<and> sl_mVoteFor l' = sl_mVoteFor l"
        unfolding r by simp
    qed
    ultimately show ?thesis ..
  qed
  then show ?goal1 "append_to_active P es l = Inr r \<Longrightarrow>
      \<exists>l'. r = (True, l') \<and> seg_ok P DS MS l' \<and> seg_contents P l' = seg_contents P l @ es
        \<and> sl_mFirstIndex l' = sl_mFirstIndex l \<and> sl_mCurrentTerm l' = sl_mCurrentTerm l \<and> sl_mVoteFor l' = sl_mVoteFor l"
    by blast+
qed

section \<open>Truncating a prefix\<close>

lemma truncatePrefix_log:
  assumes ok: "seg_ok P DS MS l" and k: "k \<le> sl_mLastIndex l"
  shows "\<exists>l'. SegmentLog_truncatePrefix k l = Inr l' \<and> seg_ok P DS MS l'
    \<and> seg_contents P l' = drop (k - sl_mFirstIndex l) (seg_contents P l)
    \<and> sl_mFirstIndex l' = max k (sl_mFirstIndex l)
    \<and> sl_mCurrentTerm l' = sl_mCurrentTerm l \<and> sl_mVoteFor l' = sl_mVoteFor l"
proof (cases "k \<le> sl_mFirstIndex l")
  case True
  with ok show ?thesis by (simp add: SegmentLog_truncatePrefix_def)
next
  case False
  obtain a base where a: "sl_mActiveSegment l = Some a" "sg_mIsActive a" "sl_mLastIndex l = sg_mLastIndex a"
    and segs: "segments l = map snd (sl_mClosedSegments l) @ [a]" and base: "base = sg_mFirstIndex (hd (segments l))"
    and wf: "\<forall>s \<in> set (segments l). seg_wf P DS MS s" and ch: "chain base (segments l)" and le: "base \<le> sl_mFirstIndex l"
    by (rule seg_okE[OF ok])
  have P: "seg_env_ok P" by (rule seg_okD(1)[OF ok])
  define erased where "erased = takeWhile (\<lambda>(k', s). sg_mLastIndex s < k) (sl_mClosedSegments l)"
  define kept where "kept = dropWhile (\<lambda>(k', s). sg_mLastIndex s < k) (sl_mClosedSegments l)"
  have split: "sl_mClosedSegments l = erased @ kept" by (simp add: erased_def kept_def)
  define l' where "l' = l\<lparr>sl_metaStorage := persistFirstIndex k (sl_metaStorage l), sl_mFirstIndex := k,
      sl_mClosedSegments := kept, sl_retained := map (files_of (seg_dir l) \<circ> snd) erased @ sl_retained l\<rparr>"
  have run: "SegmentLog_truncatePrefix k l = Inr l'"
    using False k a by (simp add: SegmentLog_truncatePrefix_def Let_def l'_def erased_def kept_def)
  define base' where "base' = base + length (all_entries P (map snd erased))"
  have we: "\<forall>s \<in> set (map snd erased). seg_wf P DS MS s" using wf segs split by auto
  have ch': "chain base' (map snd (sl_mClosedSegments l') @ [a])"
    using ch unfolding segs split base'_def l'_def by (simp add: chain_append[OF we])
  have ends: "base' \<le> k"
  proof (cases erased rule: rev_cases)
    case Nil
    then show ?thesis using le False by (simp add: base'_def)
  next
    case (snoc es e)
    obtain k' s where e: "e = (k', s)" by (cases e)
    have "e \<in> set erased" by (simp add: snoc)
    then have "sg_mLastIndex s < k" unfolding erased_def using e by (auto dest: set_takeWhileD)
    moreover have "chain base (map snd es @ [s] @ (map snd kept @ [a]))" using ch segs split snoc e by simp
    then have "sg_mFirstIndex s = base + length (all_entries P (map snd es))"
      using we chain_append[of "map snd es" P DS MS base "[s] @ (map snd kept @ [a])"] snoc by simp
    moreover have "seg_wf P DS MS s" using we snoc e by simp
    ultimately show ?thesis using seg_wf_bounds(2) by (fastforce simp: base'_def snoc e)
  qed
  have cond: "case sl_mClosedSegments l' of
        [] \<Rightarrow> sl_mFirstIndex l' \<le> sl_mLastIndex l' \<or> sl_mFirstIndex l' = Suc (sl_mLastIndex l') \<and> base' = sl_mFirstIndex l'
      | (k, s) # _ \<Rightarrow> sl_mFirstIndex l' \<le> sg_mLastIndex s"
  proof (cases kept)
    case Nil
    then show ?thesis using k by (simp add: l'_def)
  next
    case (Cons c cs)
    then have "\<not> (case c of (k', s) \<Rightarrow> sg_mLastIndex s < k)" using hd_dropWhile[of _ "sl_mClosedSegments l"] unfolding kept_def
      by (metis list.sel(1) list.distinct(1))
    then show ?thesis using Cons by (auto simp: l'_def)
  qed
  note I = seg_okI[of P DS MS l' a base', OF P _ _ _ _ _ _ _ _ _ _ _ ch' _ cond]
  have res: "seg_ok P DS MS l' \<and> seg_contents P l' = drop (sl_mFirstIndex l' - base') (all_entries P (map snd (sl_mClosedSegments l') @ [a]))"
    by (intro conjI I) (use ok seg_okD(3)[OF ok] a wf segs split ends in \<open>auto simp: l'_def seg_ok_def\<close>)
  define rest where "rest = all_entries P (map snd (sl_mClosedSegments l') @ [a])"
  have all: "all_entries P (segments l) = all_entries P (map snd erased) @ rest"
    by (simp add: segs split l'_def rest_def)
  have "drop (k - sl_mFirstIndex l) (seg_contents P l) = drop (k - base) (all_entries P (segments l))"
    using False le by (simp add: seg_contents_def flip: base)
  also have "\<dots> = drop (k - base') rest" using ends by (simp add: all base'_def)
  finally have "drop (k - sl_mFirstIndex l) (seg_contents P l) = drop (k - base') (all_entries P (map snd (sl_mClosedSegments l') @ [a]))"
    by (simp add: rest_def)
  with res run False show ?thesis by (simp add: l'_def)
qed

section \<open>Truncating a suffix\<close>

lemma back_to_split:
  obtains ds where "closed = back_to k closed @ ds" and "\<forall>(k', s) \<in> set ds. k < sg_mFirstIndex s"
    and "back_to k closed \<noteq> [] \<Longrightarrow> sg_mFirstIndex (snd (last (back_to k closed))) \<le> k"
proof -
  let ?p = "\<lambda>(k', s). \<not> sg_mFirstIndex s \<le> k"
  let ?ds = "rev (takeWhile ?p (rev closed))"
  have "rev closed = takeWhile ?p (rev closed) @ dropWhile ?p (rev closed)" by simp
  then have "closed = back_to k closed @ ?ds" unfolding back_to_def by (metis rev_append rev_rev_ident)
  moreover have "\<forall>(k', s) \<in> set ?ds. k < sg_mFirstIndex s" by (auto dest: set_takeWhileD)
  moreover have "sg_mFirstIndex (snd (last (back_to k closed))) \<le> k" if "back_to k closed \<noteq> []"
  proof -
    have "dropWhile ?p (rev closed) \<noteq> []" using that by (simp add: back_to_def)
    then have "\<not> ?p (hd (dropWhile ?p (rev closed)))" by (rule hd_dropWhile)
    then show ?thesis using that by (auto simp: back_to_def last_rev split: prod.splits)
  qed
  ultimately show thesis using that by blast
qed

text \<open>The log that ends at \<open>k\<close> and has a fresh active segment.\<close>

lemma fresh_active_ok:
  assumes P: "seg_env_ok P" "DS mod 4096 = 0" "0 < DS" "MS mod 4096 = 0" "0 < MS"
    and lims: "sl_mSegmentDataSizeLimit l = DS" "sl_mSegmentMetaSizeLimit l = MS"
    and none: "sl_mActiveSegment l = None"
    and keys: "\<And>k s. (k, s) \<in> set (sl_mClosedSegments l) \<Longrightarrow> k = sg_mFirstIndex s \<and> \<not> sg_mIsActive s \<and> sg_mFirstIndex s \<le> sg_mLastIndex s"
    and wf: "\<forall>s \<in> set (map snd (sl_mClosedSegments l)). seg_wf P DS MS s"
    and ch: "chain base (map snd (sl_mClosedSegments l))" and le: "base \<le> sl_mFirstIndex l"
    and last: "base + length (all_entries P (map snd (sl_mClosedSegments l))) = Suc (sl_mLastIndex l)"
    and cond: "case sl_mClosedSegments l of [] \<Rightarrow> sl_mFirstIndex l = Suc (sl_mLastIndex l) | (k, s) # _ \<Rightarrow> sl_mFirstIndex l \<le> sg_mLastIndex s"
  shows "\<exists>l'. ensure_active l = Inr l' \<and> seg_ok P DS MS l'
    \<and> seg_contents P l' = drop (sl_mFirstIndex l - base) (all_entries P (map snd (sl_mClosedSegments l)))
    \<and> sl_mFirstIndex l' = sl_mFirstIndex l \<and> sl_mCurrentTerm l' = sl_mCurrentTerm l \<and> sl_mVoteFor l' = sl_mVoteFor l"
proof -
  obtain b where b: "newActiveSegment l = Inr (claim_path b (l\<lparr>sl_mActiveSegment := Some b\<rparr>))" "seg_holds P b []"
    "sg_mIsActive b" "sg_mFirstIndex b = Suc (sl_mLastIndex l)" "sg_mLastIndex b = sl_mLastIndex l"
    "sg_mDataSizeLimit b = DS" "sg_mMetaSizeLimit b = MS"
    using newActive_ok[OF lims P(2-5), of P] by blast
  let ?l = "l\<lparr>sl_mActiveSegment := Some b\<rparr>"
  have wb: "seg_wf P DS MS b" using seg_wfI[OF P(1) b(2)] b by simp
  have eb: "seg_entries P b = []" by (rule seg_entries_holds[OF P(1) b(2)])
  have ch': "chain base (map snd (sl_mClosedSegments ?l) @ [b])" using ch last b(4) by (simp add: chain_append[OF wf])
  have cond': "case sl_mClosedSegments ?l of
        [] \<Rightarrow> sl_mFirstIndex ?l \<le> sl_mLastIndex ?l \<or> sl_mFirstIndex ?l = Suc (sl_mLastIndex ?l) \<and> base = sl_mFirstIndex ?l
      | (k, s) # _ \<Rightarrow> sl_mFirstIndex ?l \<le> sg_mLastIndex s"
    using cond last by (auto split: list.splits)
  note I = seg_okI[of P DS MS ?l b base, OF P(1) _ _ _ _ _ _ _ _ _ _ _ ch' _ cond']
  have "seg_ok P DS MS ?l \<and> seg_contents P ?l = drop (sl_mFirstIndex ?l - base) (all_entries P (map snd (sl_mClosedSegments ?l) @ [b]))"
    by (intro conjI I) (use P lims keys wf wb b le in auto)
  with b(1) none show ?thesis by (simp add: ensure_active_def eb)
qed

text \<open>Cutting back to before the first entry drops every segment.\<close>

lemma truncateSuffix_all:
  assumes ok: "seg_ok P DS MS l" and k: "sl_mFirstIndex l = Suc k" "k < sl_mLastIndex l"
  shows "\<exists>l'. SegmentLog_truncateSuffix k l = Inr l' \<and> seg_ok P DS MS l' \<and> seg_contents P l' = []
    \<and> sl_mFirstIndex l' = sl_mFirstIndex l \<and> sl_mCurrentTerm l' = sl_mCurrentTerm l \<and> sl_mVoteFor l' = sl_mVoteFor l"
proof -
  obtain a base where a: "sl_mActiveSegment l = Some a" "sl_mLastIndex l = sg_mLastIndex a"
    and segs: "segments l = map snd (sl_mClosedSegments l) @ [a]" and base: "base = sg_mFirstIndex (hd (segments l))"
    and wf: "\<forall>s \<in> set (segments l). seg_wf P DS MS s" and ch: "chain base (segments l)" and le: "base \<le> sl_mFirstIndex l"
    by (rule seg_okE[OF ok])
  have wc: "\<forall>s \<in> set (map snd (sl_mClosedSegments l)). seg_wf P DS MS s" using wf segs by simp
  let ?l = "l\<lparr>sl_mLastIndex := k, sl_mActiveSegment := None, sl_mClosedSegments := []\<rparr>"
  have all: "seg_env_ok P" "DS mod 4096 = 0" "0 < DS" "MS mod 4096 = 0" "0 < MS"
    "sl_mSegmentDataSizeLimit ?l = DS" "sl_mSegmentMetaSizeLimit ?l = MS"
    using ok by (auto simp: seg_ok_def)
  obtain l' where l': "ensure_active ?l = Inr l'" "seg_ok P DS MS l'" "seg_contents P l' = []"
    "sl_mFirstIndex l' = sl_mFirstIndex l" "sl_mCurrentTerm l' = sl_mCurrentTerm l" "sl_mVoteFor l' = sl_mVoteFor l"
    using fresh_active_ok[OF all, of "Suc k"] k by auto
  have head: "Suc k \<le> sg_mLastIndex s" if "sl_mClosedSegments l = (k', s) # cs" for k' s cs
    using ok that k by (simp add: seg_ok_def)
  have "SegmentLog_truncateSuffix k l = ensure_active ?l"
  proof (cases "sg_mFirstIndex a \<le> k")
    case True
    have "sl_mClosedSegments l = []"
    proof (cases "sl_mClosedSegments l")
      case (Cons c cs)
      then obtain k' s where "sl_mClosedSegments l = (k', s) # cs" by (cases c) auto
      with head chain_less[OF wc, of base a s] ch segs True show ?thesis by fastforce
    qed
    then have "l\<lparr>sl_mLastIndex := k, sl_mActiveSegment := None\<rparr> = ?l" by (intro segment_log.equality) simp_all
    then show ?thesis using True a k by (simp add: SegmentLog_truncateSuffix_def Let_def)
  next
    case False
    obtain ds where ds: "sl_mClosedSegments l = back_to k (sl_mClosedSegments l) @ ds"
      and last: "back_to k (sl_mClosedSegments l) \<noteq> [] \<Longrightarrow> sg_mFirstIndex (snd (last (back_to k (sl_mClosedSegments l)))) \<le> k"
      using back_to_split[of "sl_mClosedSegments l" k] by blast
    show ?thesis
    proof (cases "back_to k (sl_mClosedSegments l)" rule: rev_cases)
      case Nil
      have "?l\<lparr>sl_mFirstIndex := Suc k\<rparr> = ?l" using k by (intro segment_log.equality) simp_all
      then have "ensure_active (?l\<lparr>sl_mFirstIndex := Suc k\<rparr>) = ensure_active ?l" by (rule arg_cong)
      with Nil show ?thesis using False a k by (simp add: SegmentLog_truncateSuffix_def Let_def)
    next
      case (snoc bs c)
      obtain k' s where c: "c = (k', s)" by (cases c)
      have "bs = []"
      proof (cases bs)
        case (Cons d es)
        obtain k'' t where d: "d = (k'', t)" by (cases d)
        have big: "Suc k \<le> sg_mLastIndex t" using head ds snoc Cons d by simp
        have ssplit: "map snd (sl_mClosedSegments l) @ [a] = (map snd bs @ [s]) @ (map snd ds @ [a])"
          by (subst ds) (simp add: snoc c)
        have wbs: "\<forall>s \<in> set (map snd bs @ [s]). seg_wf P DS MS s" using wf unfolding segs ssplit by auto
        then have "chain base (map snd bs @ [s])" using ch unfolding segs ssplit chain_append[OF wbs] by blast
        moreover have "\<forall>s \<in> set (map snd bs). seg_wf P DS MS s" using wbs by simp
        ultimately have less: "sg_mLastIndex t < sg_mFirstIndex s" using chain_less[of "map snd bs" P DS MS base s t] Cons d by simp
        have "sg_mFirstIndex s \<le> k" using last snoc c by simp
        with big less show ?thesis by simp
      qed simp
      moreover have "l\<lparr>sl_mLastIndex := k, sl_mActiveSegment := None, sl_mFirstIndex := Suc k, sl_mClosedSegments := []\<rparr> = ?l"
        using k by (intro segment_log.equality) simp_all
      then have "ensure_active (l\<lparr>sl_mLastIndex := k, sl_mActiveSegment := None, sl_mFirstIndex := Suc k, sl_mClosedSegments := []\<rparr>)
          = ensure_active ?l" by (rule arg_cong)
      ultimately show ?thesis using False a k snoc c by (simp add: SegmentLog_truncateSuffix_def Let_def)
    qed
  qed
  with l' show ?thesis by auto
qed

text \<open>Cutting back within the active segment.\<close>

lemma truncateSuffix_active:
  assumes ok: "seg_ok P DS MS l" and a: "sl_mActiveSegment l = Some a"
    and k: "sl_mFirstIndex l \<le> k" "k < sl_mLastIndex l" "sg_mFirstIndex a \<le> k"
  shows "\<exists>l'. SegmentLog_truncateSuffix k l = Inr l' \<and> seg_ok P DS MS l'
    \<and> seg_contents P l' = take (Suc k - sl_mFirstIndex l) (seg_contents P l)
    \<and> sl_mFirstIndex l' = sl_mFirstIndex l \<and> sl_mCurrentTerm l' = sl_mCurrentTerm l \<and> sl_mVoteFor l' = sl_mVoteFor l"
proof -
  obtain a' base where a': "sl_mActiveSegment l = Some a'" "sg_mIsActive a'" "sl_mLastIndex l = sg_mLastIndex a'"
    and segs: "segments l = map snd (sl_mClosedSegments l) @ [a']" and base: "base = sg_mFirstIndex (hd (segments l))"
    and wf: "\<forall>s \<in> set (segments l). seg_wf P DS MS s" and ch: "chain base (segments l)" and le: "base \<le> sl_mFirstIndex l"
    by (rule seg_okE[OF ok])
  have eq: "a' = a" using a a' by simp
  have P: "seg_env_ok P" by (rule seg_okD(1)[OF ok])
  have wa: "seg_wf P DS MS a" and wc: "\<forall>s \<in> set (map snd (sl_mClosedSegments l)). seg_wf P DS MS s" using wf segs eq by auto
  then have ha: "seg_holds P a (seg_entries P a)" and lims: "sg_mDataSizeLimit a = DS" "sg_mMetaSizeLimit a = MS"
    by (simp_all add: seg_wf_def)
  obtain s where s: "Segment_truncateSuffix k a = Inr s" "seg_holds P s (take (Suc k - sg_mFirstIndex a) (seg_entries P a))"
    "sg_mFirstIndex s = sg_mFirstIndex a" "sg_mLastIndex s = k" "sg_mIsActive s = sg_mIsActive a"
    "sg_mDataSizeLimit s = sg_mDataSizeLimit a" "sg_mMetaSizeLimit s = sg_mMetaSizeLimit a"
    using truncateSuffix_holds[OF ha k(3)] k a' eq by auto
  have es: "seg_entries P s = take (Suc k - sg_mFirstIndex a) (seg_entries P a)" by (rule seg_entries_holds[OF P s(2)])
  have ws: "seg_wf P DS MS s" using seg_wfI[OF P s(2)] s lims by simp
  let ?l = "l\<lparr>sl_mLastIndex := k, sl_mActiveSegment := Some s\<rparr>"
  have run: "SegmentLog_truncateSuffix k l = Inr ?l"
    using k a s by (simp add: SegmentLog_truncateSuffix_def Let_def ensure_active_def)
  have fa: "sg_mFirstIndex a = base + length (all_entries P (map snd (sl_mClosedSegments l)))"
    using ch eq unfolding segs by (simp add: chain_append[OF wc])
  have ch': "chain base (map snd (sl_mClosedSegments ?l) @ [s])"
    using ch eq s unfolding segs by (simp add: chain_append[OF wc])
  have cond: "case sl_mClosedSegments ?l of
        [] \<Rightarrow> sl_mFirstIndex ?l \<le> sl_mLastIndex ?l \<or> sl_mFirstIndex ?l = Suc (sl_mLastIndex ?l) \<and> base = sl_mFirstIndex ?l
      | (k, s) # _ \<Rightarrow> sl_mFirstIndex ?l \<le> sg_mLastIndex s"
    using ok k by (auto simp: seg_ok_def split: list.splits)
  note I = seg_okI[of P DS MS ?l s base, OF P _ _ _ _ _ _ _ _ _ _ _ ch' _ cond]
  have res: "seg_ok P DS MS ?l \<and> seg_contents P ?l = drop (sl_mFirstIndex ?l - base) (all_entries P (map snd (sl_mClosedSegments ?l) @ [s]))"
    by (intro conjI I) (use ok seg_okD(3)[OF ok] a' eq s ws wc le in \<open>auto simp: seg_ok_def\<close>)
  have "all_entries P (map snd (sl_mClosedSegments ?l) @ [s]) = take (Suc k - base) (all_entries P (segments l))"
    using fa k by (simp add: segs es eq)
  then have "seg_contents P ?l = take (Suc k - sl_mFirstIndex l) (seg_contents P l)"
    using res le k by (simp add: seg_contents_def drop_take flip: base)
  with run res show ?thesis by simp
qed

text \<open>Cutting back to within a closed segment.\<close>

lemma truncateSuffix_closed:
  assumes ok: "seg_ok P DS MS l" and a: "sl_mActiveSegment l = Some a"
    and k: "sl_mFirstIndex l \<le> k" "k < sl_mLastIndex l" "k < sg_mFirstIndex a"
  shows "\<exists>l'. SegmentLog_truncateSuffix k l = Inr l' \<and> seg_ok P DS MS l'
    \<and> seg_contents P l' = take (Suc k - sl_mFirstIndex l) (seg_contents P l)
    \<and> sl_mFirstIndex l' = sl_mFirstIndex l \<and> sl_mCurrentTerm l' = sl_mCurrentTerm l \<and> sl_mVoteFor l' = sl_mVoteFor l"
proof -
  obtain a' base where a': "sl_mActiveSegment l = Some a'"
    and segs: "segments l = map snd (sl_mClosedSegments l) @ [a']" and base: "base = sg_mFirstIndex (hd (segments l))"
    and wf: "\<forall>s \<in> set (segments l). seg_wf P DS MS s" and ch: "chain base (segments l)" and le: "base \<le> sl_mFirstIndex l"
    by (rule seg_okE[OF ok])
  have eq: "a' = a" using a a' by simp
  have P: "seg_env_ok P" by (rule seg_okD(1)[OF ok])
  obtain ds where ds: "sl_mClosedSegments l = back_to k (sl_mClosedSegments l) @ ds" "\<forall>(k', s) \<in> set ds. k < sg_mFirstIndex s"
    and last: "back_to k (sl_mClosedSegments l) \<noteq> [] \<Longrightarrow> sg_mFirstIndex (snd (last (back_to k (sl_mClosedSegments l)))) \<le> k"
    using back_to_split[of "sl_mClosedSegments l" k] by blast
  have "back_to k (sl_mClosedSegments l) \<noteq> []"
  proof
    assume "back_to k (sl_mClosedSegments l) = []"
    then have "sl_mClosedSegments l = ds" using ds(1) by simp
    then have "k < base" using ds(2) k(3) eq by (cases ds) (auto simp: base segs)
    then show False using le k(1) by simp
  qed
  then obtain bs kk s where b: "back_to k (sl_mClosedSegments l) = bs @ [(kk, s)]" by (metis rev_exhaust surj_pair)
  have closed: "sl_mClosedSegments l = bs @ (kk, s) # ds" by (subst ds(1)) (simp add: b)
  have split: "segments l = map snd bs @ s # (map snd ds @ [a])" by (simp add: segs closed eq)
  have wb: "\<forall>s \<in> set (map snd bs). seg_wf P DS MS s" and ws: "seg_wf P DS MS s" using wf split by auto
  have fs: "sg_mFirstIndex s = base + length (all_entries P (map snd bs))" "chain (Suc (sg_mLastIndex s)) (map snd ds @ [a])"
    and cb: "chain base (map snd bs)"
    using ch unfolding split by (auto simp: chain_append[OF wb])
  have "k < sg_mFirstIndex (hd (map snd ds @ [a]))" using ds(2) k(3) by (cases ds) auto
  moreover have "sg_mFirstIndex (hd (map snd ds @ [a])) = Suc (sg_mLastIndex s)" using fs(2) by (cases ds) auto
  ultimately have ks: "sg_mFirstIndex s \<le> k" "k \<le> sg_mLastIndex s" using last b by auto
  have hs: "seg_holds P s (seg_entries P s)" and lims: "sg_mDataSizeLimit s = DS" "sg_mMetaSizeLimit s = MS"
    using ws by (simp_all add: seg_wf_def)
  obtain s1 where s1: "Segment_truncateSuffix k s = Inr s1" "seg_holds P s1 (take (Suc k - sg_mFirstIndex s) (seg_entries P s))"
    "sg_mFirstIndex s1 = sg_mFirstIndex s" "sg_mLastIndex s1 = k" "sg_mIsActive s1 = sg_mIsActive s"
    "sg_mDataSizeLimit s1 = sg_mDataSizeLimit s" "sg_mMetaSizeLimit s1 = sg_mMetaSizeLimit s"
    using truncateSuffix_holds[OF hs ks] by blast
  have es: "seg_entries P s1 = take (Suc k - sg_mFirstIndex s) (seg_entries P s)" by (rule seg_entries_holds[OF P s1(2)])
  have ws1: "seg_wf P DS MS s1" using seg_wfI[OF P s1(2)] s1 lims by simp
  define l1 where "l1 = claim_path s1 (l\<lparr>sl_mLastIndex := k, sl_mActiveSegment := None, sl_mClosedSegments := bs @ [(kk, s1)]\<rparr>)"
  have run: "SegmentLog_truncateSuffix k l = ensure_active l1"
    using k a s1(1) by (simp add: SegmentLog_truncateSuffix_def Let_def b l1_def claim_path_def)
  have keys: "k' = sg_mFirstIndex t \<and> \<not> sg_mIsActive t \<and> sg_mFirstIndex t \<le> sg_mLastIndex t"
    if "(k', t) \<in> set (sl_mClosedSegments l1)" for k' t
    using that seg_okD(3)[OF ok, of k' t] seg_okD(3)[OF ok, of kk s] s1 ks by (auto simp: l1_def closed)
  have cl: "map snd (sl_mClosedSegments l1) = map snd bs @ [s1]" by (simp add: l1_def)
  have "\<exists>l'. ensure_active l1 = Inr l' \<and> seg_ok P DS MS l'
    \<and> seg_contents P l' = drop (sl_mFirstIndex l1 - base) (all_entries P (map snd (sl_mClosedSegments l1)))
    \<and> sl_mFirstIndex l' = sl_mFirstIndex l1 \<and> sl_mCurrentTerm l' = sl_mCurrentTerm l1 \<and> sl_mVoteFor l' = sl_mVoteFor l1"
  proof (rule fresh_active_ok[OF P])
    show "chain base (map snd (sl_mClosedSegments l1))"
      unfolding cl using cb fs(1) s1(3) by (simp add: chain_append[OF wb])
    show "base + length (all_entries P (map snd (sl_mClosedSegments l1))) = Suc (sl_mLastIndex l1)"
      unfolding cl using seg_wf_bounds(2)[OF ws1] fs(1) s1 by (simp add: l1_def)
    show "case sl_mClosedSegments l1 of [] \<Rightarrow> sl_mFirstIndex l1 = Suc (sl_mLastIndex l1) | (k, s) # _ \<Rightarrow> sl_mFirstIndex l1 \<le> sg_mLastIndex s"
      using ok k s1 by (cases bs) (auto simp: l1_def seg_ok_def closed)
  qed (use ok keys wb ws1 le in \<open>auto simp: l1_def seg_ok_def\<close>)
  moreover have "all_entries P (map snd (sl_mClosedSegments l1)) = take (Suc k - base) (all_entries P (segments l))"
    unfolding cl split using fs(1) ks seg_wf_bounds(2)[OF ws] by (simp add: es)
  then have "drop (sl_mFirstIndex l1 - base) (all_entries P (map snd (sl_mClosedSegments l1))) = take (Suc k - sl_mFirstIndex l) (seg_contents P l)"
    using le k by (simp add: seg_contents_def drop_take l1_def flip: base)
  ultimately show ?thesis unfolding run by (simp add: l1_def)
qed

lemma truncateSuffix_log:
  assumes ok: "seg_ok P DS MS l" and k: "sl_mFirstIndex l \<le> Suc k" "k \<le> sl_mLastIndex l"
  shows "\<exists>l'. SegmentLog_truncateSuffix k l = Inr l' \<and> seg_ok P DS MS l'
    \<and> seg_contents P l' = take (Suc k - sl_mFirstIndex l) (seg_contents P l)
    \<and> sl_mFirstIndex l' = sl_mFirstIndex l \<and> sl_mCurrentTerm l' = sl_mCurrentTerm l \<and> sl_mVoteFor l' = sl_mVoteFor l"
proof -
  obtain a where a: "sl_mActiveSegment l = Some a" by (rule seg_okE[OF ok])
  consider "k = sl_mLastIndex l" | "k < sl_mLastIndex l" "sl_mFirstIndex l = Suc k"
    | "k < sl_mLastIndex l" "sl_mFirstIndex l \<le> k" "sg_mFirstIndex a \<le> k"
    | "k < sl_mLastIndex l" "sl_mFirstIndex l \<le> k" "k < sg_mFirstIndex a"
    using k by linarith
  then show ?thesis
  proof cases
    case 1
    have "Suc k - sl_mFirstIndex l = length (seg_contents P l)" using contents_length(1)[OF ok] 1 by linarith
    with 1 ok show ?thesis by (simp add: SegmentLog_truncateSuffix_def)
  next
    case 2
    then show ?thesis using truncateSuffix_all[OF ok] by simp
  next
    case 3
    then show ?thesis using truncateSuffix_active[OF ok a] by blast
  next
    case 4
    then show ?thesis using truncateSuffix_closed[OF ok a] by blast
  qed
qed

section \<open>The segment log implements the interface\<close>

lemma seg_ok_term_vote:
  "seg_ok P DS MS (SegmentLog_setCurrentTerm t l) = seg_ok P DS MS l"
  "seg_ok P DS MS (SegmentLog_setVoteFor v l) = seg_ok P DS MS l"
  "seg_contents P (SegmentLog_setCurrentTerm t l) = seg_contents P l"
  "seg_contents P (SegmentLog_setVoteFor v l) = seg_contents P l"
proof -
  have segs: "segments (SegmentLog_setCurrentTerm t l) = segments l" "segments (SegmentLog_setVoteFor v l) = segments l"
    by (simp_all add: segments_def SegmentLog_setCurrentTerm_def SegmentLog_setVoteFor_def)
  show "seg_ok P DS MS (SegmentLog_setCurrentTerm t l) = seg_ok P DS MS l"
    "seg_ok P DS MS (SegmentLog_setVoteFor v l) = seg_ok P DS MS l"
    unfolding seg_ok_def segs by (simp_all add: SegmentLog_setCurrentTerm_def SegmentLog_setVoteFor_def cong: list.case_cong)
  show "seg_contents P (SegmentLog_setCurrentTerm t l) = seg_contents P l"
    "seg_contents P (SegmentLog_setVoteFor v l) = seg_contents P l"
    unfolding seg_contents_def segs by (simp_all add: SegmentLog_setCurrentTerm_def SegmentLog_setVoteFor_def)
qed

lemma fits_segment_suffix: "fits_segment P DS MS es \<Longrightarrow> suffix fs es \<Longrightarrow> fits_segment P DS MS fs"
  by (auto simp: fits_segment_def suffix_def algebra_simps)

interpretation seg_raft_log: raft_log "seg_ops P" "seg_ok P DS MS" "seg_contents P" "fits_segment P DS MS"
  for P :: "'c seg_env" and DS MS
proof
  fix l :: segment_log and es fs :: "LogEntry list" and e :: LogEntry and l' i k n maxLen maxBatch t v
  show "seg_ok P DS MS l \<Longrightarrow> 0 < lo_getFirstLogIndex (seg_ops P) l"
    and "seg_ok P DS MS l \<Longrightarrow> lo_getFirstLogIndex (seg_ops P) l + length (seg_contents P l) = Suc (lo_getLastLogIndex (seg_ops P) l)"
    and "seg_ok P DS MS l \<Longrightarrow> indexed_from (lo_getFirstLogIndex (seg_ops P) l) (seg_contents P l)"
    using contents_length by (simp_all add: seg_ops_def)
  show "seg_ok P DS MS l \<Longrightarrow> i < length (seg_contents P l) \<Longrightarrow>
      lo_getTerm (seg_ops P) (lo_getFirstLogIndex (seg_ops P) l + i) l = Some (le_term (seg_contents P l ! i))"
    using log_getTerm[of P DS MS l i] by (simp add: seg_ops_def)
  show "seg_ok P DS MS l \<Longrightarrow> lo_getFirstLogIndex (seg_ops P) l = 1 \<Longrightarrow> lo_getTerm (seg_ops P) 0 l = Some 0"
    by (simp add: seg_ops_def SegmentLog_getTerm_def)
  show "fits_segment P DS MS es \<Longrightarrow> suffix fs es \<Longrightarrow> fits_segment P DS MS fs" by (rule fits_segment_suffix)
  show "seg_ok P DS MS l \<Longrightarrow> lo_appendEntry (seg_ops P) e l = lo_appendEntries (seg_ops P) [e] l"
    by (simp add: seg_ops_def SegmentLog_appendEntry_def SegmentLog_appendEntries_def)
  show "\<exists>r. lo_appendEntries (seg_ops P) es l = Inr r" if "seg_ok P DS MS l"
    "indexed_from (Suc (lo_getLastLogIndex (seg_ops P) l)) es" "fits_segment P DS MS es"
    using that append_to_active_ok(1)[OF that(1), of es]
    by (cases es) (auto simp: seg_ops_def SegmentLog_appendEntries_def)
  show "\<not> indexed_from (Suc (lo_getLastLogIndex (seg_ops P) l)) es" if "seg_ok P DS MS l"
    "lo_appendEntries (seg_ops P) es l = Inr (False, l')"
    using that append_to_active_ok(2)[OF that(1), of es "(False, l')"]
    by (cases es) (auto simp: seg_ops_def SegmentLog_appendEntries_def split: if_splits)
  show "indexed_from (Suc (lo_getLastLogIndex (seg_ops P) l)) es \<and> seg_ok P DS MS l' \<and> seg_contents P l' = seg_contents P l @ es
      \<and> lo_getFirstLogIndex (seg_ops P) l' = lo_getFirstLogIndex (seg_ops P) l
      \<and> lo_getCurrentTerm (seg_ops P) l' = lo_getCurrentTerm (seg_ops P) l \<and> lo_getVote (seg_ops P) l' = lo_getVote (seg_ops P) l"
    if ok: "seg_ok P DS MS l" and run: "lo_appendEntries (seg_ops P) es l = Inr (True, l')"
  proof (cases es)
    case Nil
    with ok run show ?thesis by (simp add: seg_ops_def SegmentLog_appendEntries_def)
  next
    case (Cons x xs)
    with run have r: "append_to_active P es l = Inr (True, l')"
      by (auto simp: seg_ops_def SegmentLog_appendEntries_def split: if_splits)
    have ne: "es \<noteq> []" by (simp add: Cons)
    from append_to_active_ok(1)[OF ok ne] append_to_active_ok(2)[OF ok ne r] r show ?thesis by (auto simp: seg_ops_def)
  qed
  show "\<exists>l'. lo_truncateSuffix (seg_ops P) k l = Inr l' \<and> seg_ok P DS MS l'
      \<and> seg_contents P l' = take (Suc k - lo_getFirstLogIndex (seg_ops P) l) (seg_contents P l)
      \<and> lo_getFirstLogIndex (seg_ops P) l' = lo_getFirstLogIndex (seg_ops P) l
      \<and> lo_getCurrentTerm (seg_ops P) l' = lo_getCurrentTerm (seg_ops P) l \<and> lo_getVote (seg_ops P) l' = lo_getVote (seg_ops P) l"
    if "seg_ok P DS MS l" "lo_getFirstLogIndex (seg_ops P) l \<le> Suc k" "k \<le> lo_getLastLogIndex (seg_ops P) l"
    using truncateSuffix_log that by (simp add: seg_ops_def)
  show "\<exists>l'. lo_truncatePrefix (seg_ops P) k l = Inr l' \<and> seg_ok P DS MS l'
      \<and> seg_contents P l' = drop (k - lo_getFirstLogIndex (seg_ops P) l) (seg_contents P l)
      \<and> lo_getFirstLogIndex (seg_ops P) l' = max k (lo_getFirstLogIndex (seg_ops P) l)
      \<and> lo_getCurrentTerm (seg_ops P) l' = lo_getCurrentTerm (seg_ops P) l \<and> lo_getVote (seg_ops P) l' = lo_getVote (seg_ops P) l"
    if "seg_ok P DS MS l" "k \<le> lo_getLastLogIndex (seg_ops P) l"
    using truncatePrefix_log that by (simp add: seg_ops_def)
  show "\<exists>k. lo_getEntries (seg_ops P) n maxLen maxBatch l = Inr (take k (drop (n - lo_getFirstLogIndex (seg_ops P) l) (seg_contents P l)))"
    if "seg_ok P DS MS l" "lo_getFirstLogIndex (seg_ops P) l \<le> n" "n \<le> Suc (lo_getLastLogIndex (seg_ops P) l)"
    using log_getEntries[OF that(1), of n maxLen maxBatch] that(2,3) by (auto simp: seg_ops_def)
qed (simp_all add: seg_ops_def seg_ok_term_vote, simp_all add: SegmentLog_setCurrentTerm_def SegmentLog_setVoteFor_def)

interpretation seg_reader: raft_log_reader "seg_ops P" "seg_ok P DS MS" "seg_contents P" "fits_segment P DS MS" "byteSizeLong P"
  for P :: "'c seg_env" and DS MS
proof
  fix l n
  assume "seg_ok P DS MS l" "n \<le> lo_getLastLogIndex (seg_ops P) l"
  then show "lo_getEntry (seg_ops P) n l
      = Inr (if lo_getFirstLogIndex (seg_ops P) l \<le> n then Some (seg_contents P l ! (n - lo_getFirstLogIndex (seg_ops P) l)) else None)"
    using log_getEntry[of P DS MS l n] by (simp add: seg_ops_def)
next
  fix l n maxLen maxBatch
  assume ok: "seg_ok P DS MS l" and "lo_getFirstLogIndex (seg_ops P) l \<le> n" and "n \<le> lo_getLastLogIndex (seg_ops P) l"
  then have n: "sl_mFirstIndex l \<le> n" "n \<le> Suc (sl_mLastIndex l)" "n \<le> sl_mLastIndex l" by (simp_all add: seg_ops_def)
  obtain es k where es: "SegmentLog_getEntries P n maxLen maxBatch l = Inr (length es, es)"
    "es = take k (drop (n - sl_mFirstIndex l) (seg_contents P l))" "length es \<le> maxBatch"
    "0 < maxBatch \<and> byteSizeLong P (seg_contents P l ! (n - sl_mFirstIndex l)) \<le> maxLen \<longrightarrow> es \<noteq> []"
    using log_getEntries[OF ok n(1,2), of maxLen maxBatch] n(3) by blast
  have "take (length es) (drop (n - sl_mFirstIndex l) (seg_contents P l)) = es" unfolding es(2) by (simp add: min_def)
  with es(1,3,4) show "\<exists>k. lo_getEntries (seg_ops P) n maxLen maxBatch l
      = Inr (take k (drop (n - lo_getFirstLogIndex (seg_ops P) l) (seg_contents P l))) \<and> k \<le> maxBatch
      \<and> (0 < maxBatch \<and> byteSizeLong P (seg_contents P l ! (n - lo_getFirstLogIndex (seg_ops P) l)) \<le> maxLen \<longrightarrow> 0 < k)"
    by (intro exI[of _ "length es"]) (simp add: seg_ops_def)
qed

end
