(* ===== verification/Readonly_Store.thy ===== *)
theory Readonly_Store
  imports Store_Codec Raft_Node Segment_Log "HOL-Library.Multiset"
begin

text \<open>
  The reader of the committed log, \<^verbatim>\<open>src/src/infra/es/store/ReadonlyRaftCommandEventStore.cpp\<close>: it hands
  the event apply loop the command and events of one committed entry after the other. In async mode a
  thread loads batches of entries into a queue of tasks, several threads decrypt and decode them, and the
  apply loop takes the finished ones from the front.

  Each operation is a function on \<open>readonly_store\<close>; the Raft node it reads is an argument. The threads are
  a step relation over the store, the program counter of the loading thread and the Raft node, which moves
  on by itself. A task is not taken from the queue before it is done, so the thread that works on a task
  is the position of the task in the queue.
\<close>

record task =
  tk_entries :: "LogEntry list"
  tk_bundles :: "command_events list"
  tk_flag :: nat

record readonly_store =
  ro_mAsyncLoad :: bool
  ro_mLoadedIndex :: nat
  ro_mAppliedIndex :: nat
  ro_mApplyingIndex :: nat
  ro_mCachedBundles :: "command_events list"
  ro_mSpinTimes :: nat
  ro_mTaskQueue :: "task list"
  ro_mRunning :: bool

definition kSpinLimit :: nat where
  "kSpinLimit = 50"

definition kMaxQueueSize :: nat where
  "kMaxQueueSize = 30"

definition kDecryptConcurrency :: nat where
  "kDecryptConcurrency = 6"

definition ro_new :: "bool \<Rightarrow> readonly_store" where
  "ro_new asyncLoad =
     \<lparr>ro_mAsyncLoad = asyncLoad, ro_mLoadedIndex = 0, ro_mAppliedIndex = 0, ro_mApplyingIndex = 0, ro_mCachedBundles = [],
      ro_mSpinTimes = 0, ro_mTaskQueue = [], ro_mRunning = True\<rparr>"

definition ro_init :: "readonly_store \<Rightarrow> readonly_store" where
  "ro_init s = s\<lparr>ro_mRunning := True\<rparr>"

definition ro_teardown :: "readonly_store \<Rightarrow> readonly_store" where
  "ro_teardown s =
     s\<lparr>ro_mRunning := False, ro_mLoadedIndex := 0, ro_mAppliedIndex := 0, ro_mApplyingIndex := 0, ro_mCachedBundles := [],
       ro_mTaskQueue := []\<rparr>"

definition setCurrentOffset :: "nat \<Rightarrow> readonly_store \<Rightarrow> readonly_store res" where
  "setCurrentOffset currentOffset s =
     res_bind (c_assert (ro_mAppliedIndex s = 0 \<and> ro_mLoadedIndex s = 0))
       (\<lambda>_. Inr (s\<lparr>ro_mAppliedIndex := currentOffset, ro_mLoadedIndex := currentOffset\<rparr>))"

definition getCurrentOffset :: "readonly_store \<Rightarrow> nat" where
  "getCurrentOffset s = ro_mAppliedIndex s"

definition ro_truncatePrefix :: "'l log_ops \<Rightarrow> nat \<Rightarrow> 'l raft_core \<Rightarrow> 'l raft_core res" where
  "ro_truncatePrefix ops offsetKept raft = raft_truncatePrefix ops offsetKept raft"

definition ro_isLeader :: "'l raft_core \<Rightarrow> bool" where
  "ro_isLeader raft = (rc_mRaftRole raft = Leader)"

definition ro_isSyncing :: "'l raft_core \<Rightarrow> bool" where
  "ro_isSyncing raft = (rc_mRaftRole raft = Syncer)"

definition ro_firstIndex :: "'l log_ops \<Rightarrow> 'l raft_core \<Rightarrow> nat" where
  "ro_firstIndex ops raft = lo_getFirstLogIndex ops (rc_mLog raft)"

definition ro_beginIndex :: "'l raft_core \<Rightarrow> nat" where
  "ro_beginIndex raft = rc_mBeginIndex raft"

section \<open>Loading\<close>

definition loadBundles ::
  "'c store_env \<Rightarrow> 'l log_ops \<Rightarrow> 'l raft_core \<Rightarrow> nat \<Rightarrow> nat \<Rightarrow> (nat \<times> command_events list) res" where
  "loadBundles P ops raft startIndex sz =
     res_bind (raft_getEntries ops startIndex sz raft)
       (\<lambda>entries. res_bind (decryptEntries P entries) (\<lambda>bundles. Inr (length entries, bundles)))"

definition trySyncLoadBundles ::
  "'c store_env \<Rightarrow> 'l log_ops \<Rightarrow> 'l raft_core \<Rightarrow> readonly_store \<Rightarrow> readonly_store res" where
  "trySyncLoadBundles P ops raft s =
     res_bind (c_assert (ro_mCachedBundles s = []))
       (\<lambda>_.
         let commitIndex = rc_mCommitIndex raft; s1 = s\<lparr>ro_mSpinTimes := ro_mSpinTimes s + 1\<rparr> in
         if ro_mLoadedIndex s1 \<ge> commitIndex
         then Inr (if ro_mSpinTimes s1 \<ge> kSpinLimit then s1\<lparr>ro_mSpinTimes := 0\<rparr> else s1)
         else
           res_bind (loadBundles P ops raft (ro_mLoadedIndex s1 + 1) (commitIndex - ro_mLoadedIndex s1))
             (\<lambda>(n, bundles). Inr (s1\<lparr>ro_mSpinTimes := 0, ro_mLoadedIndex := ro_mLoadedIndex s1 + n, ro_mCachedBundles := bundles\<rparr>)))"

definition tryAsyncLoadBundles :: "readonly_store \<Rightarrow> readonly_store res" where
  "tryAsyncLoadBundles s =
     res_bind (c_assert (ro_mCachedBundles s = []))
       (\<lambda>_.
         case ro_mTaskQueue s of
           [] \<Rightarrow> Inr s
         | t # ts \<Rightarrow>
             if tk_flag t \<noteq> 2 then Inr s
             else Inr (s\<lparr>ro_mTaskQueue := ts, ro_mCachedBundles := tk_bundles t\<rparr>))"

definition tryLoadBundles ::
  "'c store_env \<Rightarrow> 'l log_ops \<Rightarrow> 'l raft_core \<Rightarrow> readonly_store \<Rightarrow> readonly_store res" where
  "tryLoadBundles P ops raft s = (if ro_mAsyncLoad s then tryAsyncLoadBundles s else trySyncLoadBundles P ops raft s)"

definition loadNextEvent ::
  "'c store_env \<Rightarrow> 'l log_ops \<Rightarrow> 'l raft_core \<Rightarrow> readonly_store \<Rightarrow> (Event option option \<times> readonly_store) res" where
  "loadNextEvent P ops raft s =
     res_bind (if ro_mCachedBundles s = [] then tryLoadBundles P ops raft s else Inr s)
       (\<lambda>s1.
         case ro_mCachedBundles s1 of
           [] \<Rightarrow> Inr (None, s1)
         | (command, events) # bs \<Rightarrow>
             (case events of
                [] \<Rightarrow> Inl Assertion
              | e # es \<Rightarrow> Inr (Some e, s1\<lparr>ro_mCachedBundles := (if es = [] then bs else (command, es) # bs)\<rparr>)))"

text \<open>The null command of an unknown type has no id to read.\<close>

definition loadNextCommandEvents ::
  "'c store_env \<Rightarrow> 'l log_ops \<Rightarrow> 'l raft_core \<Rightarrow> readonly_store \<Rightarrow> (command_events option \<times> readonly_store) res" where
  "loadNextCommandEvents P ops raft s =
     (let s0 = s\<lparr>ro_mAppliedIndex := max (ro_mAppliedIndex s) (ro_mApplyingIndex s)\<rparr> in
      res_bind (if ro_mCachedBundles s0 = [] then tryLoadBundles P ops raft s0 else Inr s0)
        (\<lambda>s1.
          case ro_mCachedBundles s1 of
            [] \<Rightarrow> Inr (None, s1)
          | b # bs \<Rightarrow>
              (case fst b of
                 None \<Rightarrow> Inl Bad_Access
               | Some command \<Rightarrow>
                   Inr (Some b, s1\<lparr>ro_mCachedBundles := bs, ro_mApplyingIndex := unat (mt_mId (cmd_mMetaData command))\<rparr>))))"

text \<open>\<^verbatim>\<open>commandId + size - 1\<close> is unsigned.\<close>

definition loadCommandEventsList ::
  "'c store_env \<Rightarrow> 'l log_ops \<Rightarrow> 'l raft_core \<Rightarrow> nat \<Rightarrow> nat \<Rightarrow> (nat \<times> command_events list) res" where
  "loadCommandEventsList P ops raft commandId sz =
     (let commitIndex = rc_mCommitIndex raft in
      if commandId = 0 \<or> commandId > commitIndex then Inr (0, [])
      else
        loadBundles P ops raft commandId
          (if (commandId + sz + (2 ^ 64 - 1)) mod 2 ^ 64 > commitIndex then commitIndex - commandId + 1 else sz))"

section \<open>Waiting until the leader is ready\<close>

text \<open>
  What one round of the loop reads, in the order it reads it. \<open>None\<close> is another round, \<open>Some 0\<close> that the
  leader stepped down.
\<close>

record ready_view =
  rv_currentTerm :: nat
  rv_lastIndex :: nat
  rv_commitIndex :: nat
  rv_loadedIndex :: nat
  rv_appliedIndex :: nat
  rv_getEntry :: "nat \<Rightarrow> LogEntry option res"

fun ready_scan :: "nat \<Rightarrow> nat \<Rightarrow> (nat \<Rightarrow> LogEntry option res) \<Rightarrow> nat list \<Rightarrow> nat option res" where
  "ready_scan expectedTerm lastIndex getEntry [] = Inr None"
| "ready_scan expectedTerm lastIndex getEntry (index # rest) =
     res_bind (getEntry index)
       (\<lambda>e. case e of
          None \<Rightarrow> Inl Assertion
        | Some entry \<Rightarrow>
            if \<not> le_noop entry then Inr None
            else if index = lastIndex \<and> le_term entry = expectedTerm then Inr (Some lastIndex)
            else ready_scan expectedTerm lastIndex getEntry rest)"

definition ready_round :: "nat \<Rightarrow> ready_view \<Rightarrow> nat option res" where
  "ready_round expectedTerm v =
     (if rv_currentTerm v \<noteq> expectedTerm then Inr (Some 0)
      else if rv_loadedIndex v \<noteq> rv_commitIndex v \<or> rv_commitIndex v \<noteq> rv_lastIndex v then Inr None
      else ready_scan expectedTerm (rv_lastIndex v) (rv_getEntry v) [rv_appliedIndex v + 1 ..< rv_lastIndex v + 1])"

text \<open>The loop over what successive rounds read; it has not returned when the views run out.\<close>

fun waitTillLeaderIsReadyOrStepDown :: "nat \<Rightarrow> ready_view list \<Rightarrow> nat option res" where
  "waitTillLeaderIsReadyOrStepDown expectedTerm [] = Inr None"
| "waitTillLeaderIsReadyOrStepDown expectedTerm (v # vs) =
     res_bind (ready_round expectedTerm v)
       (\<lambda>r. case r of Some n \<Rightarrow> Inr (Some n) | None \<Rightarrow> waitTillLeaderIsReadyOrStepDown expectedTerm vs)"

section \<open>The threads\<close>

text \<open>
  The loading thread: at the top it looks at the length of the queue and at the commit index, then it
  reads entries, then it appends the task.
\<close>

datatype load_pc = L_Top | L_Fetch nat | L_Push task

definition loadEntries_step ::
  "'l log_ops \<Rightarrow> 'l raft_core \<Rightarrow> load_pc \<Rightarrow> readonly_store \<Rightarrow> (load_pc \<times> readonly_store) res" where
  "loadEntries_step ops raft pc s =
     (case pc of
        L_Top \<Rightarrow>
          if \<not> ro_mRunning s \<or> length (ro_mTaskQueue s) \<ge> kMaxQueueSize \<or> ro_mLoadedIndex s \<ge> rc_mCommitIndex raft
          then Inr (L_Top, s) else Inr (L_Fetch (rc_mCommitIndex raft), s)
      | L_Fetch commitIndex \<Rightarrow>
          res_bind (raft_getEntries ops (ro_mLoadedIndex s + 1) (commitIndex - ro_mLoadedIndex s) raft)
            (\<lambda>entries. Inr (L_Push \<lparr>tk_entries = entries, tk_bundles = [], tk_flag = 0\<rparr>,
                            s\<lparr>ro_mLoadedIndex := ro_mLoadedIndex s + length entries\<rparr>))
      | L_Push t \<Rightarrow> Inr (L_Top, s\<lparr>ro_mTaskQueue := ro_mTaskQueue s @ [t]\<rparr>))"

text \<open>
  A decrypting thread: it claims the first task that nobody has claimed, at a position in the queue; later it
  is done with the task it holds, at whose flag it does not look again.
\<close>

fun claim_task :: "task list \<Rightarrow> (nat \<times> task list) option" where
  "claim_task [] = None"
| "claim_task (t # ts) =
     (if tk_flag t = 0 then Some (0, t\<lparr>tk_flag := 1\<rparr> # ts) else map_option (\<lambda>(i, us). (Suc i, t # us)) (claim_task ts))"

definition decrypt_claim :: "readonly_store \<Rightarrow> (nat \<times> readonly_store) option" where
  "decrypt_claim s =
     (if ro_mRunning s then map_option (\<lambda>(i, ts). (i, s\<lparr>ro_mTaskQueue := ts\<rparr>)) (claim_task (ro_mTaskQueue s)) else None)"

definition decrypt_done :: "'c store_env \<Rightarrow> nat \<Rightarrow> readonly_store \<Rightarrow> readonly_store res" where
  "decrypt_done P i s =
     (let t = ro_mTaskQueue s ! i in
      res_bind (decryptEntries P (tk_entries t))
        (\<lambda>bundles. Inr (s\<lparr>ro_mTaskQueue := (ro_mTaskQueue s)[i := t\<lparr>tk_bundles := tk_bundles t @ bundles, tk_flag := 2\<rparr>]\<rparr>)))"

text \<open>
  The whole: the store, the loading thread, the task each decrypting thread holds, the Raft node, and three
  histories that no code reads: how many tasks have been taken off the queue, the committed entry at each
  index and the bundles the apply loop has been given. A thread holds a pointer to its task; here that is the
  number of the task in the order of appending, so task \<open>n\<close> is at position \<open>n - ys_taken\<close> of the queue.
\<close>

record 'l reader_sys =
  ys_store :: readonly_store
  ys_load :: load_pc
  ys_threads :: "nat option list"
  ys_taken :: nat
  ys_raft :: "'l raft_core"
  ys_history :: "nat \<Rightarrow> LogEntry"
  ys_delivered :: "command_events list"

text \<open>
  An entry the reader can take: it decrypts and decodes to at most one bundle, whose command is the one
  with the index of the entry as its id. \<open>written_bundle_is_read_back\<close> shows this of every entry the
  event store writes; entries of the Raft leader itself have no payload.
\<close>

definition bundle_id :: "command_events \<Rightarrow> nat" where
  "bundle_id b = (case fst b of None \<Rightarrow> 0 | Some c \<Rightarrow> unat (mt_mId (cmd_mMetaData c)))"

definition readable :: "'c store_env \<Rightarrow> nat \<Rightarrow> LogEntry \<Rightarrow> bool" where
  "readable P i e =
     (case decrypt_entry P e of
        Inl f \<Rightarrow> False
      | Inr bs \<Rightarrow> bs = [] \<or> (\<exists>b. bs = [b] \<and> fst b \<noteq> None \<and> bundle_id b = i \<and> \<not> le_noop e))"

text \<open>
  The Raft node takes any steps it can, but the prefix it discards has been loaded, and what it commits is
  readable.
\<close>

definition raft_moves_on ::
  "'c store_env \<Rightarrow> 'l log_ops \<Rightarrow> ('l \<Rightarrow> LogEntry list) \<Rightarrow> nat \<Rightarrow> 'l raft_core \<Rightarrow> 'l raft_core \<Rightarrow> bool" where
  "raft_moves_on P ops contents loaded r r' =
     ((\<exists>acts out. raft_run ops acts r = Inr (r', out)) \<and> rc_mCommitIndex r' < 2 ^ 64
      \<and> lo_getFirstLogIndex ops (rc_mLog r') \<le> Suc loaded
      \<and> (\<forall>i. lo_getFirstLogIndex ops (rc_mLog r') \<le> i \<and> i \<le> rc_mCommitIndex r'
           \<longrightarrow> readable P i (entry_at ops contents (rc_mLog r') i)))"

definition extend_history ::
  "'l log_ops \<Rightarrow> ('l \<Rightarrow> LogEntry list) \<Rightarrow> 'l raft_core \<Rightarrow> 'l raft_core \<Rightarrow> (nat \<Rightarrow> LogEntry) \<Rightarrow> nat \<Rightarrow> LogEntry" where
  "extend_history ops contents r r' h i = (if i \<le> rc_mCommitIndex r then h i else entry_at ops contents (rc_mLog r') i)"

text \<open>The apply loop has asked for a bundle and got \<open>r\<close>.\<close>

definition handed_out :: "'l reader_sys \<Rightarrow> command_events option \<Rightarrow> readonly_store \<Rightarrow> 'l reader_sys" where
  "handed_out y r s =
     y\<lparr>ys_store := s, ys_taken := ys_taken y + (length (ro_mTaskQueue (ys_store y)) - length (ro_mTaskQueue s)),
       ys_delivered := ys_delivered y @ (case r of None \<Rightarrow> [] | Some b \<Rightarrow> [b])\<rparr>"

lemma handed_out_simps [simp]:
  "ys_store (handed_out y r s) = s" "ys_load (handed_out y r s) = ys_load y" "ys_threads (handed_out y r s) = ys_threads y"
  "ys_raft (handed_out y r s) = ys_raft y" "ys_history (handed_out y r s) = ys_history y"
  "ys_delivered (handed_out y r s) = ys_delivered y @ (case r of None \<Rightarrow> [] | Some b \<Rightarrow> [b])"
  "ys_taken (handed_out y r s) = ys_taken y + (length (ro_mTaskQueue (ys_store y)) - length (ro_mTaskQueue s))"
  by (simp_all add: handed_out_def)

definition claimed :: "task list \<Rightarrow> nat" where
  "claimed ts = length (filter (\<lambda>t. tk_flag t = 1) ts)"

inductive pipeline_step :: "'c store_env \<Rightarrow> 'l log_ops \<Rightarrow> 'l reader_sys \<Rightarrow> 'l reader_sys \<Rightarrow> bool"
  for P ops where
  load: "loadEntries_step ops (ys_raft y) (ys_load y) (ys_store y) = Inr (pc, s)
    \<Longrightarrow> pipeline_step P ops y (y\<lparr>ys_load := pc, ys_store := s\<rparr>)"
| claim: "decrypt_claim (ys_store y) = Some (i, s) \<Longrightarrow> j < length (ys_threads y) \<Longrightarrow> ys_threads y ! j = None
    \<Longrightarrow> pipeline_step P ops y (y\<lparr>ys_store := s, ys_threads := (ys_threads y)[j := Some (ys_taken y + i)]\<rparr>)"
| decrypted: "j < length (ys_threads y) \<Longrightarrow> ys_threads y ! j = Some n
    \<Longrightarrow> ys_taken y \<le> n \<Longrightarrow> n - ys_taken y < length (ro_mTaskQueue (ys_store y))
    \<Longrightarrow> decrypt_done P (n - ys_taken y) (ys_store y) = Inr s
    \<Longrightarrow> pipeline_step P ops y (y\<lparr>ys_store := s, ys_threads := (ys_threads y)[j := None]\<rparr>)"
| deliver: "loadNextCommandEvents P ops (ys_raft y) (ys_store y) = Inr (r, s)
    \<Longrightarrow> pipeline_step P ops y (handed_out y r s)"

inductive reader_step ::
  "'c store_env \<Rightarrow> 'l log_ops \<Rightarrow> ('l \<Rightarrow> LogEntry list) \<Rightarrow> 'l reader_sys \<Rightarrow> 'l reader_sys \<Rightarrow> bool"
  for P ops contents where
  pipeline: "pipeline_step P ops y y' \<Longrightarrow> reader_step P ops contents y y'"
| raft: "raft_moves_on P ops contents (ro_mLoadedIndex (ys_store y)) (ys_raft y) r
    \<Longrightarrow> reader_step P ops contents y
          (y\<lparr>ys_raft := r, ys_history := extend_history ops contents (ys_raft y) r (ys_history y)\<rparr>)"

definition reader_start :: "'l log_ops \<Rightarrow> ('l \<Rightarrow> LogEntry list) \<Rightarrow> nat \<Rightarrow> 'l raft_core \<Rightarrow> 'l reader_sys" where
  "reader_start ops contents offset raft =
     \<lparr>ys_store = (ro_new True)\<lparr>ro_mAppliedIndex := offset, ro_mLoadedIndex := offset\<rparr>, ys_load = L_Top,
      ys_threads = replicate kDecryptConcurrency None, ys_taken = 0, ys_raft = raft,
      ys_history = entry_at ops contents (rc_mLog raft), ys_delivered = []\<rparr>"

section \<open>The invariant\<close>

definition task_ok :: "'c store_env \<Rightarrow> task \<Rightarrow> bool" where
  "task_ok P t =
     (tk_flag t \<le> 2 \<and> (if tk_flag t = 2 then decryptEntries P (tk_entries t) = Inr (tk_bundles t) else tk_bundles t = []))"

definition pc_entries :: "load_pc \<Rightarrow> LogEntry list" where
  "pc_entries pc = (case pc of L_Push t \<Rightarrow> tk_entries t | _ \<Rightarrow> [])"

definition pc_ok :: "'l raft_core \<Rightarrow> readonly_store \<Rightarrow> load_pc \<Rightarrow> bool" where
  "pc_ok r s pc =
     (case pc of
        L_Top \<Rightarrow> True
      | L_Fetch c \<Rightarrow> ro_mLoadedIndex s < c \<and> c \<le> rc_mCommitIndex r \<and> length (ro_mTaskQueue s) < kMaxQueueSize
      | L_Push t \<Rightarrow> tk_flag t = 0 \<and> tk_bundles t = [] \<and> length (ro_mTaskQueue s) < kMaxQueueSize)"

text \<open>The Raft node as the reader needs it.\<close>

definition source_ok ::
  "'c store_env \<Rightarrow> 'l log_ops \<Rightarrow> ('l \<Rightarrow> bool) \<Rightarrow> ('l \<Rightarrow> LogEntry list) \<Rightarrow> nat \<Rightarrow> nat \<Rightarrow> 'l raft_core \<Rightarrow> (nat \<Rightarrow> LogEntry) \<Rightarrow> bool" where
  "source_ok P ops invar contents offset loaded r h =
     (node_ok ops invar r \<and> rc_mCommitIndex r < 2 ^ 64 \<and> lo_getFirstLogIndex ops (rc_mLog r) \<le> Suc loaded
      \<and> offset \<le> loaded \<and> loaded \<le> max offset (rc_mCommitIndex r)
      \<and> (\<forall>i. lo_getFirstLogIndex ops (rc_mLog r) \<le> i \<and> i \<le> rc_mCommitIndex r \<longrightarrow> entry_at ops contents (rc_mLog r) i = h i)
      \<and> (\<forall>i. offset < i \<and> i \<le> rc_mCommitIndex r \<longrightarrow> readable P i (h i)))"

text \<open>The entries from the offset on are those delivered or cached, then the queue, then the task to be appended.\<close>

definition pipeline_ok ::
  "'c store_env \<Rightarrow> nat \<Rightarrow> readonly_store \<Rightarrow> load_pc \<Rightarrow> (nat \<Rightarrow> LogEntry) \<Rightarrow> command_events list \<Rightarrow> bool" where
  "pipeline_ok P offset s pc h delivered =
     (\<exists>consumed. map h [Suc offset ..< Suc (ro_mLoadedIndex s)] = consumed @ concat (map tk_entries (ro_mTaskQueue s)) @ pc_entries pc
        \<and> decryptEntries P consumed = Inr (delivered @ ro_mCachedBundles s))"

definition applied_ok :: "nat \<Rightarrow> readonly_store \<Rightarrow> command_events list \<Rightarrow> bool" where
  "applied_ok offset s delivered =
     (ro_mAppliedIndex s \<in> insert offset (set (map bundle_id delivered))
      \<and> ro_mApplyingIndex s = (if delivered = [] then 0 else bundle_id (last delivered)))"

text \<open>A task has the flag 1 exactly while a decrypting thread holds it, and no two threads hold the same one.\<close>

definition decrypting :: "nat option list \<Rightarrow> nat list" where
  "decrypting ths = concat (map (\<lambda>h. case h of None \<Rightarrow> [] | Some n \<Rightarrow> [n]) ths)"

definition threads_ok :: "task list \<Rightarrow> nat \<Rightarrow> nat option list \<Rightarrow> bool" where
  "threads_ok q taken ths =
     (length ths = kDecryptConcurrency \<and> claimed q = length (decrypting ths)
      \<and> (\<forall>n. count (mset (decrypting ths)) n =
           (if taken \<le> n \<and> n - taken < length q \<and> tk_flag (q ! (n - taken)) = 1 then 1 else 0)))"

definition reader_inv ::
  "'c store_env \<Rightarrow> 'l log_ops \<Rightarrow> ('l \<Rightarrow> bool) \<Rightarrow> ('l \<Rightarrow> LogEntry list) \<Rightarrow> nat \<Rightarrow> 'l reader_sys \<Rightarrow> bool" where
  "reader_inv P ops invar contents offset y =
     (source_ok P ops invar contents offset (ro_mLoadedIndex (ys_store y)) (ys_raft y) (ys_history y)
      \<and> ro_mAsyncLoad (ys_store y) \<and> ro_mRunning (ys_store y) \<and> (\<forall>t \<in> set (ro_mTaskQueue (ys_store y)). task_ok P t)
      \<and> length (ro_mTaskQueue (ys_store y)) \<le> kMaxQueueSize \<and> threads_ok (ro_mTaskQueue (ys_store y)) (ys_taken y) (ys_threads y)
      \<and> pc_ok (ys_raft y) (ys_store y) (ys_load y)
      \<and> pipeline_ok P offset (ys_store y) (ys_load y) (ys_history y) (ys_delivered y)
      \<and> applied_ok offset (ys_store y) (ys_delivered y))"

lemma decryptEntries_total: "(\<And>e. e \<in> set es \<Longrightarrow> \<exists>bs. decrypt_entry P e = Inr bs) \<Longrightarrow> \<exists>bs. decryptEntries P es = Inr bs"
  by (induction es) (fastforce simp: decryptEntries_Cons)+

lemma readable_decrypts: "readable P i e \<Longrightarrow> \<exists>bs. decrypt_entry P e = Inr bs"
  by (auto simp: readable_def split: sum.splits)

text \<open>The bundles of a stretch of the history: one for each entry that has any, in order, named by its index.\<close>

lemma decrypt_history:
  assumes "\<forall>i. a < i \<and> i \<le> b \<longrightarrow> readable P i (h i)"
  shows "\<exists>bs. decryptEntries P (map h [Suc a ..< Suc b]) = Inr bs \<and> (\<forall>x \<in> set bs. fst x \<noteq> None)
    \<and> map bundle_id bs = filter (\<lambda>i. decrypt_entry P (h i) \<noteq> Inr []) [Suc a ..< Suc b]"
  using assms
proof (induction b)
  case (Suc b)
  show ?case
  proof (cases "a < Suc b")
    case True
    then have split: "[Suc a ..< Suc (Suc b)] = [Suc a ..< Suc b] @ [Suc b]" by simp
    obtain bs where bs: "decryptEntries P (map h [Suc a ..< Suc b]) = Inr bs" "\<forall>x \<in> set bs. fst x \<noteq> None"
      "map bundle_id bs = filter (\<lambda>i. decrypt_entry P (h i) \<noteq> Inr []) [Suc a ..< Suc b]"
      using Suc.IH Suc.prems by auto
    have "readable P (Suc b) (h (Suc b))" using Suc.prems True by simp
    then obtain us where us: "decrypt_entry P (h (Suc b)) = Inr us"
      "us = [] \<or> (\<exists>x. us = [x] \<and> fst x \<noteq> None \<and> bundle_id x = Suc b)"
      by (auto simp: readable_def split: sum.splits)
    have "decryptEntries P (map h [Suc a ..< Suc (Suc b)]) = Inr (bs @ us)"
      unfolding split map_append decryptEntries_append using bs(1) us(1) by (simp add: decryptEntries_Cons)
    moreover have "\<forall>x \<in> set (bs @ us). fst x \<noteq> None" using bs(2) us(2) by auto
    moreover have "map bundle_id (bs @ us) = filter (\<lambda>i. decrypt_entry P (h i) \<noteq> Inr []) [Suc a ..< Suc (Suc b)]"
      unfolding split filter_append map_append bs(3) using us by auto
    ultimately show ?thesis by blast
  next
    case False
    then show ?thesis by (intro exI[of _ "[]"]) simp
  qed
qed (simp add: exI[of _ "[]"])

lemma raft_index_check: "startIndex + sz = Suc c \<Longrightarrow> c < 2 ^ 64 \<Longrightarrow> (startIndex + sz + (2 ^ 64 - 1)) mod 2 ^ 64 = (c :: nat)"
  by simp

context raft_log_reader
begin

text \<open>Reading from the Raft node gives the next stretch of the history.\<close>

lemma fetch_history:
  assumes src: "source_ok P ops invar contents offset loaded r h" and c: "loaded < c" "c \<le> rc_mCommitIndex r"
  shows "\<exists>n. raft_getEntries ops (loaded + 1) (c - loaded) r = Inr (map h [Suc loaded ..< Suc (loaded + n)]) \<and> loaded + n \<le> c
    \<and> (esize (h (Suc loaded)) \<le> rc_mMaxLenInBytes r \<longrightarrow> 0 < n)"
proof -
  let ?first = "lo_getFirstLogIndex ops (rc_mLog r)" and ?log = "contents (rc_mLog r)"
  have ok: "invar (rc_mLog r)" and last: "rc_mCommitIndex r \<le> lo_getLastLogIndex ops (rc_mLog r)"
    and small: "rc_mCommitIndex r < 2 ^ 64" and first: "?first \<le> Suc loaded"
    and hist: "\<And>i. ?first \<le> i \<Longrightarrow> i \<le> rc_mCommitIndex r \<Longrightarrow> ?log ! (i - ?first) = h i"
    using src by (auto simp: source_ok_def node_ok_def entry_at_def)
  have len: "?first + length ?log = Suc (lo_getLastLogIndex ops (rc_mLog r))" by (rule last_index[OF ok])
  obtain k where k: "lo_getEntries ops (Suc loaded) (rc_mMaxLenInBytes r) (c - loaded) (rc_mLog r)
      = Inr (take k (drop (Suc loaded - ?first) ?log))" "k \<le> c - loaded"
    "esize (?log ! (Suc loaded - ?first)) \<le> rc_mMaxLenInBytes r \<longrightarrow> 0 < k"
    using getEntries_batch[OF ok first, of "rc_mMaxLenInBytes r" "c - loaded"] c last by auto
  have "take k (drop (Suc loaded - ?first) ?log) = map h [Suc loaded ..< Suc (loaded + k)]"
  proof (rule nth_equalityI)
    show "length (take k (drop (Suc loaded - ?first) ?log)) = length (map h [Suc loaded ..< Suc (loaded + k)])"
      using len first last c k(2) by simp
    fix i
    assume "i < length (take k (drop (Suc loaded - ?first) ?log))"
    then have i: "i < k" "Suc loaded - ?first + i < length ?log" by auto
    have "?log ! (Suc loaded - ?first + i) = h (Suc loaded + i)"
      using hist[of "Suc loaded + i"] i first c k(2) by simp
    then show "take k (drop (Suc loaded - ?first) ?log) ! i = map h [Suc loaded ..< Suc (loaded + k)] ! i"
      using i by (simp del: upt_Suc)
  qed
  moreover have "(loaded + 1 + (c - loaded) + (2 ^ 64 - 1)) mod 2 ^ 64 = c"
    using c small by (intro raft_index_check) auto
  ultimately have "raft_getEntries ops (loaded + 1) (c - loaded) r = Inr (map h [Suc loaded ..< Suc (loaded + k)])"
    unfolding raft_getEntries_def using k(1) c(2) by simp
  moreover have "esize (h (Suc loaded)) \<le> rc_mMaxLenInBytes r \<longrightarrow> 0 < k" using k(3) hist[of "Suc loaded"] first c by simp
  ultimately show ?thesis using k(2) c by (intro exI[of _ k]) auto
qed

lemma source_moves_on:
  assumes src: "source_ok P ops invar contents offset loaded r h" and mv: "raft_moves_on P ops contents loaded r r'"
  shows "source_ok P ops invar contents offset loaded r' (extend_history ops contents r r' h)"
    and "rc_mCommitIndex r \<le> rc_mCommitIndex r'"
proof -
  let ?h = "extend_history ops contents r r' h" and ?first = "lo_getFirstLogIndex ops (rc_mLog r)" and ?first' = "lo_getFirstLogIndex ops (rc_mLog r')"
  obtain acts out where "raft_run ops acts r = Inr (r', out)" using mv by (auto simp: raft_moves_on_def)
  then have "moves ops invar contents r r'" using src by (intro raft_run_moves) (simp_all add: source_ok_def)
  then have ok: "node_ok ops invar r'" and com: "rc_mCommitIndex r \<le> rc_mCommitIndex r'" and first: "?first \<le> ?first'"
    and same: "\<And>i. ?first' \<le> i \<Longrightarrow> i \<le> rc_mCommitIndex r \<Longrightarrow> entry_at ops contents (rc_mLog r') i = entry_at ops contents (rc_mLog r) i"
    by (auto simp: moves_def advances_def)
  have hist: "entry_at ops contents (rc_mLog r') i = ?h i" if "?first' \<le> i" "i \<le> rc_mCommitIndex r'" for i
    using that same[of i] first src by (auto simp: extend_history_def source_ok_def)
  have read: "readable P i (?h i)" if "offset < i" "i \<le> rc_mCommitIndex r'" for i
  proof (cases "i \<le> rc_mCommitIndex r")
    case True
    then show ?thesis using that src by (simp add: extend_history_def source_ok_def)
  next
    case False
    have "offset \<le> loaded" "loaded \<le> max offset (rc_mCommitIndex r)" using src by (simp_all add: source_ok_def)
    then have "?first' \<le> i" using mv False that by (auto simp: raft_moves_on_def max_def split: if_splits)
    then show ?thesis using mv that hist[of i] unfolding raft_moves_on_def by metis
  qed
  show "source_ok P ops invar contents offset loaded r' ?h" using src mv ok com hist read
    by (auto simp: source_ok_def raft_moves_on_def max_def split: if_splits)
  show "rc_mCommitIndex r \<le> rc_mCommitIndex r'" by (rule com)
qed

end

section \<open>The invariant is kept\<close>

lemma map_upt_prefix:
  assumes "map h [Suc a ..< Suc b] = xs @ ys" and "a \<le> b"
  shows "xs = map h [Suc a ..< Suc (a + length xs)]" and "a + length xs \<le> b"
proof -
  have len: "length xs + length ys = b - a" using arg_cong[OF assms(1), of length] by (simp del: upt_Suc)
  then show le: "a + length xs \<le> b" using assms(2) by linarith
  have "xs = take (length xs) (map h [Suc a ..< Suc b])" unfolding assms(1) by simp
  also have "\<dots> = map h [Suc a ..< Suc (a + length xs)]" using le by (simp add: take_map take_upt del: upt_Suc)
  finally show "xs = map h [Suc a ..< Suc (a + length xs)]" .
qed

lemma map_upt_extend: "a \<le> b \<Longrightarrow> map h [Suc a ..< Suc (b + n)] = map h [Suc a ..< Suc b] @ map h [Suc b ..< Suc (b + n)]"
  using upt_add_eq_append[of "Suc a" "Suc b" n] by (simp del: upt_Suc)

lemma claimed_append [simp]: "claimed (xs @ ys) = claimed xs + claimed ys"
  by (simp add: claimed_def)

lemma claimed_simps [simp]: "claimed [] = 0" "claimed (t # ts) = (if tk_flag t = 1 then 1 else 0) + claimed ts"
  by (simp_all add: claimed_def)

lemma claim_task_Some:
  "claim_task ts = Some (i, us) \<Longrightarrow> i < length ts \<and> tk_flag (ts ! i) = 0 \<and> us = ts[i := (ts ! i)\<lparr>tk_flag := 1\<rparr>]"
proof (induction ts arbitrary: i us)
  case (Cons t ts)
  show ?case
  proof (cases "tk_flag t = 0")
    case False
    then obtain j vs where "claim_task ts = Some (j, vs)" "i = Suc j" "us = t # vs" using Cons.prems by auto
    then show ?thesis using Cons.IH[of j vs] by simp
  qed (use Cons.prems in auto)
qed simp

lemma claimed_update:
  "i < length ts \<Longrightarrow> claimed (ts[i := t]) + (if tk_flag (ts ! i) = 1 then 1 else 0) = claimed ts + (if tk_flag t = 1 then 1 else 0)"
proof (induction ts arbitrary: i)
  case (Cons u ts)
  then show ?case by (cases i) auto
qed simp

lemma claimed_pos: "0 < claimed ts \<Longrightarrow> \<exists>i < length ts. tk_flag (ts ! i) = 1"
  by (auto simp: claimed_def filter_empty_conv in_set_conv_nth)

text \<open>What a list of threads holds together when one of them changes.\<close>

lemma concat_update:
  "i < length xs \<Longrightarrow> mset (concat (map f (xs[i := x]))) + mset (f (xs ! i)) = mset (concat (map f xs)) + mset (f x)"
proof (induction xs arbitrary: i)
  case (Cons y ys)
  then show ?case by (cases i) (auto simp: ac_simps)
qed simp

lemma threads_update:
  assumes ok: "threads_ok q k ths" and i: "i < length q" and j: "j < length ths"
    and own: "ths ! j = (if tk_flag (q ! i) = 1 then Some (k + i) else None)" and own': "h = (if tk_flag t = 1 then Some (k + i) else None)"
  shows "threads_ok (q[i := t]) k (ths[j := h])"
proof -
  let ?f = "\<lambda>h. case h of None \<Rightarrow> [] | Some n \<Rightarrow> [n]" and ?d = "decrypting ths" and ?d' = "decrypting (ths[j := h])"
  have sum: "mset ?d' + mset (?f (ths ! j)) = mset ?d + mset (?f h)" unfolding decrypting_def by (rule concat_update[OF j])
  then have "size (mset ?d' + mset (?f (ths ! j))) = size (mset ?d + mset (?f h))" by (rule arg_cong)
  then have "claimed (q[i := t]) = length ?d'" using ok claimed_update[OF i, of t] by (auto simp: threads_ok_def own own' split: if_splits)
  moreover have "count (mset ?d') n = (if k \<le> n \<and> n - k < length (q[i := t]) \<and> tk_flag (q[i := t] ! (n - k)) = 1 then 1 else 0)" for n
  proof -
    have "count (mset ?d') n + count (mset (?f (ths ! j))) n = count (mset ?d) n + count (mset (?f h)) n"
      using arg_cong[OF sum, of "\<lambda>m. count m n"] by simp
    moreover have "count (mset ?d) n = (if k \<le> n \<and> n - k < length q \<and> tk_flag (q ! (n - k)) = 1 then 1 else 0)"
      using ok by (simp add: threads_ok_def)
    ultimately show ?thesis using i by (cases "n = k + i") (auto simp: own own' nth_list_update split: if_splits)
  qed
  ultimately show ?thesis using ok by (simp add: threads_ok_def)
qed

lemma threads_push: "threads_ok q k ths \<Longrightarrow> tk_flag t = 0 \<Longrightarrow> threads_ok (q @ [t]) k ths"
  by (auto simp: threads_ok_def nth_append less_Suc_eq)

lemma threads_pop: "threads_ok (t # q) k ths \<Longrightarrow> tk_flag t = 2 \<Longrightarrow> threads_ok q (Suc k) ths"
proof -
  assume ok: "threads_ok (t # q) k ths" and t: "tk_flag t = 2"
  have "(k \<le> n \<and> n - k < length (t # q) \<and> tk_flag ((t # q) ! (n - k)) = 1)
      = (Suc k \<le> n \<and> n - Suc k < length q \<and> tk_flag (q ! (n - Suc k)) = 1)" for n
  proof (cases "Suc k \<le> n")
    case True
    then have "n - k = Suc (n - Suc k)" by simp
    then show ?thesis using True by simp
  next
    case False
    then show ?thesis using t by (auto simp: not_le less_Suc_eq_le)
  qed
  then show ?thesis using ok t by (simp add: threads_ok_def)
qed

lemma thread_holds:
  assumes "threads_ok q k ths" and "j < length ths" and "ths ! j = Some n"
  shows "k \<le> n \<and> n - k < length q \<and> tk_flag (q ! (n - k)) = 1"
proof -
  have "n \<in> set (decrypting ths)" using assms(2,3) nth_mem[of j ths] by (force simp: decrypting_def)
  then have "count (mset (decrypting ths)) n \<noteq> 0" by (simp add: count_mset_0_iff)
  then show ?thesis using assms(1) by (auto simp: threads_ok_def split: if_splits)
qed

lemma threads_claimed: "threads_ok q k ths \<Longrightarrow> claimed q \<le> kDecryptConcurrency"
proof -
  have "length (decrypting ths) \<le> length ths" by (induction ths) (auto simp: decrypting_def split: option.split)
  then show "threads_ok q k ths \<Longrightarrow> claimed q \<le> kDecryptConcurrency" by (simp add: threads_ok_def)
qed

lemma queue_update_same:
  assumes "i < length q" and "tk_entries t = tk_entries (q ! i)"
  shows "map tk_entries (q[i := t]) = map tk_entries q"
  using assms by (simp add: map_update list_update_same_conv)

lemma task_update_preserves:
  assumes inv: "reader_inv P ops invar contents offset y" and i: "i < length (ro_mTaskQueue (ys_store y))"
    and t: "tk_entries t = tk_entries (ro_mTaskQueue (ys_store y) ! i)" "task_ok P t"
    and ths: "threads_ok ((ro_mTaskQueue (ys_store y))[i := t]) (ys_taken y) ths"
  shows "reader_inv P ops invar contents offset
    (y\<lparr>ys_store := (ys_store y)\<lparr>ro_mTaskQueue := (ro_mTaskQueue (ys_store y))[i := t]\<rparr>, ys_threads := ths\<rparr>)"
proof -
  let ?s = "(ys_store y)\<lparr>ro_mTaskQueue := (ro_mTaskQueue (ys_store y))[i := t]\<rparr>"
  have "\<forall>u \<in> set (ro_mTaskQueue ?s). task_ok P u" using inv t(2)
    by (auto simp: reader_inv_def dest!: set_update_subset_insert[THEN subsetD])
  moreover have "pc_ok (ys_raft y) ?s (ys_load y)" using inv by (auto simp: reader_inv_def pc_ok_def split: load_pc.splits)
  moreover have "pipeline_ok P offset ?s (ys_load y) (ys_history y) (ys_delivered y)"
    using inv queue_update_same[OF i t(1)] by (simp add: reader_inv_def pipeline_ok_def)
  ultimately show ?thesis using inv ths by (simp add: reader_inv_def applied_ok_def)
qed

lemma claim_preserves:
  assumes inv: "reader_inv P ops invar contents offset y" and c: "decrypt_claim (ys_store y) = Some (i, s)"
    and j: "j < length (ys_threads y)" "ys_threads y ! j = None"
  shows "reader_inv P ops invar contents offset (y\<lparr>ys_store := s, ys_threads := (ys_threads y)[j := Some (ys_taken y + i)]\<rparr>)"
proof -
  let ?q = "ro_mTaskQueue (ys_store y)"
  obtain us where us: "claim_task ?q = Some (i, us)" and s: "s = (ys_store y)\<lparr>ro_mTaskQueue := us\<rparr>"
    using c by (auto simp: decrypt_claim_def split: if_splits)
  note i = claim_task_Some[OF us]
  have ok: "task_ok P (?q ! i)" "threads_ok ?q (ys_taken y) (ys_threads y)" using inv i by (simp_all add: reader_inv_def)
  have "threads_ok (?q[i := (?q ! i)\<lparr>tk_flag := 1\<rparr>]) (ys_taken y) ((ys_threads y)[j := Some (ys_taken y + i)])"
    using i j by (intro threads_update[OF ok(2)]) simp_all
  moreover have "task_ok P ((?q ! i)\<lparr>tk_flag := 1\<rparr>)" using ok(1) i by (simp add: task_ok_def)
  ultimately show ?thesis using task_update_preserves[OF inv, of i "(?q ! i)\<lparr>tk_flag := 1\<rparr>"] i unfolding s by simp
qed

lemma task_done_ok: "task_ok P t \<Longrightarrow> tk_flag t = 1 \<Longrightarrow> decryptEntries P (tk_entries t) = Inr bs
    \<Longrightarrow> task_ok P (t\<lparr>tk_bundles := tk_bundles t @ bs, tk_flag := 2\<rparr>)"
  by (simp add: task_ok_def)

lemma decrypted_preserves:
  assumes inv: "reader_inv P ops invar contents offset y" and j: "j < length (ys_threads y)" "ys_threads y ! j = Some n"
    and d: "decrypt_done P (n - ys_taken y) (ys_store y) = Inr s"
  shows "reader_inv P ops invar contents offset (y\<lparr>ys_store := s, ys_threads := (ys_threads y)[j := None]\<rparr>)"
proof -
  let ?q = "ro_mTaskQueue (ys_store y)" and ?i = "n - ys_taken y"
  have th: "threads_ok ?q (ys_taken y) (ys_threads y)" using inv by (simp add: reader_inv_def)
  note n = thread_holds[OF th j]
  obtain bs where bs: "decryptEntries P (tk_entries (?q ! ?i)) = Inr bs"
    and s: "s = (ys_store y)\<lparr>ro_mTaskQueue := ?q[?i := (?q ! ?i)\<lparr>tk_bundles := tk_bundles (?q ! ?i) @ bs, tk_flag := 2\<rparr>]\<rparr>"
    using d by (auto simp: decrypt_done_def Let_def res_bind_def split: sum.splits)
  let ?t = "(?q ! ?i)\<lparr>tk_bundles := tk_bundles (?q ! ?i) @ bs, tk_flag := 2\<rparr>"
  have "threads_ok (?q[?i := ?t]) (ys_taken y) ((ys_threads y)[j := None])"
    using n j by (intro threads_update[OF th]) simp_all
  moreover have "task_ok P ?t" using inv n bs by (intro task_done_ok) (simp_all add: reader_inv_def)
  ultimately show ?thesis using task_update_preserves[OF inv, of ?i ?t] n unfolding s by simp
qed

text \<open>What has been taken from the queue is the decoding of a stretch of the history.\<close>

lemma pipeline_consumed:
  assumes pipe: "pipeline_ok P offset s pc h delivered" and le: "offset \<le> ro_mLoadedIndex s"
    and read: "\<forall>i. offset < i \<and> i \<le> ro_mLoadedIndex s \<longrightarrow> readable P i (h i)"
  shows "\<exists>m. offset \<le> m \<and> m \<le> ro_mLoadedIndex s
    \<and> decryptEntries P (map h [Suc offset ..< Suc m]) = Inr (delivered @ ro_mCachedBundles s)
    \<and> m + length (concat (map tk_entries (ro_mTaskQueue s))) + length (pc_entries pc) = ro_mLoadedIndex s
    \<and> (\<forall>b \<in> set (delivered @ ro_mCachedBundles s). fst b \<noteq> None)
    \<and> map bundle_id (delivered @ ro_mCachedBundles s) = filter (\<lambda>i. decrypt_entry P (h i) \<noteq> Inr []) [Suc offset ..< Suc m]"
proof -
  obtain consumed where c: "map h [Suc offset ..< Suc (ro_mLoadedIndex s)] = consumed @ concat (map tk_entries (ro_mTaskQueue s)) @ pc_entries pc"
    and d: "decryptEntries P consumed = Inr (delivered @ ro_mCachedBundles s)" using pipe by (auto simp: pipeline_ok_def)
  let ?m = "offset + length consumed"
  have eq: "consumed = map h [Suc offset ..< Suc ?m]" and m: "?m \<le> ro_mLoadedIndex s" using map_upt_prefix[OF c le] by auto
  have dec: "decryptEntries P (map h [Suc offset ..< Suc ?m]) = Inr (delivered @ ro_mCachedBundles s)"
    by (subst eq[symmetric]) (rule d)
  have "?m + length (concat (map tk_entries (ro_mTaskQueue s))) + length (pc_entries pc) = ro_mLoadedIndex s"
    using arg_cong[OF c, of length] le by (simp del: upt_Suc)
  moreover have "\<forall>i. offset < i \<and> i \<le> ?m \<longrightarrow> readable P i (h i)" using read m by simp
  then have "\<exists>bs. decryptEntries P (map h [Suc offset ..< Suc ?m]) = Inr bs \<and> (\<forall>b \<in> set bs. fst b \<noteq> None)
    \<and> map bundle_id bs = filter (\<lambda>i. decrypt_entry P (h i) \<noteq> Inr []) [Suc offset ..< Suc ?m]"
    by (rule decrypt_history)
  ultimately show ?thesis using m dec by (intro exI[of _ ?m]) (auto simp del: upt_Suc)
qed

lemma reader_inv_consumed:
  assumes "reader_inv P ops invar contents offset y"
  shows "\<exists>m. offset \<le> m \<and> m \<le> ro_mLoadedIndex (ys_store y)
    \<and> decryptEntries P (map (ys_history y) [Suc offset ..< Suc m]) = Inr (ys_delivered y @ ro_mCachedBundles (ys_store y))
    \<and> m + length (concat (map tk_entries (ro_mTaskQueue (ys_store y)))) + length (pc_entries (ys_load y)) = ro_mLoadedIndex (ys_store y)
    \<and> (\<forall>b \<in> set (ys_delivered y @ ro_mCachedBundles (ys_store y)). fst b \<noteq> None)
    \<and> map bundle_id (ys_delivered y @ ro_mCachedBundles (ys_store y))
        = filter (\<lambda>i. decrypt_entry P (ys_history y i) \<noteq> Inr []) [Suc offset ..< Suc m]"
  using assms by (intro pipeline_consumed) (auto simp: reader_inv_def source_ok_def)

text \<open>Taking a finished task from the queue.\<close>

definition popped :: "readonly_store \<Rightarrow> readonly_store" where
  "popped s =
     (let s0 = s\<lparr>ro_mAppliedIndex := max (ro_mAppliedIndex s) (ro_mApplyingIndex s)\<rparr> in
      if ro_mCachedBundles s = [] then
        (case ro_mTaskQueue s of [] \<Rightarrow> s0 | t # ts \<Rightarrow>
           if tk_flag t = 2 then s0\<lparr>ro_mTaskQueue := ts, ro_mCachedBundles := tk_bundles t\<rparr> else s0)
      else s0)"

lemma loadNext_popped:
  "ro_mAsyncLoad s \<Longrightarrow> loadNextCommandEvents P ops raft s =
     (case ro_mCachedBundles (popped s) of
        [] \<Rightarrow> Inr (None, popped s)
      | b # bs \<Rightarrow> (case fst b of None \<Rightarrow> Inl Bad_Access
          | Some command \<Rightarrow> Inr (Some b, (popped s)\<lparr>ro_mCachedBundles := bs, ro_mApplyingIndex := bundle_id b\<rparr>)))"
  by (cases "ro_mTaskQueue s")
     (auto simp: loadNextCommandEvents_def popped_def tryLoadBundles_def tryAsyncLoadBundles_def Let_def res_bind_def c_assert_def bundle_id_def
       split: list.splits option.splits)

lemma popped_preserves:
  assumes inv: "reader_inv P ops invar contents offset y"
  shows "reader_inv P ops invar contents offset (handed_out y None (popped (ys_store y)))"
proof -
  let ?s = "ys_store y"
  let ?applied = "?s\<lparr>ro_mAppliedIndex := max (ro_mAppliedIndex ?s) (ro_mApplyingIndex ?s)\<rparr>"
  have ap: "applied_ok offset ?applied (ys_delivered y)" using inv by (auto simp: reader_inv_def applied_ok_def max_def)
  then have s0: "reader_inv P ops invar contents offset (y\<lparr>ys_store := ?applied\<rparr>)"
    using inv ap by (auto simp: reader_inv_def pc_ok_def pipeline_ok_def split: load_pc.splits)
  show ?thesis
  proof (cases "\<exists>t ts. ro_mCachedBundles ?s = [] \<and> ro_mTaskQueue ?s = t # ts \<and> tk_flag t = 2")
    case False
    then have "popped ?s = ?applied" by (auto simp: popped_def Let_def split: list.splits)
    then show ?thesis using s0 by (simp add: reader_inv_def)
  next
    case True
    then obtain t ts where q: "ro_mCachedBundles ?s = []" "ro_mTaskQueue ?s = t # ts" "tk_flag t = 2" by blast
    let ?next = "?applied\<lparr>ro_mTaskQueue := ts, ro_mCachedBundles := tk_bundles t\<rparr>"
    have p: "popped ?s = ?next" using q by (simp add: popped_def Let_def)
    obtain consumed where c: "map (ys_history y) [Suc offset ..< Suc (ro_mLoadedIndex ?s)]
        = consumed @ concat (map tk_entries (t # ts)) @ pc_entries (ys_load y)" "decryptEntries P consumed = Inr (ys_delivered y)"
      using inv q by (auto simp: reader_inv_def pipeline_ok_def)
    have "decryptEntries P (tk_entries t) = Inr (tk_bundles t)" using inv q by (simp add: reader_inv_def task_ok_def)
    then have "decryptEntries P (consumed @ tk_entries t) = Inr (ys_delivered y @ tk_bundles t)"
      unfolding decryptEntries_append using c(2) by simp
    then have pipe: "pipeline_ok P offset ?next (ys_load y) (ys_history y) (ys_delivered y)"
      unfolding pipeline_ok_def using c(1) by (intro exI[of _ "consumed @ tk_entries t"]) (simp del: upt_Suc)
    have "pc_ok (ys_raft y) ?next (ys_load y)" using inv q by (auto simp: reader_inv_def pc_ok_def split: load_pc.splits)
    moreover have "applied_ok offset ?next (ys_delivered y)" using ap by (auto simp: applied_ok_def)
    moreover have "threads_ok ts (Suc (ys_taken y)) (ys_threads y)" using inv q threads_pop[of t ts "ys_taken y"] by (simp add: reader_inv_def)
    ultimately show ?thesis using s0 q pipe unfolding p by (simp add: reader_inv_def)
  qed
qed

lemma loadNext_returns:
  assumes "reader_inv P ops invar contents offset y"
  shows "\<exists>r s. loadNextCommandEvents P ops raft (ys_store y) = Inr (r, s)"
proof -
  have "reader_inv P ops invar contents offset (handed_out y None (popped (ys_store y)))" by (rule popped_preserves[OF assms])
  then have "\<forall>b \<in> set (ro_mCachedBundles (popped (ys_store y))). fst b \<noteq> None"
    using reader_inv_consumed[of P ops invar contents offset "handed_out y None (popped (ys_store y))"] by auto
  moreover have "ro_mAsyncLoad (ys_store y)" using assms by (simp add: reader_inv_def)
  ultimately show ?thesis by (auto simp: loadNext_popped split: list.splits option.splits)
qed

lemma deliver_preserves:
  assumes inv: "reader_inv P ops invar contents offset y"
    and step: "loadNextCommandEvents P ops raft (ys_store y) = Inr (r, s)"
  shows "reader_inv P ops invar contents offset (handed_out y r s)"
proof -
  let ?p = "popped (ys_store y)"
  have pop: "reader_inv P ops invar contents offset (handed_out y None ?p)" by (rule popped_preserves[OF inv])
  have "ro_mAsyncLoad (ys_store y)" using inv by (simp add: reader_inv_def)
  note next_ = step[unfolded loadNext_popped[OF this]]
  show ?thesis
  proof (cases "ro_mCachedBundles ?p")
    case Nil
    then show ?thesis using next_ pop by (simp add: reader_inv_def)
  next
    case (Cons b bs)
    then have r: "r = Some b" and s: "s = ?p\<lparr>ro_mCachedBundles := bs, ro_mApplyingIndex := bundle_id b\<rparr>"
      using next_ by (auto split: option.splits)
    have "applied_ok offset s (ys_delivered y @ [b])" using pop unfolding s by (auto simp: reader_inv_def applied_ok_def)
    moreover have "pipeline_ok P offset s (ys_load y) (ys_history y) (ys_delivered y @ [b])"
      using pop Cons unfolding s by (simp add: reader_inv_def pipeline_ok_def)
    moreover have "pc_ok (ys_raft y) s (ys_load y)" using pop unfolding s by (auto simp: reader_inv_def pc_ok_def split: load_pc.splits)
    ultimately show ?thesis using pop unfolding r s by (simp add: reader_inv_def)
  qed
qed

context raft_log_reader
begin

lemma load_returns:
  assumes inv: "reader_inv P ops invar contents offset y"
  shows "\<exists>pc s. loadEntries_step ops (ys_raft y) (ys_load y) (ys_store y) = Inr (pc, s)
    \<and> reader_inv P ops invar contents offset (y\<lparr>ys_load := pc, ys_store := s\<rparr>)"
proof (cases "ys_load y")
  case L_Top
  then show ?thesis using inv by (auto simp: loadEntries_step_def reader_inv_def pc_ok_def pipeline_ok_def pc_entries_def)
next
  case (L_Fetch c)
  let ?s = "ys_store y"
  let ?l = "ro_mLoadedIndex ?s"
  have src: "source_ok P ops invar contents offset ?l (ys_raft y) (ys_history y)"
    and c: "?l < c" "c \<le> rc_mCommitIndex (ys_raft y)" "length (ro_mTaskQueue ?s) < kMaxQueueSize"
    using inv L_Fetch by (auto simp: reader_inv_def pc_ok_def)
  obtain n where n: "raft_getEntries ops (?l + 1) (c - ?l) (ys_raft y) = Inr (map (ys_history y) [Suc ?l ..< Suc (?l + n)])" "?l + n \<le> c"
    using fetch_history[OF src c(1,2)] by blast
  let ?t = "\<lparr>tk_entries = map (ys_history y) [Suc ?l ..< Suc (?l + n)], tk_bundles = [], tk_flag = 0\<rparr>"
  have step: "loadEntries_step ops (ys_raft y) (ys_load y) ?s = Inr (L_Push ?t, ?s\<lparr>ro_mLoadedIndex := ?l + n\<rparr>)"
    unfolding loadEntries_step_def L_Fetch using n(1) by (simp del: upt_Suc)
  have "offset \<le> ?l" using src by (simp add: source_ok_def)
  then have "pipeline_ok P offset (?s\<lparr>ro_mLoadedIndex := ?l + n\<rparr>) (L_Push ?t) (ys_history y) (ys_delivered y)"
    using inv L_Fetch map_upt_extend[of offset ?l "ys_history y" n]
    unfolding reader_inv_def pipeline_ok_def by (simp add: pc_entries_def del: upt_Suc)
  moreover have "source_ok P ops invar contents offset (?l + n) (ys_raft y) (ys_history y)"
    using src n(2) c by (simp add: source_ok_def le_max_iff_disj)
  ultimately have "reader_inv P ops invar contents offset (y\<lparr>ys_load := L_Push ?t, ys_store := ?s\<lparr>ro_mLoadedIndex := ?l + n\<rparr>\<rparr>)"
    using inv c(3) by (simp add: reader_inv_def pc_ok_def applied_ok_def del: upt_Suc)
  then show ?thesis using step by blast
next
  case (L_Push t)
  let ?s = "(ys_store y)\<lparr>ro_mTaskQueue := ro_mTaskQueue (ys_store y) @ [t]\<rparr>"
  have "pipeline_ok P offset ?s L_Top (ys_history y) (ys_delivered y)"
    using inv L_Push by (auto simp: reader_inv_def pipeline_ok_def pc_entries_def)
  then have "reader_inv P ops invar contents offset (y\<lparr>ys_load := L_Top, ys_store := ?s\<rparr>)"
    using inv L_Push threads_push[of "ro_mTaskQueue (ys_store y)" "ys_taken y" "ys_threads y" t]
    by (auto simp: reader_inv_def pc_ok_def applied_ok_def task_ok_def)
  then show ?thesis using L_Push by (simp add: loadEntries_step_def)
qed

lemma pipeline_step_preserves:
  assumes "pipeline_step P ops y y'" and inv: "reader_inv P ops invar contents offset y"
  shows "reader_inv P ops invar contents offset y'"
  using assms(1)
proof (cases rule: pipeline_step.cases)
  case (load pc s)
  then show ?thesis using load_returns[OF inv] by auto
next
  case (claim i s j)
  then show ?thesis using claim_preserves[OF inv] by simp
next
  case (decrypted j n s)
  then show ?thesis using decrypted_preserves[OF inv] by simp
next
  case (deliver r s)
  then show ?thesis using deliver_preserves[OF inv] by simp
qed

end

text \<open>What every step leaves alone: what is committed, loaded, applied and delivered only grows.\<close>

definition reader_grows :: "'l reader_sys \<Rightarrow> 'l reader_sys \<Rightarrow> bool" where
  "reader_grows y y' =
     (rc_mCommitIndex (ys_raft y) \<le> rc_mCommitIndex (ys_raft y')
      \<and> ro_mLoadedIndex (ys_store y) \<le> ro_mLoadedIndex (ys_store y')
      \<and> ro_mAppliedIndex (ys_store y) \<le> ro_mAppliedIndex (ys_store y')
      \<and> prefix (ys_delivered y) (ys_delivered y')
      \<and> (\<forall>i \<le> rc_mCommitIndex (ys_raft y). ys_history y' i = ys_history y i))"

lemma reader_grows_refl [simp]: "reader_grows y y"
  by (simp add: reader_grows_def)

lemma reader_grows_trans: "reader_grows x y \<Longrightarrow> reader_grows y z \<Longrightarrow> reader_grows x z"
  unfolding reader_grows_def by (auto intro: prefix_order.trans)

lemma popped_indexes: "ro_mLoadedIndex (popped s) = ro_mLoadedIndex s" "ro_mAppliedIndex s \<le> ro_mAppliedIndex (popped s)"
  by (auto simp: popped_def Let_def split: list.splits)

lemma pipeline_step_grows: "pipeline_step P ops y y' \<Longrightarrow> ro_mAsyncLoad (ys_store y) \<Longrightarrow> reader_grows y y'"
proof (induction rule: pipeline_step.induct)
  case (load y pc s)
  then show ?case by (auto simp: reader_grows_def loadEntries_step_def res_bind_def split: load_pc.splits if_splits sum.splits)
next
  case (claim y i s j)
  then show ?case by (auto simp: reader_grows_def decrypt_claim_def split: if_splits)
next
  case (decrypted j y n s)
  then show ?case by (auto simp: reader_grows_def decrypt_done_def Let_def res_bind_def split: sum.splits)
next
  case (deliver y r s)
  then show ?case
    by (auto simp: reader_grows_def loadNext_popped popped_indexes split: list.splits option.splits)
qed

context raft_log_reader
begin

lemma raft_preserves:
  assumes inv: "reader_inv P ops invar contents offset y"
    and mv: "raft_moves_on P ops contents (ro_mLoadedIndex (ys_store y)) (ys_raft y) r"
  shows "reader_inv P ops invar contents offset
      (y\<lparr>ys_raft := r, ys_history := extend_history ops contents (ys_raft y) r (ys_history y)\<rparr>)"
    and "rc_mCommitIndex (ys_raft y) \<le> rc_mCommitIndex r"
proof -
  let ?h = "extend_history ops contents (ys_raft y) r (ys_history y)" and ?l = "ro_mLoadedIndex (ys_store y)"
  have src: "source_ok P ops invar contents offset ?l (ys_raft y) (ys_history y)" using inv by (simp add: reader_inv_def)
  show com: "rc_mCommitIndex (ys_raft y) \<le> rc_mCommitIndex r" by (rule source_moves_on(2)[OF src mv])
  have "?h i = ys_history y i" if "Suc offset \<le> i" "i < Suc ?l" for i
    using src that by (auto simp: source_ok_def extend_history_def max_def split: if_splits)
  then have "map ?h [Suc offset ..< Suc ?l] = map (ys_history y) [Suc offset ..< Suc ?l]" by (simp del: upt_Suc)
  then have "pipeline_ok P offset (ys_store y) (ys_load y) ?h (ys_delivered y)"
    unfolding pipeline_ok_def using inv by (simp add: reader_inv_def pipeline_ok_def del: upt_Suc map_eq_conv)
  moreover have "pc_ok r (ys_store y) (ys_load y)" using inv com by (auto simp: reader_inv_def pc_ok_def split: load_pc.splits)
  ultimately show "reader_inv P ops invar contents offset (y\<lparr>ys_raft := r, ys_history := ?h\<rparr>)"
    using inv source_moves_on(1)[OF src mv] by (simp add: reader_inv_def)
qed

lemma reader_step_preserves:
  assumes "reader_step P ops contents y y'" and inv: "reader_inv P ops invar contents offset y"
  shows "reader_inv P ops invar contents offset y' \<and> reader_grows y y'"
  using assms(1)
proof (cases rule: reader_step.cases)
  case pipeline
  then show ?thesis using pipeline_step_preserves[OF _ inv] pipeline_step_grows inv by (auto simp: reader_inv_def)
next
  case (raft r)
  then show ?thesis using raft_preserves[OF inv] by (simp add: reader_grows_def extend_history_def)
qed

lemma reader_run_preserves:
  assumes "(reader_step P ops contents)\<^sup>*\<^sup>* y y'" and inv: "reader_inv P ops invar contents offset y"
  shows "reader_inv P ops invar contents offset y' \<and> reader_grows y y'"
  using assms(1)
proof (induction rule: rtranclp_induct)
  case (step u v)
  then show ?case using reader_step_preserves[OF step.hyps(2)] reader_grows_trans by blast
qed (simp add: inv)

end

text \<open>The start of the reader: the node as it is after recovery, everything already committed readable.\<close>

definition start_ok ::
  "'c store_env \<Rightarrow> 'l log_ops \<Rightarrow> ('l \<Rightarrow> bool) \<Rightarrow> ('l \<Rightarrow> LogEntry list) \<Rightarrow> nat \<Rightarrow> 'l raft_core \<Rightarrow> bool" where
  "start_ok P ops invar contents offset r =
     (node_ok ops invar r \<and> rc_mCommitIndex r < 2 ^ 64 \<and> lo_getFirstLogIndex ops (rc_mLog r) \<le> Suc offset
      \<and> (\<forall>i. offset < i \<and> i \<le> rc_mCommitIndex r \<longrightarrow> readable P i (entry_at ops contents (rc_mLog r) i)))"

lemma reader_start_inv:
  "start_ok P ops invar contents offset r \<Longrightarrow> reader_inv P ops invar contents offset (reader_start ops contents offset r)"
  by (simp add: start_ok_def reader_inv_def source_ok_def reader_start_def ro_new_def pc_ok_def pipeline_ok_def applied_ok_def
      pc_entries_def decryptEntries_def threads_ok_def decrypting_def)

section \<open>Progress\<close>

lemma decrypt_entry_length: "decrypt_entry P e = Inr bs \<Longrightarrow> length bs \<le> 1"
  by (auto simp: decrypt_entry_def res_bind_def split: if_splits sum.splits option.splits)

lemma decryptEntries_length: "decryptEntries P es = Inr bs \<Longrightarrow> length bs \<le> length es"
proof (induction es arbitrary: bs)
  case (Cons e es)
  then obtain us vs where "decrypt_entry P e = Inr us" "decryptEntries P es = Inr vs" "bs = us @ vs"
    by (auto simp: decryptEntries_Cons res_bind_eq_Inr)
  then show ?case using Cons.IH[of vs] decrypt_entry_length[of P e us] by simp
qed (simp add: decryptEntries_def)

text \<open>
  What is left to do: every entry is fetched, put into a task, claimed, decrypted, taken and handed out, and
  the applied index follows the last bundle.
\<close>

definition task_work :: "task \<Rightarrow> nat" where
  "task_work t = 2 * length (tk_entries t) + (3 - tk_flag t)"

definition store_work :: "readonly_store \<Rightarrow> nat" where
  "store_work s =
     sum_list (map task_work (ro_mTaskQueue s)) + 2 * length (ro_mCachedBundles s)
     + (if ro_mAppliedIndex s < ro_mApplyingIndex s then 1 else 0)"

definition pc_work :: "load_pc \<Rightarrow> nat" where
  "pc_work pc = (case pc of L_Top \<Rightarrow> 2 | L_Fetch c \<Rightarrow> 1 | L_Push t \<Rightarrow> 2 * length (tk_entries t) + 6)"

definition pipeline_work :: "'l reader_sys \<Rightarrow> nat" where
  "pipeline_work y =
     8 * (rc_mCommitIndex (ys_raft y) - ro_mLoadedIndex (ys_store y)) + pc_work (ys_load y) + store_work (ys_store y)"

lemma update_work: "i < length ts \<Longrightarrow> task_work t < task_work (ts ! i) \<Longrightarrow> sum_list (map task_work (ts[i := t])) < sum_list (map task_work ts)"
proof (induction ts arbitrary: i)
  case (Cons u ts)
  then show ?case by (cases i) auto
qed simp

lemma popped_work:
  assumes "\<forall>t \<in> set (ro_mTaskQueue s). task_ok P t"
  shows "popped s = s \<or> store_work (popped s) < store_work s"
proof (cases "\<exists>t ts. ro_mCachedBundles s = [] \<and> ro_mTaskQueue s = t # ts \<and> tk_flag t = 2")
  case True
  then obtain t ts where q: "ro_mCachedBundles s = []" "ro_mTaskQueue s = t # ts" "tk_flag t = 2" by blast
  then have "length (tk_bundles t) \<le> length (tk_entries t)" using assms by (intro decryptEntries_length[of P]) (simp add: task_ok_def)
  then show ?thesis using q by (simp add: popped_def store_work_def task_work_def Let_def)
next
  case False
  then have "popped s = s\<lparr>ro_mAppliedIndex := max (ro_mAppliedIndex s) (ro_mApplyingIndex s)\<rparr>"
    by (auto simp: popped_def Let_def split: list.splits)
  then show ?thesis by (cases "ro_mAppliedIndex s < ro_mApplyingIndex s") (auto simp: store_work_def max_def)
qed

lemma popped_caught_up: "\<not> ro_mAppliedIndex (popped s) < ro_mApplyingIndex (popped s)"
  by (auto simp: popped_def Let_def split: list.splits)

lemma deliver_work:
  assumes ok: "\<forall>t \<in> set (ro_mTaskQueue s). task_ok P t" and "ro_mAsyncLoad s"
    and step: "loadNextCommandEvents P ops raft s = Inr (r, s')"
  shows "r = None \<and> s' = s \<or> store_work s' < store_work s"
proof (cases "ro_mCachedBundles (popped s)")
  case Nil
  then have "r = None" "s' = popped s" using step assms(2) by (simp_all add: loadNext_popped)
  then show ?thesis using popped_work[OF ok] by blast
next
  case (Cons b bs)
  then have "s' = (popped s)\<lparr>ro_mCachedBundles := bs, ro_mApplyingIndex := bundle_id b\<rparr>"
    using step assms(2) by (auto simp: loadNext_popped split: option.splits)
  then have "store_work s' < store_work (popped s)" using Cons popped_caught_up[of s] by (simp add: store_work_def)
  then show ?thesis using popped_work[OF ok] by auto
qed

text \<open>Every entry that is still to be read fits into one batch.\<close>

definition batches_fit :: "(LogEntry \<Rightarrow> nat) \<Rightarrow> nat \<Rightarrow> 'l reader_sys \<Rightarrow> bool" where
  "batches_fit esize offset y =
     (\<forall>i. offset < i \<and> i \<le> rc_mCommitIndex (ys_raft y) \<longrightarrow> esize (ys_history y i) \<le> rc_mMaxLenInBytes (ys_raft y))"

definition all_delivered :: "'c store_env \<Rightarrow> nat \<Rightarrow> 'l reader_sys \<Rightarrow> bool" where
  "all_delivered P offset y =
     (decryptEntries P (map (ys_history y) [Suc offset ..< Suc (rc_mCommitIndex (ys_raft y))]) = Inr (ys_delivered y))"

text \<open>Everything committed has been loaded, and the apply loop has come back after the last bundle it was given.\<close>

definition caught_up :: "'l reader_sys \<Rightarrow> bool" where
  "caught_up y =
     (rc_mCommitIndex (ys_raft y) \<le> ro_mLoadedIndex (ys_store y)
      \<and> ro_mApplyingIndex (ys_store y) \<le> ro_mAppliedIndex (ys_store y))"

definition progress_step :: "'c store_env \<Rightarrow> 'l log_ops \<Rightarrow> 'l reader_sys \<Rightarrow> 'l reader_sys \<Rightarrow> bool" where
  "progress_step P ops y y' = (pipeline_step P ops y y' \<and> y' \<noteq> y)"

lemma pipeline_step_keeps_raft: "pipeline_step P ops y y' \<Longrightarrow> ys_raft y' = ys_raft y \<and> ys_history y' = ys_history y"
  by (induction rule: pipeline_step.induct) simp_all

context raft_log_reader
begin

lemma load_work:
  assumes inv: "reader_inv P ops invar contents offset y" and fit: "batches_fit esize offset y"
    and step: "loadEntries_step ops (ys_raft y) (ys_load y) (ys_store y) = Inr (pc, s)"
  shows "pc = ys_load y \<and> s = ys_store y \<or> pipeline_work (y\<lparr>ys_load := pc, ys_store := s\<rparr>) < pipeline_work y"
proof (cases "ys_load y")
  case L_Top
  then show ?thesis using step by (auto simp: loadEntries_step_def pipeline_work_def pc_work_def split: if_splits)
next
  case (L_Fetch c)
  let ?l = "ro_mLoadedIndex (ys_store y)"
  have src: "source_ok P ops invar contents offset ?l (ys_raft y) (ys_history y)" and c: "?l < c" "c \<le> rc_mCommitIndex (ys_raft y)"
    using inv L_Fetch by (auto simp: reader_inv_def pc_ok_def)
  obtain n where n: "raft_getEntries ops (?l + 1) (c - ?l) (ys_raft y) = Inr (map (ys_history y) [Suc ?l ..< Suc (?l + n)])" "?l + n \<le> c"
    "esize (ys_history y (Suc ?l)) \<le> rc_mMaxLenInBytes (ys_raft y) \<longrightarrow> 0 < n"
    using fetch_history[OF src c] by blast
  have "offset \<le> ?l" using src by (simp add: source_ok_def)
  then have pos: "0 < n" using n(3) fit c by (simp add: batches_fit_def)
  have pcs: "pc = L_Push \<lparr>tk_entries = map (ys_history y) [Suc ?l ..< Suc (?l + n)], tk_bundles = [], tk_flag = 0\<rparr>"
    "s = (ys_store y)\<lparr>ro_mLoadedIndex := ?l + n\<rparr>"
    using step n(1) L_Fetch by (simp_all add: loadEntries_step_def del: upt_Suc)
  have "store_work s = store_work (ys_store y)" unfolding pcs(2) by (simp add: store_work_def)
  moreover have "pc_work pc = 2 * n + 6" unfolding pcs(1) by (simp add: pc_work_def del: upt_Suc)
  moreover have "rc_mCommitIndex (ys_raft y) - ?l = rc_mCommitIndex (ys_raft y) - ro_mLoadedIndex s + n" using n(2) c unfolding pcs(2) by simp
  ultimately show ?thesis using pos L_Fetch by (simp add: pipeline_work_def pc_work_def)
next
  case (L_Push t)
  then show ?thesis using step inv
    by (auto simp: loadEntries_step_def pipeline_work_def pc_work_def store_work_def task_work_def)
qed

lemma progress_decreases:
  assumes "progress_step P ops y y'" and inv: "reader_inv P ops invar contents offset y" and fit: "batches_fit esize offset y"
  shows "pipeline_work y' < pipeline_work y"
proof -
  have ok: "\<forall>t \<in> set (ro_mTaskQueue (ys_store y)). task_ok P t" and mode: "ro_mAsyncLoad (ys_store y)"
    using inv by (simp_all add: reader_inv_def)
  have "pipeline_step P ops y y'" and ne: "y' \<noteq> y" using assms(1) by (simp_all add: progress_step_def)
  then show ?thesis
  proof (cases rule: pipeline_step.cases)
    case (load pc s)
    then show ?thesis using load_work[OF inv fit load(2)] ne by auto
  next
    case (claim i s j)
    let ?q = "ro_mTaskQueue (ys_store y)"
    obtain us where us: "claim_task ?q = Some (i, us)" and s: "s = (ys_store y)\<lparr>ro_mTaskQueue := us\<rparr>"
      using claim(2) by (auto simp: decrypt_claim_def split: if_splits)
    note i = claim_task_Some[OF us]
    then show ?thesis using claim(1) update_work[of i ?q "(?q ! i)\<lparr>tk_flag := 1\<rparr>"] s
      by (simp add: pipeline_work_def store_work_def task_work_def)
  next
    case (decrypted j n s)
    let ?q = "ro_mTaskQueue (ys_store y)" and ?i = "n - ys_taken y"
    have flag: "tk_flag (?q ! ?i) = 1" using thread_holds[OF _ decrypted(2,3)] inv by (simp add: reader_inv_def)
    obtain bs where "s = (ys_store y)\<lparr>ro_mTaskQueue := ?q[?i := (?q ! ?i)\<lparr>tk_bundles := bs, tk_flag := 2\<rparr>]\<rparr>"
      using decrypted(6) by (auto simp: decrypt_done_def Let_def res_bind_def split: sum.splits)
    then show ?thesis using decrypted(1) update_work[OF decrypted(5), of "(?q ! ?i)\<lparr>tk_bundles := bs, tk_flag := 2\<rparr>"] flag
      by (simp add: pipeline_work_def store_work_def task_work_def)
  next
    case (deliver r s)
    then have "ro_mLoadedIndex s = ro_mLoadedIndex (ys_store y)" using mode
      by (auto simp: loadNext_popped popped_indexes split: list.splits option.splits)
    then show ?thesis using deliver(1) deliver_work[OF ok mode deliver(2)] ne by (auto simp: pipeline_work_def handed_out_def)
  qed
qed

end

lemma queue_decrypts:
  assumes inv: "reader_inv P ops invar contents offset y" and t: "t \<in> set (ro_mTaskQueue (ys_store y))"
  shows "\<exists>bs. decryptEntries P (tk_entries t) = Inr bs"
proof (rule decryptEntries_total)
  fix e
  assume e: "e \<in> set (tk_entries t)"
  obtain consumed where c: "map (ys_history y) [Suc offset ..< Suc (ro_mLoadedIndex (ys_store y))]
      = consumed @ concat (map tk_entries (ro_mTaskQueue (ys_store y))) @ pc_entries (ys_load y)"
    using inv by (auto simp: reader_inv_def pipeline_ok_def)
  have "e \<in> set (consumed @ concat (map tk_entries (ro_mTaskQueue (ys_store y))) @ pc_entries (ys_load y))" using e t by auto
  then have "\<exists>i. offset < i \<and> i \<le> ro_mLoadedIndex (ys_store y) \<and> e = ys_history y i"
    unfolding c[symmetric] by (auto simp: Suc_le_eq less_Suc_eq_le simp del: upt_Suc)
  then obtain i where "offset < i" "i \<le> ro_mLoadedIndex (ys_store y)" "e = ys_history y i" by blast
  then show "\<exists>bs. decrypt_entry P e = Inr bs" using inv
    by (intro readable_decrypts[of P i]) (auto simp: reader_inv_def source_ok_def max_def split: if_splits)
qed

lemma store_differs: "ro_mTaskQueue s \<noteq> ro_mTaskQueue (ys_store y) \<Longrightarrow> y\<lparr>ys_store := s, ys_threads := ths\<rparr> \<noteq> y"
  by (metis reader_sys.select_convs(1) reader_sys.surjective reader_sys.update_convs(1,3))

lemma task_progress:
  assumes inv: "reader_inv P ops invar contents offset y" and q: "ro_mTaskQueue (ys_store y) = t # ts" "tk_flag t \<noteq> 2"
  shows "\<exists>y'. progress_step P ops y y'"
proof (cases "0 < claimed (ro_mTaskQueue (ys_store y))")
  case True
  let ?q = "ro_mTaskQueue (ys_store y)" and ?ths = "ys_threads y"
  have th: "threads_ok ?q (ys_taken y) ?ths" using inv by (simp add: reader_inv_def)
  obtain i where i: "i < length ?q" "tk_flag (?q ! i) = 1" using claimed_pos[OF True] by blast
  then have "count (mset (decrypting ?ths)) (ys_taken y + i) = 1" using th by (simp add: threads_ok_def)
  then have "ys_taken y + i \<in> set (decrypting ?ths)" by (metis count_mset_0_iff zero_neq_one)
  then have "Some (ys_taken y + i) \<in> set ?ths" by (auto simp: decrypting_def split: option.splits)
  then obtain j where j: "j < length ?ths" "?ths ! j = Some (ys_taken y + i)" by (auto simp: in_set_conv_nth)
  obtain bs where "decryptEntries P (tk_entries (?q ! i)) = Inr bs" using queue_decrypts[OF inv] i(1) by fastforce
  then have d: "decrypt_done P i (ys_store y)
      = Inr ((ys_store y)\<lparr>ro_mTaskQueue := ?q[i := (?q ! i)\<lparr>tk_bundles := tk_bundles (?q ! i) @ bs, tk_flag := 2\<rparr>]\<rparr>)" (is "_ = Inr ?s")
    by (simp add: decrypt_done_def Let_def)
  have "tk_flag (ro_mTaskQueue ?s ! i) \<noteq> tk_flag (?q ! i)" using i by simp
  then have "ro_mTaskQueue ?s \<noteq> ?q" by metis
  from store_differs[OF this] show ?thesis using pipeline_step.decrypted[OF j, of P ?s ops] i d unfolding progress_step_def by auto
next
  case False
  let ?ths = "ys_threads y"
  have "tk_flag t \<noteq> 1" using False q by (auto split: if_splits)
  moreover have "tk_flag t \<le> 2" using inv q by (simp add: reader_inv_def task_ok_def)
  ultimately have t0: "tk_flag t = 0" using q(2) by linarith
  let ?s = "(ys_store y)\<lparr>ro_mTaskQueue := t\<lparr>tk_flag := 1\<rparr> # ts\<rparr>"
  have claim: "decrypt_claim (ys_store y) = Some (0, ?s)" using inv q t0 by (simp add: decrypt_claim_def reader_inv_def)
  have "decrypting ?ths = []" and len: "0 < length ?ths" using inv False by (simp_all add: reader_inv_def threads_ok_def kDecryptConcurrency_def)
  then have idle: "?ths ! 0 = None" using nth_mem[OF len] by (auto simp: decrypting_def split: option.splits)
  have "map tk_flag (ro_mTaskQueue ?s) \<noteq> map tk_flag (ro_mTaskQueue (ys_store y))" using q t0 by simp
  then have "ro_mTaskQueue ?s \<noteq> ro_mTaskQueue (ys_store y)" by metis
  from store_differs[OF this] show ?thesis using pipeline_step.claim[OF claim len idle, of P ops] unfolding progress_step_def by blast
qed

context raft_log_reader
begin

lemma idle_is_complete:
  assumes inv: "reader_inv P ops invar contents offset y" and idle: "\<forall>y'. \<not> progress_step P ops y y'"
  shows "all_delivered P offset y \<and> caught_up y"
proof -
  have mode: "ro_mAsyncLoad (ys_store y)" "ro_mRunning (ys_store y)" using inv by (simp_all add: reader_inv_def)
  obtain pc s where l: "loadEntries_step ops (ys_raft y) (ys_load y) (ys_store y) = Inr (pc, s)" using load_returns[OF inv] by blast
  then have "y\<lparr>ys_load := pc, ys_store := s\<rparr> = y" using pipeline_step.load[OF l, of P] idle by (auto simp: progress_step_def)
  then have "ys_load (y\<lparr>ys_load := pc, ys_store := s\<rparr>) = ys_load y" by simp
  then have "pc = ys_load y" by simp
  then have top: "ys_load y = L_Top" and full: "length (ro_mTaskQueue (ys_store y)) \<ge> kMaxQueueSize
      \<or> ro_mLoadedIndex (ys_store y) \<ge> rc_mCommitIndex (ys_raft y)"
    using l mode by (auto simp: loadEntries_step_def res_bind_def split: load_pc.splits sum.splits if_splits)
  obtain r s where d: "loadNextCommandEvents P ops (ys_raft y) (ys_store y) = Inr (r, s)" using loadNext_returns[OF inv] by blast
  then have same: "handed_out y r s = y"
    using pipeline_step.deliver[OF d] idle by (auto simp: progress_step_def)
  from arg_cong[OF this, of ys_store] have s: "s = ys_store y" by simp
  from arg_cong[OF same, of ys_delivered] have "r = None" by (cases r) simp_all
  then have pop: "popped (ys_store y) = ys_store y" and cached: "ro_mCachedBundles (ys_store y) = []"
    using d s mode by (auto simp: loadNext_popped split: list.splits option.splits)
  have queue: "ro_mTaskQueue (ys_store y) = []"
  proof (cases "ro_mTaskQueue (ys_store y)")
    case (Cons t ts)
    have "tk_flag t = 2" using task_progress[OF inv Cons] idle by blast
    then have "ro_mTaskQueue (popped (ys_store y)) = ts" using Cons cached by (simp add: popped_def Let_def)
    then show ?thesis using pop Cons by simp
  qed
  then have loaded: "rc_mCommitIndex (ys_raft y) \<le> ro_mLoadedIndex (ys_store y)" using full by (simp add: kMaxQueueSize_def)
  have src: "offset \<le> ro_mLoadedIndex (ys_store y)" "ro_mLoadedIndex (ys_store y) \<le> max offset (rc_mCommitIndex (ys_raft y))"
    using inv by (simp_all add: reader_inv_def source_ok_def)
  have "decryptEntries P (map (ys_history y) [Suc offset ..< Suc (ro_mLoadedIndex (ys_store y))]) = Inr (ys_delivered y)"
    using reader_inv_consumed[OF inv] cached queue top by (auto simp: pc_entries_def simp del: upt_Suc)
  moreover have "[Suc offset ..< Suc (ro_mLoadedIndex (ys_store y))] = [Suc offset ..< Suc (rc_mCommitIndex (ys_raft y))]"
    using loaded src by (cases "offset \<le> rc_mCommitIndex (ys_raft y)") auto
  ultimately have "all_delivered P offset y" by (simp add: all_delivered_def del: upt_Suc)
  then show ?thesis using popped_caught_up[of "ys_store y"] pop loaded by (simp add: caught_up_def)
qed

text \<open>With the Raft node quiet, the pipeline comes to rest after at most \<open>pipeline_work\<close> steps.\<close>

lemma progress_run:
  assumes "((progress_step P ops) ^^ n) y y'" and "reader_inv P ops invar contents offset y" and "batches_fit esize offset y"
  shows "n + pipeline_work y' \<le> pipeline_work y \<and> reader_inv P ops invar contents offset y' \<and> batches_fit esize offset y'
    \<and> ys_raft y' = ys_raft y \<and> ys_history y' = ys_history y"
  using assms(1)
proof (induction n arbitrary: y')
  case (Suc n)
  then obtain u where u: "((progress_step P ops) ^^ n) y u" "progress_step P ops u y'" by auto
  note h = Suc.IH[OF u(1)]
  then have "pipeline_work y' < pipeline_work u" using progress_decreases[OF u(2)] by blast
  moreover have "pipeline_step P ops u y'" using u(2) by (simp add: progress_step_def)
  ultimately show ?case using h pipeline_step_preserves[of P u y' offset] pipeline_step_keeps_raft[of P ops u y'] assms(3)
    by (simp add: batches_fit_def)
qed (simp add: assms)

lemma drains:
  assumes "reader_inv P ops invar contents offset y" and "batches_fit esize offset y"
  shows "\<exists>n y'. ((progress_step P ops) ^^ n) y y' \<and> all_delivered P offset y' \<and> caught_up y'"
  using assms
proof (induction "pipeline_work y" arbitrary: y rule: less_induct)
  case less
  show ?case
  proof (cases "\<exists>u. progress_step P ops y u")
    case True
    then obtain u where u: "progress_step P ops y u" by blast
    then have "((progress_step P ops) ^^ 1) y u" by auto
    from progress_run[OF this less.prems] less.hyps[of u]
    obtain n y' where "((progress_step P ops) ^^ n) u y'" "all_delivered P offset y'" "caught_up y'" by auto
    then show ?thesis using relpowp_Suc_I2[of "progress_step P ops", OF u] by blast
  next
    case False
    then show ?thesis using idle_is_complete[OF less.prems(1)] by (intro exI[of _ 0] exI[of _ y]) auto
  qed
qed

end

section \<open>The leader is ready\<close>

lemma ready_scan_Some:
  assumes "ready_scan t n get (ws @ [n]) = Inr (Some k)" and "n \<notin> set ws"
  shows "k = n \<and> (\<forall>i \<in> set (ws @ [n]). \<exists>e. get i = Inr (Some e) \<and> le_noop e) \<and> (\<exists>e. get n = Inr (Some e) \<and> le_term e = t)"
  using assms
proof (induction ws)
  case (Cons i ws)
  then obtain e where "get i = Inr (Some e)" "le_noop e" "ready_scan t n get (ws @ [n]) = Inr (Some k)"
    by (auto simp: res_bind_def split: sum.splits option.splits if_splits)
  then show ?case using Cons by simp
qed (auto simp: res_bind_def split: sum.splits option.splits if_splits)

lemma ready_round_Some:
  assumes "ready_round t v = Inr (Some n)" and "n \<noteq> 0"
  shows "rv_currentTerm v = t \<and> rv_lastIndex v = n \<and> rv_commitIndex v = n \<and> rv_loadedIndex v = n \<and> rv_appliedIndex v < n
   \<and> (\<forall>i. rv_appliedIndex v < i \<and> i \<le> n \<longrightarrow> (\<exists>e. rv_getEntry v i = Inr (Some e) \<and> le_noop e))
   \<and> (\<exists>e. rv_getEntry v n = Inr (Some e) \<and> le_term e = t)"
proof -
  have v: "rv_currentTerm v = t" "rv_loadedIndex v = rv_lastIndex v" "rv_commitIndex v = rv_lastIndex v"
    and scan: "ready_scan t (rv_lastIndex v) (rv_getEntry v) [Suc (rv_appliedIndex v) ..< Suc (rv_lastIndex v)] = Inr (Some n)"
    using assms by (auto simp: ready_round_def simp del: upt_Suc split: if_splits)
  have lt: "rv_appliedIndex v < rv_lastIndex v" using scan by (cases "rv_appliedIndex v < rv_lastIndex v") auto
  then have upt: "[Suc (rv_appliedIndex v) ..< Suc (rv_lastIndex v)] = [Suc (rv_appliedIndex v) ..< rv_lastIndex v] @ [rv_lastIndex v]" by simp
  note h = ready_scan_Some[OF scan[unfolded upt]]
  then show ?thesis using v lt unfolding upt[symmetric] by (simp add: Suc_le_eq less_Suc_eq_le del: upt_Suc)
qed

lemma waitTill_Some: "waitTillLeaderIsReadyOrStepDown t vs = Inr (Some n) \<Longrightarrow> \<exists>v \<in> set vs. ready_round t v = Inr (Some n)"
  by (induction vs) (auto simp: res_bind_def split: sum.splits option.splits)

text \<open>
  The reads of one round happen one after the other while the system runs: the term, the last index, the
  commit index, the loaded index, the applied index, then the entries. \<open>y\<close> is a state after all of them.
\<close>

definition view_read ::
  "'c store_env \<Rightarrow> 'l log_ops \<Rightarrow> ('l \<Rightarrow> LogEntry list) \<Rightarrow> 'l reader_sys \<Rightarrow> ready_view \<Rightarrow> 'l reader_sys \<Rightarrow> bool" where
  "view_read P ops contents y0 v y =
     (\<exists>y1 y2 y3 y4 y5 z.
        (reader_step P ops contents)\<^sup>*\<^sup>* y0 y1 \<and> rv_currentTerm v = lo_getCurrentTerm ops (rc_mLog (ys_raft y1))
        \<and> (reader_step P ops contents)\<^sup>*\<^sup>* y1 y2 \<and> rv_lastIndex v = lo_getLastLogIndex ops (rc_mLog (ys_raft y2))
        \<and> (reader_step P ops contents)\<^sup>*\<^sup>* y2 y3 \<and> rv_commitIndex v = rc_mCommitIndex (ys_raft y3)
        \<and> (reader_step P ops contents)\<^sup>*\<^sup>* y3 y4 \<and> rv_loadedIndex v = ro_mLoadedIndex (ys_store y4)
        \<and> (reader_step P ops contents)\<^sup>*\<^sup>* y4 y5 \<and> rv_appliedIndex v = ro_mAppliedIndex (ys_store y5)
        \<and> (\<forall>i. (reader_step P ops contents)\<^sup>*\<^sup>* y5 (z i) \<and> (reader_step P ops contents)\<^sup>*\<^sup>* (z i) y
             \<and> rv_getEntry v i = raft_getEntry ops i (ys_raft (z i))))"

lemma decrypt_noops: "(\<And>e. e \<in> set es \<Longrightarrow> le_noop e) \<Longrightarrow> decryptEntries P es = Inr []"
proof (induction es)
  case (Cons e es)
  then show ?case by (simp add: decryptEntries_Cons decrypt_entry_def)
qed (simp add: decryptEntries_def)

text \<open>If nothing but no-ops follows the applied index, every bundle has been handed out.\<close>

lemma applied_covers:
  assumes inv: "reader_inv P ops invar contents offset y" and n: "n \<le> rc_mCommitIndex (ys_raft y)" "ro_mAppliedIndex (ys_store y) < n"
    and noop: "\<And>i. ro_mAppliedIndex (ys_store y) < i \<Longrightarrow> i \<le> n \<Longrightarrow> le_noop (ys_history y i)"
  shows "\<exists>bs. decryptEntries P (map (ys_history y) [Suc offset ..< Suc n]) = Inr bs \<and> prefix bs (ys_delivered y)
    \<and> (\<forall>b \<in> set bs. bundle_id b \<le> ro_mAppliedIndex (ys_store y))"
proof -
  let ?a = "ro_mAppliedIndex (ys_store y)" and ?h = "ys_history y" and ?ds = "ys_delivered y" and ?cs = "ro_mCachedBundles (ys_store y)"
  have ap: "?a \<in> insert offset (set (map bundle_id ?ds))" using inv by (simp add: reader_inv_def applied_ok_def)
  obtain m where m: "offset \<le> m" "decryptEntries P (map ?h [Suc offset ..< Suc m]) = Inr (?ds @ ?cs)"
    "map bundle_id (?ds @ ?cs) = filter (\<lambda>i. decrypt_entry P (?h i) \<noteq> Inr []) [Suc offset ..< Suc m]"
    using reader_inv_consumed[OF inv] by blast
  have read: "\<forall>i. offset < i \<and> i \<le> rc_mCommitIndex (ys_raft y) \<longrightarrow> readable P i (?h i)"
    using inv by (simp add: reader_inv_def source_ok_def)
  have "set (map bundle_id ?ds) \<subseteq> {Suc offset ..< Suc m}"
    using arg_cong[OF m(3), of set] by (auto simp del: upt_Suc)
  then have a: "offset \<le> ?a" "?a \<le> m" using ap m(1) by auto
  have "\<forall>i. offset < i \<and> i \<le> ?a \<longrightarrow> readable P i (?h i)" using read n by auto
  then obtain bs where bs: "decryptEntries P (map ?h [Suc offset ..< Suc ?a]) = Inr bs"
    "map bundle_id bs = filter (\<lambda>i. decrypt_entry P (?h i) \<noteq> Inr []) [Suc offset ..< Suc ?a]" using decrypt_history by blast
  have "set (map bundle_id bs) \<subseteq> {Suc offset ..< Suc ?a}" unfolding bs(2) by (auto simp del: upt_Suc)
  then have small: "\<forall>b \<in> set bs. bundle_id b \<le> ?a" by auto
  have "decryptEntries P (map ?h [Suc ?a ..< Suc (?a + (n - ?a))]) = Inr []"
    using noop n by (intro decrypt_noops) (auto simp: Suc_le_eq less_Suc_eq_le simp del: upt_Suc)
  then have full: "decryptEntries P (map ?h [Suc offset ..< Suc (?a + (n - ?a))]) = Inr bs"
    unfolding map_upt_extend[OF a(1)] decryptEntries_append using bs(1) by simp
  have pre: "prefix bs (?ds @ ?cs)"
    using m(2) a(2) map_upt_extend[OF a(1), of ?h "m - ?a"] bs(1) by (auto simp: decryptEntries_append res_bind_eq_Inr simp del: upt_Suc intro: prefixI[OF sym])
  have "sorted (map bundle_id (?ds @ ?cs))" "distinct (map bundle_id (?ds @ ?cs))" unfolding m(3)
    by (simp_all add: sorted_wrt_filter del: upt_Suc)
  then have later: "?a \<in> set (map bundle_id ?ds) \<Longrightarrow> \<forall>c \<in> set ?cs. ?a < bundle_id c" by (fastforce simp: sorted_append order_less_le)
  have "prefix bs ?ds"
  proof (cases "?a = offset")
    case True
    then show ?thesis using bs(1) by (simp add: decryptEntries_def)
  next
    case False
    then have big: "\<forall>c \<in> set ?cs. ?a < bundle_id c" using later ap by simp
    have "us = []" if "bs = ?ds @ us" "prefix us ?cs" for us
      using that big small by (cases us) (auto simp: prefix_def)
    then show ?thesis using pre unfolding prefix_append by auto
  qed
  then show ?thesis using full small n(2) by auto
qed

context raft_log_reader
begin

lemma read_entry:
  assumes inv: "reader_inv P ops invar contents offset y" and i: "0 < i" "i \<le> rc_mCommitIndex (ys_raft y)"
    and e: "raft_getEntry ops i (ys_raft y) = Inr (Some e)"
  shows "e = ys_history y i"
proof -
  let ?r = "ys_raft y"
  have ok: "invar (rc_mLog ?r)" "rc_mCommitIndex ?r \<le> lo_getLastLogIndex ops (rc_mLog ?r)"
    and hist: "lo_getFirstLogIndex ops (rc_mLog ?r) \<le> i \<Longrightarrow> entry_at ops contents (rc_mLog ?r) i = ys_history y i"
    using inv i by (auto simp: reader_inv_def source_ok_def node_ok_def)
  have "lo_getEntry ops i (rc_mLog ?r) = Inr (Some e)" using e by (simp add: raft_getEntry_def res_bind_eq_Inr)
  then show ?thesis using getEntry_in[OF ok(1) i(1)] ok(2) i(2) hist by (auto simp: entry_at_def split: if_splits)
qed

lemma ready_means_applied:
  assumes inv: "reader_inv P ops invar contents offset y0" and view: "view_read P ops contents y0 v y"
    and ready: "ready_round t v = Inr (Some n)" "n \<noteq> 0"
  shows "\<exists>bs. decryptEntries P (map (ys_history y) [Suc offset ..< Suc n]) = Inr bs \<and> prefix bs (ys_delivered y)
    \<and> (\<forall>b \<in> set bs. bundle_id b \<le> ro_mAppliedIndex (ys_store y))
    \<and> n \<le> rc_mCommitIndex (ys_raft y) \<and> le_noop (ys_history y n) \<and> le_term (ys_history y n) = t"
proof -
  obtain y1 y2 y3 y4 y5 z where reads: "(reader_step P ops contents)\<^sup>*\<^sup>* y0 y1" "(reader_step P ops contents)\<^sup>*\<^sup>* y1 y2"
    "(reader_step P ops contents)\<^sup>*\<^sup>* y2 y3" "(reader_step P ops contents)\<^sup>*\<^sup>* y3 y4" "(reader_step P ops contents)\<^sup>*\<^sup>* y4 y5"
    and ent: "\<And>i. (reader_step P ops contents)\<^sup>*\<^sup>* y5 (z i)" "\<And>i. (reader_step P ops contents)\<^sup>*\<^sup>* (z i) y"
      "\<And>i. rv_getEntry v i = raft_getEntry ops i (ys_raft (z i))"
    and v: "rv_commitIndex v = rc_mCommitIndex (ys_raft y3)" "rv_appliedIndex v = ro_mAppliedIndex (ys_store y5)"
    using view unfolding view_read_def by blast
  note rd = ready_round_Some[OF ready]
  have "(reader_step P ops contents)\<^sup>*\<^sup>* y0 y5" and y35: "(reader_step P ops contents)\<^sup>*\<^sup>* y3 y5" and y03: "(reader_step P ops contents)\<^sup>*\<^sup>* y0 y3"
    using reads by (meson rtranclp_trans)+
  then have inv5: "reader_inv P ops invar contents offset y5" and inv3: "reader_inv P ops invar contents offset y3"
    using reader_run_preserves inv by blast+
  then have g35: "reader_grows y3 y5" using reader_run_preserves[OF y35] by blast
  have invz: "reader_inv P ops invar contents offset (z i)" and g5z: "reader_grows y5 (z i)" and gzy: "reader_grows (z i) y" for i
    using reader_run_preserves[OF ent(1) inv5] reader_run_preserves[OF ent(2)] by blast+
  have n: "n = rc_mCommitIndex (ys_raft y3)" "n \<le> rc_mCommitIndex (ys_raft y5)" "\<And>i. n \<le> rc_mCommitIndex (ys_raft (z i))"
    using rd v g35 g5z unfolding reader_grows_def by (force, force, metis le_trans)
  have same: "ys_history (z j) i = ys_history y5 i" "ys_history y i = ys_history y5 i" if "i \<le> n" for i j
    using that n g5z[of j] g5z[of i] gzy[of i] unfolding reader_grows_def by (metis le_trans)+
  have read: "e = ys_history y5 i" if "0 < i" "i \<le> n" "rv_getEntry v i = Inr (Some e)" for i e
    using read_entry[OF invz[of i] that(1)] that n(3)[of i] same(1)[of i i] ent(3)[of i] by simp
  have noop: "le_noop (ys_history y5 i)" if "ro_mAppliedIndex (ys_store y5) < i" "i \<le> n" for i
    using rd read[of i] that v(2) by auto
  have trm: "le_term (ys_history y5 n) = t" using rd read[of n] ready(2) by auto
  obtain bs where bs: "decryptEntries P (map (ys_history y5) [Suc offset ..< Suc n]) = Inr bs" "prefix bs (ys_delivered y5)"
    "\<forall>b \<in> set bs. bundle_id b \<le> ro_mAppliedIndex (ys_store y5)"
    using applied_covers[OF inv5 n(2) _ noop] rd v(2) by auto
  have eq: "map (ys_history y) [Suc offset ..< Suc n] = map (ys_history y5) [Suc offset ..< Suc n]" using same(2) by (simp del: upt_Suc)
  have "decryptEntries P (map (ys_history y) [Suc offset ..< Suc n]) = Inr bs" unfolding eq by (rule bs(1))
  moreover have "reader_grows y5 y" using reader_grows_trans[OF g5z gzy] .
  ultimately show ?thesis using bs(2,3) n noop[of n] trm same(2)[of n] rd v(2)
    by (intro exI[of _ bs]) (auto simp: reader_grows_def simp del: upt_Suc intro: prefix_order.trans le_trans)
qed

end

lemma delivered_prefix:
  assumes inv: "reader_inv P ops invar contents offset y"
  shows "\<exists>bs. decryptEntries P (map (ys_history y) [Suc offset ..< Suc (rc_mCommitIndex (ys_raft y))]) = Inr bs
    \<and> prefix (ys_delivered y) bs \<and> sorted_wrt (<) (map bundle_id bs)"
proof -
  let ?c = "rc_mCommitIndex (ys_raft y)" and ?h = "ys_history y"
  have src: "ro_mLoadedIndex (ys_store y) \<le> max offset ?c" "\<forall>i. offset < i \<and> i \<le> ?c \<longrightarrow> readable P i (?h i)"
    using inv by (simp_all add: reader_inv_def source_ok_def)
  obtain m where m: "offset \<le> m" "m \<le> ro_mLoadedIndex (ys_store y)"
    "decryptEntries P (map ?h [Suc offset ..< Suc m]) = Inr (ys_delivered y @ ro_mCachedBundles (ys_store y))"
    using reader_inv_consumed[OF inv] by blast
  obtain bs where bs: "decryptEntries P (map ?h [Suc offset ..< Suc ?c]) = Inr bs"
    "map bundle_id bs = filter (\<lambda>i. decrypt_entry P (?h i) \<noteq> Inr []) [Suc offset ..< Suc ?c]" using decrypt_history[OF src(2)] by blast
  have "sorted_wrt (<) (map bundle_id bs)" unfolding bs(2) by (intro sorted_wrt_filter) (simp del: upt_Suc)
  moreover have "prefix (ys_delivered y) bs"
  proof (cases "offset < ?c")
    case True
    then have "m \<le> ?c" using m(2) src(1) by simp
    then show ?thesis using map_upt_extend[OF m(1), of ?h "?c - m"] m(3) bs(1)
      by (auto simp: decryptEntries_append res_bind_eq_Inr prefix_def simp del: upt_Suc)
  next
    case False
    then have "m = offset" using m(1,2) src(1) by simp
    then show ?thesis using m(3) by (simp add: decryptEntries_def)
  qed
  ultimately show ?thesis using bs(1) by blast
qed

end
