(* ===== verification/Segment_Recovery.thy ===== *)
theory Segment_Recovery
  imports Segment_Log "HOL-Library.Multiset"
begin

text \<open>
  Restarting on the files a segment log leaves behind. The directory may list its files in any order.
  The invariant \<open>disk_ok\<close> says what the files are; every operation keeps it, and recovery from it gives
  the log back. Together with \<open>seg_raft_log\<close> this makes the segment log, restarts included, an
  implementation of the in-memory log.
\<close>

section \<open>File names and their patterns\<close>

lemma takeWhile_rev_digits:
  "\<not> is_digit c \<Longrightarrow> takeWhile is_digit (rev (to_string n) @ c # rest) = rev (to_string n)"
  using to_string_digits[of n] by (subst takeWhile_append2) auto

lemma back_digits_to_string:
  "\<not> is_digit c \<Longrightarrow> back_digits (rev (to_string n) @ c # rest) = Some (to_string n, c # rest)"
  by (simp add: back_digits_def takeWhile_rev_digits Let_def)

lemma not_digits [simp]: "\<not> is_digit (CHR ''_'')" "\<not> is_digit (CHR ''s'')"
  by (simp_all add: is_digit_def)

lemma match_closed_name: "match_closed (p @ metaFileNameForClosedSegment a b) = Some (to_string a, to_string b)"
  by (simp add: match_closed_def match_meta_def metaFileNameForClosedSegment_def back_digits_to_string)

lemma match_closed_active: "match_closed (p @ metaFileNameForActiveSegment a) = None"
  by (simp add: match_closed_def match_meta_def metaFileNameForActiveSegment_def back_digits_to_string) (simp add: back_digits_def)

lemma match_active_name: "match_active (p @ metaFileNameForActiveSegment a) = Some (to_string a)"
  by (simp add: match_active_def match_meta_def metaFileNameForActiveSegment_def back_digits_to_string)

text \<open>A dropped file is not listed, whatever the clock shows.\<close>

lemma dropped_not_listed:
  "match_closed (fp_metaPath (dropSegment d ts s)) = None" "match_active (fp_metaPath (dropSegment d ts s)) = None"
proof -
  have "match_meta (x @ ''.dropped.'' @ to_string ts) = None" for x
  proof -
    have "to_string ts \<noteq> []" by simp
    then have "hd (rev (to_string ts)) \<in> set (to_string ts)" by (metis hd_in_set rev_is_Nil_conv set_rev)
    then have "is_digit (hd (rev (to_string ts)))" using to_string_digits by blast
    moreover have "\<not> is_digit (CHR ''a'')" by (simp add: is_digit_def)
    ultimately show ?thesis by (cases "rev (to_string ts)") (auto simp: match_meta_def)
  qed
  then show "match_closed (fp_metaPath (dropSegment d ts s)) = None" "match_active (fp_metaPath (dropSegment d ts s)) = None"
    by (simp_all add: match_closed_def match_active_def dropSegment_def)
qed

lemma stoull_nat_to_string [simp]: "n < 2 ^ 64 \<Longrightarrow> stoull_nat (to_string n) = Inr n"
  by (simp add: stoull_nat_def stoull_to_string unsigned_of_nat take_bit_nat_eq_self)

section \<open>Listing\<close>

text \<open>What a file contributes to the listing.\<close>

definition closed_of :: "file_pair \<Rightarrow> (nat \<times> Segment) option" where
  "closed_of f =
     (case match_closed (fp_metaPath f) of
        Some (d1, d2) \<Rightarrow> Some (digits_value d1, Segment_closed (digits_value d1) (digits_value d2))
      | None \<Rightarrow> None)"

definition active_of :: "file_pair \<Rightarrow> Segment option" where
  "active_of f =
     (case match_closed (fp_metaPath f) of
        Some ds \<Rightarrow> None
      | None \<Rightarrow> map_option (\<lambda>d. Segment_active (digits_value d)) (match_active (fp_metaPath f)))"

definition small_name :: "string \<Rightarrow> file_pair \<Rightarrow> bool" where
  "small_name p f =
     ((\<exists>a b. fp_metaPath f = p @ metaFileNameForClosedSegment a b \<and> a < 2 ^ 64 \<and> b < 2 ^ 64)
      \<or> (\<exists>a. fp_metaPath f = p @ metaFileNameForActiveSegment a \<and> a < 2 ^ 64))"

lemma list_one_small:
  assumes "small_name p f"
  shows "list_one f (closed, active) =
    (case closed_of f of
       Some (a, s) \<Rightarrow> if map_of closed a = None then Inr (smap_put a s closed, active) else Inl Assertion
     | None \<Rightarrow> if active = None then Inr (closed, active_of f) else Inl Assertion)"
  using assms unfolding small_name_def
  by (auto simp: list_one_def closed_of_def active_of_def match_closed_name match_closed_active match_active_name)

lemma closed_or_active: "small_name p f \<Longrightarrow> closed_of f = None \<longleftrightarrow> active_of f \<noteq> None"
  unfolding small_name_def
  by (auto simp: closed_of_def active_of_def match_closed_name match_closed_active match_active_name)

lemma smap_put_set_new:
  "map_of m k = None \<Longrightarrow> set (smap_put k v m) = insert (k, v) (set m)"
  by (induction k v m rule: smap_put.induct) (auto split: if_splits)

lemma list_fold:
  assumes "\<forall>f \<in> set dir. small_name p f" and "smap_ok closed"
    and "distinct (map fst closed @ map fst (List.map_filter closed_of dir))"
    and "length (List.map_filter active_of dir) + (if active = None then 0 else 1) \<le> 1"
  shows "\<exists>closed' active'. fold_res list_one dir (closed, active) = Inr (closed', active') \<and> smap_ok closed'
    \<and> set closed' = set closed \<union> set (List.map_filter closed_of dir)
    \<and> active' = (case List.map_filter active_of dir of [] \<Rightarrow> active | s # _ \<Rightarrow> Some s)"
  using assms
proof (induction dir arbitrary: closed active)
  case Nil
  then show ?case by (simp add: List.map_filter_def)
next
  case (Cons f dir)
  have f: "small_name p f" using Cons.prems(1) by simp
  show ?case
  proof (cases "closed_of f")
    case (Some as)
    then obtain a s where as: "closed_of f = Some (a, s)" by (cases as) auto
    have none: "active_of f = None" using closed_or_active[OF f] as by simp
    have new: "map_of closed a = None" using Cons.prems(3) as by (auto simp: List.map_filter_simps map_of_eq_None_iff)
    have keys: "fst ` set (smap_put a s closed) = insert a (fst ` set closed)" by (rule smap_put_keys)
    have "smap_ok (smap_put a s closed)" by (rule smap_ok_put[OF Cons.prems(2)])
    moreover from smap_ok_distinct[OF this]
    have "distinct (map fst (smap_put a s closed) @ map fst (List.map_filter closed_of dir))"
      using Cons.prems(3) as keys by (auto simp: List.map_filter_simps)
    ultimately obtain closed' active' where
      "fold_res list_one dir (smap_put a s closed, active) = Inr (closed', active')" "smap_ok closed'"
      "set closed' = set (smap_put a s closed) \<union> set (List.map_filter closed_of dir)"
      "active' = (case List.map_filter active_of dir of [] \<Rightarrow> active | s # _ \<Rightarrow> Some s)"
      using Cons.IH[of "smap_put a s closed" active] Cons.prems(1,4) none by (auto simp: List.map_filter_simps)
    then show ?thesis
      using as none new by (simp add: list_one_small[OF f] List.map_filter_simps smap_put_set_new)
  next
    case None
    then obtain s where s: "active_of f = Some s" using closed_or_active[OF f] by auto
    then have act: "active = None" and rest: "List.map_filter active_of dir = []"
      using Cons.prems(4) by (auto simp: List.map_filter_simps split: if_splits)
    then obtain closed' active' where
      "fold_res list_one dir (closed, Some s) = Inr (closed', active')" "smap_ok closed'"
      "set closed' = set closed \<union> set (List.map_filter closed_of dir)" "active' = Some s"
      using Cons.IH[of closed "Some s"] Cons.prems(1-3) None by (auto simp: List.map_filter_simps)
    then show ?thesis using None s act rest by (simp add: list_one_small[OF f] List.map_filter_simps)
  qed
qed

lemma sorted_key_unique:
  assumes "smap_ok m" and "smap_ok n" and "set m = set n"
  shows "m = n"
proof (rule smap_eqI[OF assms(1,2)])
  show "map_of m = map_of n"
  proof
    fix k
    show "map_of m k = map_of n k"
      using map_of_eq_Some_iff[OF smap_ok_distinct[OF assms(1)]] map_of_eq_Some_iff[OF smap_ok_distinct[OF assms(2)]] assms(3)
      by (metis not_None_eq)
  qed
qed

section \<open>What the log leaves on disk\<close>

text \<open>
  The three small files hold term, vote and first index; the retained files are those of closed segments
  that end before the first segment of the log.
\<close>

definition disk_ok :: "segment_log \<Rightarrow> bool" where
  "disk_ok l =
     (sl_metaStorage l = \<lparr>mf_current_term = Some (to_string (sl_mCurrentTerm l)), mf_vote_for = Some (to_string (sl_mVoteFor l)),
                          mf_first_index = Some (to_string (sl_mFirstIndex l))\<rparr>
      \<and> (\<exists>rs. map fp_metaPath (sl_retained l) = map (\<lambda>(a, b). seg_dir l @ metaFileNameForClosedSegment a b) rs
           \<and> distinct (map fst rs) \<and> (\<forall>(a, b) \<in> set rs. a \<le> b \<and> b < sg_mFirstIndex (hd (segments l)))))"

definition listed_closed :: "Segment \<Rightarrow> nat \<times> Segment" where
  "listed_closed s = (sg_mFirstIndex s, Segment_closed (sg_mFirstIndex s) (sg_mLastIndex s))"

lemma closed_of_name: "fp_metaPath f = p @ metaFileNameForClosedSegment a b \<Longrightarrow> closed_of f = Some (a, Segment_closed a b)"
  and active_of_closed: "fp_metaPath f = p @ metaFileNameForClosedSegment a b \<Longrightarrow> active_of f = None"
  and closed_of_active: "fp_metaPath f = p @ metaFileNameForActiveSegment a \<Longrightarrow> closed_of f = None"
  and active_of_name: "fp_metaPath f = p @ metaFileNameForActiveSegment a \<Longrightarrow> active_of f = Some (Segment_active a)"
  by (simp_all add: closed_of_def active_of_def match_closed_name match_closed_active match_active_name)

lemma files_of_path:
  "\<not> sg_mIsActive s \<Longrightarrow> fp_metaPath (files_of p s) = p @ metaFileNameForClosedSegment (sg_mFirstIndex s) (sg_mLastIndex s)"
  "sg_mIsActive s \<Longrightarrow> fp_metaPath (files_of p s) = p @ metaFileNameForActiveSegment (sg_mFirstIndex s)"
  by (simp_all add: files_of_def seg_metaPath_def)

lemma closed_of_files:
  "closed_of (files_of p s) = (if sg_mIsActive s then None else Some (listed_closed s))"
  by (simp add: closed_of_name[OF files_of_path(1)] closed_of_active[OF files_of_path(2)] listed_closed_def)

lemma closed_of_path: "fp_metaPath f = fp_metaPath g \<Longrightarrow> closed_of f = closed_of g"
  by (simp add: closed_of_def)

lemma map_filter_closed:
  assumes "\<forall>s \<in> set ss. \<not> sg_mIsActive s"
  shows "List.map_filter closed_of (map (files_of p) ss) = map listed_closed ss"
    and "List.map_filter active_of (map (files_of p) ss) = []"
  using assms
  by (induction ss)
    (auto simp: List.map_filter_simps closed_of_name[OF files_of_path(1)] active_of_closed[OF files_of_path(1)] listed_closed_def)

lemma map_filter_retained:
  assumes "map fp_metaPath fs = map (\<lambda>(a, b). p @ metaFileNameForClosedSegment a b) rs"
  shows "List.map_filter closed_of fs = map (\<lambda>(a, b). (a, Segment_closed a b)) rs" and "List.map_filter active_of fs = []"
proof -
  have "List.map_filter closed_of fs = map (\<lambda>(a, b). (a, Segment_closed a b)) rs \<and> List.map_filter active_of fs = []"
    using assms
  proof (induction rs arbitrary: fs)
    case Nil
    then show ?case by (simp add: List.map_filter_simps)
  next
    case (Cons r rs)
    then obtain f fs' where fs: "fs = f # fs'" and f: "fp_metaPath f = p @ metaFileNameForClosedSegment (fst r) (snd r)"
      and rest: "map fp_metaPath fs' = map (\<lambda>(a, b). p @ metaFileNameForClosedSegment a b) rs"
      by (cases fs) (auto simp: case_prod_beta)
    with Cons.IH[OF rest] closed_of_name[OF f] active_of_closed[OF f] show ?case
      by (simp add: List.map_filter_simps case_prod_beta)
  qed
  then show "List.map_filter closed_of fs = map (\<lambda>(a, b). (a, Segment_closed a b)) rs" "List.map_filter active_of fs = []"
    by blast+
qed

lemma map_filter_append: "List.map_filter f (xs @ ys) = List.map_filter f xs @ List.map_filter f ys"
  by (simp add: List.map_filter_def)

lemma mset_map_filter: "mset (List.map_filter f xs) = image_mset (the \<circ> f) (filter_mset (\<lambda>x. f x \<noteq> None) (mset xs))"
  by (simp add: List.map_filter_def mset_filter[symmetric] del: mset_filter)

lemma listed_ok: "smap_ok (map listed_closed ss) = sorted_wrt (<) (map sg_mFirstIndex ss)"
  by (simp add: smap_ok_def listed_closed_def comp_def)

lemma chain_sorted:
  assumes "\<forall>s \<in> set ss. seg_wf P DS MS s \<and> sg_mFirstIndex s \<le> sg_mLastIndex s" and "chain n ss"
  shows "smap_ok (map listed_closed ss)" and "\<forall>s \<in> set ss. n \<le> sg_mFirstIndex s"
proof -
  have "smap_ok (map listed_closed ss) \<and> (\<forall>s \<in> set ss. n \<le> sg_mFirstIndex s)"
    using assms
  proof (induction ss arbitrary: n)
    case (Cons s ss)
    then have ih: "smap_ok (map listed_closed ss)" "\<forall>t \<in> set ss. Suc (sg_mLastIndex s) \<le> sg_mFirstIndex t"
      using Cons.IH[of "Suc (sg_mLastIndex s)"] by auto
    moreover have "sg_mFirstIndex s \<le> sg_mLastIndex s" "sg_mFirstIndex s = n" using Cons.prems by auto
    moreover have "\<forall>t \<in> set ss. sg_mFirstIndex s < sg_mFirstIndex t" using ih(2) calculation(3) by fastforce
    ultimately show ?case unfolding listed_ok by auto
  qed simp
  then show "smap_ok (map listed_closed ss)" "\<forall>s \<in> set ss. n \<le> sg_mFirstIndex s" by blast+
qed

lemma find_unique: "x \<in> set xs \<Longrightarrow> Q x \<Longrightarrow> (\<forall>y \<in> set xs. Q y \<longrightarrow> y = x) \<Longrightarrow> find Q xs = Some x"
proof (induction xs)
  case (Cons y ys)
  then show ?case by (cases "Q y") fastforce+
qed simp

text \<open>The shape of a log in good order, as recovery needs it.\<close>

lemma seg_ok_shape:
  assumes "seg_ok P DS MS l"
  obtains cs a where "segments l = cs @ [a]" and "map snd (sl_mClosedSegments l) = cs"
    and "sl_mClosedSegments l = map (\<lambda>s. (sg_mFirstIndex s, s)) cs"
    and "sl_mActiveSegment l = Some a" and "sg_mIsActive a" and "sl_mLastIndex l = sg_mLastIndex a"
    and "\<forall>s \<in> set cs. \<not> sg_mIsActive s \<and> sg_mFirstIndex s \<le> sg_mLastIndex s"
    and "\<forall>s \<in> set (cs @ [a]). seg_wf P DS MS s" and "chain (sg_mFirstIndex (hd (cs @ [a]))) (cs @ [a])"
proof -
  obtain a where a: "sl_mActiveSegment l = Some a" "sg_mIsActive a" "sl_mLastIndex l = sg_mLastIndex a"
    using assms by (auto simp: seg_ok_def)
  have segs: "segments l = map snd (sl_mClosedSegments l) @ [a]" by (simp add: segments_def a)
  have keys: "\<forall>(k, s) \<in> set (sl_mClosedSegments l). k = sg_mFirstIndex s \<and> \<not> sg_mIsActive s \<and> sg_mFirstIndex s \<le> sg_mLastIndex s"
    using assms by (simp add: seg_ok_def)
  then have cl: "sl_mClosedSegments l = map (\<lambda>s. (sg_mFirstIndex s, s)) (map snd (sl_mClosedSegments l))"
    by (auto intro!: map_idI[symmetric])
  have "\<forall>s \<in> set (map snd (sl_mClosedSegments l)). \<not> sg_mIsActive s \<and> sg_mFirstIndex s \<le> sg_mLastIndex s"
    using keys by auto
  moreover have "\<forall>s \<in> set (segments l). seg_wf P DS MS s" "chain (sg_mFirstIndex (hd (segments l))) (segments l)"
    using assms by (simp_all add: seg_ok_def)
  ultimately show ?thesis using that[OF segs refl cl a] unfolding segs by blast
qed

lemma chain_last: "chain n (cs @ [a]) \<Longrightarrow> sg_mFirstIndex a = (if cs = [] then n else Suc (sg_mLastIndex (last cs)))"
  by (induction cs arbitrary: n) auto

lemma chain_snoc: "chain n (cs @ [a]) = (chain n cs \<and> sg_mFirstIndex a = (if cs = [] then n else Suc (sg_mLastIndex (last cs))))"
  by (induction cs arbitrary: n) auto

lemma chain_prefix: "chain n (xs @ ys) \<Longrightarrow> chain n xs"
  by (induction xs arbitrary: n) auto

lemma chain_firsts:
  assumes "\<forall>s \<in> set cs. sg_mFirstIndex s \<le> sg_mLastIndex s" and "chain n (cs @ [a])"
  shows "distinct (map sg_mFirstIndex (cs @ [a]))" and "\<forall>s \<in> set (cs @ [a]). n \<le> sg_mFirstIndex s \<and> sg_mFirstIndex s \<le> sg_mFirstIndex a"
proof -
  have "distinct (map sg_mFirstIndex (cs @ [a])) \<and> (\<forall>s \<in> set (cs @ [a]). n \<le> sg_mFirstIndex s \<and> sg_mFirstIndex s \<le> sg_mFirstIndex a)"
    using assms
  proof (induction cs arbitrary: n)
    case (Cons s ss)
    then have ih: "distinct (map sg_mFirstIndex (ss @ [a]))"
      "\<forall>t \<in> set (ss @ [a]). Suc (sg_mLastIndex s) \<le> sg_mFirstIndex t \<and> sg_mFirstIndex t \<le> sg_mFirstIndex a"
      using Cons.IH[of "Suc (sg_mLastIndex s)"] by auto
    moreover have "sg_mFirstIndex s \<le> sg_mLastIndex s" "sg_mFirstIndex s = n" using Cons.prems by auto
    moreover have "\<forall>t \<in> set (ss @ [a]). sg_mFirstIndex s < sg_mFirstIndex t" using ih(2) calculation(3) by fastforce
    ultimately show ?case by fastforce
  qed simp
  then show "distinct (map sg_mFirstIndex (cs @ [a]))"
    "\<forall>s \<in> set (cs @ [a]). n \<le> sg_mFirstIndex s \<and> sg_mFirstIndex s \<le> sg_mFirstIndex a" by blast+
qed

text \<open>A live segment's meta file name belongs to no other file of the directory.\<close>

lemma retained_path:
  assumes ok: "seg_ok P DS MS l" and disk: "disk_ok l"
    and s: "s \<in> set (segments l)" and g: "g \<in> set (sl_retained l)"
  shows "fp_metaPath g \<noteq> seg_metaPath (seg_dir l) s"
proof
  assume "fp_metaPath g = seg_metaPath (seg_dir l) s"
  then have "closed_of g = closed_of (files_of (seg_dir l) s)" by (intro closed_of_path) (simp add: files_of_def)
  moreover obtain cs a where segs: "segments l = cs @ [a]"
    and cs: "\<forall>s \<in> set cs. \<not> sg_mIsActive s \<and> sg_mFirstIndex s \<le> sg_mLastIndex s"
    and ch: "chain (sg_mFirstIndex (hd (cs @ [a]))) (cs @ [a])"
    using ok by (rule seg_ok_shape)
  have firsts: "\<forall>s \<in> set (cs @ [a]). sg_mFirstIndex (hd (cs @ [a])) \<le> sg_mFirstIndex s \<and> sg_mFirstIndex s \<le> sg_mFirstIndex a"
    using chain_firsts(2)[of cs, OF _ ch] cs by blast
  obtain rs where rs: "map fp_metaPath (sl_retained l) = map (\<lambda>(a, b). seg_dir l @ metaFileNameForClosedSegment a b) rs"
    "\<forall>(a, b) \<in> set rs. a \<le> b \<and> b < sg_mFirstIndex (hd (segments l))"
    using disk by (auto simp: disk_ok_def)
  have "fp_metaPath g \<in> set (map fp_metaPath (sl_retained l))" using g by simp
  then obtain x y where xy: "(x, y) \<in> set rs" "fp_metaPath g = seg_dir l @ metaFileNameForClosedSegment x y"
    unfolding rs(1) by auto
  have "closed_of g = Some (x, Segment_closed x y)" by (rule closed_of_name[OF xy(2)])
  ultimately have "x = sg_mFirstIndex s" by (simp add: closed_of_files listed_closed_def split: if_splits)
  moreover have "x \<le> y" "y < sg_mFirstIndex (hd (cs @ [a]))" using xy(1) rs(2) segs by auto
  moreover have "sg_mFirstIndex (hd (cs @ [a])) \<le> sg_mFirstIndex s" using firsts s unfolding segs by blast
  ultimately show False by simp
qed

lemma file_unique:
  assumes ok: "seg_ok P DS MS l" and disk: "disk_ok l"
    and s: "s \<in> set (segments l)" and g: "g \<in> set (ld_dir (disk_of l))"
    and path: "fp_metaPath g = seg_metaPath (seg_dir l) s"
  shows "g = files_of (seg_dir l) s"
proof -
  obtain cs a where segs: "segments l = cs @ [a]" and act: "sg_mIsActive a"
    and cs: "\<forall>s \<in> set cs. \<not> sg_mIsActive s \<and> sg_mFirstIndex s \<le> sg_mLastIndex s"
    and ch: "chain (sg_mFirstIndex (hd (cs @ [a]))) (cs @ [a])"
    using ok by (rule seg_ok_shape)
  have "distinct (map sg_mFirstIndex (cs @ [a]))" using chain_firsts(1)[of cs, OF _ ch] cs by blast
  then have inj: "inj_on sg_mFirstIndex (set (cs @ [a]))" by (simp only: distinct_map)
  have closed: "closed_of g = closed_of (files_of (seg_dir l) s)" using path by (intro closed_of_path) (simp add: files_of_def)
  have "g \<notin> set (sl_retained l)" using retained_path[OF ok disk s] path by blast
  then obtain t where t: "t \<in> set (cs @ [a])" "g = files_of (seg_dir l) t" using g segs by (auto simp: disk_of_def)
  have "closed_of (files_of (seg_dir l) s) = closed_of (files_of (seg_dir l) t)" using closed t(2) by simp
  then have "sg_mIsActive s = sg_mIsActive t" "\<not> sg_mIsActive s \<Longrightarrow> sg_mFirstIndex s = sg_mFirstIndex t"
    by (simp_all add: closed_of_files listed_closed_def split: if_splits)
  moreover have "sg_mIsActive s \<Longrightarrow> s = a" "sg_mIsActive t \<Longrightarrow> t = a" using s t(1) segs cs by auto
  ultimately have "s = t" using inj_onD[OF inj, of s t] s segs t(1) by metis
  then show ?thesis using t(2) by simp
qed

section \<open>Recovering the segments\<close>

definition forget :: "Segment \<Rightarrow> Segment" where
  "forget s = s\<lparr>sg_mRecentUsedSecKeyIndex := 0\<rparr>"

lemma forget_simps [simp]:
  "sg_mFirstIndex (forget s) = sg_mFirstIndex s" "sg_mLastIndex (forget s) = sg_mLastIndex s"
  "sg_mIsActive (forget s) = sg_mIsActive s" "seg_entries P (forget s) = seg_entries P s"
  "seg_wf P DS MS (forget s) = seg_wf P DS MS s" "files_of p (forget s) = files_of p s"
  "seg_metaPath p (forget s) = seg_metaPath p s"
  by (simp_all add: forget_def seg_wf_def seg_holds_def seg_entries_def files_of_def seg_metaPath_def seg_dataPath_def)

lemma all_entries_forget [simp]: "all_entries P (map forget ss) = all_entries P ss"
  by (simp add: all_entries_def comp_def)

lemma chain_forget [simp]: "chain n (map forget ss) = chain n ss"
  by (induction ss arbitrary: n) auto

lemma recover_segment:
  assumes ok: "seg_ok P DS MS l" and disk: "disk_ok l" and s: "s \<in> set (segments l)"
    and dir: "set dir = set (ld_dir (disk_of l))"
  shows "recoverActiveOrClosedSegment (seg_dir l) dir
    (if sg_mIsActive s then Segment_active (sg_mFirstIndex s) else Segment_closed (sg_mFirstIndex s) (sg_mLastIndex s)) = Inr (forget s)"
proof -
  let ?li = "if sg_mIsActive s then sg_mFirstIndex s - 1 else sg_mLastIndex s"
  let ?u = "Segment_unopened (sg_mFirstIndex s) ?li (sg_mIsActive s)"
  have wf: "seg_wf P DS MS s" and lim: "0 < DS" "0 < MS" using ok s by (auto simp: seg_ok_def)
  have paths: "seg_metaPath (seg_dir l) ?u = fp_metaPath (files_of (seg_dir l) s)"
    "seg_dataPath (seg_dir l) ?u = fp_dataPath (files_of (seg_dir l) s)"
    by (auto simp: Segment_unopened_def files_of_def seg_metaPath_def seg_dataPath_def)
  have "find (\<lambda>f. fp_dataPath f = seg_dataPath (seg_dir l) ?u \<and> fp_metaPath f = seg_metaPath (seg_dir l) ?u) dir = Some (files_of (seg_dir l) s)"
  proof (rule find_unique)
    show "files_of (seg_dir l) s \<in> set dir" using s dir by (simp add: disk_of_def)
    show "\<forall>g \<in> set dir. fp_dataPath g = seg_dataPath (seg_dir l) ?u \<and> fp_metaPath g = seg_metaPath (seg_dir l) ?u \<longrightarrow> g = files_of (seg_dir l) s"
      using file_unique[OF ok disk s] dir unfolding paths by (auto simp: files_of_def)
  qed (simp add: paths)
  with wf lim have "recoverActiveOrClosedSegment (seg_dir l) dir ?u = Inr (s\<lparr>sg_mRecentUsedSecKeyIndex := 0\<rparr>)"
    by (intro recover_holds[of P s "seg_entries P s" _ ?u dir ?li]) (auto simp: seg_wf_def)
  then show ?thesis by (cases "sg_mIsActive s") (simp_all add: Segment_active_def Segment_closed_def forget_def)
qed

lemma recover_retained:
  "\<forall>(a, b) \<in> set rs. a \<le> b \<and> b < F
   \<Longrightarrow> fold_res (recover_one d dir F) (map (\<lambda>(a, b). (a, Segment_closed a b)) rs) (None, [], n) = Inr (None, [], n)"
  by (induction rs) (auto simp: recover_one_def Segment_closed_def Segment_unopened_def)

lemma recover_live:
  assumes "\<forall>s \<in> set cs. recoverActiveOrClosedSegment d dir (Segment_closed (sg_mFirstIndex s) (sg_mLastIndex s)) = Inr (forget s)"
    and "\<forall>s \<in> set cs. sg_mFirstIndex s \<le> sg_mLastIndex s" and "chain n cs"
    and "case prev of None \<Rightarrow> cs \<noteq> [] \<longrightarrow> n \<le> F \<and> F \<le> sg_mLastIndex (hd cs) | Some p \<Rightarrow> Suc (sg_mLastIndex p) = n"
  shows "fold_res (recover_one d dir F) (map listed_closed cs) (prev, kept, li) =
    Inr (if cs = [] then prev else Some (forget (last cs)), kept @ map (\<lambda>s. (sg_mFirstIndex s, forget s)) cs,
         if cs = [] then li else sg_mLastIndex (last cs))"
  using assms
proof (induction cs arbitrary: n prev kept li)
  case (Cons s cs)
  have "recover_one d dir F (listed_closed s) (prev, kept, li)
      = Inr (Some (forget s), kept @ [(sg_mFirstIndex s, forget s)], sg_mLastIndex s)"
    using Cons.prems by (cases prev) (simp_all add: recover_one_def listed_closed_def Segment_closed_def Segment_unopened_def)
  moreover have "fold_res (recover_one d dir F) (map listed_closed cs)
      (Some (forget s), kept @ [(sg_mFirstIndex s, forget s)], sg_mLastIndex s) =
    Inr (if cs = [] then Some (forget s) else Some (forget (last cs)),
         (kept @ [(sg_mFirstIndex s, forget s)]) @ map (\<lambda>s. (sg_mFirstIndex s, forget s)) cs,
         if cs = [] then sg_mLastIndex s else sg_mLastIndex (last cs))"
    using Cons.prems by (intro Cons.IH[of "Suc (sg_mLastIndex s)"]) simp_all
  ultimately show ?case by simp
qed simp

lemma list_log:
  assumes ok: "seg_ok P DS MS l" and disk: "disk_ok l" and dir: "mset dir = mset (ld_dir (disk_of l))"
    and small: "Suc (sl_mLastIndex l) < 2 ^ 64"
    and segs: "segments l = cs @ [a]" "sg_mIsActive a" "\<forall>s \<in> set cs. \<not> sg_mIsActive s"
  obtains rs where "listSegments dir = Inr (map (\<lambda>(a, b). (a, Segment_closed a b)) rs @ map listed_closed cs, Some (Segment_active (sg_mFirstIndex a)))"
    and "\<forall>(x, y) \<in> set rs. x \<le> y \<and> y < sg_mFirstIndex (hd (segments l))"
proof -
  obtain cs' a' where s': "segments l = cs' @ [a']" and act: "sl_mLastIndex l = sg_mLastIndex a'"
    and cs': "\<forall>s \<in> set cs'. \<not> sg_mIsActive s \<and> sg_mFirstIndex s \<le> sg_mLastIndex s"
    and wf': "\<forall>s \<in> set (cs' @ [a']). seg_wf P DS MS s" and ch': "chain (sg_mFirstIndex (hd (cs' @ [a']))) (cs' @ [a'])"
    using ok by (rule seg_ok_shape)
  have eq: "cs' = cs" "a' = a" using s' segs(1) by simp_all
  note cs = cs'[unfolded eq] and wf = wf'[unfolded eq] and ch = ch'[unfolded eq] and last = act[unfolded eq]
  let ?base = "sg_mFirstIndex (hd (cs @ [a]))"
  obtain rs where rs: "map fp_metaPath (sl_retained l) = map (\<lambda>(a, b). seg_dir l @ metaFileNameForClosedSegment a b) rs"
    "distinct (map fst rs)" "\<forall>(x, y) \<in> set rs. x \<le> y \<and> y < ?base"
    using disk segs(1) by (auto simp: disk_ok_def)
  define R where "R = sort_key fst rs"
  have R: "set R = set rs" "distinct (map fst R)" "sorted (map fst R)"
    using rs(2) by (simp_all add: R_def distinct_map)
  have firsts: "\<forall>s \<in> set (cs @ [a]). ?base \<le> sg_mFirstIndex s \<and> sg_mFirstIndex s \<le> sg_mFirstIndex a"
    using chain_firsts(2)[of cs, OF _ ch] cs by blast
  have wc: "\<forall>s \<in> set cs. seg_wf P DS MS s \<and> sg_mFirstIndex s \<le> sg_mLastIndex s" using wf cs by simp
  have le: "sg_mFirstIndex a \<le> Suc (sl_mLastIndex l)" using seg_wf_bounds(2)[of P DS MS a] wf last by simp
  have ends: "\<forall>s \<in> set cs. sg_mLastIndex s < sg_mFirstIndex a" using chain_less[of cs P DS MS ?base a] wc ch by blast
  let ?closed = "map (\<lambda>(a, b). (a, Segment_closed a b)) R @ map listed_closed cs"
  have fsts: "map fst (map (\<lambda>(a, b). (a, Segment_closed a b)) xs) = map fst xs" for xs :: "(nat \<times> nat) list" by (induction xs) auto
  have sorted: "smap_ok ?closed"
  proof -
    have "\<forall>x \<in> set (map fst R). \<forall>s \<in> set cs. x < sg_mFirstIndex s" using rs(3) R(1) firsts by fastforce
    moreover have "sorted_wrt (<) (map fst R)" using R(2,3) by (simp add: strict_sorted_iff)
    moreover have "sorted_wrt (<) (map sg_mFirstIndex cs)" using chain_sorted(1)[OF wc chain_prefix[OF ch]] by (simp only: listed_ok)
    ultimately show ?thesis unfolding smap_ok_def map_append fsts
      by (auto simp: sorted_wrt_append listed_closed_def comp_def)
  qed
  have closed: "List.map_filter closed_of (ld_dir (disk_of l)) = map listed_closed cs @ map (\<lambda>(a, b). (a, Segment_closed a b)) rs"
    and active: "List.map_filter active_of (ld_dir (disk_of l)) = [Segment_active (sg_mFirstIndex a)]"
    using map_filter_closed[of cs "seg_dir l"] map_filter_retained[OF rs(1)] segs(2,3)
    by (simp_all add: disk_of_def segs(1) List.map_filter_simps map_filter_append closed_of_files
        active_of_name[OF files_of_path(2)])
  have mc: "mset (List.map_filter closed_of dir) = mset (map listed_closed cs @ map (\<lambda>(a, b). (a, Segment_closed a b)) rs)"
    by (simp only: mset_map_filter dir flip: closed)
  have "mset (List.map_filter active_of dir) = mset [Segment_active (sg_mFirstIndex a)]"
    by (simp only: mset_map_filter dir flip: active)
  then have ma: "List.map_filter active_of dir = [Segment_active (sg_mFirstIndex a)]" by simp
  have sc: "set (List.map_filter closed_of dir) = set ?closed" using mset_eq_setD[OF mc] R(1) by auto
  have "mset (map fst (List.map_filter closed_of dir)) = mset (map fst ?closed)"
    using mc by (simp add: R_def multiset.map_comp)
  then have dc: "distinct (map fst (List.map_filter closed_of dir))"
    using mset_eq_imp_distinct_iff smap_ok_distinct[OF sorted] by blast
  have "small_name (seg_dir l) f" if "f \<in> set dir" for f
  proof -
    have "f \<in> set (ld_dir (disk_of l))" using that mset_eq_setD[OF dir] by simp
    then consider "f \<in> set (sl_retained l)" | s where "s \<in> set cs" "f = files_of (seg_dir l) s" | "f = files_of (seg_dir l) a"
      by (auto simp: disk_of_def segs(1))
    then show ?thesis
    proof cases
      case 1
      then have "fp_metaPath f \<in> set (map fp_metaPath (sl_retained l))" by simp
      then obtain x y where "(x, y) \<in> set rs" "fp_metaPath f = seg_dir l @ metaFileNameForClosedSegment x y" unfolding rs(1) by auto
      moreover have "?base \<le> sg_mFirstIndex a" using firsts by simp
      ultimately show ?thesis using rs(3) le small unfolding small_name_def by fastforce
    next
      case 2
      then show ?thesis using files_of_path(1)[of s] segs(3) firsts ends le small unfolding small_name_def by fastforce
    next
      case 3
      then show ?thesis using files_of_path(2)[OF segs(2)] le small unfolding small_name_def by fastforce
    qed
  qed
  with list_fold[of dir "seg_dir l" "[]" None] dc ma obtain closed' where
    "listSegments dir = Inr (closed', Some (Segment_active (sg_mFirstIndex a)))" "smap_ok closed'" "set closed' = set ?closed"
    by (auto simp: listSegments_def sc)
  then show thesis using that[of R] sorted_key_unique[OF _ sorted] rs(3) R(1) segs(1) by simp
qed

text \<open>The files that belong to no live segment are the retained ones.\<close>

lemma left_over:
  assumes ok: "seg_ok P DS MS l" and disk: "disk_ok l" and dir: "mset dir = mset (ld_dir (disk_of l))"
  shows "mset (filter (\<lambda>f. fp_metaPath f \<notin> set (map (seg_metaPath (seg_dir l)) (segments l))) dir) = mset (sl_retained l)"
proof -
  have "filter (\<lambda>f. fp_metaPath f \<notin> set (map (seg_metaPath (seg_dir l)) (segments l))) (ld_dir (disk_of l)) = sl_retained l"
    using retained_path[OF ok disk] by (auto simp: disk_of_def filter_empty_conv filter_id_conv files_of_def)
  then show ?thesis unfolding mset_filter dir by (metis mset_filter)
qed

lemma closed_names_inj: "inj (\<lambda>(a, b). p @ metaFileNameForClosedSegment a b)"
proof (rule injI)
  fix x y :: "nat \<times> nat"
  assume eq: "(case x of (a, b) \<Rightarrow> p @ metaFileNameForClosedSegment a b) = (case y of (a, b) \<Rightarrow> p @ metaFileNameForClosedSegment a b)"
  obtain a b c d where xy: "x = (a, b)" "y = (c, d)" by (cases x, cases y)
  with eq have "Some (to_string a, to_string b) = Some (to_string c, to_string d)" by (metis match_closed_name case_prod_conv)
  then have "digits_value (to_string a) = digits_value (to_string c)" "digits_value (to_string b) = digits_value (to_string d)" by simp_all
  then show "x = y" using xy by simp
qed

text \<open>
  The disk invariant only depends on the meta files, on which files are retained, and on where the first
  segment starts: fewer retained files, in another order, before a later start, are still in order.
\<close>

lemma disk_ok_sub:
  assumes disk: "disk_ok l" and dir: "sl_mLogDir l' = sl_mLogDir l" and sub: "mset (sl_retained l') \<subseteq># mset (sl_retained l)"
    and meta: "sl_metaStorage l' = \<lparr>mf_current_term = Some (to_string (sl_mCurrentTerm l')),
      mf_vote_for = Some (to_string (sl_mVoteFor l')), mf_first_index = Some (to_string (sl_mFirstIndex l'))\<rparr>"
    and base: "sg_mFirstIndex (hd (segments l)) \<le> sg_mFirstIndex (hd (segments l'))"
  shows "disk_ok l'"
proof -
  let ?g = "\<lambda>(a, b). seg_dir l @ metaFileNameForClosedSegment a b"
  obtain rs where rs: "map fp_metaPath (sl_retained l) = map ?g rs" "distinct (map fst rs)"
    "\<forall>(a, b) \<in> set rs. a \<le> b \<and> b < sg_mFirstIndex (hd (segments l))"
    using disk by (auto simp: disk_ok_def)
  let ?h = "inv ?g \<circ> fp_metaPath"
  define rs' where "rs' = map ?h (sl_retained l')"
  have inv: "inv ?g (?g x) = x" for x by (rule inv_f_f[OF closed_names_inj])
  have "rs = map (inv ?g) (map ?g rs)" unfolding map_map comp_def inv by simp
  then have rs_h: "rs = map ?h (sl_retained l)" unfolding rs(1)[symmetric] by simp
  have sub': "mset rs' \<subseteq># mset rs" unfolding rs'_def rs_h mset_map by (rule image_mset_subseteq_mono[OF sub])
  have "map fp_metaPath (sl_retained l') = map ?g rs'"
  proof -
    have "?g (?h f) = fp_metaPath f" if "f \<in> set (sl_retained l')" for f
    proof -
      have "f \<in> set (sl_retained l)" using that set_mset_mono[OF sub] by auto
      then have "fp_metaPath f \<in> set (map fp_metaPath (sl_retained l))" by simp
      then have "fp_metaPath f \<in> range ?g" unfolding rs(1) by (simp only: set_map) blast
      then show ?thesis unfolding comp_def by (rule f_inv_into_f)
    qed
    then show ?thesis unfolding rs'_def map_map by (simp only: comp_apply cong: map_cong)
  qed
  moreover have "distinct (map fst rs')"
  proof -
    have "mset (map fst rs') \<subseteq># mset (map fst rs)" unfolding mset_map by (rule image_mset_subseteq_mono[OF sub'])
    then obtain Z where "mset (map fst rs) = mset (map fst rs') + Z" using mset_subset_eq_exists_conv by blast
    moreover obtain zs where "mset zs = Z" using ex_mset by blast
    ultimately have "mset (map fst rs) = mset (map fst rs' @ zs)" by simp
    then show ?thesis using rs(2) mset_eq_imp_distinct_iff distinct_append by blast
  qed
  moreover have "\<forall>(a, b) \<in> set rs'. a \<le> b \<and> b < sg_mFirstIndex (hd (segments l'))"
    using rs(3) base set_mset_mono[OF sub'] by fastforce
  ultimately show ?thesis unfolding disk_ok_def dir using meta by blast
qed

section \<open>Restarting\<close>

definition restart :: "nat \<Rightarrow> nat \<Rightarrow> (file_pair list \<Rightarrow> file_pair list) \<Rightarrow> segment_log \<Rightarrow> segment_log res" where
  "restart DS MS readdir l =
     SegmentLog_init (sl_mLogDir l) DS MS \<lparr>ld_meta = ld_meta (disk_of l), ld_dir = readdir (ld_dir (disk_of l))\<rparr>"

lemma recover_meta:
  assumes "disk_ok l" and "sl_mCurrentTerm l < 2 ^ 64" "sl_mVoteFor l < 2 ^ 64" "sl_mFirstIndex l < 2 ^ 64"
  shows "recoverCurrentTerm (sl_metaStorage l) = Inr (sl_mCurrentTerm l, sl_metaStorage l)"
    and "recoverVoteFor (sl_metaStorage l) = Inr (sl_mVoteFor l, sl_metaStorage l)"
    and "recoverFirstIndex (sl_metaStorage l) = Inr (sl_mFirstIndex l, sl_metaStorage l)"
  using assms by (simp_all add: disk_ok_def recoverCurrentTerm_def recoverVoteFor_def recoverFirstIndex_def)

lemma recover_nonempty:
  assumes ok: "seg_ok P DS MS l" and segs: "segments l = cs @ [a]" and ne: "cs \<noteq> []"
  shows "sg_mFirstIndex (hd cs) \<le> sl_mFirstIndex l" and "sl_mFirstIndex l \<le> sg_mLastIndex (hd cs)"
    and "sl_mFirstIndex l \<le> sl_mLastIndex l"
proof -
  obtain cs' a' where s': "segments l = cs' @ [a']" and cl: "map snd (sl_mClosedSegments l) = cs'" and act: "sl_mLastIndex l = sg_mLastIndex a'"
    and wf: "\<forall>s \<in> set (cs' @ [a']). seg_wf P DS MS s" and ch: "chain (sg_mFirstIndex (hd (cs' @ [a']))) (cs' @ [a'])"
    using ok by (rule seg_ok_shape)
  have eq: "cs' = cs" "a' = a" using s' segs by simp_all
  show base: "sg_mFirstIndex (hd cs) \<le> sl_mFirstIndex l" using ok segs ne by (simp add: seg_ok_def)
  show le: "sl_mFirstIndex l \<le> sg_mLastIndex (hd cs)"
    using ok cl ne eq by (cases "sl_mClosedSegments l") (auto simp: seg_ok_def)
  have wc: "\<forall>s \<in> set cs. seg_wf P DS MS s" and wa: "seg_wf P DS MS a" using wf eq by simp_all
  have "sg_mLastIndex (hd cs) < sg_mFirstIndex a" by (rule chain_less[OF wc ch[unfolded eq] hd_in_set[OF ne]])
  moreover have "sg_mFirstIndex a \<le> Suc (sg_mLastIndex a)" using seg_wf_bounds(2)[OF wa] by simp
  ultimately show "sl_mFirstIndex l \<le> sl_mLastIndex l" using le act unfolding eq by linarith
qed

lemma recover_log:
  assumes ok: "seg_ok P DS MS l" and disk: "disk_ok l" and dir: "mset dir = mset (ld_dir (disk_of l))"
    and small: "Suc (sl_mLastIndex l) < 2 ^ 64"
    and segs: "segments l = cs @ [a]" "sg_mIsActive a" "\<forall>s \<in> set cs. \<not> sg_mIsActive s \<and> sg_mFirstIndex s \<le> sg_mLastIndex s"
  shows "res_bind (listSegments dir) (recoverSegments (seg_dir l) dir (sl_mFirstIndex l)) =
    Inr (map (\<lambda>s. (sg_mFirstIndex s, forget s)) cs,
         if sl_mFirstIndex l \<le> sl_mLastIndex l then Some (forget a) else None,
         if sl_mFirstIndex l \<le> sl_mLastIndex l then sl_mLastIndex l else 0)"
proof -
  obtain rs where list: "listSegments dir = Inr (map (\<lambda>(a, b). (a, Segment_closed a b)) rs @ map listed_closed cs, Some (Segment_active (sg_mFirstIndex a)))"
    and rs: "\<forall>(x, y) \<in> set rs. x \<le> y \<and> y < sg_mFirstIndex (hd (segments l))"
    using list_log[OF ok disk dir small segs(1,2)] segs(3) by blast
  have base: "sg_mFirstIndex (hd (segments l)) \<le> sl_mFirstIndex l"
    and ch: "chain (sg_mFirstIndex (hd (cs @ [a]))) (cs @ [a])" and wf: "\<forall>s \<in> set (segments l). seg_wf P DS MS s"
    using ok segs(1) by (simp_all add: seg_ok_def)
  have last: "sl_mLastIndex l = sg_mLastIndex a"
    and cond: "case sl_mClosedSegments l of [] \<Rightarrow> True | (k, s) # _ \<Rightarrow> sl_mFirstIndex l \<le> sg_mLastIndex s"
    and cl: "map snd (sl_mClosedSegments l) = cs"
    using ok segs(1) by (auto simp: seg_ok_def segments_def split: list.splits)
  have rs': "\<forall>(x, y) \<in> set rs. x \<le> y \<and> y < sl_mFirstIndex l" using rs base by auto
  have rec: "recoverActiveOrClosedSegment (seg_dir l) dir
      (if sg_mIsActive s then Segment_active (sg_mFirstIndex s) else Segment_closed (sg_mFirstIndex s) (sg_mLastIndex s)) = Inr (forget s)"
    if "s \<in> set (cs @ [a])" for s
    using recover_segment[OF ok disk _ mset_eq_setD[OF dir], of s] that segs(1) by simp
  have rc: "\<forall>s \<in> set cs. recoverActiveOrClosedSegment (seg_dir l) dir (Segment_closed (sg_mFirstIndex s) (sg_mLastIndex s)) = Inr (forget s)"
  proof
    fix s
    assume "s \<in> set cs"
    then show "recoverActiveOrClosedSegment (seg_dir l) dir (Segment_closed (sg_mFirstIndex s) (sg_mLastIndex s)) = Inr (forget s)"
      using rec[of s] segs(3) by simp
  qed
  have ra: "recoverActiveOrClosedSegment (seg_dir l) dir (Segment_active (sg_mFirstIndex a)) = Inr (forget a)"
    using rec[of a] segs(2) by simp
  have prev: "cs \<noteq> [] \<longrightarrow> sg_mFirstIndex (hd (cs @ [a])) \<le> sl_mFirstIndex l \<and> sl_mFirstIndex l \<le> sg_mLastIndex (hd cs)"
    and nonempty: "cs \<noteq> [] \<Longrightarrow> sl_mFirstIndex l \<le> sl_mLastIndex l"
    using recover_nonempty[OF ok segs(1)] by simp_all
  have live: "fold_res (recover_one (seg_dir l) dir (sl_mFirstIndex l)) (map listed_closed cs) (None, [], 0) =
    Inr (if cs = [] then None else Some (forget (List.last cs)), map (\<lambda>s. (sg_mFirstIndex s, forget s)) cs,
         if cs = [] then 0 else sg_mLastIndex (List.last cs))"
    using recover_live[OF rc _ chain_prefix[OF ch], of "sl_mFirstIndex l" None "[]" 0] segs(3) prev by simp
  have all: "fold_res (recover_one (seg_dir l) dir (sl_mFirstIndex l))
      (map (\<lambda>(a, b). (a, Segment_closed a b)) rs @ map listed_closed cs) (None, [], 0) =
    Inr (if cs = [] then None else Some (forget (List.last cs)), map (\<lambda>s. (sg_mFirstIndex s, forget s)) cs,
         if cs = [] then 0 else sg_mLastIndex (List.last cs))"
    by (simp only: fold_res_append recover_retained[OF rs'] res_bind_simps live)
  have af: "sg_mFirstIndex (Segment_active n) = n" for n by (simp add: Segment_active_def Segment_unopened_def)
  have fa: "sg_mFirstIndex a = (if cs = [] then sg_mFirstIndex (hd (cs @ [a])) else Suc (sg_mLastIndex (List.last cs)))"
    by (rule chain_last[OF ch])
  show ?thesis
  proof (cases "cs = []")
    case True
    then have "sg_mFirstIndex a \<le> sl_mFirstIndex l" using base segs(1) by simp
    then show ?thesis using all True by (simp add: list recoverSegments_def ra af last)
  next
    case False
    then have "Suc (sg_mLastIndex (List.last cs)) = sg_mFirstIndex a" using fa by simp
    then show ?thesis using all False nonempty by (simp add: list recoverSegments_def ra af last)
  qed
qed

lemma restart_log:
  assumes ok: "seg_ok P DS MS l" and disk: "disk_ok l" and readdir: "\<forall>xs. mset (readdir xs) = mset xs"
    and small: "Suc (sl_mLastIndex l) < 2 ^ 64" "sl_mCurrentTerm l < 2 ^ 64" "sl_mVoteFor l < 2 ^ 64"
  shows "\<exists>l'. restart DS MS readdir l = Inr l' \<and> seg_ok P DS MS l' \<and> disk_ok l' \<and> seg_contents P l' = seg_contents P l
    \<and> sl_mFirstIndex l' = sl_mFirstIndex l \<and> sl_mCurrentTerm l' = sl_mCurrentTerm l \<and> sl_mVoteFor l' = sl_mVoteFor l
    \<and> sl_mLogDir l' = sl_mLogDir l"
proof -
  obtain cs a where segs: "segments l = cs @ [a]" and cl: "map snd (sl_mClosedSegments l) = cs"
    and act: "sl_mActiveSegment l = Some a" "sg_mIsActive a" "sl_mLastIndex l = sg_mLastIndex a"
    and cs: "\<forall>s \<in> set cs. \<not> sg_mIsActive s \<and> sg_mFirstIndex s \<le> sg_mLastIndex s"
    and wf: "\<forall>s \<in> set (cs @ [a]). seg_wf P DS MS s" and ch: "chain (sg_mFirstIndex (hd (cs @ [a]))) (cs @ [a])"
    using ok by (rule seg_ok_shape)
  define dir where "dir = readdir (ld_dir (disk_of l))"
  have dir: "mset dir = mset (ld_dir (disk_of l))" using readdir by (simp add: dir_def)
  have P: "seg_env_ok P" "DS mod 4096 = 0" "0 < DS" "MS mod 4096 = 0" "0 < MS" using ok by (auto simp: seg_ok_def)
  have first: "sl_mFirstIndex l \<le> Suc (sl_mLastIndex l)" and base: "sg_mFirstIndex (hd (segments l)) \<le> sl_mFirstIndex l"
    and pos: "0 < sg_mFirstIndex (hd (segments l))"
    by (rule seg_okE[OF ok], simp)+
  note meta = recover_meta[OF disk small(2,3) le_less_trans[OF first small(1)]]
  have shape: "sl_metaStorage l = \<lparr>mf_current_term = Some (to_string (sl_mCurrentTerm l)), mf_vote_for = Some (to_string (sl_mVoteFor l)),
      mf_first_index = Some (to_string (sl_mFirstIndex l))\<rparr>" using disk by (simp add: disk_ok_def)
  obtain listed where listed: "listSegments dir = Inr listed"
    "recoverSegments (seg_dir l) dir (sl_mFirstIndex l) listed =
      Inr (map (\<lambda>s. (sg_mFirstIndex s, forget s)) cs, if sl_mFirstIndex l \<le> sl_mLastIndex l then Some (forget a) else None,
           if sl_mFirstIndex l \<le> sl_mLastIndex l then sl_mLastIndex l else 0)"
    using recover_log[OF ok disk dir small(1) segs act(2) cs] unfolding res_bind_eq_Inr by blast
  define closed where "closed = map (\<lambda>s. (sg_mFirstIndex s, forget s)) cs"
  have live: "map snd closed = map forget cs" by (simp add: closed_def)
  have keys: "\<And>k s. (k, s) \<in> set closed \<Longrightarrow> k = sg_mFirstIndex s \<and> \<not> sg_mIsActive s \<and> sg_mFirstIndex s \<le> sg_mLastIndex s"
    using cs by (auto simp: closed_def)
  define l0 where "l0 active left = \<lparr>sl_mLogDir = sl_mLogDir l, sl_metaStorage = sl_metaStorage l,
      sl_mSegmentDataSizeLimit = DS, sl_mSegmentMetaSizeLimit = MS, sl_mFirstIndex = sl_mFirstIndex l,
      sl_mLastIndex = sl_mLastIndex l, sl_mCurrentTerm = sl_mCurrentTerm l, sl_mVoteFor = sl_mVoteFor l,
      sl_mClosedSegments = closed, sl_mActiveSegment = active, sl_retained = left\<rparr>" for active left
  have disk0: "ld_meta (disk_of l) = sl_metaStorage l" by (simp add: disk_of_def)
  define left where "left live = filter (\<lambda>f. fp_metaPath f \<notin> seg_metaPath (seg_dir l) ` set live) dir" for live
  have kept: "mset (left (segments l)) = mset (sl_retained l)" using left_over[OF ok disk dir] by (simp add: left_def)
  have final: "seg_ok P DS MS (l0 (Some b) (left (segments l))) \<and> seg_contents P (l0 (Some b) (left (segments l))) = seg_contents P l
      \<and> disk_ok (l0 (Some b) (left (segments l)))"
    if "seg_wf P DS MS b" "sg_mIsActive b" "sg_mFirstIndex b = sg_mFirstIndex a" "sg_mLastIndex b = sg_mLastIndex a"
      "seg_entries P b = seg_entries P a" for b
  proof -
    let ?l = "l0 (Some b) (left (segments l))" and ?base = "sg_mFirstIndex (hd (segments l))"
    have ch': "chain ?base (map snd (sl_mClosedSegments ?l) @ [b])"
    proof -
      have "chain ?base cs \<and> sg_mFirstIndex b = (if cs = [] then ?base else Suc (sg_mLastIndex (List.last cs)))"
        using ch unfolding segs chain_snoc that(3) .
      then have "chain ?base (map forget cs @ [b])" unfolding chain_snoc by (cases "cs = []") (simp_all add: last_map)
      then show ?thesis unfolding live[symmetric] by (simp add: l0_def)
    qed
    have cond: "case sl_mClosedSegments ?l of
        [] \<Rightarrow> sl_mFirstIndex ?l \<le> sl_mLastIndex ?l \<or> sl_mFirstIndex ?l = Suc (sl_mLastIndex ?l) \<and> ?base = sl_mFirstIndex ?l
      | (k, s) # _ \<Rightarrow> sl_mFirstIndex ?l \<le> sg_mLastIndex s"
      using ok cl by (cases "sl_mClosedSegments l") (auto simp: seg_ok_def l0_def closed_def)
    note I = seg_okI[of P DS MS ?l b ?base, OF P _ _ _ _ _ _ _ ch' _ cond]
    have okc: "seg_ok P DS MS ?l \<and> seg_contents P ?l = drop (sl_mFirstIndex ?l - ?base) (all_entries P (map snd (sl_mClosedSegments ?l) @ [b]))"
      by (intro conjI I) (use keys that act(3) wf base in \<open>auto simp: l0_def live\<close>)
    have all: "all_entries P (map snd (sl_mClosedSegments ?l) @ [b]) = all_entries P (segments l)" and F: "sl_mFirstIndex ?l = sl_mFirstIndex l"
      using that(5) by (simp_all add: l0_def live segs)
    have "disk_ok ?l"
    proof (rule disk_ok_sub[OF disk])
      show "sg_mFirstIndex (hd (segments l)) \<le> sg_mFirstIndex (hd (segments ?l))"
        unfolding segs using that(3) by (cases cs) (simp_all add: segments_def l0_def closed_def)
    qed (use kept shape in \<open>simp_all add: l0_def\<close>)
    with okc show ?thesis unfolding all F seg_contents_def[of P l] by blast
  qed
  show ?thesis
  proof (cases "sl_mFirstIndex l \<le> sl_mLastIndex l")
    case True
    have "left (map snd closed @ [forget a]) = left (segments l)" unfolding left_def live segs by (simp add: image_image)
    then have run: "restart DS MS readdir l = Inr (l0 (Some (forget a)) (left (segments l)))"
      using True base pos unfolding restart_def SegmentLog_init_def
      by (simp add: meta listed disk0 l0_def left_def closed_def[symmetric] dir_def[symmetric])
    show ?thesis unfolding run using final[of "forget a"] wf act(2) by (simp add: l0_def)
  next
    case False
    then have none: "cs = []" and last: "sl_mFirstIndex l = Suc (sl_mLastIndex l)" and same: "sg_mFirstIndex a = sl_mFirstIndex l"
      using ok first cl segs recover_nonempty[OF ok segs] by (auto simp: seg_ok_def split: list.splits)
    then have pre: "sl_mFirstIndex l - Suc 0 = sl_mLastIndex l" and c0: "closed = []" by (simp_all add: closed_def)
    let ?l = "l0 None dir"
    obtain b where b: "newActiveSegment ?l = Inr (claim_path b (?l\<lparr>sl_mActiveSegment := Some b\<rparr>))" "seg_holds P b []" "sg_mIsActive b"
      "sg_mFirstIndex b = Suc (sl_mLastIndex ?l)" "sg_mLastIndex b = sl_mLastIndex ?l" "sg_mDataSizeLimit b = DS" "sg_mMetaSizeLimit b = MS"
      using newActive_ok[of ?l DS MS P] P by (auto simp: l0_def)
    have "seg_metaPath (seg_dir l) b = seg_metaPath (seg_dir l) a" using b(3,4) act(2) same last by (simp add: seg_metaPath_def l0_def)
    then have "claim_path b (?l\<lparr>sl_mActiveSegment := Some b\<rparr>) = l0 (Some b) (left (segments l))"
      by (simp add: claim_path_def l0_def left_def segs none)
    then have run: "restart DS MS readdir l = Inr (l0 (Some b) (left (segments l)))"
      using False b(1) pre unfolding restart_def SegmentLog_init_def
      by (simp add: meta listed disk0 l0_def none c0 dir_def[symmetric])
    have "seg_entries P a = []" using seg_wf_bounds(2)[of P DS MS a] wf same last act(3) by simp
    then show ?thesis unfolding run
      using final[of b] b same last act(3) seg_wfI[OF P(1) b(2)] seg_entries_holds[OF P(1) b(2)] by (simp add: l0_def)
  qed
qed

section \<open>Every operation keeps the disk in order\<close>

definition firsts :: "segment_log \<Rightarrow> nat set" where
  "firsts l = fst ` set (sl_mClosedSegments l) \<union> sg_mFirstIndex ` set_option (sl_mActiveSegment l)"

text \<open>A step that starts segments only where one started before or at \<open>n\<close>, and at most loses retained files.\<close>

definition disk_step :: "nat \<Rightarrow> segment_log \<Rightarrow> segment_log \<Rightarrow> bool" where
  "disk_step n l l' =
     (sl_mLogDir l' = sl_mLogDir l \<and> sl_metaStorage l' = sl_metaStorage l
      \<and> mset (sl_retained l') \<subseteq># mset (sl_retained l) \<and> firsts l' \<subseteq> insert n (firsts l))"

lemma disk_step_refl: "disk_step n l l"
  by (auto simp: disk_step_def)

lemma disk_step_trans: "disk_step n l m \<Longrightarrow> disk_step n m l' \<Longrightarrow> disk_step n l l'"
  unfolding disk_step_def by (auto intro: subset_mset.order_trans)

lemma disk_step_claim: "disk_step n l m \<Longrightarrow> disk_step n l (claim_path s m)"
  by (auto simp: disk_step_def claim_path_def firsts_def intro: subset_mset.order_trans[OF multiset_filter_subset])

lemma disk_step_new: "newActiveSegment l = Inr l' \<Longrightarrow> disk_step (Suc (sl_mLastIndex l)) l l'"
  unfolding newActiveSegment_def createActiveSegment_def
  by (auto simp: res_bind_eq_Inr c_assert_def split: if_splits intro!: disk_step_claim) (auto simp: disk_step_def firsts_def)

lemma disk_step_ensure: "ensure_active l = Inr l' \<Longrightarrow> disk_step (Suc (sl_mLastIndex l)) l l'"
  by (auto simp: ensure_active_def disk_step_refl disk_step_new split: option.splits)

lemma disk_step_roll:
  assumes "rollActiveSegment l = Inr l'"
  shows "disk_step (Suc (sl_mLastIndex l)) l l'" and "sl_mLastIndex l' = sl_mLastIndex l"
proof -
  obtain a where a: "sl_mActiveSegment l = Some a" using assms by (auto simp: rollActiveSegment_def split: option.splits)
  define s where "s = a\<lparr>sg_mIsActive := False\<rparr>"
  have s: "sg_mFirstIndex s = sg_mFirstIndex a" by (simp add: s_def)
  have run: "newActiveSegment (claim_path s (l\<lparr>sl_mClosedSegments := smap_put (sg_mFirstIndex s) s (sl_mClosedSegments l)\<rparr>)) = Inr l'"
    using assms a unfolding s_def by (simp add: rollActiveSegment_def Segment_closeActiveSegment_def c_assert_def split: if_splits)
  have "disk_step (Suc (sl_mLastIndex l)) l (l\<lparr>sl_mClosedSegments := smap_put (sg_mFirstIndex s) s (sl_mClosedSegments l)\<rparr>)"
    using a s by (auto simp: disk_step_def firsts_def smap_put_keys)
  from disk_step_trans[OF disk_step_claim[OF this]] disk_step_new[OF run]
  show "disk_step (Suc (sl_mLastIndex l)) l l'" by simp
  show "sl_mLastIndex l' = sl_mLastIndex l" using run by (auto simp: newActiveSegment_def res_bind_eq_Inr)
qed

lemma append_keeps_first: "Segment_appendEntries P es s = Inr s' \<Longrightarrow> sg_mFirstIndex s' = sg_mFirstIndex s"
  by (auto simp: Segment_appendEntries_def res_bind_eq_Inr Let_def split: if_splits)

lemma truncate_keeps_first: "Segment_truncateSuffix k s = Inr s' \<Longrightarrow> sg_mFirstIndex s' = sg_mFirstIndex s"
  by (auto simp: Segment_truncateSuffix_def res_bind_eq_Inr Let_def split: if_splits)

lemma disk_step_append:
  assumes "append_to_active P es l = Inr (ok, l')"
  shows "disk_step (Suc (sl_mLastIndex l)) l l'"
proof -
  obtain roll l1 a s where l1: "(if roll then rollActiveSegment l else Inr l) = Inr l1" and a: "sl_mActiveSegment l1 = Some a"
    and s: "Segment_appendEntries P es a = Inr s"
    and l': "l' = l1\<lparr>sl_mActiveSegment := Some s, sl_mLastIndex := sl_mLastIndex l1 + length es\<rparr>"
    using assms unfolding append_to_active_def by (auto simp: res_bind_eq_Inr split: option.splits)
  have "disk_step (Suc (sl_mLastIndex l)) l l1" using l1 disk_step_roll(1)[of l l1] disk_step_refl by (cases roll) auto
  moreover have "disk_step (Suc (sl_mLastIndex l)) l1 l'"
    using a append_keeps_first[OF s] by (auto simp: l' disk_step_def firsts_def)
  ultimately show ?thesis by (rule disk_step_trans)
qed

lemma back_to_keys: "fst ` set (back_to k closed) \<subseteq> fst ` set closed"
  unfolding back_to_def by (auto dest!: set_dropWhileD)

lemma disk_step_suffix:
  assumes run: "SegmentLog_truncateSuffix k l = Inr l'"
  shows "disk_step (Suc k) l l'"
proof (cases "sl_mLastIndex l \<le> k")
  case True
  with run show ?thesis by (simp add: SegmentLog_truncateSuffix_def disk_step_refl)
next
  case False
  then obtain a where a: "sl_mActiveSegment l = Some a"
    using run by (cases "sl_mActiveSegment l") (auto simp: SegmentLog_truncateSuffix_def)
  have step: "disk_step (Suc k) l l'"
    if "ensure_active m = Inr l'" "sl_mLastIndex m = k" "disk_step (Suc k) l m" for m
    using disk_step_trans[OF that(3)] disk_step_ensure[OF that(1)] that(2) by simp
  show ?thesis
  proof (cases "sg_mFirstIndex a \<le> k")
    case True
    show ?thesis
    proof (cases "sl_mFirstIndex l \<le> k")
      case True
      then obtain s where s: "Segment_truncateSuffix k a = Inr s"
        and m: "ensure_active (l\<lparr>sl_mLastIndex := k, sl_mActiveSegment := Some s\<rparr>) = Inr l'"
        using run \<open>\<not> sl_mLastIndex l \<le> k\<close> a \<open>sg_mFirstIndex a \<le> k\<close>
        by (auto simp: SegmentLog_truncateSuffix_def Let_def res_bind_eq_Inr)
      show ?thesis using a truncate_keeps_first[OF s] by (intro step[OF m]) (auto simp: disk_step_def firsts_def)
    next
      case False
      then have m: "ensure_active (l\<lparr>sl_mLastIndex := k, sl_mActiveSegment := None\<rparr>) = Inr l'"
        using run \<open>\<not> sl_mLastIndex l \<le> k\<close> a \<open>sg_mFirstIndex a \<le> k\<close> by (simp add: SegmentLog_truncateSuffix_def Let_def)
      show ?thesis by (intro step[OF m]) (auto simp: disk_step_def firsts_def)
    qed
  next
    case False
    define closed where "closed = back_to k (sl_mClosedSegments l)"
    have keys: "fst ` set closed \<subseteq> fst ` set (sl_mClosedSegments l)" unfolding closed_def by (rule back_to_keys)
    have "\<exists>m. ensure_active m = Inr l' \<and> sl_mLastIndex m = k \<and> disk_step (Suc k) l m"
    proof (cases closed rule: rev_cases)
      case Nil
      then have "ensure_active (l\<lparr>sl_mLastIndex := k, sl_mActiveSegment := None, sl_mClosedSegments := [], sl_mFirstIndex := Suc k\<rparr>) = Inr l'"
        using run \<open>\<not> sl_mLastIndex l \<le> k\<close> a False by (simp add: SegmentLog_truncateSuffix_def Let_def flip: closed_def)
      then show ?thesis by (intro exI conjI, assumption) (auto simp: disk_step_def firsts_def)
    next
      case (snoc bs c)
      obtain kk s where c: "c = (kk, s)" by (cases c)
      show ?thesis
      proof (cases "sl_mFirstIndex l \<le> k")
        case True
        then obtain s1 where
          m: "ensure_active (claim_path s1 (l\<lparr>sl_mLastIndex := k, sl_mActiveSegment := None, sl_mClosedSegments := bs @ [(kk, s1)]\<rparr>)) = Inr l'"
          using run \<open>\<not> sl_mLastIndex l \<le> k\<close> a False snoc c
          by (auto simp: SegmentLog_truncateSuffix_def Let_def res_bind_eq_Inr simp flip: closed_def)
        have "disk_step (Suc k) l (l\<lparr>sl_mLastIndex := k, sl_mActiveSegment := None, sl_mClosedSegments := bs @ [(kk, s1)]\<rparr>)"
          using keys snoc c by (auto simp: disk_step_def firsts_def)
        from disk_step_claim[OF this, of s1] show ?thesis by (intro exI[of _ "claim_path s1 (l\<lparr>sl_mLastIndex := k, sl_mActiveSegment := None, sl_mClosedSegments := bs @ [(kk, s1)]\<rparr>)"]) (simp add: m)
      next
        case no: False
        then have m: "ensure_active (l\<lparr>sl_mLastIndex := k, sl_mActiveSegment := None, sl_mClosedSegments := bs\<rparr>) = Inr l'"
          using run \<open>\<not> sl_mLastIndex l \<le> k\<close> a False snoc c by (simp add: SegmentLog_truncateSuffix_def Let_def flip: closed_def)
        show ?thesis by (intro exI conjI, rule m) (use keys snoc in \<open>auto simp: disk_step_def firsts_def\<close>)
      qed
    qed
    with step show ?thesis by blast
  qed
qed

lemma firsts_bounds:
  assumes ok: "seg_ok P DS MS l"
  shows "\<forall>n \<in> firsts l. sg_mFirstIndex (hd (segments l)) \<le> n" and "sg_mFirstIndex (hd (segments l)) \<in> firsts l"
proof -
  obtain cs a where segs: "segments l = cs @ [a]" and cl: "sl_mClosedSegments l = map (\<lambda>s. (sg_mFirstIndex s, s)) cs"
    and act: "sl_mActiveSegment l = Some a"
    and cs: "\<forall>s \<in> set cs. \<not> sg_mIsActive s \<and> sg_mFirstIndex s \<le> sg_mLastIndex s"
    and ch: "chain (sg_mFirstIndex (hd (cs @ [a]))) (cs @ [a])"
    using ok by (rule seg_ok_shape)
  have firsts: "firsts l = sg_mFirstIndex ` set (cs @ [a])" by (simp add: firsts_def cl act image_image)
  have "\<forall>s \<in> set (cs @ [a]). sg_mFirstIndex (hd (cs @ [a])) \<le> sg_mFirstIndex s"
    using chain_firsts(2)[of cs, OF _ ch] cs by blast
  then show "\<forall>n \<in> firsts l. sg_mFirstIndex (hd (segments l)) \<le> n" unfolding firsts segs by blast
  show "sg_mFirstIndex (hd (segments l)) \<in> firsts l" unfolding firsts segs by (intro imageI hd_in_set) simp
qed

lemma disk_step_ok:
  assumes ok: "seg_ok P DS MS l" "seg_ok P DS MS l'" and disk: "disk_ok l" and step: "disk_step n l l'"
    and n: "sg_mFirstIndex (hd (segments l)) \<le> n"
    and same: "sl_mFirstIndex l' = sl_mFirstIndex l" "sl_mCurrentTerm l' = sl_mCurrentTerm l" "sl_mVoteFor l' = sl_mVoteFor l"
  shows "disk_ok l'"
proof (rule disk_ok_sub[OF disk])
  have "sg_mFirstIndex (hd (segments l')) \<in> insert n (firsts l)" using firsts_bounds(2)[OF ok(2)] step by (auto simp: disk_step_def)
  then show "sg_mFirstIndex (hd (segments l)) \<le> sg_mFirstIndex (hd (segments l'))" using firsts_bounds(1)[OF ok(1)] n by blast
qed (use disk step same in \<open>auto simp: disk_step_def disk_ok_def\<close>)

lemma base_le: "seg_ok P DS MS l \<Longrightarrow> sg_mFirstIndex (hd (segments l)) \<le> sl_mFirstIndex l"
  and first_le: "seg_ok P DS MS l \<Longrightarrow> sl_mFirstIndex l \<le> Suc (sl_mLastIndex l)"
  by (erule seg_okE, simp)+

lemma disk_term_vote:
  "disk_ok l \<Longrightarrow> disk_ok (SegmentLog_setCurrentTerm t l)" "disk_ok l \<Longrightarrow> disk_ok (SegmentLog_setVoteFor v l)"
  by (auto simp: disk_ok_def SegmentLog_setCurrentTerm_def SegmentLog_setVoteFor_def persistCurrentTerm_def persistVoteFor_def segments_def)

lemma disk_prefix:
  assumes ok: "seg_ok P DS MS l" and disk: "disk_ok l" and k: "k \<le> sl_mLastIndex l" and run: "SegmentLog_truncatePrefix k l = Inr l'"
  shows "disk_ok l'"
proof (cases "k \<le> sl_mFirstIndex l")
  case True
  with run disk show ?thesis by (simp add: SegmentLog_truncatePrefix_def)
next
  case False
  obtain cs a where segs: "segments l = cs @ [a]" and cl: "sl_mClosedSegments l = map (\<lambda>s. (sg_mFirstIndex s, s)) cs"
    and act: "sl_mActiveSegment l = Some a" "sl_mLastIndex l = sg_mLastIndex a"
    and cs: "\<forall>s \<in> set cs. \<not> sg_mIsActive s \<and> sg_mFirstIndex s \<le> sg_mLastIndex s"
    and wf: "\<forall>s \<in> set (cs @ [a]). seg_wf P DS MS s" and ch: "chain (sg_mFirstIndex (hd (cs @ [a]))) (cs @ [a])"
    using ok by (rule seg_ok_shape)
  define es ks where "es = takeWhile (\<lambda>s. sg_mLastIndex s < k) cs" and "ks = dropWhile (\<lambda>s. sg_mLastIndex s < k) cs"
  have split: "cs = es @ ks" by (simp add: es_def ks_def)
  have l': "l' = l\<lparr>sl_metaStorage := persistFirstIndex k (sl_metaStorage l), sl_mFirstIndex := k,
      sl_mClosedSegments := map (\<lambda>s. (sg_mFirstIndex s, s)) ks, sl_retained := map (files_of (seg_dir l)) es @ sl_retained l\<rparr>"
    using run False k act
    by (simp add: SegmentLog_truncatePrefix_def Let_def cl takeWhile_map dropWhile_map comp_def es_def ks_def split: if_splits)
  have segs': "segments l' = ks @ [a]" by (simp add: l' segments_def act comp_def)
  obtain rs where rs: "map fp_metaPath (sl_retained l) = map (\<lambda>(a, b). seg_dir l @ metaFileNameForClosedSegment a b) rs"
    "distinct (map fst rs)" "\<forall>(a, b) \<in> set rs. a \<le> b \<and> b < sg_mFirstIndex (hd (segments l))"
    using disk by (auto simp: disk_ok_def)
  let ?base = "sg_mFirstIndex (hd (cs @ [a]))" and ?base' = "sg_mFirstIndex (hd (ks @ [a]))"
  let ?rs = "map (\<lambda>s. (sg_mFirstIndex s, sg_mLastIndex s)) es @ rs"
  have bounds: "\<forall>s \<in> set (cs @ [a]). ?base \<le> sg_mFirstIndex s" and dist: "distinct (map sg_mFirstIndex (cs @ [a]))"
    using chain_firsts[of cs, OF _ ch] cs by blast+
  have "chain ?base (es @ [hd (ks @ [a])])" using ch chain_prefix[of ?base "es @ [hd (ks @ [a])]" "tl (ks @ [a])"] by (simp add: split)
  then have ends: "\<forall>s \<in> set es. sg_mLastIndex s < ?base'" using chain_less[of es P DS MS ?base "hd (ks @ [a])"] wf split by auto
  have "hd (ks @ [a]) \<in> set (cs @ [a])" by (cases ks) (auto simp: split)
  then have base': "?base \<le> ?base'" using bounds by blast
  have "map fp_metaPath (sl_retained l') = map (\<lambda>(a, b). seg_dir l' @ metaFileNameForClosedSegment a b) ?rs"
    using rs(1) cs split files_of_path(1) by (auto simp: l')
  moreover have "distinct (map fst ?rs)"
  proof -
    have "\<forall>x \<in> set rs. fst x < ?base" using rs(3) segs by fastforce
    moreover have "\<forall>s \<in> set es. ?base \<le> sg_mFirstIndex s" using bounds split by auto
    moreover have "distinct (map sg_mFirstIndex es)" using dist by (simp add: split)
    ultimately show ?thesis using rs(2) by (fastforce simp: comp_def)
  qed
  moreover have "\<forall>(a, b) \<in> set ?rs. a \<le> b \<and> b < sg_mFirstIndex (hd (segments l'))"
    unfolding segs' using rs(3) segs base' ends cs split by auto
  moreover have "sl_metaStorage l' = \<lparr>mf_current_term = Some (to_string (sl_mCurrentTerm l')),
      mf_vote_for = Some (to_string (sl_mVoteFor l')), mf_first_index = Some (to_string (sl_mFirstIndex l'))\<rparr>"
    using disk by (simp add: disk_ok_def l' persistFirstIndex_def)
  ultimately show ?thesis unfolding disk_ok_def by blast
qed

section \<open>The segment log, restarts included, and the in-memory log\<close>

datatype log_action =
  Append "LogEntry list" | Truncate_Prefix nat | Truncate_Suffix nat | Set_Term nat | Set_Vote nat | Restart

definition seg_action ::
  "'c seg_env \<Rightarrow> nat \<Rightarrow> nat \<Rightarrow> (file_pair list \<Rightarrow> file_pair list) \<Rightarrow> log_action \<Rightarrow> segment_log \<Rightarrow> segment_log res" where
  "seg_action P DS MS readdir act l =
     (case act of
        Append es \<Rightarrow> res_bind (SegmentLog_appendEntries P es l) (\<lambda>(ok, l1). Inr l1)
      | Truncate_Prefix k \<Rightarrow> SegmentLog_truncatePrefix k l
      | Truncate_Suffix k \<Rightarrow> SegmentLog_truncateSuffix k l
      | Set_Term t \<Rightarrow> Inr (SegmentLog_setCurrentTerm t l)
      | Set_Vote v \<Rightarrow> Inr (SegmentLog_setVoteFor v l)
      | Restart \<Rightarrow> restart DS MS readdir l)"

definition mem_action :: "log_action \<Rightarrow> mem_log \<Rightarrow> mem_log" where
  "mem_action act m =
     (case act of
        Append es \<Rightarrow> snd (mem_appendEntries es m)
      | Truncate_Prefix k \<Rightarrow> mem_truncatePrefix k m
      | Truncate_Suffix k \<Rightarrow> mem_truncateSuffix k m
      | Set_Term t \<Rightarrow> m\<lparr>ml_mTerm := t\<rparr>
      | Set_Vote v \<Rightarrow> m\<lparr>ml_mVoteFor := v\<rparr>
      | Restart \<Rightarrow> m)"

text \<open>
  What the caller keeps to: a batch that starts at the next index is consecutive and fits a segment (one
  that starts elsewhere is refused); truncations stay inside the log; the numbers written to disk are
  64-bit ones when they are read back.
\<close>

definition allowed :: "'c seg_env \<Rightarrow> nat \<Rightarrow> nat \<Rightarrow> log_action \<Rightarrow> mem_log \<Rightarrow> bool" where
  "allowed P DS MS act m =
     (case act of
        Append es \<Rightarrow>
          es = [] \<or> le_index (hd es) \<noteq> Suc (ml_mLastIndex m)
            \<or> indexed_from (Suc (ml_mLastIndex m)) es \<and> fits_segment P DS MS es
      | Truncate_Prefix k \<Rightarrow> k \<le> ml_mLastIndex m
      | Truncate_Suffix k \<Rightarrow> ml_mFirstIndex m \<le> Suc k
      | Restart \<Rightarrow> Suc (ml_mLastIndex m) < 2 ^ 64 \<and> ml_mTerm m < 2 ^ 64 \<and> ml_mVoteFor m < 2 ^ 64
      | _ \<Rightarrow> True)"

fun all_allowed :: "'c seg_env \<Rightarrow> nat \<Rightarrow> nat \<Rightarrow> log_action list \<Rightarrow> mem_log \<Rightarrow> bool" where
  "all_allowed P DS MS [] m = True"
| "all_allowed P DS MS (act # acts) m = (allowed P DS MS act m \<and> all_allowed P DS MS acts (mem_action act m))"

definition log_view :: "'c seg_env \<Rightarrow> segment_log \<Rightarrow> mem_log" where
  "log_view P l =
     \<lparr>ml_mLog = seg_contents P l, ml_mFirstIndex = sl_mFirstIndex l, ml_mLastIndex = sl_mLastIndex l,
      ml_mTerm = sl_mCurrentTerm l, ml_mVoteFor = sl_mVoteFor l\<rparr>"

definition seg_good :: "'c seg_env \<Rightarrow> nat \<Rightarrow> nat \<Rightarrow> segment_log \<Rightarrow> bool" where
  "seg_good P DS MS l = (seg_ok P DS MS l \<and> disk_ok l)"

lemma log_view_ok: "seg_ok P DS MS l \<Longrightarrow> mem_ok (log_view P l)"
  using contents_length by (fastforce simp: mem_ok_def log_view_def)

lemma view_append:
  assumes good: "seg_good P DS MS l" and es: "indexed_from (Suc (sl_mLastIndex l)) es" "fits_segment P DS MS es" "es \<noteq> []"
  shows "\<exists>l'. SegmentLog_appendEntries P es l = Inr (True, l') \<and> seg_good P DS MS l'
    \<and> log_view P l' = snd (mem_appendEntries es (log_view P l))"
proof -
  have ok: "seg_ok P DS MS l" and disk: "disk_ok l" using good by (simp_all add: seg_good_def)
  obtain r where r: "append_to_active P es l = Inr r" using append_to_active_ok(1)[OF ok es(3)] es by blast
  obtain l' where l': "r = (True, l')" "seg_ok P DS MS l'" "seg_contents P l' = seg_contents P l @ es"
    "sl_mFirstIndex l' = sl_mFirstIndex l" "sl_mCurrentTerm l' = sl_mCurrentTerm l" "sl_mVoteFor l' = sl_mVoteFor l"
    using append_to_active_ok(2)[OF ok es(3) r] by blast
  have "disk_step (Suc (sl_mLastIndex l)) l l'" using disk_step_append r l'(1) by blast
  then have "disk_ok l'" by (rule disk_step_ok[OF ok l'(2) disk _ order_trans[OF base_le[OF ok] first_le[OF ok]] l'(4-6)])
  moreover have "SegmentLog_appendEntries P es l = Inr (True, l')"
    using es(1,3) r l'(1) by (cases es) (simp_all add: SegmentLog_appendEntries_def)
  moreover have last: "sl_mLastIndex l' = sl_mLastIndex l + length es"
    using contents_length(1)[OF ok] contents_length(1)[OF l'(2)] l'(3,4) by simp
  have "mem_appendEntries es (log_view P l) = (True, log_view P l')"
    using mem_appendEntries_ok[OF log_view_ok[OF ok], of es] es(1) by (simp add: log_view_def last l'(3-6))
  ultimately show ?thesis using l'(2) by (simp add: seg_good_def)
qed

lemma view_prefix:
  assumes good: "seg_good P DS MS l" and k: "k \<le> sl_mLastIndex l"
  shows "\<exists>l'. SegmentLog_truncatePrefix k l = Inr l' \<and> seg_good P DS MS l' \<and> log_view P l' = mem_truncatePrefix k (log_view P l)"
proof -
  have ok: "seg_ok P DS MS l" and disk: "disk_ok l" using good by (simp_all add: seg_good_def)
  obtain l' where l': "SegmentLog_truncatePrefix k l = Inr l'" "seg_ok P DS MS l'"
    "seg_contents P l' = drop (k - sl_mFirstIndex l) (seg_contents P l)" "sl_mFirstIndex l' = max k (sl_mFirstIndex l)"
    "sl_mCurrentTerm l' = sl_mCurrentTerm l" "sl_mVoteFor l' = sl_mVoteFor l"
    using truncatePrefix_log[OF ok k] by blast
  have "disk_ok l'" by (rule disk_prefix[OF ok disk k l'(1)])
  moreover have last: "sl_mLastIndex l' = sl_mLastIndex l"
    using contents_length(1)[OF ok] contents_length(1)[OF l'(2)] l'(3,4) k first_le[OF ok] by simp
  have "log_view P l' = mem_truncatePrefix k (log_view P l)"
    using k by (simp add: log_view_def mem_truncatePrefix_def Let_def max_def last l'(3-6))
  ultimately show ?thesis using l'(1,2) by (simp add: seg_good_def)
qed

lemma view_suffix:
  assumes good: "seg_good P DS MS l" and k: "sl_mFirstIndex l \<le> Suc k"
  shows "\<exists>l'. SegmentLog_truncateSuffix k l = Inr l' \<and> seg_good P DS MS l' \<and> log_view P l' = mem_truncateSuffix k (log_view P l)"
proof (cases "k \<le> sl_mLastIndex l")
  case False
  with good show ?thesis by (simp add: SegmentLog_truncateSuffix_def mem_truncateSuffix_def log_view_def)
next
  case True
  have ok: "seg_ok P DS MS l" and disk: "disk_ok l" using good by (simp_all add: seg_good_def)
  obtain l' where l': "SegmentLog_truncateSuffix k l = Inr l'" "seg_ok P DS MS l'"
    "seg_contents P l' = take (Suc k - sl_mFirstIndex l) (seg_contents P l)" "sl_mFirstIndex l' = sl_mFirstIndex l"
    "sl_mCurrentTerm l' = sl_mCurrentTerm l" "sl_mVoteFor l' = sl_mVoteFor l"
    using truncateSuffix_log[OF ok k True] by blast
  have "disk_ok l'"
    by (rule disk_step_ok[OF ok l'(2) disk disk_step_suffix[OF l'(1)] order_trans[OF base_le[OF ok] k] l'(4-6)])
  moreover have last: "sl_mLastIndex l' = k"
    using contents_length(1)[OF ok] contents_length(1)[OF l'(2)] l'(3,4) k True by simp
  have "log_view P l' = mem_truncateSuffix k (log_view P l)"
    using mem_truncateSuffix_ok(1)[OF log_view_ok[OF ok], of k] k True by (simp add: log_view_def last l'(3-6))
  ultimately show ?thesis using l'(1,2) by (simp add: seg_good_def)
qed

lemma action_step:
  assumes good: "seg_good P DS MS l" and readdir: "\<forall>xs. mset (readdir xs) = mset xs" and act: "allowed P DS MS act (log_view P l)"
  shows "\<exists>l'. seg_action P DS MS readdir act l = Inr l' \<and> seg_good P DS MS l' \<and> log_view P l' = mem_action act (log_view P l)"
proof (cases act)
  case (Append es)
  show ?thesis
  proof (cases "es = [] \<or> le_index (hd es) \<noteq> Suc (sl_mLastIndex l)")
    case True
    have "snd (mem_appendEntries es (log_view P l)) = log_view P l"
      using True mem_appendEntries_refuses_gap[of "hd es" "log_view P l" "tl es"] by (cases es) (auto simp: log_view_def)
    moreover have "\<exists>ok. SegmentLog_appendEntries P es l = Inr (ok, l)"
      using True by (cases es) (auto simp: SegmentLog_appendEntries_def)
    ultimately show ?thesis using Append good by (auto simp: seg_action_def mem_action_def)
  next
    case False
    then obtain l' where "SegmentLog_appendEntries P es l = Inr (True, l')" "seg_good P DS MS l'"
      "log_view P l' = snd (mem_appendEntries es (log_view P l))"
      using view_append[OF good, of es] act Append by (auto simp: allowed_def log_view_def)
    then show ?thesis using Append by (simp add: seg_action_def mem_action_def)
  qed
next
  case (Truncate_Prefix k)
  then show ?thesis using view_prefix[OF good, of k] act by (auto simp: seg_action_def mem_action_def allowed_def log_view_def)
next
  case (Truncate_Suffix k)
  then show ?thesis using view_suffix[OF good, of k] act by (auto simp: seg_action_def mem_action_def allowed_def log_view_def)
next
  case (Set_Term t)
  then show ?thesis using good
    by (auto simp: seg_good_def seg_action_def mem_action_def log_view_def seg_ok_term_vote disk_term_vote)
      (simp_all add: SegmentLog_setCurrentTerm_def)
next
  case (Set_Vote v)
  then show ?thesis using good
    by (auto simp: seg_good_def seg_action_def mem_action_def log_view_def seg_ok_term_vote disk_term_vote)
      (simp_all add: SegmentLog_setVoteFor_def)
next
  case Restart
  have ok: "seg_ok P DS MS l" and disk: "disk_ok l" using good by (simp_all add: seg_good_def)
  obtain l' where l': "restart DS MS readdir l = Inr l'" "seg_ok P DS MS l'" "disk_ok l'" "seg_contents P l' = seg_contents P l"
    "sl_mFirstIndex l' = sl_mFirstIndex l" "sl_mCurrentTerm l' = sl_mCurrentTerm l" "sl_mVoteFor l' = sl_mVoteFor l"
    using restart_log[OF ok disk readdir] act Restart by (auto simp: allowed_def log_view_def)
  have "sl_mLastIndex l' = sl_mLastIndex l" using contents_length(1)[OF ok] contents_length(1)[OF l'(2)] l'(4,5) by simp
  with l' show ?thesis using Restart by (simp add: seg_action_def mem_action_def log_view_def seg_good_def)
qed

definition empty_disk :: log_disk where
  "empty_disk = \<lparr>ld_meta = \<lparr>mf_current_term = None, mf_vote_for = None, mf_first_index = None\<rparr>, ld_dir = []\<rparr>"

lemma first_start:
  assumes P: "seg_env_ok P" and lims: "DS mod 4096 = 0" "0 < DS" "MS mod 4096 = 0" "0 < MS"
  shows "\<exists>l. SegmentLog_init logDir DS MS empty_disk = Inr l \<and> seg_good P DS MS l \<and> log_view P l = mem_new"
proof -
  define l where "l = \<lparr>sl_mLogDir = logDir,
      sl_metaStorage = \<lparr>mf_current_term = Some (to_string 0), mf_vote_for = Some (to_string 0), mf_first_index = Some (to_string 1)\<rparr>,
      sl_mSegmentDataSizeLimit = DS, sl_mSegmentMetaSizeLimit = MS, sl_mFirstIndex = 1, sl_mLastIndex = 0,
      sl_mCurrentTerm = 0, sl_mVoteFor = 0, sl_mClosedSegments = [], sl_mActiveSegment = None, sl_retained = []\<rparr>"
  obtain b where b: "newActiveSegment l = Inr (claim_path b (l\<lparr>sl_mActiveSegment := Some b\<rparr>))" "seg_holds P b []" "sg_mIsActive b"
    "sg_mFirstIndex b = Suc (sl_mLastIndex l)" "sg_mLastIndex b = sl_mLastIndex l" "sg_mDataSizeLimit b = DS" "sg_mMetaSizeLimit b = MS"
    using newActive_ok[of l DS MS P] lims by (auto simp: l_def)
  define l' where "l' = claim_path b (l\<lparr>sl_mActiveSegment := Some b\<rparr>)"
  have run: "SegmentLog_init logDir DS MS empty_disk = Inr l'"
    using b(1) unfolding SegmentLog_init_def
    by (simp add: empty_disk_def recoverCurrentTerm_def recoverVoteFor_def recoverFirstIndex_def persistCurrentTerm_def persistVoteFor_def
        persistFirstIndex_def listSegments_def recoverSegments_def l_def l'_def)
  have wb: "seg_wf P DS MS b" "seg_entries P b = []" using seg_wfI[OF P b(2)] seg_entries_holds[OF P b(2)] b by simp_all
  have segs: "segments l' = [b]" by (simp add: l'_def segments_def l_def)
  have ok: "seg_ok P DS MS l'" using P lims wb b segs by (simp add: seg_ok_def l'_def l_def)
  moreover have "disk_ok l'" by (simp add: disk_ok_def l'_def l_def claim_path_def)
  moreover have "log_view P l' = mem_new"
    using wb(2) segs b by (simp add: log_view_def seg_contents_def mem_new_def l'_def l_def)
  ultimately show ?thesis using run by (simp add: seg_good_def)
qed

lemma actions_run:
  assumes "seg_good P DS MS l" and "\<forall>xs. mset (readdir xs) = mset xs" and "all_allowed P DS MS acts (log_view P l)"
  shows "\<exists>l'. fold_res (seg_action P DS MS readdir) acts l = Inr l' \<and> seg_good P DS MS l'
    \<and> log_view P l' = fold mem_action acts (log_view P l)"
  using assms
proof (induction acts arbitrary: l)
  case (Cons act acts)
  then obtain l1 where l1: "seg_action P DS MS readdir act l = Inr l1" "seg_good P DS MS l1" "log_view P l1 = mem_action act (log_view P l)"
    using action_step[OF Cons.prems(1,2), of act] by auto
  then show ?case using Cons.IH[OF l1(2) Cons.prems(2)] Cons.prems(3) by simp
qed simp

text \<open>
  C6. Starting on an empty directory and running any sequence of appends, truncations, term and vote changes
  and restarts that the caller is allowed to make, the segment log never stops the process, and what it
  holds is what the in-memory log holds after the same operations without any restart: nothing is lost or
  changed by closing the files and recovering from them, in whatever order the directory lists them.
\<close>

theorem segment_log_refines_memory_log:
  assumes "seg_env_ok P" and "DS mod 4096 = 0" "0 < DS" "MS mod 4096 = 0" "0 < MS"
    and "\<forall>xs. mset (readdir xs) = mset xs" and "all_allowed P DS MS acts mem_new"
  shows "\<exists>l. res_bind (SegmentLog_init logDir DS MS empty_disk) (fold_res (seg_action P DS MS readdir) acts) = Inr l
    \<and> seg_contents P l = ml_mLog (fold mem_action acts mem_new)
    \<and> sl_mFirstIndex l = ml_mFirstIndex (fold mem_action acts mem_new) \<and> sl_mLastIndex l = ml_mLastIndex (fold mem_action acts mem_new)
    \<and> sl_mCurrentTerm l = ml_mTerm (fold mem_action acts mem_new) \<and> sl_mVoteFor l = ml_mVoteFor (fold mem_action acts mem_new)"
proof -
  obtain l0 where l0: "SegmentLog_init logDir DS MS empty_disk = Inr l0" "seg_good P DS MS l0" "log_view P l0 = mem_new"
    using first_start[OF assms(1-5)] by blast
  obtain l where "fold_res (seg_action P DS MS readdir) acts l0 = Inr l" and view: "log_view P l = fold mem_action acts mem_new"
    using actions_run[OF l0(2) assms(6)] assms(7) unfolding l0(3) by blast
  then show ?thesis unfolding view[symmetric] using l0(1) by (simp add: log_view_def)
qed

text \<open>Two segments, a restart in the middle that lists the directory backwards, a truncation, a refused gap and a second restart.\<close>

definition sample_actions :: "log_action list" where
  "sample_actions =
     [Set_Term 2, Set_Vote 3, Append [sample_entry 1 1 1900], Append [sample_entry 1 2 900, sample_entry 2 3 900], Restart,
      Truncate_Prefix 2, Append [sample_entry 2 9 1], Append [sample_entry 2 4 1000], Restart, Truncate_Suffix 3]"

theorem segment_log_refines_memory_log_witness:
  "\<exists>l. res_bind (SegmentLog_init ''/log'' 4096 4096 empty_disk) (fold_res (seg_action sample_env 4096 4096 rev) sample_actions) = Inr l
    \<and> seg_contents sample_env l = [sample_entry 1 2 900, sample_entry 2 3 900]
    \<and> sl_mFirstIndex l = 2 \<and> sl_mLastIndex l = 3 \<and> sl_mCurrentTerm l = 2 \<and> sl_mVoteFor l = 3"
proof -
  have "all_allowed sample_env 4096 4096 sample_actions mem_new"
    by (simp add: sample_actions_def allowed_def mem_action_def mem_new_def mem_appendEntry_def mem_truncatePrefix_def
        mem_truncateSuffix_def fits_segment_def bytes_of_def sizeof_LogMeta_def)
  moreover have "fold mem_action sample_actions mem_new =
      \<lparr>ml_mLog = [sample_entry 1 2 900, sample_entry 2 3 900], ml_mFirstIndex = 2, ml_mLastIndex = 3, ml_mTerm = 2, ml_mVoteFor = 3\<rparr>"
    by (simp add: sample_actions_def mem_action_def mem_new_def mem_appendEntry_def mem_truncatePrefix_def mem_truncateSuffix_def)
  ultimately show ?thesis using segment_log_refines_memory_log[OF sample_env_ok, of 4096 4096 rev sample_actions "''/log''"] by simp
qed

end
