(* ===== verification/Reader_Delivery.thy ===== *)
theory Reader_Delivery
  imports Readonly_Store Segment_Recovery
begin

text \<open>
  What the reader of the committed log promises the event apply loop and the command process loop, on a node
  that keeps its log in segment files: the facts proved in \<open>Readonly_Store\<close> for any log that keeps the
  contract, at the segment log.
\<close>

section \<open>A log with one written bundle\<close>

text \<open>The environment of the witnesses: a command with its events in entry 1, and the no-op of the leader of term 2 in entry 2.\<close>

definition example_command :: Command where
  "example_command = example_create\<lparr>cmd_mMetaData := (example_command_meta CREATE_ACCOUNT_COMMAND)\<lparr>mt_mId := 1\<rparr>\<rparr>"

definition example_delivery :: command_events where
  "example_delivery = (Some (stored_command example_command), map (Some \<circ> stored_event) example_events)"

definition example_noop :: LogEntry where
  "example_noop = \<lparr>le_term = 2, le_index = 2, le_noop = True, le_checksum = 0, le_payload = [], le_version = 3, le_specialTag = None\<rparr>"

definition example_node :: "nat \<Rightarrow> segment_log \<Rightarrow> segment_log raft_core" where
  "example_node maxLen l =
     \<lparr>rc_mMaxBatchSize = 100, rc_mMaxLenInBytes = maxLen, rc_mMaxDecrStep = 5, rc_mPeers = [], rc_selfId = 1, rc_selfAddress = ''a'',
      rc_mLeaderId = 1, rc_mElectionTimePointInNano = 0, rc_mCommitIndex = 2, rc_mBeginIndex = 0, rc_mRaftRole = Leader, rc_mLog = l,
      rc_mPendingClientRequests = [], rc_mAeRvQueue = [], rc_mClientRequestsQueue = [], rc_mClients = []\<rparr>"

lemma example_command_admissible: "Command_admissible example_command"
  using example_create_admissible
  by (simp add: Command_admissible_def example_command_def example_create_def example_command_meta_def)

lemma example_entry_exists:
  "\<exists>e. decrypt_entry example_store_env e = Inr [example_delivery] \<and> le_index e = 1 \<and> le_term e = 1 \<and> le_version e = 3 \<and> \<not> le_noop e"
proof -
  let ?e = "sample_entry 1 1 0"
  obtain payload where p: "fill_payload example_store_env example_command example_events ?e = Inr (?e\<lparr>le_payload := payload\<rparr>)"
    using example_fill[OF _ example_events_wf, of ?e example_command] by (auto simp: sample_entry_def)
  have "decrypt_entry example_store_env (?e\<lparr>le_payload := payload\<rparr>) = Inr [example_delivery]" unfolding example_delivery_def
    using p by (intro decrypt_entry_filled[OF example_store_env_ok example_command_admissible example_events_wf])
      (auto simp: example_events_def sample_entry_def)
  then show ?thesis by (intro exI[of _ "?e\<lparr>le_payload := payload\<rparr>"]) (simp add: sample_entry_def)
qed

lemma example_bundle_id: "fst example_delivery \<noteq> None" "bundle_id example_delivery = 1"
  by (simp_all add: example_delivery_def bundle_id_def stored_command_def example_command_def example_create_def)

lemma example_noop_decrypts [simp]: "decrypt_entry P example_noop = Inr []" "le_noop example_noop" "le_term example_noop = 2"
  by (simp_all add: example_noop_def decrypt_entry_def)

lemma example_log:
  "\<exists>DS maxLen l e. start_ok example_store_env (seg_ops sample_env) (seg_ok sample_env DS 4096) (seg_contents sample_env) 0 (example_node maxLen l)
     \<and> seg_contents sample_env l = [e, example_noop] \<and> decrypt_entry example_store_env e = Inr [example_delivery]
     \<and> sl_mFirstIndex l = 1 \<and> sl_mLastIndex l = 2 \<and> sl_mCurrentTerm l = 2
     \<and> batches_fit (byteSizeLong sample_env) 0 (reader_start (seg_ops sample_env) (seg_contents sample_env) 0 (example_node maxLen l))"
proof -
  obtain e where e: "decrypt_entry example_store_env e = Inr [example_delivery]" "le_index e = 1" "le_term e = 1" "le_version e = 3" "\<not> le_noop e"
    using example_entry_exists by blast
  let ?size = "length (bytes_of sample_env [e, example_noop])"
  let ?DS = "4096 * Suc ?size"
  let ?acts = "[Set_Term 2, Append [e, example_noop]]"
  obtain l0 where l0: "SegmentLog_init ''/log'' ?DS 4096 empty_disk = Inr l0" "seg_good sample_env ?DS 4096 l0" "log_view sample_env l0 = mem_new"
    using first_start[OF sample_env_ok, of ?DS 4096 "''/log''"] by auto
  have "signable sample_env x" if "le_version x = 3" for x
    using that by (simp add: signable_def sample_env_def signing_version_def sample_crypto_def kInvalidSecKeyVersion_def)
  then have "signable sample_env e" "signable sample_env example_noop" using e by (simp_all add: example_noop_def)
  then have "all_allowed sample_env ?DS 4096 ?acts mem_new" using e
    by (simp add: allowed_def mem_action_def mem_new_def fits_segment_def sizeof_LogMeta_def example_noop_def)
  then obtain l where l: "seg_good sample_env ?DS 4096 l" "log_view sample_env l = fold mem_action ?acts mem_new"
    using actions_run[OF l0(2), of rev ?acts] l0(3) by auto
  have view: "seg_contents sample_env l = [e, example_noop]" "sl_mFirstIndex l = 1" "sl_mLastIndex l = 2" "sl_mCurrentTerm l = 2"
    using l(2) e by (simp_all add: log_view_def mem_action_def mem_new_def mem_appendEntry_def example_noop_def)
  have at: "entry_at (seg_ops sample_env) (seg_contents sample_env) l i = (if i = 1 then e else example_noop)" if "0 < i" "i \<le> 2" for i
    using that view by (cases "i = 1") (auto simp: entry_at_def seg_ops_def)
  have small: "byteSizeLong sample_env e \<le> ?size" "byteSizeLong sample_env example_noop \<le> ?size"
    by (simp_all add: bytes_of_def)
  have "readable example_store_env i (if i = 1 then e else example_noop)" if "0 < i" for i
    using e example_bundle_id by (auto simp: readable_def)
  then have "start_ok example_store_env (seg_ops sample_env) (seg_ok sample_env ?DS 4096) (seg_contents sample_env) 0 (example_node ?size l)"
    using l(1) view at by (auto simp: start_ok_def node_ok_def example_node_def seg_good_def seg_ops_def)
  moreover have "batches_fit (byteSizeLong sample_env) 0 (reader_start (seg_ops sample_env) (seg_contents sample_env) 0 (example_node ?size l))"
    using at small by (auto simp: batches_fit_def reader_start_def example_node_def)
  ultimately show ?thesis using view e(1) by blast
qed

lemma progress_run_steps: "((progress_step P ops) ^^ n) y y' \<Longrightarrow> (reader_step P ops contents)\<^sup>*\<^sup>* y y'"
proof (induction n arbitrary: y')
  case (Suc n)
  then obtain u where u: "((progress_step P ops) ^^ n) y u" "progress_step P ops u y'" by auto
  have "reader_step P ops contents u y'" using u(2) by (simp add: progress_step_def reader_step.pipeline)
  then show ?case using Suc.IH[OF u(1)] by simp
qed simp

lemma example_run:
  "\<exists>DS maxLen l y. start_ok example_store_env (seg_ops sample_env) (seg_ok sample_env DS 4096) (seg_contents sample_env) 0 (example_node maxLen l)
     \<and> batches_fit (byteSizeLong sample_env) 0 (reader_start (seg_ops sample_env) (seg_contents sample_env) 0 (example_node maxLen l))
     \<and> (reader_step example_store_env (seg_ops sample_env) (seg_contents sample_env))\<^sup>*\<^sup>*
         (reader_start (seg_ops sample_env) (seg_contents sample_env) 0 (example_node maxLen l)) y
     \<and> ys_delivered y = [example_delivery] \<and> ys_raft y = example_node maxLen l
     \<and> ro_mLoadedIndex (ys_store y) = 2 \<and> ro_mAppliedIndex (ys_store y) = 1
     \<and> sl_mLastIndex l = 2 \<and> sl_mCurrentTerm l = 2
     \<and> lo_getEntry (seg_ops sample_env) 2 l = Inr (Some example_noop)"
proof -
  obtain DS maxLen l e where l: "start_ok example_store_env (seg_ops sample_env) (seg_ok sample_env DS 4096) (seg_contents sample_env) 0 (example_node maxLen l)"
     "seg_contents sample_env l = [e, example_noop]" "decrypt_entry example_store_env e = Inr [example_delivery]"
     "sl_mFirstIndex l = 1" "sl_mLastIndex l = 2" "sl_mCurrentTerm l = 2"
     "batches_fit (byteSizeLong sample_env) 0 (reader_start (seg_ops sample_env) (seg_contents sample_env) 0 (example_node maxLen l))"
    using example_log by blast
  let ?y0 = "reader_start (seg_ops sample_env) (seg_contents sample_env) 0 (example_node maxLen l)"
  note inv = reader_start_inv[OF l(1)]
  obtain n y where y: "((progress_step example_store_env (seg_ops sample_env)) ^^ n) ?y0 y" "all_delivered example_store_env 0 y" "caught_up y"
    using seg_reader.drains[OF inv l(7)] by blast
  note run = seg_reader.progress_run[OF y(1) inv l(7)]
  have h: "ys_history y i = (seg_contents sample_env l) ! (i - 1)" for i
    using run l by (simp add: reader_start_def entry_at_def seg_ops_def example_node_def)
  have r: "ys_raft y = example_node maxLen l" using run by (simp add: reader_start_def)
  have "[Suc 0 ..< Suc 2] = [1, 2]" by (simp add: upt_rec)
  then have d: "ys_delivered y = [example_delivery]"
    using y(2) l(2,3) by (simp add: all_delivered_def r h example_node_def decryptEntries_def)
  have ap: "applied_ok 0 (ys_store y) (ys_delivered y)" and src: "source_ok example_store_env (seg_ops sample_env) (seg_ok sample_env DS 4096)
      (seg_contents sample_env) 0 (ro_mLoadedIndex (ys_store y)) (ys_raft y) (ys_history y)"
    using run unfolding reader_inv_def by blast+
  then have "ro_mLoadedIndex (ys_store y) = 2" "ro_mAppliedIndex (ys_store y) = 1"
    using y(3) d example_bundle_id(2) by (auto simp: applied_ok_def caught_up_def source_ok_def r example_node_def)
  moreover have "lo_getEntry (seg_ops sample_env) 2 l = Inr (Some example_noop)"
    using seg_reader.getEntry_in[of sample_env DS 4096 l 2] l by (simp add: start_ok_def node_ok_def example_node_def seg_ops_def)
  ultimately show ?thesis using l(1,5,6,7) progress_run_steps[OF y(1)] d r by blast
qed

section \<open>Properties\<close>

text \<open>
  C9. On a node with a segment log, however the loading thread, the decrypting threads, the apply loop and the
  Raft node interleave: none of the threads' next steps stops the process, and what the apply loop has been
  given so far is a prefix of the bundles of the committed entries after the offset it started from, in log
  order and each once, so no committed command is skipped, repeated or reordered.
\<close>

theorem committed_bundles_arrive_in_order:
  assumes "start_ok P (seg_ops E) (seg_ok E DS MS) (seg_contents E) offset r"
    and "(reader_step P (seg_ops E) (seg_contents E))\<^sup>*\<^sup>* (reader_start (seg_ops E) (seg_contents E) offset r) y"
  shows "(\<exists>bs. decryptEntries P (map (ys_history y) [Suc offset ..< Suc (rc_mCommitIndex (ys_raft y))]) = Inr bs \<and> prefix (ys_delivered y) bs
       \<and> sorted_wrt (<) (map bundle_id bs))
    \<and> (\<forall>i. sl_mFirstIndex (rc_mLog (ys_raft y)) \<le> i \<and> i \<le> rc_mCommitIndex (ys_raft y)
         \<longrightarrow> ys_history y i = seg_contents E (rc_mLog (ys_raft y)) ! (i - sl_mFirstIndex (rc_mLog (ys_raft y))))
    \<and> (\<exists>pc s. loadEntries_step (seg_ops E) (ys_raft y) (ys_load y) (ys_store y) = Inr (pc, s))
    \<and> (\<forall>i < length (ro_mTaskQueue (ys_store y)). \<exists>s. decrypt_done P i (ys_store y) = Inr s)
    \<and> (\<exists>b s. loadNextCommandEvents P (seg_ops E) (ys_raft y) (ys_store y) = Inr (b, s))"
proof -
  note inv0 = reader_start_inv[OF assms(1)]
  have inv: "reader_inv P (seg_ops E) (seg_ok E DS MS) (seg_contents E) offset y" using seg_reader.reader_run_preserves[OF assms(2) inv0] by blast
  let ?c = "rc_mCommitIndex (ys_raft y)"
  have "\<exists>s. decrypt_done P i (ys_store y) = Inr s" if "i < length (ro_mTaskQueue (ys_store y))" for i
    using queue_decrypts[OF inv nth_mem[OF that]] by (auto simp: decrypt_done_def Let_def)
  moreover have "\<exists>pc s. loadEntries_step (seg_ops E) (ys_raft y) (ys_load y) (ys_store y) = Inr (pc, s)"
    using seg_reader.load_returns[OF inv] by blast
  moreover have "sl_mFirstIndex (rc_mLog (ys_raft y)) \<le> i \<Longrightarrow> i \<le> ?c
      \<Longrightarrow> ys_history y i = seg_contents E (rc_mLog (ys_raft y)) ! (i - sl_mFirstIndex (rc_mLog (ys_raft y)))" for i
    using inv by (auto simp: reader_inv_def source_ok_def entry_at_def seg_ops_def)
  ultimately show ?thesis using delivered_prefix[OF inv] loadNext_returns[OF inv] by blast
qed

theorem committed_bundles_arrive_in_order_witness:
  "\<exists>DS maxLen l y. start_ok example_store_env (seg_ops sample_env) (seg_ok sample_env DS 4096) (seg_contents sample_env) 0 (example_node maxLen l)
     \<and> (reader_step example_store_env (seg_ops sample_env) (seg_contents sample_env))\<^sup>*\<^sup>*
         (reader_start (seg_ops sample_env) (seg_contents sample_env) 0 (example_node maxLen l)) y
     \<and> ys_delivered y = [example_delivery]
     \<and> (\<exists>bs. decryptEntries example_store_env (map (ys_history y) [1 ..< 3]) = Inr bs \<and> prefix [example_delivery] bs)"
proof -
  obtain DS maxLen l y where y: "start_ok example_store_env (seg_ops sample_env) (seg_ok sample_env DS 4096) (seg_contents sample_env) 0 (example_node maxLen l)"
     "(reader_step example_store_env (seg_ops sample_env) (seg_contents sample_env))\<^sup>*\<^sup>*
         (reader_start (seg_ops sample_env) (seg_contents sample_env) 0 (example_node maxLen l)) y"
     "ys_delivered y = [example_delivery]" "ys_raft y = example_node maxLen l"
    using example_run by blast
  have "Suc (rc_mCommitIndex (ys_raft y)) = 3" by (simp add: y(4) example_node_def)
  then have "\<exists>bs. decryptEntries example_store_env (map (ys_history y) [1 ..< 3]) = Inr bs \<and> prefix [example_delivery] bs"
    using committed_bundles_arrive_in_order[OF y(1,2)] y(3) by (auto simp del: upt_Suc)
  then show ?thesis using y(1-3) by blast
qed

text \<open>
  C33. The memory of the reader is bounded in every interleaving: at most 30 tasks wait in the queue, also
  while the loading thread is about to append one, at most 6 of them are being decrypted, and the loaded
  index never passes the commit index of the node (unless the reader was started beyond it and then stays).
\<close>

theorem reader_queue_is_bounded:
  assumes "start_ok P (seg_ops E) (seg_ok E DS MS) (seg_contents E) offset r"
    and "(reader_step P (seg_ops E) (seg_contents E))\<^sup>*\<^sup>* (reader_start (seg_ops E) (seg_contents E) offset r) y"
  shows "length (ro_mTaskQueue (ys_store y)) + (if ys_load y = L_Top then 0 else 1) \<le> 30
    \<and> claimed (ro_mTaskQueue (ys_store y)) \<le> 6
    \<and> offset \<le> ro_mLoadedIndex (ys_store y) \<and> ro_mLoadedIndex (ys_store y) \<le> max offset (rc_mCommitIndex (ys_raft y))"
proof -
  have "reader_inv P (seg_ops E) (seg_ok E DS MS) (seg_contents E) offset y"
    using seg_reader.reader_run_preserves[OF assms(2) reader_start_inv[OF assms(1)]] by blast
  then show ?thesis
    using threads_claimed[of "ro_mTaskQueue (ys_store y)" "ys_taken y" "ys_threads y"]
    by (cases "ys_load y") (simp_all add: reader_inv_def pc_ok_def kMaxQueueSize_def kDecryptConcurrency_def source_ok_def)
qed

theorem reader_queue_is_bounded_witness:
  "\<exists>DS maxLen l y. start_ok example_store_env (seg_ops sample_env) (seg_ok sample_env DS 4096) (seg_contents sample_env) 0 (example_node maxLen l)
     \<and> (reader_step example_store_env (seg_ops sample_env) (seg_contents sample_env))\<^sup>*\<^sup>*
         (reader_start (seg_ops sample_env) (seg_contents sample_env) 0 (example_node maxLen l)) y
     \<and> ys_delivered y = [example_delivery] \<and> length (ro_mTaskQueue (ys_store y)) \<le> 30"
proof -
  obtain DS maxLen l y where y: "start_ok example_store_env (seg_ops sample_env) (seg_ok sample_env DS 4096) (seg_contents sample_env) 0 (example_node maxLen l)"
     "(reader_step example_store_env (seg_ops sample_env) (seg_contents sample_env))\<^sup>*\<^sup>*
         (reader_start (seg_ops sample_env) (seg_contents sample_env) 0 (example_node maxLen l)) y"
     "ys_delivered y = [example_delivery]"
    using example_run by blast
  have "length (ro_mTaskQueue (ys_store y)) \<le> 30" using reader_queue_is_bounded[OF y(1,2)] by simp
  then show ?thesis using y by blast
qed

text \<open>
  C31. The reader catches up. From any reachable state, while the Raft node is quiet and every committed entry
  fits into one batch, the threads can make only finitely many steps that change anything, at most
  \<open>pipeline_work\<close> of them; whenever no such step is left, every bundle committed after the offset has been
  handed to the apply loop and its applied index has followed; and such a state can always be reached. So no
  task is stuck in the queue and no schedule that keeps the threads running can leave a bundle behind.
\<close>

theorem reader_catches_up:
  assumes "start_ok P (seg_ops E) (seg_ok E DS MS) (seg_contents E) offset r"
    and "(reader_step P (seg_ops E) (seg_contents E))\<^sup>*\<^sup>* (reader_start (seg_ops E) (seg_contents E) offset r) y"
    and "batches_fit (byteSizeLong E) offset y"
  shows "(\<forall>n y'. ((progress_step P (seg_ops E)) ^^ n) y y' \<longrightarrow> n \<le> pipeline_work y
        \<and> ((\<forall>z. \<not> progress_step P (seg_ops E) y' z) \<longrightarrow> all_delivered P offset y' \<and> caught_up y'))
    \<and> (\<exists>n y'. ((progress_step P (seg_ops E)) ^^ n) y y' \<and> all_delivered P offset y' \<and> caught_up y')"
proof -
  have inv: "reader_inv P (seg_ops E) (seg_ok E DS MS) (seg_contents E) offset y"
    using seg_reader.reader_run_preserves[OF assms(2) reader_start_inv[OF assms(1)]] by blast
  have "n \<le> pipeline_work y \<and> ((\<forall>z. \<not> progress_step P (seg_ops E) y' z) \<longrightarrow> all_delivered P offset y' \<and> caught_up y')"
    if "((progress_step P (seg_ops E)) ^^ n) y y'" for n y'
    using seg_reader.progress_run[OF that inv assms(3)] seg_reader.idle_is_complete by fastforce
  then show ?thesis using seg_reader.drains[OF inv assms(3)] by blast
qed

theorem reader_catches_up_witness:
  "\<exists>maxLen l n y. ((progress_step example_store_env (seg_ops sample_env)) ^^ n)
       (reader_start (seg_ops sample_env) (seg_contents sample_env) 0 (example_node maxLen l)) y
     \<and> all_delivered example_store_env 0 y \<and> caught_up y"
proof -
  obtain DS maxLen l where "start_ok example_store_env (seg_ops sample_env) (seg_ok sample_env DS 4096) (seg_contents sample_env) 0 (example_node maxLen l)"
     "batches_fit (byteSizeLong sample_env) 0 (reader_start (seg_ops sample_env) (seg_contents sample_env) 0 (example_node maxLen l))"
    using example_run by blast
  then show ?thesis using reader_catches_up[OF _ rtranclp.rtrancl_refl] by blast
qed

text \<open>
  C32. A leader that is told to be ready is up to date. If waiting for the term to be ready returns an index
  that is not zero, then that entry is committed, is a no-op and has the expected term, and every bundle up
  to it has been handed to the apply loop, which has come back after the last of them. The reads of a round
  may be spread over any steps of the other threads and of the node; \<open>y\<close> is any state after the last read.
\<close>

theorem ready_leader_has_applied_everything:
  assumes "start_ok P (seg_ops E) (seg_ok E DS MS) (seg_contents E) offset r"
    and "\<forall>v \<in> set views. view_read P (seg_ops E) (seg_contents E) (reader_start (seg_ops E) (seg_contents E) offset r) v y"
    and "waitTillLeaderIsReadyOrStepDown expectedTerm views = Inr (Some n)" and "n \<noteq> 0"
  shows "\<exists>bs. decryptEntries P (map (ys_history y) [Suc offset ..< Suc n]) = Inr bs \<and> prefix bs (ys_delivered y)
    \<and> (\<forall>b \<in> set bs. bundle_id b \<le> ro_mAppliedIndex (ys_store y))
    \<and> n \<le> rc_mCommitIndex (ys_raft y) \<and> le_noop (ys_history y n) \<and> le_term (ys_history y n) = expectedTerm"
proof -
  obtain v where "v \<in> set views" "ready_round expectedTerm v = Inr (Some n)" using waitTill_Some[OF assms(3)] by blast
  then show ?thesis using seg_reader.ready_means_applied[OF reader_start_inv[OF assms(1)] _ _ assms(4)] assms(2) by blast
qed

theorem ready_leader_has_applied_everything_witness:
  "\<exists>DS maxLen l y v. view_read example_store_env (seg_ops sample_env) (seg_contents sample_env)
       (reader_start (seg_ops sample_env) (seg_contents sample_env) 0 (example_node maxLen l)) v y
     \<and> start_ok example_store_env (seg_ops sample_env) (seg_ok sample_env DS 4096) (seg_contents sample_env) 0 (example_node maxLen l)
     \<and> waitTillLeaderIsReadyOrStepDown 2 [v] = Inr (Some 2)
     \<and> (\<exists>bs. decryptEntries example_store_env (map (ys_history y) [1 ..< 3]) = Inr bs \<and> prefix bs (ys_delivered y))"
proof -
  obtain DS maxLen l y where y: "start_ok example_store_env (seg_ops sample_env) (seg_ok sample_env DS 4096) (seg_contents sample_env) 0 (example_node maxLen l)"
     "(reader_step example_store_env (seg_ops sample_env) (seg_contents sample_env))\<^sup>*\<^sup>*
         (reader_start (seg_ops sample_env) (seg_contents sample_env) 0 (example_node maxLen l)) y"
     "ys_raft y = example_node maxLen l" "ro_mLoadedIndex (ys_store y) = 2" "ro_mAppliedIndex (ys_store y) = 1"
     "sl_mLastIndex l = 2" "sl_mCurrentTerm l = 2" "lo_getEntry (seg_ops sample_env) 2 l = Inr (Some example_noop)"
    using example_run by blast
  let ?y0 = "reader_start (seg_ops sample_env) (seg_contents sample_env) 0 (example_node maxLen l)"
  define v where "v = \<lparr>rv_currentTerm = 2, rv_lastIndex = 2, rv_commitIndex = 2, rv_loadedIndex = 2, rv_appliedIndex = 1,
      rv_getEntry = \<lambda>i. raft_getEntry (seg_ops sample_env) i (ys_raft y)\<rparr>"
  have "lo_getCurrentTerm (seg_ops sample_env) (rc_mLog (ys_raft y)) = 2" "lo_getLastLogIndex (seg_ops sample_env) (rc_mLog (ys_raft y)) = 2"
    "rc_mCommitIndex (ys_raft y) = 2" by (simp_all add: y(3,6,7) example_node_def seg_ops_def)
  then have read: "view_read example_store_env (seg_ops sample_env) (seg_contents sample_env) ?y0 v y"
    unfolding view_read_def using y(2,4,5) by (intro exI[of _ y] exI[of _ "\<lambda>i. y"]) (simp add: v_def)
  have wait: "waitTillLeaderIsReadyOrStepDown 2 [v] = Inr (Some 2)"
    using y(8) by (simp add: v_def ready_round_def upt_rec raft_getEntry_def y(3) example_node_def numeral_2_eq_2)
  have "[Suc 0 ..< Suc 2] = [1 ..< 3]" by simp
  then have "\<exists>bs. decryptEntries example_store_env (map (ys_history y) [1 ..< 3]) = Inr bs \<and> prefix bs (ys_delivered y)"
    using ready_leader_has_applied_everything[OF y(1) _ wait] read by (auto simp del: upt_Suc)
  then show ?thesis using read wait y(1) by blast
qed

end
