(* ===== verification/Raft_Reply.thy ===== *)
theory Raft_Reply
  imports Raft_Log_Store Reader_Delivery
begin

text \<open>
  The answers of \<^verbatim>\<open>src/src/infra/raft/RaftReplyLoop.cpp\<close>: its threads as a step relation, that every client
  is answered once, and what an answer says about the log of the node.
\<close>

section \<open>The threads of the reply loop\<close>

text \<open>The client a task still has to answer.\<close>

definition task_client :: "reply_task \<Rightarrow> nat list" where
  "task_client t = (case rt_handle t of None \<Rightarrow> [] | Some h \<Rightarrow> [h])"

definition waiting_handles :: "reply_task list \<Rightarrow> nat list" where
  "waiting_handles ts = concat (map (\<lambda>t. if rt_flag t < 2 then task_client t else []) ts)"

fun replied_handle :: "reply \<Rightarrow> nat" where
  "replied_handle (Reply h code message leader) = h"

text \<open>The tasks the reply threads are at work on, those they still go through, and who holds the read lock.\<close>

fun pc_owns :: "reply_pc \<Rightarrow> nat list" where
  "pc_owns (R_Reply p) = [p]"
| "pc_owns pc = []"

definition owned :: "reply_pc list \<Rightarrow> nat list" where
  "owned pcs = concat (map pc_owns pcs)"

fun pc_scans :: "reply_pc \<Rightarrow> nat list" where
  "pc_scans (R_Scan ps) = ps"
| "pc_scans pc = []"

fun holds_lock :: "reply_pc \<Rightarrow> bool" where
  "holds_lock (R_Scan ps) = True"
| "holds_lock pc = False"

text \<open>
  The loop with its threads, \<open>ry_busy\<close> being what the pop thread saw under the read lock, and two histories
  that no code reads: the handles handed in and the replies made.
\<close>

record reply_sys =
  ry_loop :: reply_loop
  ry_threads :: "reply_pc list"
  ry_busy :: bool
  ry_pushed :: "nat list"
  ry_replies :: "reply list"

definition reply_start :: reply_sys where
  "reply_start = \<lparr>ry_loop = reply_loop_new, ry_threads = replicate reply_concurrency R_Top, ry_busy = False,
     ry_pushed = [], ry_replies = []\<rparr>"

text \<open>
  The steps: a task is pushed and a task is popped under the write lock, so while no thread holds the read
  lock; a thread of the pool makes its next step; the pop thread looks at the front; the loop is told to stop.
  A thread answers the task it holds and looks at no flag when it does.
\<close>

inductive reply_step :: "reply_sys \<Rightarrow> reply_sys \<Rightarrow> bool" where
  push: "\<not> list_ex holds_lock (ry_threads y)
    \<Longrightarrow> reply_step y (y\<lparr>ry_loop := pushTask index trm handle code message (ry_loop y),
           ry_pushed := ry_pushed y @ (case handle of None \<Rightarrow> [] | Some h \<Rightarrow> [h])\<rparr>)"
| reply_thread: "i < length (ry_threads y) \<Longrightarrow> replyThread_step views leaderHint (ry_threads y ! i) (ry_loop y) = Inr (pc, q, out)
    \<Longrightarrow> reply_step y (y\<lparr>ry_loop := q, ry_threads := (ry_threads y)[i := pc], ry_replies := ry_replies y @ out\<rparr>)"
| pop_look: "rq_mRunning (ry_loop y) \<Longrightarrow> \<not> ry_busy y \<Longrightarrow> reply_step y (y\<lparr>ry_busy := pop_busy (ry_loop y)\<rparr>)"
| pop: "ry_busy y \<Longrightarrow> \<not> list_ex holds_lock (ry_threads y)
    \<Longrightarrow> reply_step y (y\<lparr>ry_loop := pop_front (ry_loop y), ry_busy := False\<rparr>)"
| stop: "reply_step y (y\<lparr>ry_loop := (ry_loop y)\<lparr>rq_mRunning := False\<rparr>\<rparr>)"

text \<open>
  The queue holds the tasks from some address on; those before are done, and so is the front while the pop
  thread is about to remove it. A task has the flag 1 exactly while one thread holds it, and no two hold it.
\<close>

definition queue_ok :: "reply_loop \<Rightarrow> bool \<Rightarrow> bool" where
  "queue_ok q busy =
     (\<exists>k \<le> length (rq_tasks q). rq_mTaskQueue q = [k ..< length (rq_tasks q)] \<and> (\<forall>p < k. rt_flag (rq_tasks q ! p) = 2)
        \<and> (busy \<longrightarrow> k < length (rq_tasks q) \<and> rt_flag (rq_tasks q ! k) = 2))"

definition owners_ok :: "reply_task list \<Rightarrow> reply_pc list \<Rightarrow> bool" where
  "owners_ok ts pcs = (\<forall>p. count (mset (owned pcs)) p = (if p < length ts \<and> rt_flag (ts ! p) = 1 then 1 else 0))"

definition reply_inv :: "reply_sys \<Rightarrow> bool" where
  "reply_inv y =
     (mset (map replied_handle (ry_replies y)) + mset (waiting_handles (rq_tasks (ry_loop y))) = mset (ry_pushed y)
      \<and> queue_ok (ry_loop y) (ry_busy y) \<and> owners_ok (rq_tasks (ry_loop y)) (ry_threads y)
      \<and> (\<forall>pc \<in> set (ry_threads y). \<forall>p \<in> set (pc_scans pc). p < length (rq_tasks (ry_loop y)))
      \<and> rq_mPendingReplyQueueSize (ry_loop y) = length (rq_mTaskQueue (ry_loop y)) \<and> length (ry_threads y) = reply_concurrency)"

lemma waiting_simps [simp]:
  "waiting_handles [] = []"
  "waiting_handles (t # ts) = (if rt_flag t < 2 then task_client t else []) @ waiting_handles ts"
  "waiting_handles (ts @ us) = waiting_handles ts @ waiting_handles us"
  by (simp_all add: waiting_handles_def)

lemma waiting_update:
  "p < length ts \<Longrightarrow> mset (waiting_handles ts) + mset (waiting_handles [t]) = mset (waiting_handles (ts[p := t])) + mset (waiting_handles [ts ! p])"
proof (induction ts arbitrary: p)
  case (Cons u ts)
  then show ?case by (cases p) (auto simp: ac_simps)
qed simp

lemma owned_count:
  assumes "i < length pcs"
  shows "count (mset (owned (pcs[i := pc]))) p + count (mset (pc_owns (pcs ! i))) p = count (mset (owned pcs)) p + count (mset (pc_owns pc)) p"
  unfolding owned_def using arg_cong[OF concat_update[OF assms], of "\<lambda>m. count m p" pc_owns pc] by simp

lemma owned_has: "i < length pcs \<Longrightarrow> pcs ! i = R_Reply p \<Longrightarrow> p \<in> set (owned pcs)"
  using nth_mem[of i pcs] by (force simp: owned_def)

lemma owned_length: "length (owned pcs) \<le> length pcs"
proof (induction pcs)
  case (Cons pc pcs)
  then show ?case by (cases pc) (simp_all add: owned_def)
qed (simp add: owned_def)

lemma owned_flag: "owners_ok ts pcs \<Longrightarrow> p \<in> set (owned pcs) \<longleftrightarrow> p < length ts \<and> rt_flag (ts ! p) = 1"
  unfolding owners_ok_def by (metis count_eq_zero_iff set_mset_mset zero_neq_one)

lemma queued_flag: "queue_ok q busy \<Longrightarrow> (p \<in> set (rq_mTaskQueue q) \<and> rt_flag (rq_tasks q ! p) = 1) = (p < length (rq_tasks q) \<and> rt_flag (rq_tasks q ! p) = 1)"
  by (cases "rt_flag (rq_tasks q ! p) = 1") (auto simp: queue_ok_def not_le[symmetric] intro: leI)

text \<open>A change of one task that is in nobody's way: a claim of a free task, or the release of a task by its owner.\<close>

lemma queue_update:
  assumes "queue_ok q busy" and "rt_flag (rq_tasks q ! p) \<noteq> 2"
  shows "queue_ok (q\<lparr>rq_tasks := (rq_tasks q)[p := t]\<rparr>) busy"
proof -
  obtain k where k: "k \<le> length (rq_tasks q)" "rq_mTaskQueue q = [k ..< length (rq_tasks q)]" "\<forall>p < k. rt_flag (rq_tasks q ! p) = 2"
    "busy \<longrightarrow> k < length (rq_tasks q) \<and> rt_flag (rq_tasks q ! k) = 2" using assms(1) unfolding queue_ok_def by blast
  then have "p \<ge> k" "busy \<longrightarrow> p \<noteq> k" using assms(2) by (metis not_le, blast)
  then show ?thesis unfolding queue_ok_def using k by (intro exI[of _ k]) auto
qed

lemma owners_update:
  assumes ok: "owners_ok ts pcs" and i: "i < length pcs" and p: "p < length ts"
    and own: "\<And>x. count (mset (pc_owns (pcs ! i))) x = (if x = p \<and> rt_flag (ts ! p) = 1 then 1 else 0)"
    and own': "\<And>x. count (mset (pc_owns pc)) x = (if x = p \<and> rt_flag t = 1 then 1 else 0)"
  shows "owners_ok (ts[p := t]) (pcs[i := pc])"
  unfolding owners_ok_def
proof
  fix x
  have "count (mset (owned (pcs[i := pc]))) x + (if x = p \<and> rt_flag (ts ! p) = 1 then 1 else 0)
      = (if x < length ts \<and> rt_flag (ts ! x) = 1 then 1 else 0) + (if x = p \<and> rt_flag t = 1 then 1 else 0)"
    using owned_count[OF i, of pc x] ok own[of x] own'[of x] by (simp add: owners_ok_def)
  then show "count (mset (owned (pcs[i := pc]))) x = (if x < length (ts[p := t]) \<and> rt_flag (ts[p := t] ! x) = 1 then 1 else 0)"
    using p by (cases "x = p") (auto split: if_splits)
qed

lemma owners_same: "owners_ok ts pcs \<Longrightarrow> i < length pcs \<Longrightarrow> pc_owns (pcs ! i) = [] \<Longrightarrow> pc_owns pc = [] \<Longrightarrow> owners_ok ts (pcs[i := pc])"
  using owned_count[of i pcs pc] by (simp add: owners_ok_def)

lemma scans_update:
  assumes "\<forall>pc \<in> set pcs. \<forall>p \<in> set (pc_scans pc). p < n" and "\<forall>p \<in> set (pc_scans pc'). p < n"
  shows "\<forall>pc \<in> set (pcs[i := pc']). \<forall>p \<in> set (pc_scans pc). p < n"
  using assms set_update_subset_insert[of pcs i pc'] by blast

text \<open>How a task that has been answered was answered.\<close>

lemma replyTask_answer:
  assumes "replyTask views leaderHint t = Inr (Some (out, t'))"
  obtains isCommitted where "waitTillCommittedOrQuit (rt_index t) (rt_term t) views = Inr (Some isCommitted)"
    "out = (case rt_handle t of None \<Rightarrow> [] | Some h \<Rightarrow>
       [if isCommitted then Reply h (ucast (rt_code t)) (rt_message t) (map_option of_nat leaderHint)
        else Reply h 301 ''NotLeaderAnyMore'' (map_option of_nat leaderHint)])"
    "rt_flag t' = 2" "rt_handle t' = rt_handle t"
proof (cases "waitTillCommittedOrQuit (rt_index t) (rt_term t) views")
  case (Inl f)
  then show ?thesis using assms by (simp add: replyTask_def)
next
  case (Inr r)
  show ?thesis
  proof (cases r)
    case None
    then show ?thesis using Inr assms by (simp add: replyTask_def)
  next
    case (Some isCommitted)
    then show ?thesis using Inr assms that[of isCommitted]
      by (cases isCommitted; cases "rt_handle t") (auto simp: replyTask_def Let_def)
  qed
qed

lemma replyTask_Some:
  assumes "replyTask views leaderHint t = Inr (Some (out, t'))"
  shows "rt_flag t' = 2 \<and> rt_handle t' = rt_handle t \<and> map replied_handle out = task_client t"
  by (rule replyTask_answer[OF assms]) (simp add: task_client_def split: option.split)

lemma reply_thread_preserves:
  assumes inv: "reply_inv y" and i: "i < length (ry_threads y)"
    and step: "replyThread_step views leaderHint (ry_threads y ! i) (ry_loop y) = Inr (pc, q, out)"
  shows "reply_inv (y\<lparr>ry_loop := q, ry_threads := (ry_threads y)[i := pc], ry_replies := ry_replies y @ out\<rparr>)"
proof -
  let ?q = "ry_loop y" and ?pcs = "ry_threads y"
  have w: "mset (map replied_handle (ry_replies y)) + mset (waiting_handles (rq_tasks ?q)) = mset (ry_pushed y)"
    and qok: "queue_ok ?q (ry_busy y)" and own: "owners_ok (rq_tasks ?q) ?pcs"
    and scans: "\<forall>pc \<in> set ?pcs. \<forall>p \<in> set (pc_scans pc). p < length (rq_tasks ?q)"
    using inv by (simp_all add: reply_inv_def)
  have here: "\<forall>p \<in> set (pc_scans (?pcs ! i)). p < length (rq_tasks ?q)" using scans nth_mem[OF i] by blast
  have queue: "\<forall>p \<in> set (rq_mTaskQueue ?q). p < length (rq_tasks ?q)" using qok by (auto simp: queue_ok_def)
  consider (quiet) "q = ?q" "out = []" "pc_owns (?pcs ! i) = pc_owns pc" "\<forall>p \<in> set (pc_scans pc). p < length (rq_tasks ?q)"
    | (claim) p ps where "?pcs ! i = R_Scan (p # ps)" "rt_flag (rq_tasks ?q ! p) = 0" "pc = R_Reply p" "out = []"
        "q = ?q\<lparr>rq_tasks := (rq_tasks ?q)[p := (rq_tasks ?q ! p)\<lparr>rt_flag := 1\<rparr>]\<rparr>"
    | (answer) p t where "?pcs ! i = R_Reply p" "replyTask views leaderHint (rq_tasks ?q ! p) = Inr (Some (out, t))" "pc = R_Top"
        "q = ?q\<lparr>rq_tasks := (rq_tasks ?q)[p := t]\<rparr>"
    using step here queue
    by (cases "?pcs ! i") (auto simp: replyThread_step_def res_bind_eq_Inr split: list.splits if_splits option.splits)
  then show ?thesis
  proof cases
    case quiet
    have "owners_ok (rq_tasks ?q) (?pcs[i := pc])" using own owned_count[OF i, of pc] quiet(3) by (simp add: owners_ok_def)
    then show ?thesis using inv quiet scans_update[OF scans quiet(4)] by (simp add: reply_inv_def)
  next
    case claim
    have p: "p < length (rq_tasks ?q)" using here claim(1) by simp
    have "owners_ok ((rq_tasks ?q)[p := (rq_tasks ?q ! p)\<lparr>rt_flag := 1\<rparr>]) (?pcs[i := pc])"
      by (rule owners_update[OF own i p]) (use claim in \<open>simp_all\<close>)
    moreover have "mset (waiting_handles (rq_tasks ?q)) = mset (waiting_handles ((rq_tasks ?q)[p := (rq_tasks ?q ! p)\<lparr>rt_flag := 1\<rparr>]))"
      using waiting_update[OF p, of "(rq_tasks ?q ! p)\<lparr>rt_flag := 1\<rparr>"] claim(2) by (simp add: task_client_def)
    ultimately show ?thesis using inv claim queue_update[OF qok, of p] scans_update[OF scans, of pc i] by (simp add: reply_inv_def)
  next
    case answer
    have p: "p < length (rq_tasks ?q)" "rt_flag (rq_tasks ?q ! p) = 1" using owned_flag[OF own] owned_has[OF i answer(1)] by auto
    note t = replyTask_Some[OF answer(2)]
    have "owners_ok ((rq_tasks ?q)[p := t]) (?pcs[i := pc])"
      by (rule owners_update[OF own i p(1)]) (use answer p t in \<open>simp_all\<close>)
    moreover have "mset (waiting_handles (rq_tasks ?q)) = mset (waiting_handles ((rq_tasks ?q)[p := t])) + mset (map replied_handle out)"
      using waiting_update[OF p(1), of t] p t by simp
    ultimately show ?thesis using inv answer p w queue_update[OF qok, of p] scans_update[OF scans, of pc i]
      by (simp add: reply_inv_def ac_simps)
  qed
qed

lemma push_preserves:
  assumes "reply_inv y"
  shows "reply_inv (y\<lparr>ry_loop := pushTask index trm handle code message (ry_loop y),
    ry_pushed := ry_pushed y @ (case handle of None \<Rightarrow> [] | Some h \<Rightarrow> [h])\<rparr>)"
proof -
  let ?q = "ry_loop y" and ?q' = "pushTask index trm handle code message (ry_loop y)"
  obtain k where k: "k \<le> length (rq_tasks ?q)" "rq_mTaskQueue ?q = [k ..< length (rq_tasks ?q)]" "\<forall>p < k. rt_flag (rq_tasks ?q ! p) = 2"
    "ry_busy y \<longrightarrow> k < length (rq_tasks ?q) \<and> rt_flag (rq_tasks ?q ! k) = 2" using assms unfolding reply_inv_def queue_ok_def by blast
  then have "queue_ok ?q' (ry_busy y)" unfolding queue_ok_def by (intro exI[of _ k]) (auto simp: pushTask_def nth_append)
  moreover have "owners_ok (rq_tasks ?q') (ry_threads y)"
    using assms by (auto simp: reply_inv_def owners_ok_def pushTask_def nth_append less_Suc_eq)
  moreover have "\<forall>pc \<in> set (ry_threads y). \<forall>p \<in> set (pc_scans pc). p < Suc (length (rq_tasks ?q))"
    using assms unfolding reply_inv_def by (blast intro: less_SucI)
  ultimately show ?thesis using assms by (simp add: reply_inv_def pushTask_def task_client_def ac_simps)
qed

lemma pop_preserves:
  assumes inv: "reply_inv y" and busy: "ry_busy y"
  shows "reply_inv (y\<lparr>ry_loop := pop_front (ry_loop y), ry_busy := False\<rparr>)"
proof -
  let ?q = "ry_loop y"
  obtain k where k: "rq_mTaskQueue ?q = [k ..< length (rq_tasks ?q)]" "\<forall>p < k. rt_flag (rq_tasks ?q ! p) = 2"
    "k < length (rq_tasks ?q)" "rt_flag (rq_tasks ?q ! k) = 2" using assms unfolding reply_inv_def queue_ok_def by blast
  then have "queue_ok (pop_front ?q) False"
    unfolding queue_ok_def by (intro exI[of _ "Suc k"]) (auto simp: pop_front_def less_Suc_eq)
  then show ?thesis using inv by (simp add: reply_inv_def pop_front_def)
qed

lemma pop_look_preserves:
  assumes "reply_inv y"
  shows "reply_inv (y\<lparr>ry_busy := pop_busy (ry_loop y)\<rparr>)"
proof -
  let ?q = "ry_loop y"
  obtain k where k: "k \<le> length (rq_tasks ?q)" "rq_mTaskQueue ?q = [k ..< length (rq_tasks ?q)]" "\<forall>p < k. rt_flag (rq_tasks ?q ! p) = 2"
    using assms unfolding reply_inv_def queue_ok_def by blast
  have "pop_busy ?q \<longrightarrow> k < length (rq_tasks ?q) \<and> rt_flag (rq_tasks ?q ! k) = 2"
    using k(1,2) by (cases "k < length (rq_tasks ?q)") (simp_all add: pop_busy_def upt_conv_Cons)
  then have "queue_ok ?q (pop_busy ?q)" unfolding queue_ok_def using k by blast
  then show ?thesis using assms by (simp add: reply_inv_def)
qed

lemma reply_step_preserves: "reply_step y y' \<Longrightarrow> reply_inv y \<Longrightarrow> reply_inv y'"
proof (induction rule: reply_step.induct)
  case (stop y)
  then show ?case by (simp add: reply_inv_def queue_ok_def)
qed (simp_all add: push_preserves reply_thread_preserves pop_look_preserves pop_preserves)

lemma reply_reachable_inv: "reply_step\<^sup>*\<^sup>* reply_start y \<Longrightarrow> reply_inv y"
proof (induction rule: rtranclp_induct)
  case base
  show ?case by (simp add: reply_inv_def reply_start_def reply_loop_new_def queue_ok_def owners_ok_def owned_def reply_concurrency_def numeral_2_eq_2)
next
  case (step y z)
  then show ?case using reply_step_preserves by blast
qed

lemma waiting_queued: "queue_ok q busy \<Longrightarrow> waiting_handles (queued_tasks q) = waiting_handles (rq_tasks q)"
proof -
  assume "queue_ok q busy"
  then obtain k where k: "k \<le> length (rq_tasks q)" "rq_mTaskQueue q = [k ..< length (rq_tasks q)]" "\<forall>p < k. rt_flag (rq_tasks q ! p) = 2"
    unfolding queue_ok_def by blast
  have "queued_tasks q = drop k (rq_tasks q)" unfolding queued_tasks_def k(2) by (rule nth_equalityI) auto
  moreover have "waiting_handles (take k (rq_tasks q)) = []"
    using k(1,3) by (auto simp: waiting_handles_def in_set_conv_nth)
  ultimately show ?thesis by (metis append_Nil append_take_drop_id waiting_simps(3))
qed

text \<open>
  C13. In every interleaving of the threads that push, claim, answer and pop, the replies made and the clients
  still waiting in the queue are together the clients handed in, counted with multiplicity: no client is
  answered twice and none is dropped, and when the queue has run empty every one has been answered. A reply
  thread answers the task it holds without looking at its flag; what keeps the answers apart is that no two
  threads hold the same task, and that the tasks held are the ones in the queue with the flag 1. The counter
  of pending replies is the length of the queue and at most two replies are in progress.
\<close>

theorem every_client_is_answered_once:
  assumes "reply_step\<^sup>*\<^sup>* reply_start y"
  shows "mset (map replied_handle (ry_replies y)) + mset (waiting_handles (queued_tasks (ry_loop y))) = mset (ry_pushed y)
    \<and> (rq_mTaskQueue (ry_loop y) = [] \<longrightarrow> mset (map replied_handle (ry_replies y)) = mset (ry_pushed y))
    \<and> distinct (owned (ry_threads y)) \<and> length (owned (ry_threads y)) \<le> 2
    \<and> (\<forall>p. p \<in> set (owned (ry_threads y)) \<longleftrightarrow> p \<in> set (rq_mTaskQueue (ry_loop y)) \<and> rt_flag (rq_tasks (ry_loop y) ! p) = 1)
    \<and> rq_mPendingReplyQueueSize (ry_loop y) = length (rq_mTaskQueue (ry_loop y))"
proof -
  let ?q = "ry_loop y" and ?pcs = "ry_threads y"
  have inv: "reply_inv y" by (rule reply_reachable_inv[OF assms])
  then have qok: "queue_ok ?q (ry_busy y)" and own: "owners_ok (rq_tasks ?q) ?pcs" by (simp_all add: reply_inv_def)
  have one: "mset (map replied_handle (ry_replies y)) + mset (waiting_handles (queued_tasks ?q)) = mset (ry_pushed y)"
    using inv waiting_queued[OF qok] by (simp add: reply_inv_def)
  moreover have "distinct (owned ?pcs)"
    unfolding distinct_count_atmost_1 using own owned_flag[OF own] by (simp add: owners_ok_def)
  moreover have "length (owned ?pcs) \<le> 2" using inv owned_length[of ?pcs] by (simp add: reply_inv_def reply_concurrency_def)
  moreover have "p \<in> set (owned ?pcs) \<longleftrightarrow> p \<in> set (rq_mTaskQueue ?q) \<and> rt_flag (rq_tasks ?q ! p) = 1" for p
    using queued_flag[OF qok, of p] owned_flag[OF own, of p] by blast
  moreover have "rq_mTaskQueue ?q = [] \<Longrightarrow> waiting_handles (queued_tasks ?q) = []" by (simp add: queued_tasks_def)
  ultimately show ?thesis using inv by (auto simp: reply_inv_def)
qed

text \<open>
  A client whose request is refused because the node has moved on to a later term: both threads go through
  the queue, the first claims the task, the second finds it taken.
\<close>

definition late_view :: commit_view where
  "late_view = \<lparr>cv_running = True, cv_reads = [(2, 3, 3), (3, 4, 3)], cv_commitIndex = 4, cv_entry = Inr None\<rparr>"

definition late_task :: reply_task where
  "late_task = \<lparr>rt_index = 5, rt_term = 2, rt_handle = Some 7, rt_code = 200, rt_message = ''Success'', rt_flag = 0\<rparr>"

definition late_sys :: "reply_task list \<Rightarrow> nat list \<Rightarrow> reply_pc list \<Rightarrow> bool \<Rightarrow> reply list \<Rightarrow> reply_sys" where
  "late_sys ts q pcs busy rs = \<lparr>ry_loop = \<lparr>rq_mRunning = True, rq_tasks = ts, rq_mTaskQueue = q, rq_mPendingReplyQueueSize = length q\<rparr>,
     ry_threads = pcs, ry_busy = busy, ry_pushed = [7], ry_replies = rs\<rparr>"

definition answered_sys :: reply_sys where
  "answered_sys = late_sys [late_task\<lparr>rt_code := 301, rt_message := ''NotLeaderAnyMore'', rt_flag := 2\<rparr>] [] [R_Top, R_Top] False
     [Reply 7 301 ''NotLeaderAnyMore'' (Some 2)]"

lemma late_thread_step:
  assumes "i < length pcs" and "replyThread_step [late_view] (Some 2) (pcs ! i) (ry_loop (late_sys ts q pcs busy rs))
      = Inr (pc, ry_loop (late_sys ts' q pcs busy rs), out)"
  shows "reply_step (late_sys ts q pcs busy rs) (late_sys ts' q (pcs[i := pc]) busy (rs @ out))"
  using reply_step.reply_thread[of i "late_sys ts q pcs busy rs" "[late_view]" "Some 2" pc "ry_loop (late_sys ts' q pcs busy rs)" out] assms
  by (simp add: late_sys_def)

lemma answered_reachable: "reply_step\<^sup>*\<^sup>* reply_start answered_sys"
proof -
  let ?t1 = "late_task\<lparr>rt_flag := 1\<rparr>" and ?t2 = "late_task\<lparr>rt_code := 301, rt_message := ''NotLeaderAnyMore'', rt_flag := 2\<rparr>"
  let ?r = "[Reply 7 301 ''NotLeaderAnyMore'' (Some 2)]"
  note defs = late_sys_def late_task_def replyThread_step_def replyTask_def late_view_def Let_def
  have 1: "reply_step reply_start (late_sys [late_task] [0] [R_Top, R_Top] False [])"
    using reply_step.push[where y = reply_start and index = 5 and trm = 2 and handle = "Some 7" and code = 200 and message = "''Success''"]
    by (simp add: reply_start_def reply_loop_new_def pushTask_def reply_concurrency_def numeral_2_eq_2 defs)
  have 2: "reply_step (late_sys [late_task] [0] [R_Top, R_Top] False []) (late_sys [late_task] [0] [R_Scan [0], R_Top] False [])"
    using late_thread_step[of 0 "[R_Top, R_Top]" "[late_task]" "[0]" False "[]" "R_Scan [0]" "[late_task]" "[]"] by (simp add: defs)
  have 3: "reply_step (late_sys [late_task] [0] [R_Scan [0], R_Top] False []) (late_sys [late_task] [0] [R_Scan [0], R_Scan [0]] False [])"
    using late_thread_step[of 1 "[R_Scan [0], R_Top]" "[late_task]" "[0]" False "[]" "R_Scan [0]" "[late_task]" "[]"] by (simp add: defs)
  have 4: "reply_step (late_sys [late_task] [0] [R_Scan [0], R_Scan [0]] False []) (late_sys [?t1] [0] [R_Reply 0, R_Scan [0]] False [])"
    using late_thread_step[of 0 "[R_Scan [0], R_Scan [0]]" "[late_task]" "[0]" False "[]" "R_Reply 0" "[?t1]" "[]"] by (simp add: defs)
  have 5: "reply_step (late_sys [?t1] [0] [R_Reply 0, R_Scan [0]] False []) (late_sys [?t1] [0] [R_Reply 0, R_Scan []] False [])"
    using late_thread_step[of 1 "[R_Reply 0, R_Scan [0]]" "[?t1]" "[0]" False "[]" "R_Scan []" "[?t1]" "[]"] by (simp add: defs)
  have 6: "reply_step (late_sys [?t1] [0] [R_Reply 0, R_Scan []] False []) (late_sys [?t1] [0] [R_Reply 0, R_Top] False [])"
    using late_thread_step[of 1 "[R_Reply 0, R_Scan []]" "[?t1]" "[0]" False "[]" R_Top "[?t1]" "[]"] by (simp add: defs)
  have 7: "reply_step (late_sys [?t1] [0] [R_Reply 0, R_Top] False []) (late_sys [?t2] [0] [R_Top, R_Top] False ?r)"
    using late_thread_step[of 0 "[R_Reply 0, R_Top]" "[?t1]" "[0]" False "[]" R_Top "[?t2]" ?r] by (simp add: defs)
  have 8: "reply_step (late_sys [?t2] [0] [R_Top, R_Top] False ?r) (late_sys [?t2] [0] [R_Top, R_Top] True ?r)"
    using reply_step.pop_look[of "late_sys [?t2] [0] [R_Top, R_Top] False ?r"] by (simp add: defs pop_busy_def)
  have 9: "reply_step (late_sys [?t2] [0] [R_Top, R_Top] True ?r) answered_sys"
    using reply_step.pop[of "late_sys [?t2] [0] [R_Top, R_Top] True ?r"] by (simp add: answered_sys_def pop_front_def late_sys_def)
  note join = converse_rtranclp_into_rtranclp[of reply_step]
  show ?thesis by (rule join[OF 1 join[OF 2 join[OF 3 join[OF 4 join[OF 5 join[OF 6 join[OF 7 join[OF 8 join[OF 9 rtranclp.rtrancl_refl]]]]]]]]])
qed

theorem every_client_is_answered_once_witness:
  "reply_step\<^sup>*\<^sup>* reply_start answered_sys \<and> mset (map replied_handle (ry_replies answered_sys)) = {#7#}
   \<and> rq_mPendingReplyQueueSize (ry_loop answered_sys) = 0"
  using every_client_is_answered_once[OF answered_reachable] answered_reachable by (simp add: answered_sys_def late_sys_def)

section \<open>What an answer says about the log\<close>

definition node_runs :: "'l log_ops \<Rightarrow> 'l raft_core \<Rightarrow> 'l raft_core \<Rightarrow> bool" where
  "node_runs ops r r' = (\<exists>acts out. raft_run ops acts r = Inr (r', out))"

text \<open>
  One round of the waiting loop reads while the node runs: the terms with the last index, then the commit
  index, then the entry. \<open>r\<close> is the node at any time after the last read.
\<close>

definition commit_read :: "'l log_ops \<Rightarrow> 'l raft_core \<Rightarrow> nat \<Rightarrow> commit_view \<Rightarrow> 'l raft_core \<Rightarrow> bool" where
  "commit_read ops r0 index v r =
     (\<exists>r1 r2. node_runs ops r0 r1 \<and> cv_commitIndex v = rc_mCommitIndex r1
        \<and> node_runs ops r1 r2 \<and> cv_entry v = raft_getEntry ops index r2 \<and> node_runs ops r2 r)"

lemma wait_result:
  "waitTillCommittedOrQuit index trm vs = Inr (Some b) \<Longrightarrow>
   \<exists>v \<in> set vs. \<not> b \<and> (\<not> cv_running v \<or> (\<exists>term1 lastLogIndex. read_term_last (cv_reads v) = Some (term1, lastLogIndex) \<and> lastLogIndex < index \<and> trm < term1))
     \<or> index \<le> cv_commitIndex v \<and> (\<exists>e. cv_entry v = Inr (Some e) \<and> b = (le_term e = trm))"
proof (induction vs)
  case (Cons v vs)
  show ?case
  proof (cases "waitTillCommittedOrQuit index trm vs = Inr (Some b)")
    case True
    then show ?thesis using Cons.IH by auto
  next
    case False
    then show ?thesis using Cons.prems
      by (auto simp: res_bind_def c_assert_def split: if_splits option.splits sum.splits prod.splits)
  qed
qed simp

context raft_log_reader
begin

lemma runs_moves: "node_ok ops invar r \<Longrightarrow> node_runs ops r r' \<Longrightarrow> moves ops invar contents r r'"
  unfolding node_runs_def using raft_run_moves by blast

lemma committed_entry_read:
  assumes ok: "node_ok ops invar r0" and read: "commit_read ops r0 index v r" and index: "0 < index" "index \<le> cv_commitIndex v"
    and e: "cv_entry v = Inr (Some e)" and first: "lo_getFirstLogIndex ops (rc_mLog r) \<le> index"
  shows "index \<le> rc_mCommitIndex r \<and> entry_at ops contents (rc_mLog r) index = e"
proof -
  obtain r1 r2 where r: "node_runs ops r0 r1" "cv_commitIndex v = rc_mCommitIndex r1" "node_runs ops r1 r2"
    "cv_entry v = raft_getEntry ops index r2" "node_runs ops r2 r" using read unfolding commit_read_def by blast
  have m1: "moves ops invar contents r0 r1" by (rule runs_moves[OF ok r(1)])
  then have m2: "moves ops invar contents r1 r2" using runs_moves[OF _ r(3)] by (simp add: moves_def)
  then have m3: "moves ops invar contents r2 r" using runs_moves[OF _ r(5)] by (simp add: moves_def)
  have ok2: "invar (rc_mLog r2)" "rc_mCommitIndex r2 \<le> lo_getLastLogIndex ops (rc_mLog r2)" using m2 by (simp_all add: moves_def node_ok_def)
  have com: "index \<le> rc_mCommitIndex r2" "rc_mCommitIndex r2 \<le> rc_mCommitIndex r" using m2 m3 index(2) r(2) by (simp_all add: moves_def advances_def)
  have "lo_getEntry ops index (rc_mLog r2) = Inr (Some e)" using e r(4) by (simp add: raft_getEntry_def res_bind_eq_Inr)
  then have "entry_at ops contents (rc_mLog r2) index = e"
    using getEntry_in[OF ok2(1) index(1)] ok2(2) com(1) by (auto simp: entry_at_def split: if_splits)
  moreover have "entry_at ops contents (rc_mLog r) index = entry_at ops contents (rc_mLog r2) index"
    using m3 com(1) first unfolding moves_def advances_def by blast
  ultimately show ?thesis using com by simp
qed

end

text \<open>
  C11. A client is told of success only for a committed entry. When the reply loop has dealt with a task on a
  node with a segment log, the client of the task, if it has one, has got one reply. Either it is the code
  and the message of the task, and then the index of the task is committed and, as long as the log still
  holds it, the entry there has the term of the task, also after any further steps of the node. Or it is 301
  \<^verbatim>\<open>NotLeaderAnyMore\<close>, and then the loop was shut down, or the node is in a later term with a log that ends
  before the index, or another entry than the one of that term is committed at the index, so that it never
  will be. In particular a reply 200 is only sent for a committed entry.
\<close>

theorem success_reply_means_committed:
  assumes "node_ok (seg_ops E) (seg_ok E DS MS) r0" and "\<forall>v \<in> set views. commit_read (seg_ops E) r0 (rt_index t) v r"
    and "replyTask views leaderHint t = Inr (Some (out, t'))" and "0 < rt_index t" and "sl_mFirstIndex (rc_mLog r) \<le> rt_index t"
  shows "\<exists>code message.
    out = (case rt_handle t of None \<Rightarrow> [] | Some h \<Rightarrow> [Reply h code message (map_option of_nat leaderHint)])
    \<and> (code = ucast (rt_code t) \<and> message = rt_message t
         \<and> rt_index t \<le> rc_mCommitIndex r
         \<and> le_term (seg_contents E (rc_mLog r) ! (rt_index t - sl_mFirstIndex (rc_mLog r))) = rt_term t
       \<or> code = 301 \<and> message = ''NotLeaderAnyMore''
         \<and> ((\<exists>v \<in> set views. \<not> cv_running v)
            \<or> (\<exists>v \<in> set views. \<exists>term1 lastLogIndex. read_term_last (cv_reads v) = Some (term1, lastLogIndex)
                 \<and> lastLogIndex < rt_index t \<and> rt_term t < term1)
            \<or> rt_index t \<le> rc_mCommitIndex r
                 \<and> le_term (seg_contents E (rc_mLog r) ! (rt_index t - sl_mFirstIndex (rc_mLog r))) \<noteq> rt_term t))
    \<and> (code = 200 \<longrightarrow> rt_index t \<le> rc_mCommitIndex r
         \<and> le_term (seg_contents E (rc_mLog r) ! (rt_index t - sl_mFirstIndex (rc_mLog r))) = rt_term t)"
proof -
  let ?e = "seg_contents E (rc_mLog r) ! (rt_index t - sl_mFirstIndex (rc_mLog r))"
  obtain isCommitted where wait: "waitTillCommittedOrQuit (rt_index t) (rt_term t) views = Inr (Some isCommitted)"
    and out: "out = (case rt_handle t of None \<Rightarrow> [] | Some h \<Rightarrow>
       [if isCommitted then Reply h (ucast (rt_code t)) (rt_message t) (map_option of_nat leaderHint)
        else Reply h 301 ''NotLeaderAnyMore'' (map_option of_nat leaderHint)])"
    by (rule replyTask_answer[OF assms(3)])
  have first: "lo_getFirstLogIndex (seg_ops E) (rc_mLog r) \<le> rt_index t" using assms(5) by (simp add: seg_ops_def)
  have at: "entry_at (seg_ops E) (seg_contents E) (rc_mLog r) (rt_index t) = ?e"
    by (simp add: entry_at_def seg_ops_def)
  have read: "rt_index t \<le> rc_mCommitIndex r \<and> ?e = e"
    if "v \<in> set views" "rt_index t \<le> cv_commitIndex v" "cv_entry v = Inr (Some e)" for v e
    using seg_reader.committed_entry_read[OF assms(1) _ assms(4) that(2,3) first] assms(2) that(1) at by auto
  show ?thesis
  proof (cases isCommitted)
    case True
    then have "rt_index t \<le> rc_mCommitIndex r \<and> le_term ?e = rt_term t" using wait_result[OF wait] read by blast
    then show ?thesis using True out by (intro exI[of _ "ucast (rt_code t)"] exI[of _ "rt_message t"]) (simp split: option.split)
  next
    case False
    then have "(\<exists>v \<in> set views. \<not> cv_running v)
      \<or> (\<exists>v \<in> set views. \<exists>term1 lastLogIndex. read_term_last (cv_reads v) = Some (term1, lastLogIndex) \<and> lastLogIndex < rt_index t \<and> rt_term t < term1)
      \<or> rt_index t \<le> rc_mCommitIndex r \<and> le_term ?e \<noteq> rt_term t" using wait_result[OF wait] read by blast
    then show ?thesis using False out by (intro exI[of _ 301] exI[of _ "''NotLeaderAnyMore''"]) (simp split: option.split)
  qed
qed

text \<open>A client whose entry is committed.\<close>

definition committed_task :: reply_task where
  "committed_task = \<lparr>rt_index = 2, rt_term = 2, rt_handle = Some 9, rt_code = 200, rt_message = ''Success'', rt_flag = 1\<rparr>"

theorem success_reply_means_committed_witness:
  "\<exists>DS maxLen l v. node_ok (seg_ops sample_env) (seg_ok sample_env DS 4096) (example_node maxLen l)
     \<and> commit_read (seg_ops sample_env) (example_node maxLen l) 2 v (example_node maxLen l)
     \<and> replyTask [v] None committed_task = Inr (Some ([Reply 9 200 ''Success'' None], committed_task\<lparr>rt_flag := 2\<rparr>))
     \<and> 2 \<le> rc_mCommitIndex (example_node maxLen l) \<and> le_term (seg_contents sample_env l ! (2 - sl_mFirstIndex l)) = 2"
proof -
  obtain DS maxLen l e where l: "start_ok example_store_env (seg_ops sample_env) (seg_ok sample_env DS 4096) (seg_contents sample_env) 0 (example_node maxLen l)"
     "seg_contents sample_env l = [e, example_noop]" "sl_mFirstIndex l = 1" "sl_mLastIndex l = 2"
    using example_log by blast
  let ?r = "example_node maxLen l" and ?t = "committed_task\<lparr>rt_flag := 2\<rparr>"
  have ok: "node_ok (seg_ops sample_env) (seg_ok sample_env DS 4096) ?r" using l(1) by (simp add: start_ok_def)
  define v where "v = \<lparr>cv_running = True, cv_reads = [(2, 2, 2)], cv_commitIndex = 2, cv_entry = raft_getEntry (seg_ops sample_env) 2 ?r\<rparr>"
  have "seg_ok sample_env DS 4096 l" using ok by (simp add: node_ok_def example_node_def)
  then have "lo_getEntry (seg_ops sample_env) 2 l = Inr (Some example_noop)"
    using seg_reader.getEntry_in[of sample_env DS 4096 l 2] l(2-4) by (simp add: seg_ops_def)
  then have wait: "waitTillCommittedOrQuit 2 2 [v] = Inr (Some True)" by (simp add: v_def raft_getEntry_def example_node_def)
  then have ans: "replyTask [v] None committed_task = Inr (Some ([Reply 9 200 ''Success'' None], ?t))"
    by (simp add: replyTask_def committed_task_def Let_def)
  have "node_runs (seg_ops sample_env) ?r ?r" unfolding node_runs_def by (intro exI[of _ "[]"]) simp
  moreover have "rc_mCommitIndex ?r = 2" by (simp add: example_node_def)
  ultimately have read: "commit_read (seg_ops sample_env) ?r 2 v ?r" unfolding commit_read_def by (intro exI[of _ ?r]) (simp add: v_def)
  have "2 \<le> rc_mCommitIndex ?r \<and> le_term (seg_contents sample_env l ! (2 - sl_mFirstIndex l)) = 2"
    using success_reply_means_committed[OF ok _ ans, of ?r] read l(3) by (auto simp: example_node_def committed_task_def)
  then show ?thesis using ok read ans by blast
qed

end
