(* ===== verification/Rocks_Store.thy ===== *)
theory Rocks_Store
  imports Ledger_State_Machine
begin

text \<open>
  The RocksDB-backed state machine, \<^verbatim>\<open>src/src/app_ledger/v2/RocksDBBackedAppStateMachine.cpp\<close>, and
  the state swap of \<^verbatim>\<open>MemoryBackedAppStateMachine.h\<close>: callbacks that append to a write batch,
  \<^verbatim>\<open>commit\<close>, \<^verbatim>\<open>flushToRocksDB\<close>, \<^verbatim>\<open>loadFromRocksDB\<close> and \<^verbatim>\<open>recoverSelf\<close>.

  RocksDB is a library: its operations are the fields of \<open>rocks_ops\<close>, over an abstract database
  \<open>'db\<close> and an abstract write batch \<open>'wb\<close>. \<open>rocks_contract\<close> states the documented behaviour the
  code relies on, in terms of what a database contains (\<open>dbv\<close>) and which puts a batch holds
  (\<open>wbv\<close>): a batch is applied atomically and in order, a read returns the latest put, an iterator
  visits each key once in increasing order. \<open>list_rocks\<close> is a family of functions that has it.
\<close>

section \<open>The database interface\<close>

datatype column_family = CF_DEFAULT | CF_CHART_OF_ACCOUNTS | CF_ACCOUNT_METADATA | CF_DONE_MAP

record ('db, 'wb) rocks_ops =
  rk_Get :: "'db \<Rightarrow> column_family \<Rightarrow> string \<Rightarrow> db_status"
  rk_Iterate :: "'db \<Rightarrow> column_family \<Rightarrow> (string \<times> string) list \<times> bool"
  rk_Write :: "'db \<Rightarrow> 'wb \<Rightarrow> 'db option"
  rk_Put :: "'wb \<Rightarrow> column_family \<Rightarrow> string \<Rightarrow> string \<Rightarrow> 'wb option"
  rk_Clear :: "'wb \<Rightarrow> 'wb"
  rk_Count :: "'wb \<Rightarrow> nat"

type_synonym put = "column_family \<times> string \<times> string"
type_synonym db_view = "column_family \<Rightarrow> string \<Rightarrow> string option"

definition apply_put :: "put \<Rightarrow> db_view \<Rightarrow> db_view" where
  "apply_put p f = f(fst p := (f (fst p))(fst (snd p) \<mapsto> snd (snd p)))"

definition apply_puts :: "put list \<Rightarrow> db_view \<Rightarrow> db_view" where
  "apply_puts ps f = fold apply_put ps f"

definition rocks_contract ::
  "('db, 'wb) rocks_ops \<Rightarrow> ('db \<Rightarrow> db_view) \<Rightarrow> ('wb \<Rightarrow> put list) \<Rightarrow> bool" where
  "rocks_contract R dbv wbv =
     ((\<forall>db cf k. rk_Get R db cf k =
         (case dbv db cf k of None \<Rightarrow> Status_NotFound | Some v \<Rightarrow> Status_Ok v))
      \<and> (\<forall>db cf. snd (rk_Iterate R db cf) \<and> smap_ok (fst (rk_Iterate R db cf))
           \<and> map_of (fst (rk_Iterate R db cf)) = dbv db cf)
      \<and> (\<forall>db wb. \<exists>db'. rk_Write R db wb = Some db' \<and> dbv db' = apply_puts (wbv wb) (dbv db))
      \<and> (\<forall>wb cf k v. \<exists>wb'. rk_Put R wb cf k v = Some wb' \<and> wbv wb' = wbv wb @ [(cf, k, v)])
      \<and> (\<forall>wb. wbv (rk_Clear R wb) = [])
      \<and> (\<forall>wb. rk_Count R wb = length (wbv wb)))"

section \<open>The RocksDB-backed machine\<close>

record ('db, 'wb) rocks_ext =
  rx_mRocksDB :: 'db
  rx_mWriteBatch :: 'wb
  rx_mLastFlushedIndex :: u64

definition kLastAppliedIndexKey :: string where
  "kLastAppliedIndexKey = ''last_applied_index''"

definition mMaxBatchSize :: u64 where
  "mMaxBatchSize = 500"

definition batch_put ::
  "('db, 'wb) rocks_ops \<Rightarrow> column_family \<Rightarrow> string \<Rightarrow> string \<Rightarrow> ('db, 'wb) rocks_ext
   \<Rightarrow> ('db, 'wb) rocks_ext res" where
  "batch_put R cf k v x =
     (case rk_Put R (rx_mWriteBatch x) cf k v of
        None \<Rightarrow> Inl Assertion
      | Some wb \<Rightarrow> Inr (x\<lparr>rx_mWriteBatch := wb\<rparr>))"

definition rocks_onAccountMetadataUpdated ::
  "('db, 'wb) rocks_ops \<Rightarrow> proto_wire \<Rightarrow> AccountMetadata \<Rightarrow> ('db, 'wb) rocks_ext
   \<Rightarrow> ('db, 'wb) rocks_ext res" where
  "rocks_onAccountMetadataUpdated R w md x =
     res_bind (AccountMetadata_encodeTo md pb_AccountMetadata_default) (\<lambda>p.
       batch_put R CF_ACCOUNT_METADATA (to_string (AccountType_int (md_mAccountType md)))
         (ser_AccountMetadata w p) x)"

definition rocks_onAccountInserted ::
  "('db, 'wb) rocks_ops \<Rightarrow> proto_wire \<Rightarrow> Account \<Rightarrow> ('db, 'wb) rocks_ext
   \<Rightarrow> ('db, 'wb) rocks_ext res" where
  "rocks_onAccountInserted R w a x =
     res_bind (Account_encodeTo a pb_Account_default) (\<lambda>p.
       batch_put R CF_CHART_OF_ACCOUNTS (to_string (unat (ac_mNominalCode a))) (ser_Account w p) x)"

definition rocks_onAccountUpdated ::
  "('db, 'wb) rocks_ops \<Rightarrow> proto_wire \<Rightarrow> Account \<Rightarrow> ('db, 'wb) rocks_ext
   \<Rightarrow> ('db, 'wb) rocks_ext res" where
  "rocks_onAccountUpdated R w a x =
     res_bind (Account_encodeTo a pb_Account_default) (\<lambda>p.
       batch_put R CF_CHART_OF_ACCOUNTS (to_string (unat (ac_mNominalCode a))) (ser_Account w p) x)"

definition rocks_onBookkeepingProcessed ::
  "('db, 'wb) rocks_ops \<Rightarrow> string \<Rightarrow> u64 \<Rightarrow> ('db, 'wb) rocks_ext \<Rightarrow> ('db, 'wb) rocks_ext res" where
  "rocks_onBookkeepingProcessed R dedupId validTime x =
     batch_put R CF_DONE_MAP dedupId (to_string (unat validTime)) x"

definition rocks_callbacks ::
  "('db, 'wb) rocks_ops \<Rightarrow> proto_wire \<Rightarrow> ('db, 'wb) rocks_ext callbacks" where
  "rocks_callbacks R w =
     \<lparr>onAccountInserted = rocks_onAccountInserted R w,
      onAccountMetadataUpdated = rocks_onAccountMetadataUpdated R w,
      onBookkeepingProcessed = rocks_onBookkeepingProcessed R,
      onAccountUpdated = rocks_onAccountUpdated R w\<rparr>"

definition flushToRocksDB ::
  "('db, 'wb) rocks_ops \<Rightarrow> ('db, 'wb) rocks_ext \<Rightarrow> ('db, 'wb) rocks_ext res" where
  "flushToRocksDB R x =
     (case rk_Write R (rx_mRocksDB x) (rx_mWriteBatch x) of
        None \<Rightarrow> Inl Assertion
      | Some db \<Rightarrow> Inr (x\<lparr>rx_mRocksDB := db, rx_mWriteBatch := rk_Clear R (rx_mWriteBatch x)\<rparr>))"

definition commit ::
  "('db, 'wb) rocks_ops \<Rightarrow> u64 \<Rightarrow> ('db, 'wb) rocks_ext \<Rightarrow> ('db, 'wb) rocks_ext res" where
  "commit R appliedIndex x =
     res_bind (batch_put R CF_DEFAULT kLastAppliedIndexKey (to_string (unat appliedIndex)) x) (\<lambda>x1.
       if appliedIndex - rx_mLastFlushedIndex x1 < mMaxBatchSize then Inr x1
       else res_bind (flushToRocksDB R x1) (\<lambda>x2. Inr (x2\<lparr>rx_mLastFlushedIndex := appliedIndex\<rparr>)))"

definition load_account ::
  "proto_wire \<Rightarrow> string \<times> string \<Rightarrow> (u64, Account) smap \<Rightarrow> (u64, Account) smap res" where
  "load_account w kv coa =
     res_bind (Account_initWith (parse_Account w (snd kv))) (\<lambda>a.
     res_bind (stoull (fst kv)) (\<lambda>code.
       if ac_mNominalCode a \<noteq> code then Inl Assertion
       else if map_of coa (ac_mNominalCode a) \<noteq> None then Inl Assertion
       else Inr (smap_put (ac_mNominalCode a) a coa)))"

definition load_metadata ::
  "proto_wire \<Rightarrow> string \<times> string \<Rightarrow> (AccountType, AccountMetadata) smap
   \<Rightarrow> (AccountType, AccountMetadata) smap res" where
  "load_metadata w kv m =
     res_bind (AccountMetadata_initWith (parse_AccountMetadata w (snd kv))) (\<lambda>d.
     res_bind (stoi (fst kv)) (\<lambda>i.
       if int (AccountType_int (md_mAccountType d)) \<noteq> i then Inl Assertion
       else if map_of m (md_mAccountType d) \<noteq> None then Inl Assertion
       else Inr (smap_put (md_mAccountType d) d m)))"

definition load_index :: "('db, 'wb) rocks_ops \<Rightarrow> 'db \<Rightarrow> u64 res" where
  "load_index R db =
     (case rk_Get R db CF_DEFAULT kLastAppliedIndexKey of
        Status_Ok v \<Rightarrow> stoull v
      | Status_NotFound \<Rightarrow> Inr 0
      | Status_Error msg \<Rightarrow> Inl Assertion)"

definition loadFromRocksDB ::
  "('db, 'wb) rocks_ops \<Rightarrow> proto_wire \<Rightarrow> ledger \<times> ('db, 'wb) rocks_ext
   \<Rightarrow> (ledger \<times> ('db, 'wb) rocks_ext) res" where
  "loadFromRocksDB R w sx =
     (let s = fst sx; x = snd sx; db = rx_mRocksDB x in
      res_bind (load_index R db) (\<lambda>idx.
      res_bind (fold_res (load_account w) (fst (rk_Iterate R db CF_CHART_OF_ACCOUNTS)) (mCoA s)) (\<lambda>coa.
      if \<not> snd (rk_Iterate R db CF_CHART_OF_ACCOUNTS) then Inl Assertion
      else
      res_bind (fold_res (load_metadata w) (fst (rk_Iterate R db CF_ACCOUNT_METADATA))
                  (mAccountMetadata s)) (\<lambda>md.
      if \<not> snd (rk_Iterate R db CF_ACCOUNT_METADATA) then Inl Assertion
      else Inr (s\<lparr>mCoA := coa, mAccountMetadata := md\<rparr>, x\<lparr>rx_mLastFlushedIndex := idx\<rparr>)))))"

definition recoverSelf ::
  "('db, 'wb) rocks_ops \<Rightarrow> proto_wire \<Rightarrow> ledger \<times> ('db, 'wb) rocks_ext
   \<Rightarrow> (u64 \<times> ledger \<times> ('db, 'wb) rocks_ext) res" where
  "recoverSelf R w sx =
     (if rk_Count R (rx_mWriteBatch (snd sx)) \<noteq> 0 then Inl Assertion
      else
        res_bind (loadFromRocksDB R w (clearState (fst sx), snd sx)) (\<lambda>(s, x).
          Inr (rx_mLastFlushedIndex x, s, x)))"

section \<open>The state swap\<close>

text \<open>
  \<^verbatim>\<open>MemoryBackedAppStateMachine::swapState\<close>. The memory-backed machine shares the pointer to the
  database, so it sees the flush, and keeps a snapshot: the contents of the database after it.
\<close>

record 'db memory_ext =
  mx_mRocksDB :: "'db option"
  mx_snapshot :: "'db option"

definition swapState ::
  "('db, 'wb) rocks_ops \<Rightarrow> ledger \<times> 'db memory_ext \<Rightarrow> ledger \<times> ('db, 'wb) rocks_ext
   \<Rightarrow> ((ledger \<times> 'db memory_ext) \<times> (ledger \<times> ('db, 'wb) rocks_ext)) res" where
  "swapState R mem another =
     res_bind (flushToRocksDB R (snd another)) (\<lambda>x.
       Inr ((fst another, (snd mem)\<lparr>mx_mRocksDB := Some (rx_mRocksDB x),
                                    mx_snapshot := Some (rx_mRocksDB x)\<rparr>),
            (fst mem, x)))"

text \<open>The dedup read of the two machines.\<close>

definition getDone_rocks :: "('db, 'wb) rocks_ops \<Rightarrow> ('db, 'wb) rocks_ext \<Rightarrow> string \<Rightarrow> db_status" where
  "getDone_rocks R x i = rk_Get R (rx_mRocksDB x) CF_DONE_MAP i"

definition getDone_snapshot :: "('db, 'wb) rocks_ops \<Rightarrow> 'db \<Rightarrow> string \<Rightarrow> db_status" where
  "getDone_snapshot R snapshot i = rk_Get R snapshot CF_DONE_MAP i"

section \<open>What the database and the batch say together\<close>

definition pending_view ::
  "('db \<Rightarrow> db_view) \<Rightarrow> ('wb \<Rightarrow> put list) \<Rightarrow> ('db, 'wb) rocks_ext \<Rightarrow> db_view" where
  "pending_view dbv wbv x = apply_puts (wbv (rx_mWriteBatch x)) (dbv (rx_mRocksDB x))"

definition account_bytes :: "proto_wire \<Rightarrow> Account \<Rightarrow> string" where
  "account_bytes w a =
     (case Account_encodeTo a pb_Account_default of Inl e \<Rightarrow> '''' | Inr p \<Rightarrow> ser_Account w p)"

definition metadata_bytes :: "proto_wire \<Rightarrow> AccountMetadata \<Rightarrow> string" where
  "metadata_bytes w d =
     (case AccountMetadata_encodeTo d pb_AccountMetadata_default of
        Inl e \<Rightarrow> '''' | Inr p \<Rightarrow> ser_AccountMetadata w p)"

definition coa_rows :: "proto_wire \<Rightarrow> (u64, Account) smap \<Rightarrow> (string \<times> string) list" where
  "coa_rows w = map (\<lambda>(k, a). (to_string (unat k), account_bytes w a))"

definition metadata_rows ::
  "proto_wire \<Rightarrow> (AccountType, AccountMetadata) smap \<Rightarrow> (string \<times> string) list" where
  "metadata_rows w = map (\<lambda>(t, d). (to_string (AccountType_int t), metadata_bytes w d))"

definition rocks_agrees ::
  "proto_wire \<Rightarrow> ('db \<Rightarrow> db_view) \<Rightarrow> ('wb \<Rightarrow> put list) \<Rightarrow> ledger \<Rightarrow> ('db, 'wb) rocks_ext \<Rightarrow> bool" where
  "rocks_agrees w dbv wbv s x =
     (pending_view dbv wbv x CF_CHART_OF_ACCOUNTS = map_of (coa_rows w (mCoA s))
      \<and> pending_view dbv wbv x CF_ACCOUNT_METADATA = map_of (metadata_rows w (mAccountMetadata s))
      \<and> (\<forall>i. map_of (mDoneMap s) i \<noteq> None \<longrightarrow> pending_view dbv wbv x CF_DONE_MAP i \<noteq> None))"

text \<open>A ledger that can be written and read back: every row is filed under its own key and can be encoded.\<close>

definition metadata_typed :: "(AccountType, AccountMetadata) smap \<Rightarrow> bool" where
  "metadata_typed m = (smap_ok m \<and> (\<forall>(t, d) \<in> set m. md_mAccountType d = t \<and> AccountMetadata_wf d))"

definition storable :: "ledger \<Rightarrow> bool" where
  "storable s = (coa_ok (mCoA s) \<and> metadata_typed (mAccountMetadata s))"

lemma ledger_ok_storable: "ledger_ok s \<Longrightarrow> storable s"
  by (auto simp: ledger_ok_def storable_def metadata_typed_def metadata_ok_def)

lemma contractD:
  assumes "rocks_contract R dbv wbv"
  shows "rk_Get R db cf k = (case dbv db cf k of None \<Rightarrow> Status_NotFound | Some v \<Rightarrow> Status_Ok v)"
    and "snd (rk_Iterate R db cf)" and "smap_ok (fst (rk_Iterate R db cf))"
    and "map_of (fst (rk_Iterate R db cf)) = dbv db cf"
    and "\<exists>db'. rk_Write R db wb = Some db' \<and> dbv db' = apply_puts (wbv wb) (dbv db)"
    and "\<exists>wb'. rk_Put R wb cf k v = Some wb' \<and> wbv wb' = wbv wb @ [(cf, k, v)]"
    and "wbv (rk_Clear R wb) = []" and "rk_Count R wb = length (wbv wb)"
  using assms unfolding rocks_contract_def by blast+

lemma apply_puts_append: "apply_puts (ps @ qs) f = apply_puts qs (apply_puts ps f)"
  by (simp add: apply_puts_def)

lemma batch_put_view:
  assumes "rocks_contract R dbv wbv"
  shows "\<exists>x'. batch_put R cf k v x = Inr x' \<and> rx_mRocksDB x' = rx_mRocksDB x
    \<and> rx_mLastFlushedIndex x' = rx_mLastFlushedIndex x
    \<and> wbv (rx_mWriteBatch x') = wbv (rx_mWriteBatch x) @ [(cf, k, v)]
    \<and> pending_view dbv wbv x' = (pending_view dbv wbv x)(cf := (pending_view dbv wbv x cf)(k \<mapsto> v))"
proof -
  obtain wb' where "rk_Put R (rx_mWriteBatch x) cf k v = Some wb'"
      "wbv wb' = wbv (rx_mWriteBatch x) @ [(cf, k, v)]"
    using contractD(6) [OF assms] by blast
  then show ?thesis
    by (simp add: batch_put_def pending_view_def apply_puts_append) (simp add: apply_puts_def apply_put_def)
qed

lemma Account_encode_bytes:
  assumes "Account_wf a"
  shows "\<exists>p. Account_encodeTo a pb_Account_default = Inr p \<and> account_bytes w a = ser_Account w p"
  using account_codec.enc_total [OF assms, of pb_Account_default] by (auto simp: account_bytes_def)

lemma AccountMetadata_encode_bytes:
  assumes "AccountMetadata_wf d"
  shows "\<exists>p. AccountMetadata_encodeTo d pb_AccountMetadata_default = Inr p
    \<and> metadata_bytes w d = ser_AccountMetadata w p"
  using metadata_codec.enc_total [OF assms, of pb_AccountMetadata_default]
  by (auto simp: metadata_bytes_def)

lemma map_of_rows_put:
  assumes "\<And>j k. (g j = g k) = (j = k)"
  shows "map_of (map (\<lambda>(k, v). (g k, f v)) (smap_put k v m))
         = (map_of (map (\<lambda>(k, v). (g k, f v)) m))(g k \<mapsto> f v)"
  using assms by (induction k v m rule: smap_put.induct) (auto simp: fun_eq_iff)

lemma unat_u64_inj: "(to_string (unat (j::u64)) = to_string (unat k)) = (j = k)"
  by (simp add: word_unat_eq_iff)

lemma coa_rows_put:
  "map_of (coa_rows w (smap_put k a m)) = (map_of (coa_rows w m))(to_string (unat k) \<mapsto> account_bytes w a)"
  unfolding coa_rows_def by (rule map_of_rows_put) (rule unat_u64_inj)

lemma metadata_rows_put:
  "map_of (metadata_rows w (smap_put t d m))
   = (map_of (metadata_rows w m))(to_string (AccountType_int t) \<mapsto> metadata_bytes w d)"
  unfolding metadata_rows_def by (rule map_of_rows_put) simp

text \<open>Under the contract the callbacks succeed and extend the batch by one put each.\<close>

lemma rocks_callback_views:
  assumes "rocks_contract R dbv wbv"
  shows "Account_wf a \<Longrightarrow> \<exists>x'. rocks_onAccountInserted R w a x = Inr x' \<and> pending_view dbv wbv x'
      = (pending_view dbv wbv x)(CF_CHART_OF_ACCOUNTS := (pending_view dbv wbv x CF_CHART_OF_ACCOUNTS)
          (to_string (unat (ac_mNominalCode a)) \<mapsto> account_bytes w a))"
    and "AccountMetadata_wf d \<Longrightarrow> \<exists>x'. rocks_onAccountMetadataUpdated R w d x = Inr x' \<and> pending_view dbv wbv x'
      = (pending_view dbv wbv x)(CF_ACCOUNT_METADATA := (pending_view dbv wbv x CF_ACCOUNT_METADATA)
          (to_string (AccountType_int (md_mAccountType d)) \<mapsto> metadata_bytes w d))"
    and "\<exists>x'. rocks_onBookkeepingProcessed R i t x = Inr x' \<and> pending_view dbv wbv x'
      = (pending_view dbv wbv x)(CF_DONE_MAP := (pending_view dbv wbv x CF_DONE_MAP)
          (i \<mapsto> to_string (unat t)))"
proof -
  show "\<exists>x'. rocks_onAccountInserted R w a x = Inr x' \<and> pending_view dbv wbv x'
      = (pending_view dbv wbv x)(CF_CHART_OF_ACCOUNTS := (pending_view dbv wbv x CF_CHART_OF_ACCOUNTS)
          (to_string (unat (ac_mNominalCode a)) \<mapsto> account_bytes w a))" if "Account_wf a"
    using Account_encode_bytes [OF that, of w] batch_put_view [OF assms]
    unfolding rocks_onAccountInserted_def by (metis res_bind_simps(1))
  show "\<exists>x'. rocks_onAccountMetadataUpdated R w d x = Inr x' \<and> pending_view dbv wbv x'
      = (pending_view dbv wbv x)(CF_ACCOUNT_METADATA := (pending_view dbv wbv x CF_ACCOUNT_METADATA)
          (to_string (AccountType_int (md_mAccountType d)) \<mapsto> metadata_bytes w d))"
    if "AccountMetadata_wf d"
    using AccountMetadata_encode_bytes [OF that, of w] batch_put_view [OF assms]
    unfolding rocks_onAccountMetadataUpdated_def by (metis res_bind_simps(1))
  show "\<exists>x'. rocks_onBookkeepingProcessed R i t x = Inr x' \<and> pending_view dbv wbv x'
      = (pending_view dbv wbv x)(CF_DONE_MAP := (pending_view dbv wbv x CF_DONE_MAP)
          (i \<mapsto> to_string (unat t)))"
    using batch_put_view [OF assms] unfolding rocks_onBookkeepingProcessed_def by metis
qed

lemma rocks_onAccountUpdated_same: "rocks_onAccountUpdated R w = rocks_onAccountInserted R w"
  by (simp add: fun_eq_iff rocks_onAccountUpdated_def rocks_onAccountInserted_def)

lemma rocks_callbacks_total:
  assumes "rocks_contract R dbv wbv"
  shows "callbacks_total (rocks_callbacks R w)"
  using rocks_callback_views [OF assms]
  unfolding callbacks_total_def rocks_callbacks_def by (simp add: rocks_onAccountUpdated_same) blast

section \<open>Applying events keeps database and memory in step\<close>

lemma storable_configured: "storable s \<Longrightarrow> AccountMetadata_wf d
    \<Longrightarrow> storable (s\<lparr>mAccountMetadata := smap_put (md_mAccountType d) d (mAccountMetadata s)\<rparr>)"
  by (auto simp: storable_def metadata_typed_def smap_ok_put dest!: smap_put_set)

lemma storable_created: "storable s \<Longrightarrow> Account_wf a \<Longrightarrow> storable (s\<lparr>mCoA := smap_put (ac_mNominalCode a) a (mCoA s)\<rparr>)"
  by (simp add: storable_def coa_ok_put)

lemma storable_line:
  assumes "apply_line cb l (s, x) = Inr (s', x')" and "storable s"
  shows "storable s'"
proof (rule apply_line_cases [OF assms(1)])
  fix a a'
  assume *: "map_of (mCoA s) (jl_mNominalCode l) = Some a"
    "(if jl_mTransactionType l = TT_Debit then Account_applyDebit (jl_mAmount l) a else Account_applyCredit (jl_mAmount l) a) = Inr a'"
    "s' = s\<lparr>mCoA := smap_put (jl_mNominalCode l) a' (mCoA s)\<rparr>"
  have "Account_applyDebit (jl_mAmount l) a = Inr a' \<or> Account_applyCredit (jl_mAmount l) a = Inr a'"
    using *(2) by (auto split: if_splits)
  then show "storable s'"
    using apply_amount_keeps(2,4) [of "jl_mAmount l" a a'] coa_ok_lookup [OF _ *(1)] assms(2) *(3)
    by (auto simp: storable_def intro!: coa_ok_put)
qed

lemma agrees_configured:
  assumes C: "rocks_contract R dbv wbv" and A: "rocks_agrees w dbv wbv s x" and wf: "AccountMetadata_wf d"
    and run: "apply_AccountMetadataConfigured (rocks_callbacks R w) d (s, x) = Inr (s', x')"
  shows "rocks_agrees w dbv wbv s' x'"
proof -
  obtain y where y: "rocks_onAccountMetadataUpdated R w d x = Inr y" "pending_view dbv wbv y
      = (pending_view dbv wbv x)(CF_ACCOUNT_METADATA := (pending_view dbv wbv x CF_ACCOUNT_METADATA)
          (to_string (AccountType_int (md_mAccountType d)) \<mapsto> metadata_bytes w d))"
    using rocks_callback_views(2) [OF C wf] by blast
  then have "x' = y" "s' = s\<lparr>mAccountMetadata := smap_put (md_mAccountType d) d (mAccountMetadata s)\<rparr>"
    using run by (simp_all add: apply_AccountMetadataConfigured_def rocks_callbacks_def)
  then show ?thesis using A y(2) by (simp add: rocks_agrees_def metadata_rows_put)
qed

lemma agrees_created:
  assumes C: "rocks_contract R dbv wbv" and A: "rocks_agrees w dbv wbv s x" and wf: "Account_wf a"
    and run: "apply_AccountCreated (rocks_callbacks R w) a (s, x) = Inr (s', x')"
  shows "rocks_agrees w dbv wbv s' x'"
proof -
  obtain y where y: "rocks_onAccountInserted R w a x = Inr y" "pending_view dbv wbv y
      = (pending_view dbv wbv x)(CF_CHART_OF_ACCOUNTS := (pending_view dbv wbv x CF_CHART_OF_ACCOUNTS)
          (to_string (unat (ac_mNominalCode a)) \<mapsto> account_bytes w a))"
    using rocks_callback_views(1) [OF C wf] by blast
  then have "x' = y" "s' = s\<lparr>mCoA := smap_put (ac_mNominalCode a) a (mCoA s)\<rparr>"
    using run by (simp_all add: apply_AccountCreated_def rocks_callbacks_def split: if_splits)
  then show ?thesis using A y(2) by (simp add: rocks_agrees_def coa_rows_put)
qed

lemma agrees_line:
  assumes C: "rocks_contract R dbv wbv" and A: "rocks_agrees w dbv wbv s x" and ok: "storable s"
    and run: "apply_line (rocks_callbacks R w) l (s, x) = Inr (s', x')"
  shows "rocks_agrees w dbv wbv s' x'"
proof -
  obtain a a' where *: "map_of (mCoA s) (jl_mNominalCode l) = Some a"
      "(if jl_mTransactionType l = TT_Debit then Account_applyDebit (jl_mAmount l) a
          else Account_applyCredit (jl_mAmount l) a) = Inr a'"
      "rocks_onAccountInserted R w a' x = Inr x'"
      "s' = s\<lparr>mCoA := smap_put (jl_mNominalCode l) a' (mCoA s)\<rparr>"
    using apply_line_cases [OF run]
    by (simp add: rocks_callbacks_def rocks_onAccountUpdated_same) blast
  have posted: "Account_applyDebit (jl_mAmount l) a = Inr a' \<or> Account_applyCredit (jl_mAmount l) a = Inr a'"
    using *(2) by (auto split: if_splits)
  have "Account_wf a'" "ac_mNominalCode a' = jl_mNominalCode l"
    using apply_amount_keeps(2,4) [OF posted] coa_ok_lookup [OF _ *(1)] ok by (auto simp: storable_def)
  with rocks_callback_views(1) [OF C this(1), of w x] *(3) have "pending_view dbv wbv x'
      = (pending_view dbv wbv x)(CF_CHART_OF_ACCOUNTS := (pending_view dbv wbv x CF_CHART_OF_ACCOUNTS)
          (to_string (unat (jl_mNominalCode l)) \<mapsto> account_bytes w a'))"
    by auto
  then show ?thesis using A *(4) by (simp add: rocks_agrees_def coa_rows_put)
qed

lemma agrees_lines:
  assumes C: "rocks_contract R dbv wbv"
  shows "fold_res (apply_line (rocks_callbacks R w)) ls (s, x) = Inr (s', x') \<Longrightarrow> storable s \<Longrightarrow>
    rocks_agrees w dbv wbv s x \<Longrightarrow> rocks_agrees w dbv wbv s' x' \<and> storable s'"
proof (induction ls arbitrary: s x)
  case (Cons l ls)
  then obtain t y where step: "apply_line (rocks_callbacks R w) l (s, x) = Inr (t, y)"
    and rest: "fold_res (apply_line (rocks_callbacks R w)) ls (t, y) = Inr (s', x')"
    by (auto simp: res_bind_eq_Inr)
  from Cons.IH [OF rest] storable_line [OF step] agrees_line [OF C _ _ step] Cons.prems
  show ?case by blast
qed simp

lemma agrees_recorded:
  assumes C: "rocks_contract R dbv wbv" and A: "rocks_agrees w dbv wbv s x" and ok: "storable s"
    and run: "apply_JournalEntryRecorded (rocks_callbacks R w) e (s, x) = Inr (s', x')"
  shows "rocks_agrees w dbv wbv s' x' \<and> storable s'"
proof -
  let ?s = "s\<lparr>mDoneMap := smap_put (je_mId e) (je_mValidTime e) (mDoneMap s)\<rparr>"
  obtain y where y: "rocks_onBookkeepingProcessed R (je_mId e) (je_mValidTime e) x = Inr y"
      "pending_view dbv wbv y = (pending_view dbv wbv x)(CF_DONE_MAP := (pending_view dbv wbv x CF_DONE_MAP)
          (je_mId e \<mapsto> to_string (unat (je_mValidTime e))))"
    using rocks_callback_views(3) [OF C] by blast
  then have "fold_res (apply_line (rocks_callbacks R w)) (je_mJournalLines e) (?s, y) = Inr (s', x')"
    using run by (simp add: apply_JournalEntryRecorded_def rocks_callbacks_def split: if_splits)
  moreover have "rocks_agrees w dbv wbv ?s y"
    using A y(2) by (auto simp: rocks_agrees_def map_of_smap_put)
  moreover have "storable ?s" using ok by (simp add: storable_def)
  ultimately show ?thesis using agrees_lines [OF C] by blast
qed

text \<open>The callbacks add to the batch and leave the database alone.\<close>

definition same_db :: "('db, 'wb) rocks_ext \<Rightarrow> ('db, 'wb) rocks_ext \<Rightarrow> bool" where
  "same_db x x' = (rx_mRocksDB x' = rx_mRocksDB x \<and> rx_mLastFlushedIndex x' = rx_mLastFlushedIndex x)"

lemma same_db_put: "batch_put R cf k v x = Inr x' \<Longrightarrow> same_db x x'"
  by (auto simp: batch_put_def same_db_def split: option.splits)

lemma same_db_callbacks:
  "onAccountInserted (rocks_callbacks R w) a x = Inr x' \<Longrightarrow> same_db x x'"
  "onAccountMetadataUpdated (rocks_callbacks R w) d x = Inr x' \<Longrightarrow> same_db x x'"
  "onBookkeepingProcessed (rocks_callbacks R w) i t x = Inr x' \<Longrightarrow> same_db x x'"
  "onAccountUpdated (rocks_callbacks R w) a x = Inr x' \<Longrightarrow> same_db x x'"
  by (auto simp: rocks_callbacks_def rocks_onAccountInserted_def rocks_onAccountMetadataUpdated_def rocks_onBookkeepingProcessed_def
      rocks_onAccountUpdated_def res_bind_eq_Inr dest: same_db_put)

lemma same_db_trans: "same_db x y \<Longrightarrow> same_db y z \<Longrightarrow> same_db x z"
  by (simp add: same_db_def)

lemma same_db_lines:
  "fold_res (apply_line (rocks_callbacks R w)) ls (s, x) = Inr (s', x') \<Longrightarrow> same_db x x'"
proof (induction ls arbitrary: s x)
  case (Cons l ls)
  then obtain t y where step: "apply_line (rocks_callbacks R w) l (s, x) = Inr (t, y)"
    and rest: "fold_res (apply_line (rocks_callbacks R w)) ls (t, y) = Inr (s', x')"
    by (auto simp: res_bind_eq_Inr)
  have "same_db x y" by (rule apply_line_cases [OF step]) (rule same_db_callbacks(4))
  then show ?case using Cons.IH [OF rest] same_db_trans by blast
qed (simp add: same_db_def)

lemma same_db_recorded:
  assumes "apply_JournalEntryRecorded (rocks_callbacks R w) e (s, x) = Inr (s', x')"
  shows "same_db x x'"
proof -
  obtain t y where "onBookkeepingProcessed (rocks_callbacks R w) (je_mId e) (je_mValidTime e) x = Inr y"
      "fold_res (apply_line (rocks_callbacks R w)) (je_mJournalLines e) (t, y) = Inr (s', x')"
    using assms by (auto simp: apply_JournalEntryRecorded_def res_bind_eq_Inr split: if_splits)
  then show ?thesis using same_db_callbacks(3) same_db_lines same_db_trans by blast
qed

text \<open>One event: database with batch follow the ledger, and what is in the database stays.\<close>

definition in_step ::
  "proto_wire \<Rightarrow> ('db \<Rightarrow> db_view) \<Rightarrow> ('wb \<Rightarrow> put list) \<Rightarrow> ('db, 'wb) rocks_ext app_state \<Rightarrow> bool" where
  "in_step w dbv wbv m = (rocks_agrees w dbv wbv (as_ledger m) (as_ext m) \<and> storable (as_ledger m))"

lemma applyEvent_dispatch:
  assumes "applyEvent cb groupId ev m = Inr m'"
  shows "ev_body ev = AccountMetadataConfiguredEvent v d \<Longrightarrow> m' = m
      \<or> (\<exists>s' x'. apply_AccountMetadataConfigured cb d (as_ledger m, as_ext m) = Inr (s', x') \<and> m' = m\<lparr>as_ledger := s', as_ext := x'\<rparr>)"
    and "ev_body ev = AccountCreatedEvent v a \<Longrightarrow> m' = m
      \<or> (\<exists>s' x'. apply_AccountCreated cb a (as_ledger m, as_ext m) = Inr (s', x') \<and> m' = m\<lparr>as_ledger := s', as_ext := x'\<rparr>)"
    and "ev_body ev = JournalEntryRecordedEvent v e \<Longrightarrow> m' = m
      \<or> (\<exists>s' x'. apply_JournalEntryRecorded cb e (as_ledger m, as_ext m) = Inr (s', x') \<and> m' = m\<lparr>as_ledger := s', as_ext := x'\<rparr>)"
    and "ev_body ev = SplitEvent r \<Longrightarrow> m' = m \<or> (\<exists>c. m' = m\<lparr>as_mCtrlState := c\<rparr>)"
  using assms by (simp_all add: applyEvent_def Let_def res_bind_eq_Inr split: if_splits) blast+

lemma configured_in_step:
  assumes C: "rocks_contract R dbv wbv" and A: "rocks_agrees w dbv wbv s x" and ok: "storable s" and d: "AccountMetadata_wf d"
    and run: "apply_AccountMetadataConfigured (rocks_callbacks R w) d (s, x) = Inr (s', x')"
  shows "rocks_agrees w dbv wbv s' x' \<and> storable s' \<and> same_db x x'"
proof -
  have "s' = s\<lparr>mAccountMetadata := smap_put (md_mAccountType d) d (mAccountMetadata s)\<rparr>" "same_db x x'"
    using run same_db_callbacks(2) by (auto simp: apply_AccountMetadataConfigured_def res_bind_eq_Inr)
  then show ?thesis using agrees_configured [OF C A d run] storable_configured [OF ok d] by simp
qed

lemma created_in_step:
  assumes C: "rocks_contract R dbv wbv" and A: "rocks_agrees w dbv wbv s x" and ok: "storable s" and a: "Account_wf a"
    and run: "apply_AccountCreated (rocks_callbacks R w) a (s, x) = Inr (s', x')"
  shows "rocks_agrees w dbv wbv s' x' \<and> storable s' \<and> same_db x x'"
proof -
  have "s' = s\<lparr>mCoA := smap_put (ac_mNominalCode a) a (mCoA s)\<rparr>" "same_db x x'"
    using run same_db_callbacks(1) by (auto simp: apply_AccountCreated_def res_bind_eq_Inr split: if_splits)
  then show ?thesis using agrees_created [OF C A a run] storable_created [OF ok a] by simp
qed

lemma event_in_step:
  assumes C: "rocks_contract R dbv wbv" and wf: "event_body_wf (ev_body ev)" and inv: "in_step w dbv wbv m"
    and run: "applyEvent (rocks_callbacks R w) groupId ev m = Inr m'"
  shows "in_step w dbv wbv m' \<and> same_db (as_ext m) (as_ext m')"
proof -
  have A: "rocks_agrees w dbv wbv (as_ledger m) (as_ext m)" and ok: "storable (as_ledger m)" using inv by (simp_all add: in_step_def)
  note to = applyEvent_dispatch [OF run]
  have quiet: ?thesis if "m' = m" using that inv by (simp add: in_step_def same_db_def)
  show ?thesis
  proof (cases "ev_body ev")
    case (AccountMetadataConfiguredEvent v d)
    then show ?thesis using to(1) quiet configured_in_step [OF C A ok, of d] wf by (auto simp: in_step_def)
  next
    case (AccountCreatedEvent v a)
    then show ?thesis using to(2) quiet created_in_step [OF C A ok, of a] wf by (auto simp: in_step_def)
  next
    case (JournalEntryRecordedEvent v e)
    then show ?thesis using to(3) quiet agrees_recorded [OF C A ok, of e] same_db_recorded by (fastforce simp: in_step_def)
  next
    case (SplitEvent r)
    then show ?thesis using to(4) inv by (auto simp: in_step_def same_db_def)
  qed
qed

section \<open>Recovery\<close>

text \<open>Every row is one of a given map's; loading inserts exactly the accounts of the visited rows.\<close>

lemma load_accounts:
  assumes W: "wire_ok w" and M: "coa_ok m"
  shows "\<lbrakk>smap_ok acc; distinct (map fst rows); set rows \<subseteq> set (coa_rows w m);
          \<forall>k. map_of acc k \<noteq> None \<longrightarrow> to_string (unat k) \<notin> fst ` set rows\<rbrakk> \<Longrightarrow>
     \<exists>acc'. fold_res (load_account w) rows acc = Inr acc' \<and> smap_ok acc'
       \<and> (\<forall>k. map_of acc' k = (if to_string (unat k) \<in> fst ` set rows then map_of m k else map_of acc k))"
proof (induction rows arbitrary: acc)
  case (Cons r rows)
  from Cons.prems(3) obtain k a where ka: "(k, a) \<in> set m" "r = (to_string (unat k), account_bytes w a)"
    by (auto simp: coa_rows_def)
  then have a: "ac_mNominalCode a = k" "Account_wf a" "map_of m k = Some a"
    using M smap_ok_distinct [of m] by (auto simp: coa_ok_def)
  obtain p where "Account_encodeTo a pb_Account_default = Inr p" "account_bytes w a = ser_Account w p"
    using Account_encode_bytes [OF a(2)] by blast
  then have "Account_initWith (parse_Account w (account_bytes w a)) = Inr a"
    using account_codec.dec_enc [OF a(2)] W by (simp add: wire_ok_simps)
  moreover have "map_of acc k = None" using Cons.prems(4) ka(2) by fastforce
  ultimately have step: "load_account w r acc = Inr (smap_put k a acc)"
    using ka(2) a(1) by (simp add: load_account_def)
  have "\<exists>acc'. fold_res (load_account w) rows (smap_put k a acc) = Inr acc' \<and> smap_ok acc'
     \<and> (\<forall>j. map_of acc' j = (if to_string (unat j) \<in> fst ` set rows then map_of m j
                             else map_of (smap_put k a acc) j))"
    using Cons.prems ka(2)
    by (intro Cons.IH) (auto simp: smap_ok_put map_of_smap_put split: if_splits)
  then obtain acc' where acc': "fold_res (load_account w) rows (smap_put k a acc) = Inr acc'"
      "smap_ok acc'" "\<forall>j. map_of acc' j = (if to_string (unat j) \<in> fst ` set rows then map_of m j
                             else map_of (smap_put k a acc) j)"
    by blast
  have "map_of acc' j = (if to_string (unat j) \<in> fst ` set (r # rows) then map_of m j else map_of acc j)" for j
    using acc'(3) ka(2) a(3) unat_u64_inj [of j k] by (cases "j = k") (auto simp: map_of_smap_put)
  then show ?case using step acc'(1,2) by auto
qed simp

lemma load_metadatas:
  assumes W: "wire_ok w" and M: "metadata_typed m"
  shows "\<lbrakk>smap_ok acc; distinct (map fst rows); set rows \<subseteq> set (metadata_rows w m);
          \<forall>t. map_of acc t \<noteq> None \<longrightarrow> to_string (AccountType_int t) \<notin> fst ` set rows\<rbrakk> \<Longrightarrow>
     \<exists>acc'. fold_res (load_metadata w) rows acc = Inr acc' \<and> smap_ok acc'
       \<and> (\<forall>t. map_of acc' t = (if to_string (AccountType_int t) \<in> fst ` set rows then map_of m t
                               else map_of acc t))"
proof (induction rows arbitrary: acc)
  case (Cons r rows)
  from Cons.prems(3) obtain t d where
    td: "(t, d) \<in> set m" "r = (to_string (AccountType_int t), metadata_bytes w d)"
    by (auto simp: metadata_rows_def)
  then have d: "md_mAccountType d = t" "AccountMetadata_wf d" "map_of m t = Some d"
    using M smap_ok_distinct [of m] by (auto simp: metadata_typed_def)
  obtain p where "AccountMetadata_encodeTo d pb_AccountMetadata_default = Inr p"
      "metadata_bytes w d = ser_AccountMetadata w p"
    using AccountMetadata_encode_bytes [OF d(2)] by blast
  then have "AccountMetadata_initWith (parse_AccountMetadata w (metadata_bytes w d)) = Inr d"
    using metadata_codec.dec_enc [OF d(2)] W by (simp add: wire_ok_simps)
  moreover have "stoi (to_string (AccountType_int t)) = Inr (int (AccountType_int t))"
    by (rule stoi_to_string) (cases t; simp)
  moreover have "map_of acc t = None" using Cons.prems(4) td(2) by fastforce
  ultimately have step: "load_metadata w r acc = Inr (smap_put t d acc)"
    using td(2) d(1) by (simp add: load_metadata_def)
  have "\<exists>acc'. fold_res (load_metadata w) rows (smap_put t d acc) = Inr acc' \<and> smap_ok acc'
     \<and> (\<forall>u. map_of acc' u = (if to_string (AccountType_int u) \<in> fst ` set rows then map_of m u
                             else map_of (smap_put t d acc) u))"
    using Cons.prems td(2)
    by (intro Cons.IH) (auto simp: smap_ok_put map_of_smap_put split: if_splits)
  then obtain acc' where acc': "fold_res (load_metadata w) rows (smap_put t d acc) = Inr acc'"
      "smap_ok acc'" "\<forall>u. map_of acc' u = (if to_string (AccountType_int u) \<in> fst ` set rows then map_of m u
                             else map_of (smap_put t d acc) u)"
    by blast
  have "map_of acc' u = (if to_string (AccountType_int u) \<in> fst ` set (r # rows) then map_of m u
      else map_of acc u)" for u
    using acc'(3) td(2) d(3) by (cases "u = t") (auto simp: map_of_smap_put)
  then show ?case using step acc'(1,2) by auto
qed simp

lemma rows_of_view:
  assumes "smap_ok rows" and "map_of rows = map_of rows'"
  shows "set rows \<subseteq> set rows'" and "fst ` set rows = fst ` set rows'" and "distinct (map fst rows)"
proof -
  show d: "distinct (map fst rows)" using assms(1) by (rule smap_ok_distinct)
  show "set rows \<subseteq> set rows'"
  proof
    fix r assume "r \<in> set rows"
    then have "map_of rows (fst r) = Some (snd r)"
      using map_of_is_SomeI [OF d, of "fst r" "snd r"] by simp
    then have "(fst r, snd r) \<in> set rows'" using assms(2) by (metis map_of_SomeD)
    then show "r \<in> set rows'" by simp
  qed
  show "fst ` set rows = fst ` set rows'" using assms(2) by (metis dom_map_of_conv_image_fst)
qed

lemma load_accounts_all:
  assumes "wire_ok w" and "coa_ok m" and "smap_ok rows" and "map_of rows = map_of (coa_rows w m)"
  shows "fold_res (load_account w) rows [] = Inr m"
proof -
  note r = rows_of_view [OF assms(3,4)]
  obtain acc where acc: "fold_res (load_account w) rows [] = Inr acc" "smap_ok acc"
      "\<forall>k. map_of acc k = (if to_string (unat k) \<in> fst ` set rows then map_of m k else None)"
    using load_accounts [OF assms(1,2), of "[]" rows] r by auto
  have "map_of acc k = map_of m k" for k
  proof (cases "map_of m k")
    case None
    then show ?thesis using acc(3) by simp
  next
    case (Some a)
    then have "(k, a) \<in> set m" by (rule map_of_SomeD)
    then have "to_string (unat k) \<in> fst ` set (coa_rows w m)" by (force simp: coa_rows_def)
    then show ?thesis using acc(3) r(2) by simp
  qed
  then have "acc = m" using acc(2) assms(2) by (intro smap_eqI) (auto simp: coa_ok_def)
  then show ?thesis using acc(1) by simp
qed

lemma load_metadatas_all:
  assumes "wire_ok w" and "metadata_typed m" and "smap_ok rows" and "map_of rows = map_of (metadata_rows w m)"
  shows "fold_res (load_metadata w) rows [] = Inr m"
proof -
  note r = rows_of_view [OF assms(3,4)]
  obtain acc where acc: "fold_res (load_metadata w) rows [] = Inr acc" "smap_ok acc"
      "\<forall>t. map_of acc t = (if to_string (AccountType_int t) \<in> fst ` set rows then map_of m t else None)"
    using load_metadatas [OF assms(1,2), of "[]" rows] r by auto
  have "map_of acc t = map_of m t" for t
  proof (cases "map_of m t")
    case None
    then show ?thesis using acc(3) by simp
  next
    case (Some d)
    then have "(t, d) \<in> set m" by (rule map_of_SomeD)
    then have "to_string (AccountType_int t) \<in> fst ` set (metadata_rows w m)"
      by (force simp: metadata_rows_def)
    then show ?thesis using acc(3) r(2) by simp
  qed
  then have "acc = m" using acc(2) assms(2) by (intro smap_eqI) (auto simp: metadata_typed_def)
  then show ?thesis using acc(1) by simp
qed

lemma flush_view:
  assumes "rocks_contract R dbv wbv"
  shows "\<exists>x'. flushToRocksDB R x = Inr x' \<and> dbv (rx_mRocksDB x') = pending_view dbv wbv x
    \<and> wbv (rx_mWriteBatch x') = [] \<and> rx_mLastFlushedIndex x' = rx_mLastFlushedIndex x
    \<and> pending_view dbv wbv x' = pending_view dbv wbv x"
  using contractD(5) [OF assms, of "rx_mRocksDB x" "rx_mWriteBatch x"] contractD(7) [OF assms]
  by (auto simp: flushToRocksDB_def pending_view_def apply_puts_def)

text \<open>What \<^verbatim>\<open>commit\<close> does: the index joins what is pending, and either nothing or all of it is written.\<close>

lemma commit_effect:
  assumes "rocks_contract R dbv wbv"
  shows "\<exists>x'. commit R i x = Inr x'
    \<and> pending_view dbv wbv x' = (pending_view dbv wbv x)(CF_DEFAULT :=
        (pending_view dbv wbv x CF_DEFAULT)(kLastAppliedIndexKey \<mapsto> to_string (unat i)))
    \<and> (if i - rx_mLastFlushedIndex x < mMaxBatchSize then same_db x x'
       else dbv (rx_mRocksDB x') = pending_view dbv wbv x' \<and> wbv (rx_mWriteBatch x') = [] \<and> rx_mLastFlushedIndex x' = i)"
proof -
  let ?v = "(pending_view dbv wbv x)(CF_DEFAULT :=
        (pending_view dbv wbv x CF_DEFAULT)(kLastAppliedIndexKey \<mapsto> to_string (unat i)))"
  obtain y where y: "batch_put R CF_DEFAULT kLastAppliedIndexKey (to_string (unat i)) x = Inr y"
      "pending_view dbv wbv y = ?v" "rx_mRocksDB y = rx_mRocksDB x"
      "rx_mLastFlushedIndex y = rx_mLastFlushedIndex x"
    using batch_put_view [OF assms] by blast
  show ?thesis
  proof (cases "i - rx_mLastFlushedIndex x < mMaxBatchSize")
    case True
    then show ?thesis using y by (simp add: commit_def same_db_def)
  next
    case False
    obtain z where z: "flushToRocksDB R y = Inr z" "dbv (rx_mRocksDB z) = ?v"
        "wbv (rx_mWriteBatch z) = []" "pending_view dbv wbv z = ?v"
      using flush_view [OF assms, of y] y(2) by auto
    then show ?thesis using False y by (simp add: commit_def pending_view_def)
  qed
qed

lemma recover_from_view:
  assumes C: "rocks_contract R dbv wbv" and W: "wire_ok w" and ok: "storable s"
    and A: "rocks_agrees w dbv wbv s x" and empty: "wbv (rx_mWriteBatch x) = []"
    and idx: "load_index R (rx_mRocksDB x) = Inr i"
  shows "recoverSelf R w (t, x) = Inr (i, s\<lparr>mDoneMap := []\<rparr>, x\<lparr>rx_mLastFlushedIndex := i\<rparr>)"
proof -
  let ?db = "rx_mRocksDB x"
  have view: "dbv ?db CF_CHART_OF_ACCOUNTS = map_of (coa_rows w (mCoA s))"
    "dbv ?db CF_ACCOUNT_METADATA = map_of (metadata_rows w (mAccountMetadata s))"
    using A empty by (simp_all add: rocks_agrees_def pending_view_def apply_puts_def)
  have "fold_res (load_account w) (fst (rk_Iterate R ?db CF_CHART_OF_ACCOUNTS)) [] = Inr (mCoA s)"
    using ok view(1) contractD(3,4) [OF C] by (intro load_accounts_all [OF W]) (simp_all add: storable_def)
  moreover have "fold_res (load_metadata w) (fst (rk_Iterate R ?db CF_ACCOUNT_METADATA)) []
      = Inr (mAccountMetadata s)"
    using ok view(2) contractD(3,4) [OF C] by (intro load_metadatas_all [OF W]) (simp_all add: storable_def)
  moreover note idx
  moreover have "rk_Count R (rx_mWriteBatch x) = 0" using contractD(8) [OF C] empty by simp
  ultimately show ?thesis using contractD(2) [OF C]
    by (cases s; cases t) (simp add: recoverSelf_def loadFromRocksDB_def Let_def clearState_def)
qed

text \<open>
  C21. What was committed is recovered. If database and batch agree with the ledger when index \<open>i\<close> is
  committed and the batch is flushed, a machine that restarts on that database, whatever its memory
  held, recovers index \<open>i\<close> and the same accounts and account metadata without failing an assertion;
  its done map is empty, yet every entry recorded before is still refused, because the dedup check
  reads the database.
\<close>

theorem recovery_restores_committed_state:
  assumes C: "rocks_contract R dbv wbv" and W: "wire_ok w" and ok: "ledger_ok s"
    and A: "rocks_agrees w dbv wbv s x"
    and commit: "commit R i x = Inr x1" and flush: "flushToRocksDB R x1 = Inr x2"
  shows "recoverSelf R w (t, x2) = Inr (i, s\<lparr>mDoneMap := []\<rparr>, x2\<lparr>rx_mLastFlushedIndex := i\<rparr>)
    \<and> (\<forall>e. map_of (mDoneMap s) (je_mId e) = None
        \<or> process_RecordJournalEntry (getDone_rocks R x2) now junk (s\<lparr>mDoneMap := []\<rparr>) (Some e)
          = Inr (hint JOURNAL_ENTRY_ALREADY_PROCESSED ''journal entry has already been processed'', []))"
proof -
  let ?v = "(pending_view dbv wbv x)(CF_DEFAULT := (pending_view dbv wbv x CF_DEFAULT)
      (kLastAppliedIndexKey \<mapsto> to_string (unat i)))"
  have "pending_view dbv wbv x1 = ?v" using commit_effect [OF C, of i x] commit by auto
  then have x2: "dbv (rx_mRocksDB x2) = ?v" "wbv (rx_mWriteBatch x2) = []" "pending_view dbv wbv x2 = ?v"
    using flush_view [OF C, of x1] flush by auto
  have A2: "rocks_agrees w dbv wbv s x2" using A x2(3) by (simp add: rocks_agrees_def)
  have "recoverSelf R w (t, x2) = Inr (i, s\<lparr>mDoneMap := []\<rparr>, x2\<lparr>rx_mLastFlushedIndex := i\<rparr>)"
    by (rule recover_from_view [OF C W ledger_ok_storable [OF ok] A2 x2(2)])
      (simp add: x2(1) load_index_def contractD(1) [OF C])
  moreover have "process_RecordJournalEntry (getDone_rocks R x2) now junk (s\<lparr>mDoneMap := []\<rparr>) (Some e)
      = Inr (hint JOURNAL_ENTRY_ALREADY_PROCESSED ''journal entry has already been processed'', [])"
    if "map_of (mDoneMap s) (je_mId e) \<noteq> None" for e
  proof -
    have "getDone_rocks R x2 (je_mId e) \<noteq> Status_NotFound"
      using A2 that x2 contractD(1) [OF C]
      by (auto simp: rocks_agrees_def getDone_rocks_def split: option.splits)
    then show ?thesis by (simp add: process_RecordJournalEntry_def)
  qed
  ultimately show ?thesis by blast
qed

section \<open>Operations with the contract exist\<close>

text \<open>
  A database as the list of all puts it ever received, a batch as the list of its puts.
\<close>

definition rows_of_puts :: "put list \<Rightarrow> column_family \<Rightarrow> (string, string) smap" where
  "rows_of_puts ps cf = fold (\<lambda>p. smap_put (fst (snd p)) (snd (snd p))) (filter (\<lambda>p. fst p = cf) ps) []"

definition list_rocks :: "(put list, put list) rocks_ops" where
  "list_rocks =
     \<lparr>rk_Get = \<lambda>db cf k. case map_of (rows_of_puts db cf) k of
                 None \<Rightarrow> Status_NotFound | Some v \<Rightarrow> Status_Ok v,
      rk_Iterate = \<lambda>db cf. (rows_of_puts db cf, True),
      rk_Write = \<lambda>db wb. Some (db @ wb),
      rk_Put = \<lambda>wb cf k v. Some (wb @ [(cf, k, v)]),
      rk_Clear = \<lambda>wb. [],
      rk_Count = length\<rparr>"

lemma rows_of_puts_snoc:
  "rows_of_puts (ps @ [p]) cf
   = (if fst p = cf then smap_put (fst (snd p)) (snd (snd p)) (rows_of_puts ps cf) else rows_of_puts ps cf)"
  by (simp add: rows_of_puts_def)

lemma rows_of_puts_view: "map_of (rows_of_puts ps cf) = apply_puts ps (\<lambda>_. Map.empty) cf"
proof (induction ps rule: rev_induct)
  case Nil
  then show ?case by (simp add: rows_of_puts_def apply_puts_def)
next
  case (snoc p ps)
  have "apply_puts (ps @ [p]) (\<lambda>_. Map.empty) = apply_put p (apply_puts ps (\<lambda>_. Map.empty))"
    by (simp add: apply_puts_def)
  then show ?case using snoc
    by (cases "fst p = cf") (simp_all add: rows_of_puts_snoc map_of_smap_put apply_put_def)
qed

lemma rows_of_puts_ok: "smap_ok (rows_of_puts ps cf)"
  by (induction ps rule: rev_induct) (simp_all add: rows_of_puts_snoc smap_ok_put, simp add: rows_of_puts_def)

lemma list_rocks_contract:
  "rocks_contract list_rocks (\<lambda>db. apply_puts db (\<lambda>_. Map.empty)) (\<lambda>wb. wb)"
  by (simp add: rocks_contract_def list_rocks_def rows_of_puts_ok rows_of_puts_view apply_puts_append)

text \<open>The example ledger of before, written to an empty database in one batch.\<close>

definition example_rocks :: "(put list, put list) rocks_ext" where
  "example_rocks =
     \<lparr>rx_mRocksDB = [],
      rx_mWriteBatch =
        [(CF_CHART_OF_ACCOUNTS, to_string 1, account_bytes code_wire (example_account 1 AT_Asset 105)),
         (CF_CHART_OF_ACCOUNTS, to_string 2, account_bytes code_wire (example_account 2 AT_Income 35)),
         (CF_DONE_MAP, ''e1'', to_string 10)],
      rx_mLastFlushedIndex = 0\<rparr>"

lemma example_rocks_agrees:
  "rocks_agrees code_wire (\<lambda>db. apply_puts db (\<lambda>_. Map.empty)) (\<lambda>wb. wb) example_ledger_after example_rocks"
  by (auto simp: rocks_agrees_def example_rocks_def example_ledger_after_def pending_view_def
      apply_puts_def apply_put_def coa_rows_def metadata_rows_def fun_eq_iff)

definition example_rocks_flushed :: "(put list, put list) rocks_ext" where
  "example_rocks_flushed =
     \<lparr>rx_mRocksDB = rx_mWriteBatch example_rocks @ [(CF_DEFAULT, kLastAppliedIndexKey, to_string 9)],
      rx_mWriteBatch = [], rx_mLastFlushedIndex = 0\<rparr>"

theorem recovery_restores_committed_state_witness:
  "recoverSelf list_rocks code_wire (empty_ledger, example_rocks_flushed)
   = Inr (9, example_ledger_after\<lparr>mDoneMap := []\<rparr>, example_rocks_flushed\<lparr>rx_mLastFlushedIndex := 9\<rparr>)"
proof -
  have ok: "ledger_ok example_ledger_after"
    by (simp add: ledger_ok_def example_ledger_after_def coa_ok_def metadata_ok_def smap_ok_def
        example_account_def wf_defs)
  have commit: "commit list_rocks 9 example_rocks
      = Inr (example_rocks\<lparr>rx_mWriteBatch := rx_mWriteBatch example_rocks
               @ [(CF_DEFAULT, kLastAppliedIndexKey, to_string 9)]\<rparr>)"
    by (simp add: commit_def batch_put_def list_rocks_def example_rocks_def mMaxBatchSize_def)
  have flush: "flushToRocksDB list_rocks (example_rocks\<lparr>rx_mWriteBatch := rx_mWriteBatch example_rocks
               @ [(CF_DEFAULT, kLastAppliedIndexKey, to_string 9)]\<rparr>) = Inr example_rocks_flushed"
    by (simp add: flushToRocksDB_def list_rocks_def example_rocks_def example_rocks_flushed_def)
  from recovery_restores_committed_state [OF list_rocks_contract code_wire_ok ok example_rocks_agrees
      commit flush, of empty_ledger 0 example_event_meta]
  show ?thesis by blast
qed

section \<open>Batching\<close>

text \<open>
  C22. \<^verbatim>\<open>commit\<close> always records the applied index, and writes to the database only when the index
  is at least 500 past the last flushed one (in unsigned arithmetic): then the database holds
  everything that was pending, the index included, the batch is empty and the last flushed index is
  the applied one; otherwise database and last flushed index are untouched.
\<close>

theorem commit_flushes_in_batches:
  assumes "rocks_contract R dbv wbv"
  shows "\<exists>x'. commit R i x = Inr x'
    \<and> pending_view dbv wbv x' = (pending_view dbv wbv x)(CF_DEFAULT :=
        (pending_view dbv wbv x CF_DEFAULT)(kLastAppliedIndexKey \<mapsto> to_string (unat i)))
    \<and> (if i - rx_mLastFlushedIndex x < 500
       then rx_mRocksDB x' = rx_mRocksDB x \<and> rx_mLastFlushedIndex x' = rx_mLastFlushedIndex x
       else dbv (rx_mRocksDB x') = pending_view dbv wbv x' \<and> wbv (rx_mWriteBatch x') = []
         \<and> rx_mLastFlushedIndex x' = i)"
  using commit_effect [OF assms, of i x] by (auto simp: mMaxBatchSize_def same_db_def)

theorem commit_flushes_in_batches_witness:
  "\<exists>x'. commit list_rocks 500 example_rocks = Inr x' \<and> rx_mWriteBatch x' = [] \<and> rx_mLastFlushedIndex x' = 500"
  using commit_flushes_in_batches [OF list_rocks_contract, of 500 example_rocks]
  by (auto simp: example_rocks_def)

definition example_rocks_machine :: "(put list, put list) rocks_ext app_state" where
  "example_rocks_machine =
     \<lparr>as_ledger = example_ledger, as_mCtrlState = CtrlState_new 0 0, as_ext = example_rocks\<rparr>"

end
