(* ===== verification/Process_Loops.thy ===== *)
theory Process_Loops
  imports Raft_Reply Rocks_Store
begin

text \<open>
  The two loops of a replica. \<^verbatim>\<open>src/src/app_util/EventApplyLoop.h\<close> applies committed events to a state
  machine backed by RocksDB; \<^verbatim>\<open>src/src/app_util/CommandProcessLoop.h\<close> takes the commands of the clients while
  the replica is the leader, with a state machine in memory it takes over from the apply loop. The ledger
  adds \<^verbatim>\<open>processCommand\<close> in
  \<^verbatim>\<open>src/src/app_ledger/should_be_generated/domain/CommandProcessLoop.hpp\<close>.

  Here the reader, the Raft node, the state machines and the writing half of the event store come together;
  the last section is about restarting after a crash.
\<close>

section \<open>EventApplyLoop\<close>

text \<open>The loop with the state machine the application uses, which is backed by RocksDB.\<close>

record ('db, 'wb) event_loop =
  el_mReadonlyCommandEventStore :: readonly_store
  el_mShouldExit :: bool
  el_mShouldRecover :: bool
  el_mAppStateMachine :: "('db, 'wb) rocks_ext app_state"
  el_mLastAppliedLogEntryIndex :: nat

text \<open>What is outside: RocksDB, the generated messages, the store and the id of the cluster.\<close>

record ('db, 'wb, 'c) loop_env =
  lv_rocks :: "('db, 'wb) rocks_ops"
  lv_store :: "'c store_env"
  lv_groupId :: u64

definition EventLoop_shutdown :: "('db, 'wb) event_loop \<Rightarrow> ('db, 'wb) event_loop" where
  "EventLoop_shutdown s = s\<lparr>el_mShouldExit := True\<rparr>"

definition EventLoop_truncatePrefix :: "'l log_ops \<Rightarrow> nat \<Rightarrow> 'l raft_core \<Rightarrow> 'l raft_core res" where
  "EventLoop_truncatePrefix ops offsetKept raft = ro_truncatePrefix ops offsetKept raft"

definition lastApplied :: "('db, 'wb) event_loop \<Rightarrow> nat" where
  "lastApplied s = el_mLastAppliedLogEntryIndex s"

text \<open>The state machine of the command loop, with the ledger and the database taken over.\<close>

definition swapStateAndTeardown ::
  "('db, 'wb, 'c) loop_env \<Rightarrow> 'db memory_ext app_state \<Rightarrow> ('db, 'wb) event_loop
   \<Rightarrow> ('db memory_ext app_state \<times> ('db, 'wb) event_loop) res" where
  "swapStateAndTeardown E target s =
     (let m = el_mAppStateMachine s in
      res_bind (swapState (lv_rocks E) (as_ledger target, as_ext target) (as_ledger m, as_ext m))
        (\<lambda>((tl, tx), (ml, mx)).
          Inr (target\<lparr>as_ledger := tl, as_ext := tx\<rparr>,
               s\<lparr>el_mAppStateMachine := m\<lparr>as_ledger := ml, as_ext := mx\<rparr>,
                 el_mReadonlyCommandEventStore := ro_teardown (el_mReadonlyCommandEventStore s), el_mShouldRecover := True\<rparr>)))"

definition EventLoop_recoverSelf :: "('db, 'wb, 'c) loop_env \<Rightarrow> ('db, 'wb) event_loop \<Rightarrow> ('db, 'wb) event_loop res" where
  "EventLoop_recoverSelf E s =
     (let m = el_mAppStateMachine s in
      res_bind (recoverSelf (lv_rocks E) (st_wire (lv_store E)) (as_ledger m, as_ext m))
        (\<lambda>(index, l, x).
          res_bind (setCurrentOffset (unat index) (el_mReadonlyCommandEventStore s))
            (\<lambda>ro. Inr (s\<lparr>el_mAppStateMachine := m\<lparr>as_ledger := l, as_ext := x\<rparr>, el_mLastAppliedLogEntryIndex := unat index,
                          el_mReadonlyCommandEventStore := ro_init ro, el_mShouldRecover := False\<rparr>))))"

definition rocks_machine_apply ::
  "('db, 'wb, 'c) loop_env \<Rightarrow> Event option \<Rightarrow> ('db, 'wb) rocks_ext app_state \<Rightarrow> ('db, 'wb) rocks_ext app_state res" where
  "rocks_machine_apply E ev m =
     (case ev of
        None \<Rightarrow> Inl Bad_Access
      | Some e \<Rightarrow> applyEvent (rocks_callbacks (lv_rocks E) (st_wire (lv_store E))) (lv_groupId E) e m)"

text \<open>Applying the events of one command and committing its id.\<close>

definition apply_bundle ::
  "('db, 'wb, 'c) loop_env \<Rightarrow> command_events \<Rightarrow> ('db, 'wb) rocks_ext app_state \<Rightarrow> ('db, 'wb) rocks_ext app_state res" where
  "apply_bundle E b m =
     res_bind (fold_res (rocks_machine_apply E) (snd b) m)
       (\<lambda>m1.
         case fst b of
           None \<Rightarrow> Inl Bad_Access
         | Some c \<Rightarrow>
             res_bind (commit (lv_rocks E) (mt_mId (cmd_mMetaData c)) (as_ext m1)) (\<lambda>x. Inr (m1\<lparr>as_ext := x\<rparr>)))"

definition EventLoop_round ::
  "('db, 'wb, 'c) loop_env \<Rightarrow> 'l log_ops \<Rightarrow> 'l raft_core \<Rightarrow> ('db, 'wb) event_loop \<Rightarrow> ('db, 'wb) event_loop res" where
  "EventLoop_round E ops raft s =
     res_bind (if el_mShouldRecover s then EventLoop_recoverSelf E s else Inr s)
       (\<lambda>s1. res_bind (loadNextCommandEvents (lv_store E) ops raft (el_mReadonlyCommandEventStore s1))
         (\<lambda>(r, ro).
           case r of
             None \<Rightarrow> Inr (s1\<lparr>el_mReadonlyCommandEventStore := ro\<rparr>)
           | Some b \<Rightarrow>
               res_bind (apply_bundle E b (el_mAppStateMachine s1))
                 (\<lambda>m. Inr (s1\<lparr>el_mReadonlyCommandEventStore := ro, el_mAppStateMachine := m,
                              el_mLastAppliedLogEntryIndex := bundle_id b\<rparr>))))"

section \<open>CommandProcessLoop\<close>

record 'db command_loop =
  cl_mShouldExit :: bool
  cl_mAppStateMachine :: "'db memory_ext app_state"
  cl_mLastCommandId :: u64
  cl_mCommandEventStore :: event_store

definition CommandLoop_shutdown :: "'db command_loop \<Rightarrow> 'db command_loop" where
  "CommandLoop_shutdown s = s\<lparr>cl_mShouldExit := True\<rparr>"

definition set_command_id :: "u64 \<Rightarrow> Command \<Rightarrow> Command" where
  "set_command_id i c = c\<lparr>cmd_mMetaData := (cmd_mMetaData c)\<lparr>mt_mId := i\<rparr>\<rparr>"

text \<open>
  The lookup of a journal entry in the database: before the first swap of states there is none, and a
  command that gets as far as the lookup follows a null pointer.
\<close>

definition asks_database :: "Command \<Rightarrow> 'db memory_ext app_state \<Rightarrow> bool" where
  "asks_database c m =
     (mt_mType (cmd_mMetaData c) = RECORD_JOURNAL_ENTRY_COMMAND
      \<and> (case cmd_body c of RecordJournalEntryCommand r (Some e) \<Rightarrow> map_of (mDoneMap (as_ledger m)) (je_mId e) = None | _ \<Rightarrow> False))"

definition memory_machine_process ::
  "('db, 'wb, 'c) loop_env \<Rightarrow> u64 \<Rightarrow> EventMetaData \<Rightarrow> Command \<Rightarrow> 'db memory_ext app_state
   \<Rightarrow> (ProcessHint \<times> Event list \<times> 'db memory_ext app_state) res" where
  "memory_machine_process E now junk c m =
     (case mx_snapshot (as_ext m) of
        Some d \<Rightarrow> processCommandAndApply (getDone_snapshot (lv_rocks E) d) no_callbacks (lv_groupId E) now junk c m
      | None \<Rightarrow>
          if asks_database c m then Inl Bad_Access
          else processCommandAndApply (\<lambda>_. Status_NotFound) no_callbacks (lv_groupId E) now junk c m)"

definition loop_processCommand ::
  "('db, 'wb, 'c) loop_env \<Rightarrow> u64 \<Rightarrow> EventMetaData \<Rightarrow> Command \<Rightarrow> 'db command_loop \<Rightarrow> 'db command_loop res" where
  "loop_processCommand E now junk command s =
     (let c1 = set_command_id (cl_mLastCommandId s) command in
      res_bind (memory_machine_process E now junk c1 (cl_mAppStateMachine s))
        (\<lambda>(h, events, m).
          if events = [] then
            res_bind (EventStore_persistAsync (lv_store E) c1 [] (ph_mCode h) (ph_mMessage h) (cl_mCommandEventStore s))
              (\<lambda>es. Inr (s\<lparr>cl_mAppStateMachine := m, cl_mCommandEventStore := es\<rparr>))
          else
            let i = cl_mLastCommandId s + 1 in
            res_bind (EventStore_persistAsync (lv_store E) (set_command_id i c1) events (ph_mCode h) (ph_mMessage h) (cl_mCommandEventStore s))
              (\<lambda>es. Inr (s\<lparr>cl_mAppStateMachine := m, cl_mLastCommandId := i, cl_mCommandEventStore := es\<rparr>))))"

text \<open>\<open>ret\<close> is what waiting for the apply loop returned.\<close>

definition onBecomeLeader ::
  "('db, 'wb, 'c) loop_env \<Rightarrow> u64 \<Rightarrow> u64 \<Rightarrow> EventMetaData \<Rightarrow> nat option \<Rightarrow> nat \<Rightarrow> Command \<Rightarrow> 'db command_loop \<Rightarrow> ('db, 'wb) event_loop
   \<Rightarrow> (reply list \<times> 'db command_loop \<times> ('db, 'wb) event_loop) res" where
  "onBecomeLeader E readyTime now junk leaderHint ret command s eal =
     (if ret = 0 then
        Inr (Command_onPersistFailed command 301 ''Not a leader any longer'' (map_option of_nat leaderHint), s, eal)
      else
        res_bind (swapStateAndTeardown E (cl_mAppStateMachine s) eal)
          (\<lambda>(m, eal1).
            let s1 = s\<lparr>cl_mLastCommandId := of_nat ret, cl_mAppStateMachine := m\<rparr>;
                c1 = command\<lparr>cmd_mMetaData := (cmd_mMetaData command)\<lparr>mt_mLeaderReadyTimeInNanos := readyTime\<rparr>\<rparr> in
            res_bind (loop_processCommand E now junk c1 s1) (\<lambda>s2. Inr ([], s2, eal1))))"

text \<open>
  One round of \<^verbatim>\<open>runDistributed\<close> with a command it dequeued: \<open>reads\<close> is what detecting a transition reads of the
  node, \<open>views\<close> what waiting for leadership reads. \<open>None\<close>: one of the two has not returned.
\<close>

definition runDistributed_round ::
  "('db, 'wb, 'c) loop_env \<Rightarrow> u64 \<Rightarrow> u64 \<Rightarrow> u64 \<Rightarrow> EventMetaData \<Rightarrow> nat option \<Rightarrow> (nat \<times> RaftRole \<times> nat) list \<Rightarrow> ready_view list \<Rightarrow> Command
   \<Rightarrow> 'db command_loop \<Rightarrow> ('db, 'wb) event_loop \<Rightarrow> (reply list \<times> 'db command_loop \<times> ('db, 'wb) event_loop) option res" where
  "runDistributed_round E startTime readyTime now junk leaderHint reads views command s eal =
     (let c = command\<lparr>cmd_mMetaData := (cmd_mMetaData command)\<lparr>mt_mProcessTimeInNanos := startTime\<rparr>\<rparr> in
      res_bind (detectTransition reads (cl_mCommandEventStore s))
        (\<lambda>r. case r of
           None \<Rightarrow> Inr None
         | Some (transition, es) \<Rightarrow>
             let s1 = s\<lparr>cl_mCommandEventStore := es\<rparr> in
             if transition = OldLeaderToNewLeader \<or> transition = FollowerToLeader then
               res_bind (waitTillLeaderIsReadyOrStepDown (EventStore_getCurrentTerm es) views)
                 (\<lambda>ready. case ready of
                    None \<Rightarrow> Inr None
                  | Some ret \<Rightarrow> res_bind (onBecomeLeader E readyTime now junk leaderHint ret c s1 eal) (\<lambda>x. Inr (Some x)))
             else if transition = SameLeader then
               res_bind (loop_processCommand E now junk c s1) (\<lambda>s2. Inr (Some ([], s2, eal)))
             else
               Inr (Some (Command_onPersistFailed c 301 ''Not a leader any longer'' (map_option of_nat leaderHint), s1, eal))))"

section \<open>The apply loop on top of the reader\<close>

text \<open>
  The apply loop runs in its own thread beside those of the reader and the Raft node. \<open>others\<close> is any step that
  hands out no bundle, \<open>round\<close> a round of the loop.
\<close>

inductive apply_step ::
  "('db, 'wb, 'c) loop_env \<Rightarrow> 'l log_ops \<Rightarrow> ('l \<Rightarrow> LogEntry list) \<Rightarrow> 'l reader_sys \<times> ('db, 'wb) event_loop
   \<Rightarrow> 'l reader_sys \<times> ('db, 'wb) event_loop \<Rightarrow> bool"
  for E ops contents where
  others: "reader_step (lv_store E) ops contents y y' \<Longrightarrow> ys_delivered y' = ys_delivered y
    \<Longrightarrow> apply_step E ops contents (y, eal) (y', eal\<lparr>el_mReadonlyCommandEventStore := ys_store y'\<rparr>)"
| round: "loadNextCommandEvents (lv_store E) ops (ys_raft y) (ys_store y) = Inr (r, s) \<Longrightarrow> EventLoop_round E ops (ys_raft y) eal = Inr eal'
    \<Longrightarrow> apply_step E ops contents (y, eal) (handed_out y r s, eal')"

definition apply_inv ::
  "('db, 'wb, 'c) loop_env \<Rightarrow> nat \<Rightarrow> ('db, 'wb) rocks_ext app_state \<Rightarrow> 'l reader_sys \<times> ('db, 'wb) event_loop \<Rightarrow> bool" where
  "apply_inv E offset m0 s =
     (case s of (y, eal) \<Rightarrow>
        el_mReadonlyCommandEventStore eal = ys_store y \<and> \<not> el_mShouldRecover eal
        \<and> fold_res (apply_bundle E) (ys_delivered y) m0 = Inr (el_mAppStateMachine eal)
        \<and> el_mLastAppliedLogEntryIndex eal = last (offset # map bundle_id (ys_delivered y)))"

lemma apply_step_preserves:
  assumes "apply_step E ops contents a b" and inv: "apply_inv E offset m0 a"
  shows "apply_inv E offset m0 b \<and> reader_step (lv_store E) ops contents (fst a) (fst b)"
  using assms(1)
proof (cases rule: apply_step.cases)
  case (others y y' eal)
  then show ?thesis using inv by (simp add: apply_inv_def)
next
  case (round y r s eal eal')
  have ro: "el_mReadonlyCommandEventStore eal = ys_store y" "\<not> el_mShouldRecover eal" using inv round(1) by (simp_all add: apply_inv_def)
  have "reader_step (lv_store E) ops contents y (handed_out y r s)"
    by (intro reader_step.pipeline pipeline_step.deliver round(3))
  moreover have "apply_inv E offset m0 b"
  proof (cases r)
    case None
    then have "eal' = eal\<lparr>el_mReadonlyCommandEventStore := s\<rparr>" using round(3,4) ro by (simp add: EventLoop_round_def)
    then show ?thesis using inv None unfolding round(1,2) by (simp add: apply_inv_def)
  next
    case (Some x)
    then obtain m where "apply_bundle E x (el_mAppStateMachine eal) = Inr m"
      "eal' = eal\<lparr>el_mReadonlyCommandEventStore := s, el_mAppStateMachine := m, el_mLastAppliedLogEntryIndex := bundle_id x\<rparr>"
      using round(3,4) ro by (auto simp: EventLoop_round_def res_bind_eq_Inr)
    then show ?thesis using inv Some unfolding round(1,2) by (simp add: apply_inv_def fold_res_append)
  qed
  ultimately show ?thesis unfolding round(1,2) by simp
qed

lemma apply_run_preserves:
  assumes "(apply_step E ops contents)\<^sup>*\<^sup>* a b" and inv: "apply_inv E offset m0 a"
  shows "apply_inv E offset m0 b \<and> (reader_step (lv_store E) ops contents)\<^sup>*\<^sup>* (fst a) (fst b)"
  using assms(1)
proof (induction rule: rtranclp_induct)
  case (step u v)
  then show ?case using apply_step_preserves[OF step.hyps(2)] by (meson rtranclp.rtrancl_into_rtrancl)
qed (simp add: inv)

text \<open>The apply loop as it is after recovery.\<close>

definition loop_start :: "nat \<Rightarrow> ('db, 'wb) rocks_ext app_state \<Rightarrow> ('db, 'wb) event_loop" where
  "loop_start offset m =
     \<lparr>el_mReadonlyCommandEventStore = (ro_new True)\<lparr>ro_mAppliedIndex := offset, ro_mLoadedIndex := offset\<rparr>, el_mShouldExit = False,
      el_mShouldRecover = False, el_mAppStateMachine = m, el_mLastAppliedLogEntryIndex = offset\<rparr>"

lemma loop_start_inv: "apply_inv E offset m (reader_start ops contents offset r, loop_start offset m)"
  by (simp add: apply_inv_def loop_start_def reader_start_def)

lemma recovered_loop:
  "recoverSelf (lv_rocks E) (st_wire (lv_store E)) (as_ledger m0, as_ext m0) = Inr (index, l, x) \<Longrightarrow>
   EventLoop_recoverSelf E ((loop_start 0 m0)\<lparr>el_mShouldRecover := True\<rparr>) = Inr (loop_start (unat index) (m0\<lparr>as_ledger := l, as_ext := x\<rparr>))"
  by (simp add: EventLoop_recoverSelf_def loop_start_def setCurrentOffset_def ro_init_def ro_new_def Let_def)

text \<open>If the bundles handed out apply, the run of the reader is one of the apply loop.\<close>

lemma delivering_step:
  assumes "reader_step P ops contents u v" and "ys_delivered v \<noteq> ys_delivered u"
  shows "\<exists>b s. loadNextCommandEvents P ops (ys_raft u) (ys_store u) = Inr (Some b, s)
    \<and> v = handed_out u (Some b) s"
  using assms by (auto elim!: reader_step.cases pipeline_step.cases split: option.splits)

lemma apply_follows_reader_step:
  assumes step: "reader_step (lv_store E) ops contents u v" and inv: "apply_inv E offset m0 (u, eal)"
    and ok: "fold_res (apply_bundle E) (ys_delivered v) m0 = Inr m"
  shows "\<exists>eal'. apply_step E ops contents (u, eal) (v, eal')"
proof (cases "ys_delivered v = ys_delivered u")
  case True
  then show ?thesis using apply_step.others[OF step] by blast
next
  case False
  then obtain b s where b: "loadNextCommandEvents (lv_store E) ops (ys_raft u) (ys_store u) = Inr (Some b, s)"
    "v = handed_out u (Some b) s" using delivering_step[OF step] by blast
  have "apply_bundle E b (el_mAppStateMachine eal) = Inr m" using ok inv b(2) by (simp add: apply_inv_def fold_res_append res_bind_eq_Inr)
  then have "EventLoop_round E ops (ys_raft u) eal = Inr (eal\<lparr>el_mReadonlyCommandEventStore := s, el_mAppStateMachine := m,
      el_mLastAppliedLogEntryIndex := bundle_id b\<rparr>)" using inv b(1) by (simp add: apply_inv_def EventLoop_round_def)
  from apply_step.round[OF b(1) this, of contents] show ?thesis using b(2) by auto
qed

lemma apply_follows_reader:
  assumes "(reader_step (lv_store E) ops contents)\<^sup>*\<^sup>* y0 y" and inv: "apply_inv E offset m0 (y0, eal0)"
    and "fold_res (apply_bundle E) (ys_delivered y) m0 = Inr m"
  shows "\<exists>eal. (apply_step E ops contents)\<^sup>*\<^sup>* (y0, eal0) (y, eal)"
  using assms(1,3)
proof (induction arbitrary: m rule: rtranclp_induct)
  case (step u v)
  have "prefix (ys_delivered u) (ys_delivered v)"
    using delivering_step[OF step.hyps(2)] by (cases "ys_delivered v = ys_delivered u") auto
  then obtain m1 where "fold_res (apply_bundle E) (ys_delivered u) m0 = Inr m1"
    using step.prems by (auto simp: prefix_def fold_res_append res_bind_eq_Inr)
  from step.IH[OF this] obtain eal where run: "(apply_step E ops contents)\<^sup>*\<^sup>* (y0, eal0) (u, eal)" by blast
  have "apply_inv E offset m0 (u, eal)" using apply_run_preserves[OF run inv] by simp
  from apply_follows_reader_step[OF step.hyps(2) this step.prems] obtain eal' where "apply_step E ops contents (u, eal) (v, eal')" by blast
  then show ?case using run by (meson rtranclp.rtrancl_into_rtrancl)
qed blast

text \<open>A ledger to which the bundle of the example log applies.\<close>

definition example_loop_env :: "(put list, put list, unit) loop_env" where
  "example_loop_env = \<lparr>lv_rocks = list_rocks, lv_store = example_store_env, lv_groupId = 0\<rparr>"

definition example_rocks_start :: "(put list, put list) rocks_ext app_state" where
  "example_rocks_start =
     \<lparr>as_ledger = example_ledger\<lparr>mCoA := [(2, example_account 2 AT_Income 30)]\<rparr>, as_mCtrlState = CtrlState_new 0 0,
      as_ext = \<lparr>rx_mRocksDB = [], rx_mWriteBatch = [], rx_mLastFlushedIndex = 0\<rparr>\<rparr>"

lemma example_bundle_applies:
  "\<exists>m. apply_bundle example_loop_env example_delivery example_rocks_start = Inr m \<and> mCoA (as_ledger m) = mCoA example_ledger_after"
  by (simp add: apply_bundle_def example_loop_env_def example_delivery_def rocks_machine_apply_def stored_event_def example_events_def
      event_new_defs applyEvent_def example_rocks_start_def apply_AccountCreated_def apply_JournalEntryRecorded_def apply_line_def
      rocks_callbacks_def rocks_onAccountInserted_def rocks_onAccountUpdated_def rocks_onBookkeepingProcessed_def batch_put_def list_rocks_def
      commit_def flushToRocksDB_def mMaxBatchSize_def example_ledger_def example_ledger_after_def example_entry_def example_line_def
      example_account_def apply_amount_defs codec_simps stored_command_def example_command_def EventMeta_new_def Let_def)

lemma example_apply_run:
  "\<exists>DS maxLen l y eal. start_ok example_store_env (seg_ops sample_env) (seg_ok sample_env DS 4096) (seg_contents sample_env) 0 (example_node maxLen l)
     \<and> (reader_step example_store_env (seg_ops sample_env) (seg_contents sample_env))\<^sup>*\<^sup>*
         (reader_start (seg_ops sample_env) (seg_contents sample_env) 0 (example_node maxLen l)) y
     \<and> (apply_step example_loop_env (seg_ops sample_env) (seg_contents sample_env))\<^sup>*\<^sup>*
         (reader_start (seg_ops sample_env) (seg_contents sample_env) 0 (example_node maxLen l), loop_start 0 example_rocks_start) (y, eal)
     \<and> ys_delivered y = [example_delivery] \<and> ys_raft y = example_node maxLen l
     \<and> ro_mLoadedIndex (ys_store y) = 2 \<and> ro_mAppliedIndex (ys_store y) = 1
     \<and> sl_mLastIndex l = 2 \<and> sl_mCurrentTerm l = 2
     \<and> lo_getEntry (seg_ops sample_env) 2 l = Inr (Some example_noop)"
proof -
  obtain DS maxLen l y where y: "start_ok example_store_env (seg_ops sample_env) (seg_ok sample_env DS 4096) (seg_contents sample_env) 0 (example_node maxLen l)"
     "(reader_step example_store_env (seg_ops sample_env) (seg_contents sample_env))\<^sup>*\<^sup>*
         (reader_start (seg_ops sample_env) (seg_contents sample_env) 0 (example_node maxLen l)) y"
     "ys_delivered y = [example_delivery]" "ys_raft y = example_node maxLen l"
     "ro_mLoadedIndex (ys_store y) = 2" "ro_mAppliedIndex (ys_store y) = 1" "sl_mLastIndex l = 2" "sl_mCurrentTerm l = 2"
     "lo_getEntry (seg_ops sample_env) 2 l = Inr (Some example_noop)"
    using example_run by blast
  have run: "(reader_step (lv_store example_loop_env) (seg_ops sample_env) (seg_contents sample_env))\<^sup>*\<^sup>*
      (reader_start (seg_ops sample_env) (seg_contents sample_env) 0 (example_node maxLen l)) y" using y(2) by (simp add: example_loop_env_def)
  obtain m where "fold_res (apply_bundle example_loop_env) (ys_delivered y) example_rocks_start = Inr m"
    using example_bundle_applies by (auto simp: y(3))
  then obtain eal where "(apply_step example_loop_env (seg_ops sample_env) (seg_contents sample_env))\<^sup>*\<^sup>*
      (reader_start (seg_ops sample_env) (seg_contents sample_env) 0 (example_node maxLen l), loop_start 0 example_rocks_start) (y, eal)"
    using apply_follows_reader[OF run loop_start_inv] by blast
  then show ?thesis using y by blast
qed

lemma example_ready_view:
  assumes "(reader_step P (seg_ops sample_env) (seg_contents sample_env))\<^sup>*\<^sup>* y0 y"
    and "ys_raft y = example_node maxLen l" "ro_mLoadedIndex (ys_store y) = 2" "ro_mAppliedIndex (ys_store y) = 1"
    and "sl_mLastIndex l = 2" "sl_mCurrentTerm l = 2" "lo_getEntry (seg_ops sample_env) 2 l = Inr (Some example_noop)"
  shows "\<exists>v. view_read P (seg_ops sample_env) (seg_contents sample_env) y0 v y \<and> waitTillLeaderIsReadyOrStepDown 2 [v] = Inr (Some 2)"
proof -
  define v where "v = \<lparr>rv_currentTerm = 2, rv_lastIndex = 2, rv_commitIndex = 2, rv_loadedIndex = 2, rv_appliedIndex = 1,
      rv_getEntry = \<lambda>i. raft_getEntry (seg_ops sample_env) i (ys_raft y)\<rparr>"
  have "lo_getCurrentTerm (seg_ops sample_env) (rc_mLog (ys_raft y)) = 2" "lo_getLastLogIndex (seg_ops sample_env) (rc_mLog (ys_raft y)) = 2"
    "rc_mCommitIndex (ys_raft y) = 2" by (simp_all add: assms(2,5,6) example_node_def seg_ops_def)
  then have "view_read P (seg_ops sample_env) (seg_contents sample_env) y0 v y"
    unfolding view_read_def using assms(1,3,4) by (intro exI[of _ y] exI[of _ "\<lambda>i. y"]) (simp add: v_def)
  moreover have "waitTillLeaderIsReadyOrStepDown 2 [v] = Inr (Some 2)"
    using assms(7) by (simp add: v_def ready_round_def upt_rec raft_getEntry_def assms(2) example_node_def numeral_2_eq_2)
  ultimately show ?thesis by blast
qed

text \<open>
  C8. The apply loop computes the state of the committed log. On a node with a segment log, in every
  interleaving, its ledger is what applying the bundles handed out so far to the ledger it started with
  gives, these are the bundles of a prefix of the committed entries, in order and each once, and the index
  it reports as applied is the id of the last of them.
\<close>

theorem apply_loop_follows_the_log:
  assumes "start_ok (lv_store E) (seg_ops S) (seg_ok S DS MS) (seg_contents S) offset r"
    and "(apply_step E (seg_ops S) (seg_contents S))\<^sup>*\<^sup>* (reader_start (seg_ops S) (seg_contents S) offset r, loop_start offset m0) (y, eal)"
  shows "\<exists>applied rest. decryptEntries (lv_store E) (map (ys_history y) [Suc offset ..< Suc (rc_mCommitIndex (ys_raft y))]) = Inr (applied @ rest)
    \<and> fold_res (apply_bundle E) applied m0 = Inr (el_mAppStateMachine eal)
    \<and> lastApplied eal = last (offset # map bundle_id applied)"
proof -
  have a: "apply_inv E offset m0 (y, eal)" and run: "(reader_step (lv_store E) (seg_ops S) (seg_contents S))\<^sup>*\<^sup>* (reader_start (seg_ops S) (seg_contents S) offset r) y"
    using apply_run_preserves[OF assms(2) loop_start_inv] by simp_all
  have "reader_inv (lv_store E) (seg_ops S) (seg_ok S DS MS) (seg_contents S) offset y"
    using seg_reader.reader_run_preserves[OF run reader_start_inv[OF assms(1)]] by blast
  then obtain bs where "decryptEntries (lv_store E) (map (ys_history y) [Suc offset ..< Suc (rc_mCommitIndex (ys_raft y))]) = Inr bs"
    "prefix (ys_delivered y) bs" using delivered_prefix by blast
  then show ?thesis using a unfolding prefix_def apply_inv_def lastApplied_def by auto
qed

theorem apply_loop_follows_the_log_witness:
  "\<exists>maxLen l y eal applied rest. (apply_step example_loop_env (seg_ops sample_env) (seg_contents sample_env))\<^sup>*\<^sup>*
         (reader_start (seg_ops sample_env) (seg_contents sample_env) 0 (example_node maxLen l), loop_start 0 example_rocks_start) (y, eal)
     \<and> ys_delivered y = [example_delivery] \<and> lastApplied eal = last (0 # map bundle_id applied)
     \<and> decryptEntries example_store_env (map (ys_history y) [1 ..< 3]) = Inr (applied @ rest)
     \<and> fold_res (apply_bundle example_loop_env) applied example_rocks_start = Inr (el_mAppStateMachine eal)"
proof -
  have P: "lv_store example_loop_env = example_store_env" by (simp add: example_loop_env_def)
  obtain DS maxLen l y eal where y: "start_ok (lv_store example_loop_env) (seg_ops sample_env) (seg_ok sample_env DS 4096) (seg_contents sample_env) 0 (example_node maxLen l)"
     "(apply_step example_loop_env (seg_ops sample_env) (seg_contents sample_env))\<^sup>*\<^sup>*
         (reader_start (seg_ops sample_env) (seg_contents sample_env) 0 (example_node maxLen l), loop_start 0 example_rocks_start) (y, eal)"
     "ys_delivered y = [example_delivery]" "ys_raft y = example_node maxLen l"
    using example_apply_run unfolding P by blast
  have "Suc (rc_mCommitIndex (ys_raft y)) = 3" by (simp add: y(4) example_node_def)
  then obtain applied rest where "decryptEntries example_store_env (map (ys_history y) [1 ..< 3]) = Inr (applied @ rest)"
    "fold_res (apply_bundle example_loop_env) applied example_rocks_start = Inr (el_mAppStateMachine eal)"
    "lastApplied eal = last (0 # map bundle_id applied)"
    using apply_loop_follows_the_log[OF y(1,2)] by (auto simp: P simp del: upt_Suc)
  then show ?thesis using y(2,3) by blast
qed

section \<open>Taking over as leader\<close>

lemma swap_result:
  assumes "swapStateAndTeardown E target eal = Inr (target', eal')"
  shows "as_ledger target' = as_ledger (el_mAppStateMachine eal) \<and> as_mCtrlState target' = as_mCtrlState target
    \<and> el_mShouldRecover eal' \<and> ro_mTaskQueue (el_mReadonlyCommandEventStore eal') = [] \<and> \<not> ro_mRunning (el_mReadonlyCommandEventStore eal')"
  using assms by (auto simp: swapStateAndTeardown_def swapState_def ro_teardown_def Let_def res_bind_eq_Inr)

text \<open>What the first command after becoming leader does to the command loop, before it is processed.\<close>

definition leader_with :: "nat \<Rightarrow> 'db memory_ext app_state \<Rightarrow> 'db command_loop \<Rightarrow> 'db command_loop" where
  "leader_with ret m s = s\<lparr>cl_mLastCommandId := of_nat ret, cl_mAppStateMachine := m\<rparr>"

text \<open>
  C7. A new leader starts from the committed log. If waiting for leadership returned the index \<open>n\<close> and no
  later entry has been committed, then taking over gives the command loop exactly the ledger that applying
  the bundles of all committed entries after the offset to the ledger of the apply loop's start gives, and
  \<open>n\<close> as the last command id, so that its first command gets the index after the no-op; the reader is stopped
  and the apply loop will recover.
\<close>

theorem new_leader_holds_the_committed_ledger:
  assumes "start_ok (lv_store E) (seg_ops S) (seg_ok S DS MS) (seg_contents S) offset r"
    and "(apply_step E (seg_ops S) (seg_contents S))\<^sup>*\<^sup>* (reader_start (seg_ops S) (seg_contents S) offset r, loop_start offset m0) (y, eal)"
    and "\<forall>v \<in> set views. view_read (lv_store E) (seg_ops S) (seg_contents S) (reader_start (seg_ops S) (seg_contents S) offset r) v y"
    and "waitTillLeaderIsReadyOrStepDown expectedTerm views = Inr (Some n)" and "n \<noteq> 0" and "rc_mCommitIndex (ys_raft y) = n"
    and "onBecomeLeader E readyTime now junk leaderHint n command s eal = Inr (out, s', eal')"
  shows "\<exists>bundles m target c1. decryptEntries (lv_store E) (map (ys_history y) [Suc offset ..< Suc n]) = Inr bundles
    \<and> fold_res (apply_bundle E) bundles m0 = Inr m
    \<and> as_ledger target = as_ledger m \<and> as_mCtrlState target = as_mCtrlState (cl_mAppStateMachine s)
    \<and> loop_processCommand E now junk c1 (leader_with n target s) = Inr s' \<and> cmd_body c1 = cmd_body command
    \<and> out = [] \<and> el_mShouldRecover eal' \<and> \<not> ro_mRunning (el_mReadonlyCommandEventStore eal')"
proof -
  let ?P = "lv_store E"
  have a: "apply_inv E offset m0 (y, eal)" and run: "(reader_step ?P (seg_ops S) (seg_contents S))\<^sup>*\<^sup>* (reader_start (seg_ops S) (seg_contents S) offset r) y"
    using apply_run_preserves[OF assms(2) loop_start_inv] by simp_all
  note inv0 = reader_start_inv[OF assms(1)]
  have inv: "reader_inv ?P (seg_ops S) (seg_ok S DS MS) (seg_contents S) offset y" using seg_reader.reader_run_preserves[OF run inv0] by blast
  obtain v where "v \<in> set views" "ready_round expectedTerm v = Inr (Some n)" using waitTill_Some[OF assms(4)] by blast
  then obtain bs where bs: "decryptEntries ?P (map (ys_history y) [Suc offset ..< Suc n]) = Inr bs" "prefix bs (ys_delivered y)"
    using seg_reader.ready_means_applied[OF inv0 _ _ assms(5)] assms(3) by blast
  have "prefix (ys_delivered y) bs" using delivered_prefix[OF inv] bs(1) unfolding assms(6) by auto
  then have "ys_delivered y = bs" using bs(2) by (rule prefix_order.antisym)
  then have m: "fold_res (apply_bundle E) bs m0 = Inr (el_mAppStateMachine eal)" using a by (simp add: apply_inv_def)
  define c1 where "c1 = command\<lparr>cmd_mMetaData := (cmd_mMetaData command)\<lparr>mt_mLeaderReadyTimeInNanos := readyTime\<rparr>\<rparr>"
  obtain target where t: "swapStateAndTeardown E (cl_mAppStateMachine s) eal = Inr (target, eal')"
    "loop_processCommand E now junk c1 (leader_with n target s) = Inr s'" "out = []"
    using assms(5,7) by (auto simp: onBecomeLeader_def leader_with_def c1_def Let_def res_bind_eq_Inr)
  have "cmd_body c1 = cmd_body command" by (simp add: c1_def)
  then show ?thesis using bs(1) m swap_result[OF t(1)] t(2,3) by blast
qed

text \<open>A client's command that opens an account the ledger does not have, and the command loop of a fresh process.\<close>

definition example_open :: Command where
  "example_open = example_create\<lparr>cmd_body := CreateAccountCommand example_create_request (Some (example_account 5 AT_Asset 0))\<rparr>"

definition example_command_loop :: "'db command_loop" where
  "example_command_loop =
     \<lparr>cl_mShouldExit = False,
      cl_mAppStateMachine = \<lparr>as_ledger = empty_ledger, as_mCtrlState = CtrlState_new 0 0, as_ext = \<lparr>mx_mRocksDB = None, mx_snapshot = None\<rparr>\<rparr>,
      cl_mLastCommandId = 0, cl_mCommandEventStore = event_store_new\<rparr>"

lemma open_processed:
  assumes "mt_mType (cmd_mMetaData c) = CREATE_ACCOUNT_COMMAND" and "cmd_body c = CreateAccountCommand r (Some a)"
    and "map_of (mCoA (as_ledger m)) (ac_mNominalCode a) = None"
  shows "\<exists>m'. memory_machine_process E now junk c m = Inr (hint HTTP_OK ''Success'', [AccountCreatedEvent_new junk now a], m')"
  using assms
  by (auto simp: memory_machine_process_def processCommandAndApply_def processCommand_def process_CreateAccount_def asks_database_def
      applyEvent_def event_new_defs EventMeta_new_def apply_AccountCreated_def no_callbacks_def split: option.splits)

lemma fresh_store_takes:
  "\<exists>es. EventStore_persistAsync P c events code message event_store_new = Inr es"
  by (simp add: EventStore_persistAsync_def LogStore_persistAsync_def event_store_new_def log_store_new_def mpsc_new_def mpsc_enqueue_def
      mpsc_push_def Let_def)

lemma example_open_accepted:
  assumes "map_of (mCoA (as_ledger m)) 5 = None" and "c = example_open\<lparr>cmd_mMetaData := (cmd_mMetaData example_open)\<lparr>mt_mLeaderReadyTimeInNanos := t\<rparr>\<rparr>"
  shows "\<exists>s'. loop_processCommand E 7 example_event_meta c (leader_with n m example_command_loop) = Inr s'
    \<and> cl_mLastCommandId s' = of_nat n + 1"
proof -
  let ?c = "set_command_id (of_nat n) c"
  have "mt_mType (cmd_mMetaData ?c) = CREATE_ACCOUNT_COMMAND" "cmd_body ?c = CreateAccountCommand example_create_request (Some (example_account 5 AT_Asset 0))"
    using assms(2) by (simp_all add: set_command_id_def example_open_def example_create_def example_command_meta_def)
  moreover have "map_of (mCoA (as_ledger m)) (ac_mNominalCode (example_account 5 AT_Asset 0)) = None" using assms(1) by (simp add: example_account_def)
  ultimately obtain m' where "memory_machine_process E 7 example_event_meta ?c m
      = Inr (hint HTTP_OK ''Success'', [AccountCreatedEvent_new example_event_meta 7 (example_account 5 AT_Asset 0)], m')"
    using open_processed by blast
  moreover obtain es where "EventStore_persistAsync (lv_store E) (set_command_id (of_nat n + 1) ?c)
      [AccountCreatedEvent_new example_event_meta 7 (example_account 5 AT_Asset 0)] HTTP_OK ''Success'' event_store_new = Inr es"
    using fresh_store_takes by blast
  ultimately show ?thesis
    by (simp add: loop_processCommand_def leader_with_def example_command_loop_def Let_def)
qed

theorem new_leader_holds_the_committed_ledger_witness:
  "\<exists>maxLen l y eal out s' eal' m. (apply_step example_loop_env (seg_ops sample_env) (seg_contents sample_env))\<^sup>*\<^sup>*
         (reader_start (seg_ops sample_env) (seg_contents sample_env) 0 (example_node maxLen l), loop_start 0 example_rocks_start) (y, eal)
     \<and> onBecomeLeader example_loop_env 9 7 example_event_meta None 2 example_open example_command_loop eal = Inr (out, s', eal')
     \<and> cl_mLastCommandId s' = 3 \<and> out = [] \<and> el_mShouldRecover eal'
     \<and> (\<exists>bundles. decryptEntries example_store_env (map (ys_history y) [1 ..< 3]) = Inr bundles
          \<and> fold_res (apply_bundle example_loop_env) bundles example_rocks_start = Inr m)"
proof -
  have P: "lv_store example_loop_env = example_store_env" and R: "lv_rocks example_loop_env = list_rocks" by (simp_all add: example_loop_env_def)
  obtain DS maxLen l y eal where y: "start_ok (lv_store example_loop_env) (seg_ops sample_env) (seg_ok sample_env DS 4096) (seg_contents sample_env) 0 (example_node maxLen l)"
     "(reader_step (lv_store example_loop_env) (seg_ops sample_env) (seg_contents sample_env))\<^sup>*\<^sup>*
         (reader_start (seg_ops sample_env) (seg_contents sample_env) 0 (example_node maxLen l)) y"
     "(apply_step example_loop_env (seg_ops sample_env) (seg_contents sample_env))\<^sup>*\<^sup>*
         (reader_start (seg_ops sample_env) (seg_contents sample_env) 0 (example_node maxLen l), loop_start 0 example_rocks_start) (y, eal)"
     "ys_delivered y = [example_delivery]" "ys_raft y = example_node maxLen l"
     "ro_mLoadedIndex (ys_store y) = 2" "ro_mAppliedIndex (ys_store y) = 1" "sl_mLastIndex l = 2" "sl_mCurrentTerm l = 2"
     "lo_getEntry (seg_ops sample_env) 2 l = Inr (Some example_noop)"
    using example_apply_run unfolding P by blast
  obtain v where v: "view_read (lv_store example_loop_env) (seg_ops sample_env) (seg_contents sample_env)
      (reader_start (seg_ops sample_env) (seg_contents sample_env) 0 (example_node maxLen l)) v y"
    "waitTillLeaderIsReadyOrStepDown 2 [v] = Inr (Some 2)"
    using example_ready_view[OF y(2,5-10)] by blast
  have commit: "rc_mCommitIndex (ys_raft y) = 2" by (simp add: y(5) example_node_def)
  have a: "apply_inv example_loop_env 0 example_rocks_start (y, eal)" using apply_run_preserves[OF y(3) loop_start_inv] by simp
  then have coa: "mCoA (as_ledger (el_mAppStateMachine eal)) = mCoA example_ledger_after"
    using example_bundle_applies y(4) by (auto simp: apply_inv_def)
  obtain target eal' where t: "swapStateAndTeardown example_loop_env (cl_mAppStateMachine example_command_loop) eal = Inr (target, eal')"
    by (auto simp: swapStateAndTeardown_def swapState_def flushToRocksDB_def R list_rocks_def Let_def)
  have "map_of (mCoA (as_ledger target)) 5 = None" using swap_result[OF t] coa by (simp add: example_ledger_after_def)
  from example_open_accepted[OF this refl, of example_loop_env 9 2]
  obtain s' where s': "loop_processCommand example_loop_env 7 example_event_meta
      (example_open\<lparr>cmd_mMetaData := (cmd_mMetaData example_open)\<lparr>mt_mLeaderReadyTimeInNanos := 9\<rparr>\<rparr>) (leader_with 2 target example_command_loop) = Inr s'"
    "cl_mLastCommandId s' = 3" by auto
  have b: "onBecomeLeader example_loop_env 9 7 example_event_meta None 2 example_open example_command_loop eal = Inr ([], s', eal')"
    using t s'(1) by (simp add: onBecomeLeader_def leader_with_def Let_def)
  have "[Suc 0 ..< Suc 2] = [1 ..< 3]" by simp
  then show ?thesis
    using new_leader_holds_the_committed_ledger[OF y(1,3) _ v(2) _ commit b] v(1) y(3) b s'(2) unfolding P by (simp del: upt_Suc) blast
qed

section \<open>Accepted commands\<close>

type_synonym arriving = "u64 \<times> EventMetaData \<times> Command"

definition process_commands :: "('db, 'wb, 'c) loop_env \<Rightarrow> arriving list \<Rightarrow> 'db command_loop \<Rightarrow> 'db command_loop res" where
  "process_commands E cs s = fold_res (\<lambda>(now, junk, c). loop_processCommand E now junk c) cs s"

lemma persist_items:
  assumes "EventStore_persistAsync P c es code message s = Inr s'"
  shows "mpsc_items (lg_mPersistQueue (es_mRaftLogStore s')) = mpsc_items (lg_mPersistQueue (es_mRaftLogStore s))
      @ (if es = [] then [] else [entry_wanted P (lg_mLogStoreTerm (es_mRaftLogStore s)) c es])
    \<and> lg_mLogStoreTerm (es_mRaftLogStore s') = lg_mLogStoreTerm (es_mRaftLogStore s)"
proof (cases "es = []")
  case True
  then show ?thesis using assms by (auto simp: EventStore_persistAsync_def Let_def)
next
  case False
  then show ?thesis using assms
    by (auto simp: EventStore_persistAsync_def LogStore_persistAsync_def Let_def res_bind_eq_Inr mpsc_enqueue_def mpsc_push_def
        mpsc_items_def entry_wanted_def log_entry_for_def split: if_splits sum.splits)
qed

abbreviation loop_queue :: "'db command_loop \<Rightarrow> persist_entry list" where
  "loop_queue s \<equiv> mpsc_items (lg_mPersistQueue (es_mRaftLogStore (cl_mCommandEventStore s)))"

abbreviation loop_term :: "'db command_loop \<Rightarrow> nat" where
  "loop_term s \<equiv> lg_mLogStoreTerm (es_mRaftLogStore (cl_mCommandEventStore s))"

lemma process_one:
  assumes "loop_processCommand E now junk c s = Inr s'"
  shows "\<exists>pes. loop_queue s' = loop_queue s @ pes \<and> loop_term s' = loop_term s
    \<and> (pes = [] \<and> cl_mLastCommandId s' = cl_mLastCommandId s
       \<or> (\<exists>c2 es. es \<noteq> [] \<and> pes = [entry_wanted (lv_store E) (loop_term s) c2 es]
            \<and> cl_mLastCommandId s' = cl_mLastCommandId s + 1 \<and> mt_mId (cmd_mMetaData c2) = cl_mLastCommandId s + 1))"
proof -
  let ?c1 = "set_command_id (cl_mLastCommandId s) c" and ?i = "cl_mLastCommandId s + 1"
  obtain h events m where p: "memory_machine_process E now junk ?c1 (cl_mAppStateMachine s) = Inr (h, events, m)"
    using assms by (auto simp: loop_processCommand_def Let_def res_bind_eq_Inr)
  show ?thesis
  proof (cases "events = []")
    case True
    then obtain es where "EventStore_persistAsync (lv_store E) ?c1 [] (ph_mCode h) (ph_mMessage h) (cl_mCommandEventStore s) = Inr es"
      "s' = s\<lparr>cl_mAppStateMachine := m, cl_mCommandEventStore := es\<rparr>"
      using assms p by (auto simp: loop_processCommand_def Let_def res_bind_eq_Inr)
    then show ?thesis using persist_items[of "lv_store E" ?c1 "[]"] by auto
  next
    case False
    then obtain es where es: "EventStore_persistAsync (lv_store E) (set_command_id ?i ?c1) events (ph_mCode h) (ph_mMessage h) (cl_mCommandEventStore s) = Inr es"
      "s' = s\<lparr>cl_mAppStateMachine := m, cl_mLastCommandId := ?i, cl_mCommandEventStore := es\<rparr>"
      using assms p by (auto simp: loop_processCommand_def Let_def res_bind_eq_Inr)
    have "mt_mId (cmd_mMetaData (set_command_id ?i ?c1)) = ?i" by (simp add: set_command_id_def)
    then show ?thesis using persist_items[OF es(1)] False es(2) by auto
  qed
qed

definition persist_log_entry :: "persist_entry \<Rightarrow> LogEntry" where
  "persist_log_entry pe = cr_mEntry (pe_clientRequest pe)"

lemma process_many:
  assumes "process_commands E cs s = Inr s'" and "unat (cl_mLastCommandId s) + length cs < 2 ^ 64"
  shows "\<exists>pes. loop_queue s' = loop_queue s @ pes \<and> loop_term s' = loop_term s
    \<and> indexed_from (Suc (unat (cl_mLastCommandId s))) (map persist_log_entry pes)
    \<and> (\<forall>pe \<in> set pes. le_term (persist_log_entry pe) = loop_term s)
    \<and> unat (cl_mLastCommandId s') = unat (cl_mLastCommandId s) + length pes"
  using assms
proof (induction cs arbitrary: s)
  case Nil
  then show ?case by (simp add: process_commands_def)
next
  case (Cons a cs)
  obtain now junk c where a: "a = (now, junk, c)" by (cases a)
  obtain s1 where s1: "loop_processCommand E now junk c s = Inr s1" "process_commands E cs s1 = Inr s'"
    using Cons.prems(1) by (auto simp: process_commands_def a res_bind_eq_Inr)
  obtain qs where qs: "loop_queue s1 = loop_queue s @ qs" "loop_term s1 = loop_term s"
    and or: "qs = [] \<and> cl_mLastCommandId s1 = cl_mLastCommandId s
       \<or> (\<exists>c2 es. es \<noteq> [] \<and> qs = [entry_wanted (lv_store E) (loop_term s) c2 es]
            \<and> cl_mLastCommandId s1 = cl_mLastCommandId s + 1 \<and> mt_mId (cmd_mMetaData c2) = cl_mLastCommandId s + 1)"
    using process_one[OF s1(1)] by blast
  have suc: "unat (cl_mLastCommandId s + 1) = Suc (unat (cl_mLastCommandId s))"
    using Cons.prems(2) by (simp add: unat_word_ariths)
  have q: "indexed_from (Suc (unat (cl_mLastCommandId s))) (map persist_log_entry qs)
      \<and> (\<forall>pe \<in> set qs. le_term (persist_log_entry pe) = loop_term s)
      \<and> unat (cl_mLastCommandId s1) = unat (cl_mLastCommandId s) + length qs \<and> length qs \<le> 1"
    using or suc by (auto simp: entry_wanted_def persist_log_entry_def log_entry_for_def)
  then have "unat (cl_mLastCommandId s1) + length cs < 2 ^ 64" using Cons.prems(2) by simp
  from Cons.IH[OF s1(2) this] obtain ps where ps: "loop_queue s' = loop_queue s1 @ ps" "loop_term s' = loop_term s1"
    "indexed_from (Suc (unat (cl_mLastCommandId s1))) (map persist_log_entry ps)"
    "\<forall>pe \<in> set ps. le_term (persist_log_entry pe) = loop_term s1"
    "unat (cl_mLastCommandId s') = unat (cl_mLastCommandId s1) + length ps" by blast
  have "loop_queue s' = loop_queue s @ (qs @ ps) \<and> loop_term s' = loop_term s
    \<and> indexed_from (Suc (unat (cl_mLastCommandId s))) (map persist_log_entry (qs @ ps))
    \<and> (\<forall>pe \<in> set (qs @ ps). le_term (persist_log_entry pe) = loop_term s)
    \<and> unat (cl_mLastCommandId s') = unat (cl_mLastCommandId s) + length (qs @ ps)"
    using ps qs q by (auto simp: indexed_from_append)
  then show ?case by blast
qed

lemma fill_request_places:
  "fill_request P pe = Inr c \<Longrightarrow>
     le_index (cr_mEntry c) = le_index (persist_log_entry pe) \<and> le_term (cr_mEntry c) = le_term (persist_log_entry pe)"
  by (auto simp: fill_request_def fill_payload_def persist_log_entry_def res_bind_eq_Inr Let_def)

lemma fill_requests_places:
  assumes "map_res (fill_request P) pes = Inr requests" and "indexed_from n (map persist_log_entry pes)"
    and "\<forall>pe \<in> set pes. le_term (persist_log_entry pe) = t"
  shows "indexed_from n (map cr_mEntry requests) \<and> (\<forall>c \<in> set requests. le_term (cr_mEntry c) = t) \<and> length requests = length pes"
  using assms
proof (induction pes arbitrary: n requests)
  case (Cons pe pes)
  then show ?case using fill_request_places[of P pe] by (fastforce simp: res_bind_eq_Inr)
qed simp

lemma client_entries_accepted:
  assumes "indexed_from (Suc n) (map cr_mEntry requests)" and "\<forall>c \<in> set requests. le_term (cr_mEntry c) = t"
  shows "fold (client_entry t) requests (pending, es, n)
    = (pending @ map (\<lambda>c. (le_index (cr_mEntry c), cr_mRequestHandle c)) requests, es @ map cr_mEntry requests, n + length requests)"
  using assms by (induction requests arbitrary: pending es n) (simp_all add: client_entry_def)

text \<open>
  C10. Commands enter the log where the command loop says. Let the command loop of a leader process commands,
  its queue being empty and its last command id being the last index of the leader's segment log. Then the
  entries written for the commands it accepted, filled and sent to the Raft node while it is the leader of
  the term of the log store, are all appended to its log: none is refused, and the last index of the log is
  again the last command id of the loop.
\<close>

theorem accepted_commands_enter_the_log:
  assumes "process_commands E cs s = Inr s'" and "unat (cl_mLastCommandId s) + length cs < 2 ^ 64" and "loop_queue s = []"
    and "map_res (fill_request (lv_store E)) (loop_queue s') = Inr requests"
    and "seg_ok S DS MS (rc_mLog raft)" and "rc_mRaftRole raft = Leader"
    and "lo_getCurrentTerm (seg_ops S) (rc_mLog raft) = loop_term s" and "lo_getLastLogIndex (seg_ops S) (rc_mLog raft) = unat (cl_mLastCommandId s)"
    and "fits_segment S DS MS (map cr_mEntry requests)"
  shows "\<exists>raft'. handleClientRequests (seg_ops S) requests raft = Inr (raft', [])
    \<and> seg_contents S (rc_mLog raft') = seg_contents S (rc_mLog raft) @ map cr_mEntry requests
    \<and> lo_getLastLogIndex (seg_ops S) (rc_mLog raft') = unat (cl_mLastCommandId s')
    \<and> seg_ok S DS MS (rc_mLog raft')"
proof -
  obtain pes where pes: "loop_queue s' = pes" "indexed_from (Suc (unat (cl_mLastCommandId s))) (map persist_log_entry pes)"
    "\<forall>pe \<in> set pes. le_term (persist_log_entry pe) = loop_term s"
    "unat (cl_mLastCommandId s') = unat (cl_mLastCommandId s) + length pes"
    using process_many[OF assms(1,2)] assms(3) by auto
  have r: "indexed_from (Suc (unat (cl_mLastCommandId s))) (map cr_mEntry requests)"
    "\<forall>c \<in> set requests. le_term (cr_mEntry c) = loop_term s" "length requests = length pes"
    using fill_requests_places[OF assms(4)[unfolded pes(1)] pes(2,3)] by simp_all
  let ?l = "rc_mLog raft" and ?es = "map cr_mEntry requests"
  have idx: "indexed_from (Suc (lo_getLastLogIndex (seg_ops S) ?l)) ?es" using r(1) assms(8) by simp
  obtain ok l' where app: "lo_appendEntries (seg_ops S) ?es ?l = Inr (ok, l')"
    using seg_raft_log.appendEntries_total[OF assms(5) idx assms(9)] by (metis surj_pair)
  then have "ok" using seg_raft_log.appendEntries_refused[OF assms(5), of ?es l'] idx by (cases ok) auto
  note app = app[unfolded this[THEN eq_True[THEN iffD2]]]
  note l' = seg_raft_log.appendEntries_result[OF assms(5) app]
  have "lo_getLastLogIndex (seg_ops S) l' = unat (cl_mLastCommandId s')"
    using seg_raft_log.last_index[of S DS MS l'] seg_raft_log.last_index[OF assms(5)] l' pes(4) r(3) assms(8) by simp
  then show ?thesis using assms(6) l' app client_entries_accepted[OF r(1,2)]
    by (simp add: handleClientRequests_def assms(7,8))
qed

theorem accepted_commands_enter_the_log_witness:
  "\<exists>s' requests raft DS raft'. process_commands example_loop_env [(7, example_event_meta, example_open)] example_command_loop = Inr s'
     \<and> map_res (fill_request example_store_env) (loop_queue s') = Inr requests \<and> requests \<noteq> []
     \<and> seg_ok sample_env DS 4096 (rc_mLog raft) \<and> handleClientRequests (seg_ops sample_env) requests raft = Inr (raft', [])
     \<and> seg_contents sample_env (rc_mLog raft') = map cr_mEntry requests \<and> sl_mLastIndex (rc_mLog raft') = 1"
proof -
  let ?c = "set_command_id 1 (set_command_id 0 example_open)"
  let ?ev = "AccountCreatedEvent_new example_event_meta 7 (example_account 5 AT_Asset 0)"
  let ?pe = "entry_wanted example_store_env 0 ?c [?ev]"
  have P: "lv_store example_loop_env = example_store_env" by (simp add: example_loop_env_def)
  have create: "mt_mType (cmd_mMetaData (set_command_id 0 example_open)) = CREATE_ACCOUNT_COMMAND"
    "cmd_body (set_command_id 0 example_open) = CreateAccountCommand example_create_request (Some (example_account 5 AT_Asset 0))"
    "map_of (mCoA (as_ledger (cl_mAppStateMachine example_command_loop))) (ac_mNominalCode (example_account 5 AT_Asset 0)) = None"
    by (simp_all add: set_command_id_def example_open_def example_create_def example_command_meta_def example_command_loop_def empty_ledger_def)
  obtain m' where m': "memory_machine_process example_loop_env 7 example_event_meta (set_command_id 0 example_open) (cl_mAppStateMachine example_command_loop)
      = Inr (hint HTTP_OK ''Success'', [?ev], m')"
    using open_processed[OF create] by blast
  obtain es where es: "EventStore_persistAsync example_store_env ?c [?ev] HTTP_OK ''Success'' event_store_new = Inr es" using fresh_store_takes by blast
  define s' where "s' = example_command_loop\<lparr>cl_mAppStateMachine := m', cl_mLastCommandId := 1, cl_mCommandEventStore := es\<rparr>"
  have run: "process_commands example_loop_env [(7, example_event_meta, example_open)] example_command_loop = Inr s'"
    using m' es by (simp add: process_commands_def loop_processCommand_def P s'_def example_command_loop_def Let_def)
  have fresh: "loop_queue example_command_loop = []" "loop_term example_command_loop = 0"
    by (simp_all add: example_command_loop_def event_store_new_def log_store_new_def mpsc_items_def mpsc_new_def)
  then have q: "loop_queue s' = [?pe]" using persist_items[OF es] by (simp add: s'_def example_command_loop_def)
  have "Event_wf ?ev" by (simp add: Event_wf_def AccountCreatedEvent_new_def EventMeta_new_def wf_defs example_account_def)
  then obtain cr where cr: "fill_request example_store_env ?pe = Inr cr" using example_fillable[of "[?ev]" 0 ?c] by auto
  have version: "le_version (cr_mEntry cr) = 3" using cr
    by (auto simp: fill_request_def fill_payload_def res_bind_eq_Inr Let_def entry_wanted_def log_entry_for_def example_store_env_def)
  let ?DS = "4096 * Suc (length (bytes_of sample_env [cr_mEntry cr]))"
  obtain l where l: "seg_good sample_env ?DS 4096 l" "log_view sample_env l = mem_new"
    using first_start[OF sample_env_ok, of ?DS 4096 "''/log''"] by auto
  have view: "seg_contents sample_env l = []" "sl_mLastIndex l = 0" "sl_mCurrentTerm l = 0" using l(2) by (simp_all add: log_view_def mem_new_def)
  have ok: "seg_ok sample_env ?DS 4096 (rc_mLog (example_node 0 l))" using l(1) by (simp add: seg_good_def example_node_def)
  have fits: "fits_segment sample_env ?DS 4096 (map cr_mEntry [cr])" using version
    by (simp add: fits_segment_def sizeof_LogMeta_def signable_def sample_env_def signing_version_def sample_crypto_def kInvalidSecKeyVersion_def)
  have filled: "map_res (fill_request (lv_store example_loop_env)) (loop_queue s') = Inr [cr]" by (simp add: q cr P)
  have "\<exists>raft'. handleClientRequests (seg_ops sample_env) [cr] (example_node 0 l) = Inr (raft', [])
    \<and> seg_contents sample_env (rc_mLog raft') = seg_contents sample_env (rc_mLog (example_node 0 l)) @ map cr_mEntry [cr]
    \<and> lo_getLastLogIndex (seg_ops sample_env) (rc_mLog raft') = unat (cl_mLastCommandId s') \<and> seg_ok sample_env ?DS 4096 (rc_mLog raft')"
    by (intro accepted_commands_enter_the_log[OF run _ fresh(1) filled ok _ _ _ fits])
      (simp_all add: fresh view example_node_def example_command_loop_def seg_ops_def event_store_new_def log_store_new_def)
  then obtain raft' where raft': "handleClientRequests (seg_ops sample_env) [cr] (example_node 0 l) = Inr (raft', [])"
    "seg_contents sample_env (rc_mLog raft') = map cr_mEntry [cr]" "sl_mLastIndex (rc_mLog raft') = 1"
    using view by (auto simp: example_node_def seg_ops_def s'_def)
  show ?thesis using run filled[unfolded P] ok raft' by (intro exI[of _ s'] exI[of _ "[cr]"] exI[of _ "example_node 0 l"] exI[of _ ?DS] exI[of _ raft']) auto
qed

section \<open>Journal entries of the log\<close>

lemma lines_keep_done: "fold_res (apply_line cb) ls (s, x) = Inr (s', x') \<Longrightarrow> mDoneMap s' = mDoneMap s"
proof (induction ls arbitrary: s x)
  case (Cons l ls)
  obtain s1 x1 where "apply_line cb l (s, x) = Inr (s1, x1)" "fold_res (apply_line cb) ls (s1, x1) = Inr (s', x')"
    using Cons.prems by (auto simp: res_bind_eq_Inr)
  moreover from this(1) have "mDoneMap s1 = mDoneMap s" by (auto simp: apply_line_def res_bind_eq_Inr split: option.splits if_splits)
  ultimately show ?case using Cons.IH by simp
qed simp

lemma journal_applied_done:
  assumes "apply_JournalEntryRecorded cb e (s, x) = Inr (s', x')"
  shows "mDoneMap s' = smap_put (je_mId e) (je_mValidTime e) (mDoneMap s)"
  using assms lines_keep_done by (fastforce simp: apply_JournalEntryRecorded_def res_bind_eq_Inr split: if_splits)

lemma done_stays:
  assumes "rocks_machine_apply E ev m = Inr m'" and "map_of (mDoneMap (as_ledger m)) i \<noteq> None"
  shows "map_of (mDoneMap (as_ledger m')) i \<noteq> None"
proof -
  obtain e where e: "applyEvent (rocks_callbacks (lv_rocks E) (st_wire (lv_store E))) (lv_groupId E) e m = Inr m'"
    using assms(1) by (cases ev) (auto simp: rocks_machine_apply_def)
  show ?thesis
  proof (cases "ev_body e")
    case (JournalEntryRecordedEvent v je)
    then show ?thesis using e assms(2)
      by (auto simp: applyEvent_def res_bind_eq_Inr Let_def map_of_smap_put dest: journal_applied_done split: if_splits)
  qed (use e assms(2) in \<open>auto simp: applyEvent_def res_bind_eq_Inr Let_def apply_AccountMetadataConfigured_def apply_AccountCreated_def
          split: if_splits\<close>)
qed

text \<open>
  C38. A log with two journal entries stops every replica that applies it. Encoding a journal entry does not
  write its id, so every journal event of the log comes back with the empty id; once one has been applied,
  with whatever events after it, the next one fails the assertion of \<^verbatim>\<open>apply\<close> that its id is new.
\<close>

theorem second_journal_entry_stops_the_apply_loop:
  assumes "fold_res (rocks_machine_apply E) (Some (stored_event (JournalEntryRecordedEvent_new junk now e)) # between) m = Inr m'"
  shows "rocks_machine_apply E (Some (stored_event (JournalEntryRecordedEvent_new junk' now' e'))) m' = Inl Assertion"
proof -
  obtain m1 where m1: "rocks_machine_apply E (Some (stored_event (JournalEntryRecordedEvent_new junk now e))) m = Inr m1"
    "fold_res (rocks_machine_apply E) between m1 = Inr m'" using assms by (auto simp: res_bind_eq_Inr)
  have "map_of (mDoneMap (as_ledger m1)) [] \<noteq> None" using m1(1)
    by (auto simp: rocks_machine_apply_def stored_event_def event_new_defs EventMeta_new_def applyEvent_def res_bind_eq_Inr map_of_smap_put
        dest!: journal_applied_done)
  with m1(2) have "map_of (mDoneMap (as_ledger m')) [] \<noteq> None"
  proof (induction between arbitrary: m1)
    case (Cons ev evs)
    then obtain m2 where "rocks_machine_apply E ev m1 = Inr m2" "fold_res (rocks_machine_apply E) evs m2 = Inr m'" by (auto simp: res_bind_eq_Inr)
    then show ?case using Cons.IH done_stays Cons.prems(2) by blast
  qed simp
  then show ?thesis
    by (simp add: rocks_machine_apply_def stored_event_def event_new_defs EventMeta_new_def applyEvent_def apply_JournalEntryRecorded_def)
qed

theorem second_journal_entry_stops_the_apply_loop_witness:
  "\<exists>m. rocks_machine_apply example_loop_env (Some (stored_event (JournalEntryRecordedEvent_new example_event_meta 7 example_entry)))
         example_rocks_machine = Inr m
     \<and> rocks_machine_apply example_loop_env
         (Some (stored_event (JournalEntryRecordedEvent_new example_event_meta 8 (example_entry\<lparr>je_mId := ''e2''\<rparr>)))) m = Inl Assertion"
proof -
  obtain m where m: "rocks_machine_apply example_loop_env (Some (stored_event (JournalEntryRecordedEvent_new example_event_meta 7 example_entry)))
      example_rocks_machine = Inr m"
    by (simp add: rocks_machine_apply_def example_loop_env_def stored_event_def event_new_defs applyEvent_def EventMeta_new_def
        example_rocks_machine_def apply_JournalEntryRecorded_def apply_line_def rocks_callbacks_def rocks_onAccountUpdated_def
        rocks_onBookkeepingProcessed_def batch_put_def list_rocks_def example_ledger_def example_entry_def example_line_def
        example_account_def apply_amount_defs codec_simps Let_def)
  then have "fold_res (rocks_machine_apply example_loop_env)
      [Some (stored_event (JournalEntryRecordedEvent_new example_event_meta 7 example_entry))] example_rocks_machine = Inr m" by simp
  then show ?thesis using m second_journal_entry_stops_the_apply_loop by blast
qed

section \<open>Restarting after a crash\<close>

text \<open>
  When the process dies, what is in the write batch is lost. It starts again with the database as it is and an
  empty batch.
\<close>

definition after_crash :: "('db, 'wb) rocks_ops \<Rightarrow> ('db, 'wb) rocks_ext \<Rightarrow> ('db, 'wb) rocks_ext" where
  "after_crash R x = x\<lparr>rx_mWriteBatch := rk_Clear R (rx_mWriteBatch x)\<rparr>"

definition commit_id :: "command_events \<Rightarrow> u64" where
  "commit_id b = (case fst b of None \<Rightarrow> 0 | Some c \<Rightarrow> mt_mId (cmd_mMetaData c))"

definition events_wf :: "Event option list \<Rightarrow> bool" where
  "events_wf evs = list_all (\<lambda>ev. case ev of None \<Rightarrow> True | Some e \<Rightarrow> event_body_wf (ev_body e)) evs"

text \<open>The database alone holds a ledger and an index.\<close>

definition database_holds ::
  "proto_wire \<Rightarrow> ('db, 'wb) rocks_ops \<Rightarrow> ('db \<Rightarrow> db_view) \<Rightarrow> ('wb \<Rightarrow> put list) \<Rightarrow> ('db, 'wb) rocks_ext \<Rightarrow> ledger \<Rightarrow> u64 \<Rightarrow> bool" where
  "database_holds w R dbv wbv x s i =
     (storable s \<and> rocks_agrees w dbv wbv s (after_crash R x) \<and> load_index R (rx_mRocksDB x) = Inr i \<and> rx_mLastFlushedIndex x = i)"

lemma after_crash_view: "rocks_contract R dbv wbv \<Longrightarrow> pending_view dbv wbv (after_crash R x) = dbv (rx_mRocksDB x)"
  by (simp add: after_crash_def pending_view_def apply_puts_def contractD(7))

lemma database_holds_same:
  assumes "rocks_contract R dbv wbv" and "same_db x x'" and "database_holds w R dbv wbv x s i"
  shows "database_holds w R dbv wbv x' s i"
  using assms by (simp add: database_holds_def rocks_agrees_def after_crash_view same_db_def)

lemma events_in_step:
  assumes C: "rocks_contract (lv_rocks E) dbv wbv" and "events_wf evs" and "in_step (st_wire (lv_store E)) dbv wbv m"
    and "fold_res (rocks_machine_apply E) evs m = Inr m1"
  shows "in_step (st_wire (lv_store E)) dbv wbv m1 \<and> same_db (as_ext m) (as_ext m1)"
proof (rule fold_res_invariant[where P = "\<lambda>m1. in_step (st_wire (lv_store E)) dbv wbv m1 \<and> same_db (as_ext m) (as_ext m1)", OF _ _ assms(4)])
  fix ev u v
  assume ev: "ev \<in> set evs" and u: "in_step (st_wire (lv_store E)) dbv wbv u \<and> same_db (as_ext m) (as_ext u)"
    and run: "rocks_machine_apply E ev u = Inr v"
  obtain e where e: "ev = Some e" "applyEvent (rocks_callbacks (lv_rocks E) (st_wire (lv_store E))) (lv_groupId E) e u = Inr v"
    using run by (auto simp: rocks_machine_apply_def split: option.splits)
  have "event_body_wf (ev_body e)" using assms(2) ev e(1) by (auto simp: events_wf_def list_all_iff)
  then show "in_step (st_wire (lv_store E)) dbv wbv v \<and> same_db (as_ext m) (as_ext v)"
    using event_in_step[OF C _ _ e(2)] u same_db_trans by blast
qed (simp add: assms(3) same_db_def)

text \<open>One bundle: either the database stays as it is, less than 500 behind, or it holds the ledger after the bundle.\<close>

lemma bundle_in_step:
  assumes C: "rocks_contract (lv_rocks E) dbv wbv" and wf: "events_wf (snd b)" and inv: "in_step (st_wire (lv_store E)) dbv wbv m"
    and run: "apply_bundle E b m = Inr m'"
  shows "in_step (st_wire (lv_store E)) dbv wbv m'
    \<and> (commit_id b - rx_mLastFlushedIndex (as_ext m) < 500 \<and> same_db (as_ext m) (as_ext m')
       \<or> database_holds (st_wire (lv_store E)) (lv_rocks E) dbv wbv (as_ext m') (as_ledger m') (commit_id b))"
proof -
  obtain m1 c x where m1: "fold_res (rocks_machine_apply E) (snd b) m = Inr m1" "fst b = Some c"
    "commit (lv_rocks E) (mt_mId (cmd_mMetaData c)) (as_ext m1) = Inr x" "m' = m1\<lparr>as_ext := x\<rparr>"
    using run by (auto simp: apply_bundle_def res_bind_eq_Inr split: option.splits)
  note ev = events_in_step[OF C wf inv m1(1)]
  have id: "mt_mId (cmd_mMetaData c) = commit_id b" using m1(2) by (simp add: commit_id_def)
  note com = commit_effect[OF C, of "commit_id b" "as_ext m1"]
  have view: "pending_view dbv wbv x = (pending_view dbv wbv (as_ext m1))(CF_DEFAULT :=
      (pending_view dbv wbv (as_ext m1) CF_DEFAULT)(kLastAppliedIndexKey \<mapsto> to_string (unat (commit_id b))))"
    and new: "if commit_id b - rx_mLastFlushedIndex (as_ext m1) < mMaxBatchSize then same_db (as_ext m1) x
       else dbv (rx_mRocksDB x) = pending_view dbv wbv x \<and> wbv (rx_mWriteBatch x) = [] \<and> rx_mLastFlushedIndex x = commit_id b"
    using com m1(3) id by auto
  have step: "in_step (st_wire (lv_store E)) dbv wbv m'" using ev view m1(4) by (simp add: in_step_def rocks_agrees_def)
  show ?thesis
  proof (cases "commit_id b - rx_mLastFlushedIndex (as_ext m1) < mMaxBatchSize")
    case True
    then have "commit_id b - rx_mLastFlushedIndex (as_ext m) < 500 \<and> same_db (as_ext m) (as_ext m')"
      using new ev m1(4) by (auto simp: same_db_def mMaxBatchSize_def)
    then show ?thesis using step by simp
  next
    case False
    then have "dbv (rx_mRocksDB x) = pending_view dbv wbv x" "rx_mLastFlushedIndex x = commit_id b" using new by simp_all
    then have "database_holds (st_wire (lv_store E)) (lv_rocks E) dbv wbv (as_ext m') (as_ledger m') (commit_id b)"
      using step m1(4) view by (simp add: database_holds_def in_step_def rocks_agrees_def after_crash_view[OF C] load_index_def contractD(1)[OF C])
    then show ?thesis using step by simp
  qed
qed

lemma bundles_in_step:
  assumes C: "rocks_contract (lv_rocks E) dbv wbv" and m0: "in_step (st_wire (lv_store E)) dbv wbv m0"
    and db0: "database_holds (st_wire (lv_store E)) (lv_rocks E) dbv wbv (as_ext m0) (as_ledger m0) i0"
  shows "fold_res (apply_bundle E) bundles m0 = Inr m \<Longrightarrow> list_all (events_wf \<circ> snd) bundles \<Longrightarrow>
    in_step (st_wire (lv_store E)) dbv wbv m
    \<and> (\<exists>k mk. k \<le> length bundles \<and> fold_res (apply_bundle E) (take k bundles) m0 = Inr mk
         \<and> database_holds (st_wire (lv_store E)) (lv_rocks E) dbv wbv (as_ext m) (as_ledger mk) ((i0 # map commit_id bundles) ! k)
         \<and> last (i0 # map commit_id bundles) - (i0 # map commit_id bundles) ! k < 500)"
proof (induction bundles arbitrary: m rule: rev_induct)
  case Nil
  then show ?case using m0 db0 by simp
next
  case (snoc b bs)
  let ?ids = "i0 # map commit_id bs" and ?w = "st_wire (lv_store E)"
  obtain m1 where m1: "fold_res (apply_bundle E) bs m0 = Inr m1" "apply_bundle E b m1 = Inr m"
    using snoc.prems(1) by (auto simp: fold_res_append res_bind_eq_Inr)
  obtain k mk where k: "k \<le> length bs" "fold_res (apply_bundle E) (take k bs) m0 = Inr mk"
    "database_holds ?w (lv_rocks E) dbv wbv (as_ext m1) (as_ledger mk) (?ids ! k)" and in1: "in_step ?w dbv wbv m1"
    using snoc.IH[OF m1(1)] snoc.prems(2) by auto
  have step: "in_step ?w dbv wbv m" and new: "commit_id b - rx_mLastFlushedIndex (as_ext m1) < 500 \<and> same_db (as_ext m1) (as_ext m)
      \<or> database_holds ?w (lv_rocks E) dbv wbv (as_ext m) (as_ledger m) (commit_id b)"
    using bundle_in_step[OF C _ in1 m1(2)] snoc.prems(2) by auto
  have ids: "(i0 # map commit_id (bs @ [b])) ! k = ?ids ! k" "rx_mLastFlushedIndex (as_ext m1) = ?ids ! k"
    using k by (auto simp: nth_append nth_Cons database_holds_def split: nat.splits)
  from new show ?case
  proof
    assume "commit_id b - rx_mLastFlushedIndex (as_ext m1) < 500 \<and> same_db (as_ext m1) (as_ext m)"
    then show ?thesis using step k ids database_holds_same[OF C _ k(3)] by (intro conjI exI[of _ k] exI[of _ mk]) simp_all
  next
    assume "database_holds ?w (lv_rocks E) dbv wbv (as_ext m) (as_ledger m) (commit_id b)"
    then show ?thesis using step snoc.prems(1)
      by (intro conjI exI[of _ "Suc (length bs)"] exI[of _ m]) (simp_all add: nth_append)
  qed
qed

text \<open>
  C12. A crash loses no more than the bundles since the last flush, and never part of one. Let the apply loop
  start on a database that holds its ledger and index, apply any bundles and commit each of them, then apply
  some of the events of a next bundle, and die there with whatever is in its write batch. The machine that restarts on that database recovers, without
  failing an assertion, the accounts and the account metadata as they were after some number of whole bundles,
  together with the id of the last of these, so that the loop goes on with the bundle after it; that id is less
  than 500 behind the last one committed, in unsigned arithmetic; and the database still knows every journal
  entry those bundles recorded.
\<close>

theorem crash_recovers_whole_bundles:
  assumes "rocks_contract (lv_rocks E) dbv wbv" and "wire_ok (st_wire (lv_store E))" and "storable (as_ledger m0)"
    and "rocks_agrees (st_wire (lv_store E)) dbv wbv (as_ledger m0) (as_ext m0)" and "wbv (rx_mWriteBatch (as_ext m0)) = []"
    and "load_index (lv_rocks E) (rx_mRocksDB (as_ext m0)) = Inr i0" and "rx_mLastFlushedIndex (as_ext m0) = i0"
    and "list_all (events_wf \<circ> snd) bundles" and "fold_res (apply_bundle E) bundles m0 = Inr m1"
    and "events_wf evs" and "fold_res (rocks_machine_apply E) evs m1 = Inr m"
  shows "\<exists>k mk. k \<le> length bundles \<and> fold_res (apply_bundle E) (take k bundles) m0 = Inr mk
    \<and> recoverSelf (lv_rocks E) (st_wire (lv_store E)) (t, after_crash (lv_rocks E) (as_ext m))
        = Inr ((i0 # map commit_id bundles) ! k, (as_ledger mk)\<lparr>mDoneMap := []\<rparr>,
               (after_crash (lv_rocks E) (as_ext m))\<lparr>rx_mLastFlushedIndex := (i0 # map commit_id bundles) ! k\<rparr>)
    \<and> last (i0 # map commit_id bundles) - (i0 # map commit_id bundles) ! k < 500
    \<and> (\<forall>i. map_of (mDoneMap (as_ledger mk)) i \<noteq> None
         \<longrightarrow> getDone_rocks (lv_rocks E) (after_crash (lv_rocks E) (as_ext m)) i \<noteq> Status_NotFound)"
proof -
  let ?R = "lv_rocks E" and ?w = "st_wire (lv_store E)" and ?x = "after_crash (lv_rocks E) (as_ext m)"
  have "pending_view dbv wbv (after_crash ?R (as_ext m0)) = pending_view dbv wbv (as_ext m0)"
    unfolding after_crash_view[OF assms(1)] using assms(5) by (simp add: pending_view_def apply_puts_def)
  then have db0: "database_holds ?w ?R dbv wbv (as_ext m0) (as_ledger m0) i0"
    using assms(3,4,6,7) by (simp add: database_holds_def rocks_agrees_def)
  have "in_step ?w dbv wbv m0" using assms(3,4) by (simp add: in_step_def)
  note run = bundles_in_step[OF assms(1) this db0 assms(9,8)]
  then obtain k mk where k: "k \<le> length bundles" "fold_res (apply_bundle E) (take k bundles) m0 = Inr mk"
    "database_holds ?w ?R dbv wbv (as_ext m1) (as_ledger mk) ((i0 # map commit_id bundles) ! k)"
    "last (i0 # map commit_id bundles) - (i0 # map commit_id bundles) ! k < 500" by blast
  have "same_db (as_ext m1) (as_ext m)" using events_in_step[OF assms(1,10) _ assms(11)] run by blast
  then have db: "database_holds ?w ?R dbv wbv (as_ext m) (as_ledger mk) ((i0 # map commit_id bundles) ! k)"
    using database_holds_same[OF assms(1) _ k(3)] by blast
  have A: "rocks_agrees ?w dbv wbv (as_ledger mk) ?x" and ok: "storable (as_ledger mk)" using db by (simp_all add: database_holds_def)
  have "recoverSelf ?R ?w (t, ?x) = Inr ((i0 # map commit_id bundles) ! k, (as_ledger mk)\<lparr>mDoneMap := []\<rparr>,
      ?x\<lparr>rx_mLastFlushedIndex := (i0 # map commit_id bundles) ! k\<rparr>)"
    using db by (intro recover_from_view[OF assms(1,2) ok A]) (simp_all add: after_crash_def contractD(7)[OF assms(1)] database_holds_def)
  moreover have "getDone_rocks ?R ?x i \<noteq> Status_NotFound" if "map_of (mDoneMap (as_ledger mk)) i \<noteq> None" for i
    using A that unfolding rocks_agrees_def after_crash_view[OF assms(1)]
    by (auto simp: getDone_rocks_def contractD(1)[OF assms(1)] after_crash_def split: option.splits)
  ultimately show ?thesis using k by blast
qed

text \<open>Two accounts are created; the first commit is flushed, the second is not.\<close>

definition example_empty_machine :: "(put list, put list) rocks_ext app_state" where
  "example_empty_machine =
     \<lparr>as_ledger = empty_ledger, as_mCtrlState = CtrlState_new 0 0,
      as_ext = \<lparr>rx_mRocksDB = [], rx_mWriteBatch = [], rx_mLastFlushedIndex = 0\<rparr>\<rparr>"

definition example_creation :: "u64 \<Rightarrow> u64 \<Rightarrow> command_events" where
  "example_creation i code =
     (Some (example_create\<lparr>cmd_mMetaData := (example_command_meta CREATE_ACCOUNT_COMMAND)\<lparr>mt_mId := i\<rparr>\<rparr>),
      [Some (AccountCreatedEvent_new example_event_meta 7 (example_account code AT_Asset 100))])"

theorem crash_recovers_whole_bundles_witness:
  "\<exists>m i s x. fold_res (apply_bundle example_loop_env) [example_creation 500 1, example_creation 501 2] example_empty_machine = Inr m
     \<and> recoverSelf list_rocks code_wire (empty_ledger, after_crash list_rocks (as_ext m)) = Inr (i, s, x) \<and> 501 - i < 500"
proof -
  let ?bs = "[example_creation 500 1, example_creation 501 2]"
  have E: "lv_rocks example_loop_env = list_rocks" "st_wire (lv_store example_loop_env) = code_wire" by (simp_all add: example_loop_env_def example_store_env_def)
  have ok: "storable empty_ledger" "rocks_agrees code_wire (\<lambda>db. apply_puts db (\<lambda>_. Map.empty)) (\<lambda>wb. wb) empty_ledger (as_ext example_empty_machine)"
    by (auto simp: storable_def metadata_typed_def coa_ok_def smap_ok_def empty_ledger_def rocks_agrees_def example_empty_machine_def
        pending_view_def apply_puts_def coa_rows_def metadata_rows_def)
  have idx: "load_index list_rocks (rx_mRocksDB (as_ext example_empty_machine)) = Inr 0"
    by (simp add: load_index_def list_rocks_def example_empty_machine_def rows_of_puts_def)
  have wf: "list_all (events_wf \<circ> snd) ?bs" by (simp add: events_wf_def example_creation_def event_new_defs example_account_def wf_defs)
  obtain m where run: "fold_res (apply_bundle example_loop_env) ?bs example_empty_machine = Inr m"
    by (simp add: apply_bundle_def example_loop_env_def example_creation_def rocks_machine_apply_def event_new_defs applyEvent_def
        example_empty_machine_def apply_AccountCreated_def rocks_callbacks_def rocks_onAccountInserted_def batch_put_def list_rocks_def
        commit_def flushToRocksDB_def mMaxBatchSize_def example_account_def codec_simps EventMeta_new_def empty_ledger_def Let_def)
  have none: "events_wf []" "fold_res (rocks_machine_apply example_loop_env) [] m = Inr m" by (simp_all add: events_wf_def)
  from crash_recovers_whole_bundles[where t = empty_ledger, OF list_rocks_contract[folded E(1)] _ _ _ _ _ _ wf run none] ok idx
  show ?thesis using run code_wire_ok unfolding E by (auto simp: example_empty_machine_def example_creation_def commit_id_def)
qed

end
