(* ===== verification/Request_Handling.thy ===== *)
theory Request_Handling
  imports Ledger_State_Machine Mpsc_Queue "HOL-Library.Multiset"
begin

text \<open>
  The gRPC front end, \<^verbatim>\<open>src/src/app_ledger/should_be_generated/app/RequestReceiver.cpp\<close> and the call objects
  under \<^verbatim>\<open>calldatas/\<close>. A call object is allocated, registers itself with the service, is handed back by the
  completion queue when a request has arrived, puts a command with itself as the request handle into the
  command queue, is told the result by whoever has the command, and is deleted when the reply is out.

  Call objects live in a store from addresses to objects, so that following a dangling handle is an error of
  the model. gRPC is the environment: it returns each registered or finished tag at most once, with or without
  success.
\<close>

section \<open>CallData\<close>

text \<open>The three instances of the template and their requests.\<close>

datatype call_kind = Configure_Call | Create_Call | Record_Call

datatype call_request =
  Configure_Request pb_ConfigureRequest
| Create_Request pb_CreateRequest
| Record_Request pb_RecordRequest

fun request_kind :: "call_request \<Rightarrow> call_kind" where
  "request_kind (Configure_Request r) = Configure_Call"
| "request_kind (Create_Request r) = Create_Call"
| "request_kind (Record_Request r) = Record_Call"

text \<open>The request of a new object: the empty message.\<close>

fun empty_request :: "call_kind \<Rightarrow> call_request" where
  "empty_request Configure_Call = Configure_Request \<lparr>pcr_metadata = pb_AccountMetadata_default\<rparr>"
| "empty_request Create_Call = Create_Request \<lparr>pcq_account = pb_Account_default\<rparr>"
| "empty_request Record_Call = Record_Request \<lparr>prq_journal_entry = None\<rparr>"

lemma request_kind_empty [simp]: "request_kind (empty_request k) = k"
  by (cases k) simp_all

datatype CallStatus = Status_CREATE | Status_PROCESS | Status_FINISH

record call_response =
  rs_code :: u32
  rs_message :: string
  rs_reserved :: string

record call_data =
  cd_mRequest :: call_request
  cd_mResponse :: call_response
  cd_mCallStatus :: CallStatus

abbreviation cd_kind :: "call_data \<Rightarrow> call_kind" where
  "cd_kind cd \<equiv> request_kind (cd_mRequest cd)"

text \<open>
  The receiver with its call objects; \<open>rr_registered\<close> and \<open>rr_finishing\<close> are the tags the completion queue
  still has to return. The last three fields only record what happened: the tags of the requests that
  arrived, the handles of the commands the command loop took out and has not answered, and the replies.
\<close>

record receiver =
  rr_calls :: "nat \<Rightarrow> call_data option"
  rr_nextAddress :: nat
  rr_registered :: "nat list"
  rr_finishing :: "nat list"
  rr_mCommandQueue :: "Command mpsc"
  rr_mIsShutdown :: bool
  rr_arrived :: "nat list"
  rr_taken :: "nat list"
  rr_replies :: "(nat \<times> call_response) list"

text \<open>The ids a node puts into its commands.\<close>

record app_ids =
  ai_subsystemId :: u64
  ai_groupId :: u64
  ai_groupVersion :: u64

definition proceed_create :: "nat \<Rightarrow> call_data \<Rightarrow> receiver \<Rightarrow> receiver" where
  "proceed_create tag cd s =
     s\<lparr>rr_calls := (rr_calls s)(tag \<mapsto> cd\<lparr>cd_mCallStatus := Status_PROCESS\<rparr>), rr_registered := rr_registered s @ [tag]\<rparr>"

definition CallData_new :: "call_kind \<Rightarrow> receiver \<Rightarrow> receiver" where
  "CallData_new kind s =
     proceed_create (rr_nextAddress s)
       \<lparr>cd_mRequest = empty_request kind, cd_mResponse = \<lparr>rs_code = 0, rs_message = [], rs_reserved = []\<rparr>, cd_mCallStatus = Status_CREATE\<rparr>
       (s\<lparr>rr_nextAddress := rr_nextAddress s + 1\<rparr>)"

definition CallData_delete :: "nat \<Rightarrow> receiver \<Rightarrow> receiver" where
  "CallData_delete tag s = s\<lparr>rr_calls := (rr_calls s)(tag := None)\<rparr>"

definition CallData_failOver :: "nat \<Rightarrow> receiver \<Rightarrow> receiver res" where
  "CallData_failOver tag s =
     (case rr_calls s tag of
        None \<Rightarrow> Inl Bad_Access
      | Some cd \<Rightarrow> Inr (CallData_delete tag (CallData_new (cd_kind cd) s)))"

definition fillResultAndReply :: "nat \<Rightarrow> u32 \<Rightarrow> string \<Rightarrow> u64 option \<Rightarrow> receiver \<Rightarrow> receiver res" where
  "fillResultAndReply tag code message leaderId s =
     (case rr_calls s tag of
        None \<Rightarrow> Inl Bad_Access
      | Some cd \<Rightarrow>
          let response = (cd_mResponse cd)\<lparr>rs_code := code, rs_message := message,
                rs_reserved := (case leaderId of
                   Some l \<Rightarrow> if code = 301 then to_string (unat l) else rs_reserved (cd_mResponse cd)
                 | None \<Rightarrow> rs_reserved (cd_mResponse cd))\<rparr> in
          Inr (s\<lparr>rr_calls := (rr_calls s)(tag \<mapsto> cd\<lparr>cd_mResponse := response, cd_mCallStatus := Status_FINISH\<rparr>),
                 rr_finishing := rr_finishing s @ [tag], rr_replies := rr_replies s @ [(tag, response)]\<rparr>))"

fun command_of_request :: "CommandMetaData \<Rightarrow> u64 \<Rightarrow> call_request \<Rightarrow> Command res" where
  "command_of_request junk created (Configure_Request r) = ConfigureAccountMetadataCommand_new junk created r"
| "command_of_request junk created (Create_Request r) = CreateAccountCommand_new junk created r"
| "command_of_request junk created (Record_Request r) = RecordJournalEntryCommand_new junk created r"

definition for_client :: "app_ids \<Rightarrow> nat \<Rightarrow> Command \<Rightarrow> Command" where
  "for_client ids tag c =
     c\<lparr>cmd_mMetaData := (cmd_mMetaData c)\<lparr>cm_mRequestHandle := Some tag, mt_mCreatorId := ai_subsystemId ids,
        mt_mGroupId := ai_groupId ids, mt_mGroupVersion := ai_groupVersion ids\<rparr>\<rparr>"

text \<open>The three specialisations of \<^verbatim>\<open>proceed\<close> differ in the types only.\<close>

definition proceed_process :: "app_ids \<Rightarrow> u64 \<Rightarrow> CommandMetaData \<Rightarrow> nat \<Rightarrow> call_data \<Rightarrow> receiver \<Rightarrow> receiver res" where
  "proceed_process ids now junk tag cd s =
     (let s1 = CallData_new (cd_kind cd) s in
      res_bind (command_of_request junk now (cd_mRequest cd))
        (\<lambda>c. let command = for_client ids tag c; verifyResult = verifyCommand (cmd_body command) in
          if verifyResult \<noteq> kVerifiedSuccess then fillResultAndReply tag 400 verifyResult None s1
          else
            (case mpsc_enqueue command (rr_mCommandQueue s1) of
               Inr q \<Rightarrow> Inr (s1\<lparr>rr_mCommandQueue := q\<rparr>)
             | Inl what \<Rightarrow> fillResultAndReply tag 503 what None s1)))"

definition CallData_proceed :: "app_ids \<Rightarrow> u64 \<Rightarrow> CommandMetaData \<Rightarrow> nat \<Rightarrow> receiver \<Rightarrow> receiver res" where
  "CallData_proceed ids now junk tag s =
     (case rr_calls s tag of
        None \<Rightarrow> Inl Bad_Access
      | Some cd \<Rightarrow>
          (case cd_mCallStatus cd of
             Status_CREATE \<Rightarrow> Inr (proceed_create tag cd s)
           | Status_PROCESS \<Rightarrow> proceed_process ids now junk tag cd s
           | Status_FINISH \<Rightarrow> Inr (CallData_delete tag s)))"

section \<open>RequestReceiver\<close>

definition mPreSpawn :: nat where "mPreSpawn = 1"

definition mConcurrency :: nat where "mConcurrency = 1"

definition receiver_new :: "Command mpsc \<Rightarrow> receiver" where
  "receiver_new q =
     \<lparr>rr_calls = (\<lambda>_. None), rr_nextAddress = 0, rr_registered = [], rr_finishing = [], rr_mCommandQueue = q, rr_mIsShutdown = False,
      rr_arrived = [], rr_taken = [], rr_replies = []\<rparr>"

definition startListen :: "receiver \<Rightarrow> receiver" where
  "startListen s =
     (if rr_mIsShutdown s then s
      else fold (\<lambda>_ s. CallData_new Create_Call (CallData_new Configure_Call s)) [0 ..< mPreSpawn * mConcurrency] s)"

text \<open>One turn of \<^verbatim>\<open>handleRpcs\<close> with what the completion queue returned.\<close>

definition handleRpcs_round :: "app_ids \<Rightarrow> u64 \<Rightarrow> CommandMetaData \<Rightarrow> nat \<Rightarrow> bool \<Rightarrow> receiver \<Rightarrow> receiver res" where
  "handleRpcs_round ids now junk tag ok s =
     (if ok then CallData_proceed ids now junk tag s
      else if \<not> rr_mIsShutdown s then CallData_failOver tag s
      else Inr s)"

definition receiver_stop :: "receiver \<Rightarrow> receiver" where
  "receiver_stop s = s\<lparr>rr_mIsShutdown := True\<rparr>"

section \<open>The receiver among the other threads\<close>

text \<open>
  \<open>arrives\<close>, \<open>lost\<close>: the completion queue returns a registered tag, with a request in the object's request
  field, or without success; \<open>sent\<close>, \<open>unsent\<close>: it returns the tag of a reply; \<open>drained\<close>: after a stop tags are
  also taken out by \<^verbatim>\<open>stop\<close> itself. \<open>benchmark\<close>: a command of no client is put into the queue. \<open>taken\<close>: the
  command loop takes a command out; \<open>answered\<close>: whoever has the command answers its client, after which the
  command is not answered again.
\<close>

definition command_handle :: "Command \<Rightarrow> nat list" where
  "command_handle c = (case cm_mRequestHandle (cmd_mMetaData c) of None \<Rightarrow> [] | Some h \<Rightarrow> [h])"

inductive receiver_step :: "app_ids \<Rightarrow> receiver \<Rightarrow> receiver \<Rightarrow> bool" for ids where
  arrives: "tag \<in> set (rr_registered s) \<Longrightarrow> rr_calls s tag = Some cd \<Longrightarrow> request_kind r = cd_kind cd
    \<Longrightarrow> handleRpcs_round ids now junk tag True (s\<lparr>rr_registered := remove1 tag (rr_registered s),
          rr_calls := (rr_calls s)(tag \<mapsto> cd\<lparr>cd_mRequest := r\<rparr>), rr_arrived := rr_arrived s @ [tag]\<rparr>) = Inr s'
    \<Longrightarrow> receiver_step ids s s'"
| lost: "tag \<in> set (rr_registered s)
    \<Longrightarrow> handleRpcs_round ids now junk tag False (s\<lparr>rr_registered := remove1 tag (rr_registered s)\<rparr>) = Inr s'
    \<Longrightarrow> receiver_step ids s s'"
| sent: "tag \<in> set (rr_finishing s)
    \<Longrightarrow> handleRpcs_round ids now junk tag True (s\<lparr>rr_finishing := remove1 tag (rr_finishing s)\<rparr>) = Inr s'
    \<Longrightarrow> receiver_step ids s s'"
| unsent: "tag \<in> set (rr_finishing s)
    \<Longrightarrow> handleRpcs_round ids now junk tag False (s\<lparr>rr_finishing := remove1 tag (rr_finishing s)\<rparr>) = Inr s'
    \<Longrightarrow> receiver_step ids s s'"
| drained: "rr_mIsShutdown s
    \<Longrightarrow> receiver_step ids s (s\<lparr>rr_registered := remove1 tag (rr_registered s), rr_finishing := remove1 tag (rr_finishing s)\<rparr>)"
| benchmark: "cm_mRequestHandle (cmd_mMetaData c) = None \<Longrightarrow> mpsc_enqueue c (rr_mCommandQueue s) = Inr q
    \<Longrightarrow> receiver_step ids s (s\<lparr>rr_mCommandQueue := q\<rparr>)"
| taken: "mpsc_dequeue (rr_mCommandQueue s) = Item c q
    \<Longrightarrow> receiver_step ids s (s\<lparr>rr_mCommandQueue := q, rr_taken := rr_taken s @ command_handle c\<rparr>)"
| answered: "h \<in> set (rr_taken s) \<Longrightarrow> fillResultAndReply h code message leaderId s = Inr s'
    \<Longrightarrow> receiver_step ids s (s'\<lparr>rr_taken := remove1 h (rr_taken s')\<rparr>)"
| stops: "receiver_step ids s (receiver_stop s)"
| queue_stops: "receiver_step ids s (s\<lparr>rr_mCommandQueue := mpsc_shutdown (rr_mCommandQueue s)\<rparr>)"

text \<open>The handles of the requests that are neither waiting for a client nor answered.\<close>

definition open_handles :: "receiver \<Rightarrow> nat list" where
  "open_handles s = concat (map command_handle (mpsc_items (rr_mCommandQueue s))) @ rr_taken s"

text \<open>
  The tags: of the registered objects, of those whose reply is on its way, of the open requests, with the
  status of every object, the next address, the requests that arrived and those that were answered.
\<close>

definition tags_ok ::
  "nat list \<Rightarrow> nat list \<Rightarrow> nat list \<Rightarrow> (nat \<Rightarrow> CallStatus option) \<Rightarrow> nat \<Rightarrow> nat list \<Rightarrow> nat list \<Rightarrow> bool" where
  "tags_ok registered finishing opened status next arrived answered =
     (distinct (registered @ finishing @ opened)
      \<and> (\<forall>tag \<in> set registered \<union> set opened. status tag = Some Status_PROCESS)
      \<and> (\<forall>tag \<in> set finishing. status tag = Some Status_FINISH)
      \<and> (\<forall>tag \<in> set registered \<union> set finishing \<union> set opened \<union> set answered. tag < next)
      \<and> distinct answered \<and> set answered \<inter> (set registered \<union> set opened) = {}
      \<and> mset arrived = mset answered + mset opened)"

lemma tags_opened_cong: "mset os' = mset os \<Longrightarrow> tags_ok rs fs os' st n as bs = tags_ok rs fs os st n as bs"
proof -
  assume a: "mset os' = mset os"
  then have "set os' = set os" "distinct os' = distinct os" using mset_eq_setD mset_eq_imp_distinct_iff by blast+
  then show ?thesis using a by (simp add: tags_ok_def)
qed

lemma tags_new: "tags_ok rs fs os st n as bs \<Longrightarrow> tags_ok (rs @ [n]) fs os (st(n \<mapsto> Status_PROCESS)) (Suc n) as bs"
  unfolding tags_ok_def by (auto simp: less_Suc_eq)

lemma tags_arrive: "tags_ok rs fs os st n as bs \<Longrightarrow> t \<in> set rs \<Longrightarrow> tags_ok (remove1 t rs) fs (os @ [t]) st n (as @ [t]) bs"
  unfolding tags_ok_def by (auto dest: notin_set_remove1)

lemma tags_reply: "tags_ok rs fs os st n as bs \<Longrightarrow> t \<in> set os
    \<Longrightarrow> tags_ok rs (fs @ [t]) (remove1 t os) (st(t \<mapsto> Status_FINISH)) n as (bs @ [t])"
  unfolding tags_ok_def by auto

lemma tags_drop: "tags_ok rs fs os st n as bs \<Longrightarrow> tags_ok (remove1 t rs) (remove1 u fs) os st n as bs"
  unfolding tags_ok_def by auto

lemma tags_delete: "tags_ok rs fs os st n as bs \<Longrightarrow> t \<notin> set rs \<union> set fs \<union> set os \<Longrightarrow> tags_ok rs fs os (st(t := None)) n as bs"
  unfolding tags_ok_def by auto


text \<open>What waits for clients.\<close>

definition kinds_ok :: "nat list \<Rightarrow> (nat \<Rightarrow> call_kind option) \<Rightarrow> bool \<Rightarrow> bool" where
  "kinds_ok registered kind shut =
     ((\<forall>tag. kind tag \<noteq> Some Record_Call)
      \<and> (\<not> shut \<longrightarrow> (\<exists>tag \<in> set registered. kind tag = Some Create_Call) \<and> (\<exists>tag \<in> set registered. kind tag = Some Configure_Call)))"

lemma kinds_new: "kinds_ok rs kd shut \<Longrightarrow> kd t = Some k \<Longrightarrow> n \<notin> set rs \<Longrightarrow> kinds_ok (remove1 t rs @ [n]) (kd(n \<mapsto> k)) shut"
  unfolding kinds_ok_def by (auto simp: fun_upd_def) (metis in_set_remove1 option.inject)+

lemma kinds_delete: "kinds_ok rs kd shut \<Longrightarrow> t \<notin> set rs \<Longrightarrow> kinds_ok rs (kd(t := None)) shut"
  unfolding kinds_ok_def by (auto simp: fun_upd_def)

definition call_status :: "receiver \<Rightarrow> nat \<Rightarrow> CallStatus option" where
  "call_status s tag = map_option cd_mCallStatus (rr_calls s tag)"

definition kind_of_call :: "receiver \<Rightarrow> nat \<Rightarrow> call_kind option" where
  "kind_of_call s tag = map_option cd_kind (rr_calls s tag)"

definition receiver_inv :: "receiver \<Rightarrow> bool" where
  "receiver_inv s =
     (tags_ok (rr_registered s) (rr_finishing s) (open_handles s) (call_status s) (rr_nextAddress s) (rr_arrived s) (map fst (rr_replies s))
      \<and> kinds_ok (rr_registered s) (kind_of_call s) (rr_mIsShutdown s))"

lemma new_fields [simp]:
  "rr_registered (CallData_new k s) = rr_registered s @ [rr_nextAddress s]" "rr_finishing (CallData_new k s) = rr_finishing s"
  "rr_nextAddress (CallData_new k s) = Suc (rr_nextAddress s)" "rr_arrived (CallData_new k s) = rr_arrived s"
  "rr_replies (CallData_new k s) = rr_replies s" "rr_mIsShutdown (CallData_new k s) = rr_mIsShutdown s"
  "rr_mCommandQueue (CallData_new k s) = rr_mCommandQueue s" "rr_taken (CallData_new k s) = rr_taken s"
  "open_handles (CallData_new k s) = open_handles s"
  "call_status (CallData_new k s) = (call_status s)(rr_nextAddress s \<mapsto> Status_PROCESS)"
  "kind_of_call (CallData_new k s) = (kind_of_call s)(rr_nextAddress s \<mapsto> k)"
  by (auto simp: CallData_new_def proceed_create_def open_handles_def call_status_def kind_of_call_def)

lemma delete_fields [simp]:
  "rr_registered (CallData_delete t s) = rr_registered s" "rr_finishing (CallData_delete t s) = rr_finishing s"
  "rr_nextAddress (CallData_delete t s) = rr_nextAddress s" "rr_arrived (CallData_delete t s) = rr_arrived s"
  "rr_replies (CallData_delete t s) = rr_replies s" "rr_mIsShutdown (CallData_delete t s) = rr_mIsShutdown s"
  "open_handles (CallData_delete t s) = open_handles s"
  "call_status (CallData_delete t s) = (call_status s)(t := None)"
  "kind_of_call (CallData_delete t s) = (kind_of_call s)(t := None)"
  by (auto simp: CallData_delete_def open_handles_def call_status_def kind_of_call_def)

lemma reply_fields:
  assumes "fillResultAndReply h code message l s = Inr s'"
  shows "rr_registered s' = rr_registered s" "rr_finishing s' = rr_finishing s @ [h]" "rr_nextAddress s' = rr_nextAddress s"
    "rr_arrived s' = rr_arrived s" "map fst (rr_replies s') = map fst (rr_replies s) @ [h]" "rr_mIsShutdown s' = rr_mIsShutdown s"
    "rr_mCommandQueue s' = rr_mCommandQueue s" "rr_taken s' = rr_taken s"
    "call_status s' = (call_status s)(h \<mapsto> Status_FINISH)" "kind_of_call s' = kind_of_call s"
  using assms by (auto simp: fillResultAndReply_def Let_def call_status_def kind_of_call_def split: option.splits)

lemma process_result:
  assumes "proceed_process ids now junk tag cd s = Inr s'"
  shows "(\<exists>code message. fillResultAndReply tag code message None (CallData_new (cd_kind cd) s) = Inr s')
    \<or> (\<exists>c q. command_handle c = [tag] \<and> mpsc_items q = mpsc_items (rr_mCommandQueue s) @ [c]
         \<and> s' = (CallData_new (cd_kind cd) s)\<lparr>rr_mCommandQueue := q\<rparr>)"
proof -
  obtain c where c: "command_of_request junk now (cd_mRequest cd) = Inr c" using assms by (auto simp: proceed_process_def Let_def res_bind_eq_Inr)
  let ?c = "for_client ids tag c" and ?q = "rr_mCommandQueue s"
  show ?thesis
  proof (cases "verifyCommand (cmd_body ?c) = kVerifiedSuccess \<and> \<not> mShouldExit ?q")
    case True
    then have "s' = (CallData_new (cd_kind cd) s)\<lparr>rr_mCommandQueue := mpsc_push ?c ?q\<rparr>"
      using assms c by (simp add: proceed_process_def Let_def mpsc_enqueue_def)
    moreover have "command_handle ?c = [tag]" by (simp add: command_handle_def for_client_def)
    moreover have "mpsc_items (mpsc_push ?c ?q) = mpsc_items ?q @ [?c]" by (simp add: mpsc_items_def mpsc_push_def)
    ultimately show ?thesis by blast
  next
    case False
    then show ?thesis using assms c by (auto simp: proceed_process_def Let_def mpsc_enqueue_def split: if_splits)
  qed
qed

lemma next_unused:
  assumes "receiver_inv s"
  shows "rr_nextAddress s \<notin> set (rr_registered s)"
  using assms by (auto simp: receiver_inv_def tags_ok_def)

lemma registered_status:
  assumes "receiver_inv s" and "tag \<in> set (rr_registered s)"
  shows "call_status s tag = Some Status_PROCESS" "tag \<notin> set (rr_finishing s) \<union> set (open_handles s)"
    "tag \<notin> set (remove1 tag (rr_registered s))" "tag < rr_nextAddress s"
  using assms by (auto simp: receiver_inv_def tags_ok_def)

lemma finishing_status:
  assumes "receiver_inv s" and "tag \<in> set (rr_finishing s)"
  shows "call_status s tag = Some Status_FINISH" "tag \<notin> set (rr_registered s) \<union> set (open_handles s)"
    "tag \<notin> set (remove1 tag (rr_finishing s))" "tag < rr_nextAddress s"
  using assms by (auto simp: receiver_inv_def tags_ok_def)

lemma open_status:
  assumes "receiver_inv s" and "tag \<in> set (open_handles s)"
  shows "call_status s tag = Some Status_PROCESS"
  using assms by (auto simp: receiver_inv_def tags_ok_def)

text \<open>An arrived request is answered at once or its command is in the queue; another object waits in its place.\<close>

lemma arrival_preserves:
  assumes inv: "receiver_inv s" and tag: "tag \<in> set (rr_registered s)" "rr_calls s tag = Some cd" "request_kind r = cd_kind cd"
    and run: "handleRpcs_round ids now junk tag True (s\<lparr>rr_registered := remove1 tag (rr_registered s),
          rr_calls := (rr_calls s)(tag \<mapsto> cd\<lparr>cd_mRequest := r\<rparr>), rr_arrived := rr_arrived s @ [tag]\<rparr>) = Inr s'"
  shows "receiver_inv s'"
proof -
  let ?n = "rr_nextAddress s" and ?cd = "cd\<lparr>cd_mRequest := r\<rparr>" and ?os = "open_handles s"
  let ?s = "s\<lparr>rr_registered := remove1 tag (rr_registered s), rr_calls := (rr_calls s)(tag \<mapsto> ?cd), rr_arrived := rr_arrived s @ [tag]\<rparr>"
  have st: "cd_mCallStatus cd = Status_PROCESS" using registered_status[OF inv tag(1)] tag(2) by (simp add: call_status_def)
  have fields: "call_status ?s = call_status s" "kind_of_call ?s = kind_of_call s" "open_handles ?s = ?os"
    using tag by (auto simp: call_status_def kind_of_call_def open_handles_def)
  have k: "kind_of_call s tag = Some (cd_kind ?cd)" using tag by (simp add: kind_of_call_def)
  have kinds: "kinds_ok (remove1 tag (rr_registered s) @ [?n]) ((kind_of_call s)(?n \<mapsto> cd_kind ?cd)) (rr_mIsShutdown s)"
    using kinds_new[of _ "kind_of_call s", OF _ k next_unused[OF inv]] inv by (simp add: receiver_inv_def)
  have "tags_ok (remove1 tag (rr_registered s)) (rr_finishing s) (?os @ [tag]) (call_status s) ?n (rr_arrived s @ [tag]) (map fst (rr_replies s))"
    using tags_arrive[OF _ tag(1)] inv by (simp add: receiver_inv_def)
  note tags = tags_new[OF this]
  have "proceed_process ids now junk tag ?cd ?s = Inr s'" using run st by (simp add: handleRpcs_round_def CallData_proceed_def)
  then consider code message where "fillResultAndReply tag code message None (CallData_new (cd_kind ?cd) ?s) = Inr s'"
    | c q where "command_handle c = [tag]" "mpsc_items q = mpsc_items (rr_mCommandQueue ?s) @ [c]"
        "s' = (CallData_new (cd_kind ?cd) ?s)\<lparr>rr_mCommandQueue := q\<rparr>"
    using process_result by blast
  then show ?thesis
  proof cases
    case 1
    note f = reply_fields[OF this]
    have o: "open_handles s' = ?os" using f by (simp add: open_handles_def)
    have "mset (remove1 tag (?os @ [tag])) = mset ?os" by simp
    from tags_reply[OF tags, of tag] tags_opened_cong[OF this] show ?thesis
      using kinds by (simp add: receiver_inv_def f fields o)
  next
    case 2
    have f: "rr_registered s' = remove1 tag (rr_registered s) @ [?n]" "rr_finishing s' = rr_finishing s" "rr_nextAddress s' = Suc ?n"
      "rr_arrived s' = rr_arrived s @ [tag]" "rr_replies s' = rr_replies s" "rr_mIsShutdown s' = rr_mIsShutdown s"
      "call_status s' = (call_status s)(?n \<mapsto> Status_PROCESS)" "kind_of_call s' = (kind_of_call s)(?n \<mapsto> cd_kind ?cd)"
      using fields new_fields(10,11)[of "cd_kind ?cd" ?s] by (simp_all add: 2(3) call_status_def[abs_def] kind_of_call_def[abs_def])
    have "mset (open_handles s') = mset (?os @ [tag])" using 2 by (simp add: open_handles_def)
    from tags_opened_cong[OF this] show ?thesis using tags kinds by (simp add: receiver_inv_def f)
  qed
qed

text \<open>A returned tag without success: the object is replaced by a new one of its kind.\<close>

lemma failOver_preserves:
  assumes inv: "receiver_inv s" and tag: "tag \<in> set (rr_registered s) \<union> set (rr_finishing s)"
    and run: "CallData_failOver tag (s\<lparr>rr_registered := remove1 tag (rr_registered s), rr_finishing := remove1 tag (rr_finishing s)\<rparr>) = Inr s'"
  shows "receiver_inv s'"
proof -
  let ?n = "rr_nextAddress s" and ?rs = "remove1 tag (rr_registered s)" and ?fs = "remove1 tag (rr_finishing s)"
  let ?s = "s\<lparr>rr_registered := ?rs, rr_finishing := ?fs\<rparr>"
  obtain cd where cd: "rr_calls s tag = Some cd" "s' = CallData_delete tag (CallData_new (cd_kind cd) ?s)"
    using run by (auto simp: CallData_failOver_def split: option.splits)
  have fields: "call_status ?s = call_status s" "kind_of_call ?s = kind_of_call s" "open_handles ?s = open_handles s"
    by (auto simp: call_status_def kind_of_call_def open_handles_def)
  have out: "tag \<notin> set (?rs @ [?n]) \<union> set ?fs \<union> set (open_handles s)"
    using tag registered_status[OF inv] finishing_status[OF inv] notin_set_remove1 by fastforce
  have k: "kind_of_call s tag = Some (cd_kind cd)" using cd by (simp add: kind_of_call_def)
  have "kinds_ok (?rs @ [?n]) ((kind_of_call s)(?n \<mapsto> cd_kind cd)) (rr_mIsShutdown s)"
    using kinds_new[of _ "kind_of_call s", OF _ k next_unused[OF inv]] inv by (simp add: receiver_inv_def)
  note kinds = kinds_delete[OF this, of tag]
  have "tags_ok ?rs ?fs (open_handles s) (call_status s) ?n (rr_arrived s) (map fst (rr_replies s))"
    using tags_drop inv by (simp add: receiver_inv_def)
  from tags_delete[OF tags_new[OF this] out] kinds out show ?thesis by (simp add: receiver_inv_def cd(2) fields)
qed

lemma answer_preserves:
  assumes inv: "receiver_inv s" and h: "h \<in> set (rr_taken s)" and run: "fillResultAndReply h code message l s = Inr s'"
  shows "receiver_inv (s'\<lparr>rr_taken := remove1 h (rr_taken s')\<rparr>)"
proof -
  let ?t = "s'\<lparr>rr_taken := remove1 h (rr_taken s')\<rparr>"
  note f = reply_fields[OF run]
  have "distinct (open_handles s)" using inv by (simp add: receiver_inv_def tags_ok_def)
  then have o: "open_handles (s'\<lparr>rr_taken := remove1 h (rr_taken s)\<rparr>) = remove1 h (open_handles s)" using h f(7,8) by (auto simp: open_handles_def remove1_append)
  have "tags_ok (rr_registered s) (rr_finishing s @ [h]) (remove1 h (open_handles s)) ((call_status s)(h \<mapsto> Status_FINISH)) (rr_nextAddress s)
      (rr_arrived s) (map fst (rr_replies s) @ [h])"
    using inv h by (intro tags_reply) (simp_all add: receiver_inv_def open_handles_def)
  moreover have "call_status ?t = call_status s'" "kind_of_call ?t = kind_of_call s'" by (auto simp: call_status_def kind_of_call_def)
  ultimately show ?thesis using inv by (simp add: receiver_inv_def f o)
qed

lemma receiver_inv_cong:
  assumes "receiver_inv s" and "mset (open_handles s') = mset (open_handles s)" and "rr_mIsShutdown s \<longrightarrow> rr_mIsShutdown s'"
    and "rr_calls s' = rr_calls s" "rr_nextAddress s' = rr_nextAddress s" "rr_registered s' = rr_registered s" "rr_finishing s' = rr_finishing s"
      "rr_arrived s' = rr_arrived s" "rr_replies s' = rr_replies s"
  shows "receiver_inv s'"
proof -
  have "call_status s' = call_status s" "kind_of_call s' = kind_of_call s" using assms(4) by (auto simp: call_status_def kind_of_call_def)
  then show ?thesis using assms tags_opened_cong[OF assms(2)] by (auto simp: receiver_inv_def kinds_ok_def)
qed

lemma drop_preserves:
  assumes "receiver_inv s" and "t \<notin> set (rr_registered s) \<or> rr_mIsShutdown s"
  shows "receiver_inv (s\<lparr>rr_registered := remove1 t (rr_registered s), rr_finishing := remove1 t (rr_finishing s)\<rparr>)"
proof -
  let ?s = "s\<lparr>rr_registered := remove1 t (rr_registered s), rr_finishing := remove1 t (rr_finishing s)\<rparr>"
  have fields: "call_status ?s = call_status s" "kind_of_call ?s = kind_of_call s" "open_handles ?s = open_handles s"
    by (auto simp: call_status_def kind_of_call_def open_handles_def)
  have "kinds_ok (remove1 t (rr_registered s)) (kind_of_call s) (rr_mIsShutdown s)"
    using assms by (auto simp: receiver_inv_def kinds_ok_def remove1_idem)
  then show ?thesis using assms tags_drop by (simp add: receiver_inv_def fields)
qed

lemma dequeue_items: "mpsc_dequeue q = Item c q' \<Longrightarrow> mpsc_items q = c # mpsc_items q'"
  by (auto simp: mpsc_dequeue_def mpsc_pop_def mpsc_swap_def mpsc_items_def split: if_splits list.splits)

lemma returned_tag_preserves:
  assumes inv: "receiver_inv s" and tag: "tag \<in> set (rr_registered s) \<union> set (rr_finishing s)"
    and run: "handleRpcs_round ids now junk tag False (s\<lparr>rr_registered := remove1 tag (rr_registered s), rr_finishing := remove1 tag (rr_finishing s)\<rparr>) = Inr s'"
  shows "receiver_inv s'"
proof (cases "rr_mIsShutdown s")
  case True
  then show ?thesis using drop_preserves[OF inv, of tag] run by (simp add: handleRpcs_round_def)
next
  case False
  then show ?thesis using failOver_preserves[OF inv tag] run by (simp add: handleRpcs_round_def)
qed

lemma sent_preserves:
  assumes inv: "receiver_inv s" and tag: "tag \<in> set (rr_finishing s)"
    and run: "handleRpcs_round ids now junk tag True (s\<lparr>rr_finishing := remove1 tag (rr_finishing s)\<rparr>) = Inr s'"
  shows "receiver_inv s'"
proof -
  let ?s = "s\<lparr>rr_finishing := remove1 tag (rr_finishing s)\<rparr>"
  note f = finishing_status[OF inv tag]
  have "remove1 tag (rr_registered s) = rr_registered s" using f(2) by (simp add: remove1_idem)
  then have i: "receiver_inv ?s" using drop_preserves[OF inv, of tag] f(2) by simp
  have "s' = CallData_delete tag ?s" using run f(1) by (auto simp: handleRpcs_round_def CallData_proceed_def call_status_def)
  moreover have "open_handles ?s = open_handles s" by (simp add: open_handles_def)
  ultimately show ?thesis using i f(2,3) tags_delete[of _ _ _ "call_status ?s"] kinds_delete[of _ "kind_of_call ?s"]
    by (simp add: receiver_inv_def)
qed

lemma receiver_step_preserves:
  assumes "receiver_step ids s s'" and inv: "receiver_inv s"
  shows "receiver_inv s'"
  using assms(1)
proof (cases rule: receiver_step.cases)
  case (arrives tag cd r now junk)
  then show ?thesis using arrival_preserves[OF inv] by blast
next
  case (lost tag now junk)
  then have "remove1 tag (rr_finishing s) = rr_finishing s" using registered_status(2)[OF inv] by (simp add: remove1_idem)
  then show ?thesis using returned_tag_preserves[OF inv, of tag] lost by simp
next
  case (sent tag now junk)
  then show ?thesis using sent_preserves[OF inv] by blast
next
  case (unsent tag now junk)
  then have "remove1 tag (rr_registered s) = rr_registered s" using finishing_status(2)[OF inv] by (simp add: remove1_idem)
  then show ?thesis using returned_tag_preserves[OF inv, of tag] unsent by simp
next
  case (drained tag)
  then show ?thesis using drop_preserves[OF inv] by blast
next
  case (benchmark c q)
  then have "mpsc_items q = mpsc_items (rr_mCommandQueue s) @ [c]" "command_handle c = []"
    by (auto simp: mpsc_enqueue_def mpsc_push_def mpsc_items_def command_handle_def split: if_splits)
  then show ?thesis by (intro receiver_inv_cong[OF inv]) (simp_all add: benchmark(1) open_handles_def)
next
  case (taken c q)
  then show ?thesis using dequeue_items[OF taken(2)] by (intro receiver_inv_cong[OF inv]) (simp_all add: open_handles_def)
next
  case (answered h code message leaderId s1)
  then show ?thesis using answer_preserves[OF inv] by blast
next
  case stops
  then show ?thesis by (intro receiver_inv_cong[OF inv]) (simp_all add: receiver_stop_def open_handles_def)
next
  case queue_stops
  then show ?thesis by (intro receiver_inv_cong[OF inv]) (simp_all add: open_handles_def mpsc_shutdown_def mpsc_items_def)
qed

definition receiver_started :: receiver where
  "receiver_started = startListen (receiver_new mpsc_new)"

lemma receiver_started_inv: "receiver_inv receiver_started"
  by (simp add: receiver_started_def startListen_def receiver_new_def mPreSpawn_def mConcurrency_def receiver_inv_def tags_ok_def kinds_ok_def
      open_handles_def mpsc_new_def mpsc_items_def call_status_def kind_of_call_def)

lemma receiver_run_inv: "(receiver_step ids)\<^sup>*\<^sup>* receiver_started s \<Longrightarrow> receiver_inv s"
  by (induction rule: rtranclp_induct) (auto intro: receiver_started_inv receiver_step_preserves)

lemma process_returns:
  assumes "rr_calls s tag \<noteq> None" and "command_of_request junk now (cd_mRequest cd) = Inr c"
  shows "\<exists>s'. proceed_process ids now junk tag cd s = Inr s'"
proof -
  have "\<exists>s'. fillResultAndReply tag code m l (CallData_new k s) = Inr s'" for code m l k
    using assms(1) by (auto simp: fillResultAndReply_def CallData_new_def proceed_create_def Let_def split: option.splits)
  then show ?thesis using assms(2) by (auto simp: proceed_process_def Let_def split: sum.splits)
qed

text \<open>
  C15. Request handles never dangle. Whatever the clients, the completion queue, the benchmark thread and the
  threads that answer do, and also during a shutdown: every command that waits in the queue or has been taken
  out has a handle to a call object that is alive and not yet answered, so answering it reaches the object;
  every tag the completion queue still has to return names a live object, so handling it does not stop the
  process, except where building the command from the request does; and no object is answered twice.
\<close>

theorem request_handles_never_dangle:
  assumes "(receiver_step ids)\<^sup>*\<^sup>* receiver_started s"
  shows "(\<forall>h \<in> set (open_handles s). h \<notin> set (map fst (rr_replies s)) \<and> (\<exists>s'. fillResultAndReply h code message leaderId s = Inr s'))
    \<and> (\<forall>tag \<in> set (rr_registered s) \<union> set (rr_finishing s). \<exists>s'. handleRpcs_round ids now junk tag False s = Inr s')
    \<and> (\<forall>tag \<in> set (rr_finishing s). \<exists>s'. handleRpcs_round ids now junk tag True s = Inr s')
    \<and> (\<forall>tag \<in> set (rr_registered s). \<forall>cd r e. rr_calls s tag = Some cd
         \<longrightarrow> handleRpcs_round ids now junk tag True (s\<lparr>rr_calls := (rr_calls s)(tag \<mapsto> cd\<lparr>cd_mRequest := r\<rparr>)\<rparr>) = Inl e
         \<longrightarrow> command_of_request junk now r = Inl e)
    \<and> distinct (map fst (rr_replies s))"
proof -
  have inv: "receiver_inv s" by (rule receiver_run_inv[OF assms])
  have live: "\<exists>cd. rr_calls s tag = Some cd" if "tag \<in> set (rr_registered s) \<union> set (rr_finishing s) \<union> set (open_handles s)" for tag
  proof -
    have "call_status s tag \<noteq> None"
      using that registered_status(1)[OF inv, of tag] finishing_status(1)[OF inv, of tag] open_status[OF inv, of tag] by auto
    then show ?thesis by (simp add: call_status_def)
  qed
  have built: "command_of_request junk now r = Inl e"
    if "tag \<in> set (rr_registered s)" "rr_calls s tag = Some cd"
      "handleRpcs_round ids now junk tag True (s\<lparr>rr_calls := (rr_calls s)(tag \<mapsto> cd\<lparr>cd_mRequest := r\<rparr>)\<rparr>) = Inl e" for tag cd r e
  proof -
    let ?cd = "cd\<lparr>cd_mRequest := r\<rparr>" and ?s = "s\<lparr>rr_calls := (rr_calls s)(tag \<mapsto> cd\<lparr>cd_mRequest := r\<rparr>)\<rparr>"
    have p: "proceed_process ids now junk tag ?cd ?s = Inl e" using that registered_status(1)[OF inv that(1)]
      by (simp add: handleRpcs_round_def CallData_proceed_def call_status_def)
    show ?thesis
    proof (cases "command_of_request junk now r")
      case (Inl e')
      then show ?thesis using p by (simp add: proceed_process_def Let_def)
    next
      case (Inr c)
      then show ?thesis using p process_returns[of ?s tag junk now ?cd c ids] by simp
    qed
  qed
  have "set (map fst (rr_replies s)) \<inter> set (open_handles s) = {}" "distinct (map fst (rr_replies s))"
    using inv by (auto simp: receiver_inv_def tags_ok_def)
  moreover have "\<exists>s'. fillResultAndReply h code message leaderId s = Inr s'" if "h \<in> set (open_handles s)" for h
    using live[of h] that by (auto simp: fillResultAndReply_def Let_def)
  moreover have "\<exists>s'. handleRpcs_round ids now junk tag False s = Inr s'" if "tag \<in> set (rr_registered s) \<union> set (rr_finishing s)" for tag
    using live[of tag] that by (auto simp: handleRpcs_round_def CallData_failOver_def)
  moreover have "\<exists>s'. handleRpcs_round ids now junk tag True s = Inr s'" if "tag \<in> set (rr_finishing s)" for tag
    using finishing_status(1)[OF inv that] by (auto simp: handleRpcs_round_def CallData_proceed_def call_status_def)
  ultimately show ?thesis using built by blast
qed

text \<open>
  C39. No request is forgotten or answered twice. In every reachable state the requests that arrived are, each
  once, those answered, those whose command waits in the queue and those whose command has been taken out and
  not been answered yet. An empty queue and nothing taken out therefore mean that every client has its answer.
\<close>

theorem every_request_is_answered_or_open:
  assumes "(receiver_step ids)\<^sup>*\<^sup>* receiver_started s"
  shows "mset (rr_arrived s)
      = mset (map fst (rr_replies s)) + mset (concat (map command_handle (mpsc_items (rr_mCommandQueue s)))) + mset (rr_taken s)
    \<and> distinct (rr_arrived s)"
proof -
  have t: "tags_ok (rr_registered s) (rr_finishing s) (open_handles s) (call_status s) (rr_nextAddress s) (rr_arrived s) (map fst (rr_replies s))"
    using receiver_run_inv[OF assms] by (simp add: receiver_inv_def)
  then have "distinct (map fst (rr_replies s) @ open_handles s)" "mset (rr_arrived s) = mset (map fst (rr_replies s) @ open_handles s)"
    by (auto simp: tags_ok_def)
  moreover from this have "distinct (rr_arrived s)" using mset_eq_imp_distinct_iff by blast
  ultimately show ?thesis by (simp add: open_handles_def)
qed

text \<open>
  C40. Journal entries are never received. In every reachable state no call object waits for a request to
  record a journal entry, because none is ever created, while as long as the receiver is not stopped one
  waits for a request to create an account and one for a request to configure metadata.
\<close>

theorem journal_requests_are_never_received:
  assumes "(receiver_step ids)\<^sup>*\<^sup>* receiver_started s"
  shows "(\<forall>tag cd. rr_calls s tag = Some cd \<longrightarrow> request_kind (cd_mRequest cd) \<noteq> Record_Call)
    \<and> (\<not> rr_mIsShutdown s \<longrightarrow> (\<forall>k \<in> {Create_Call, Configure_Call}. \<exists>tag \<in> set (rr_registered s).
         \<exists>cd. rr_calls s tag = Some cd \<and> request_kind (cd_mRequest cd) = k))"
proof -
  have k: "kinds_ok (rr_registered s) (kind_of_call s) (rr_mIsShutdown s)" using receiver_run_inv[OF assms] by (simp add: receiver_inv_def)
  have "cd_kind cd \<noteq> Record_Call" if "rr_calls s tag = Some cd" for tag cd
  proof -
    have "kind_of_call s tag \<noteq> Some Record_Call" using k by (simp add: kinds_ok_def)
    then show ?thesis using that by (simp add: kind_of_call_def)
  qed
  moreover have "\<exists>tag \<in> set (rr_registered s). \<exists>cd. rr_calls s tag = Some cd \<and> cd_kind cd = k"
    if running: "\<not> rr_mIsShutdown s" "k \<in> {Create_Call, Configure_Call}" for k
  proof -
    obtain tag where "tag \<in> set (rr_registered s)" "kind_of_call s tag = Some k" using k running by (auto simp: kinds_ok_def)
    then show ?thesis by (auto simp: kind_of_call_def)
  qed
  ultimately show ?thesis by blast
qed

text \<open>A client creates an account and another sends a request that does not verify; the command loop takes the first command out.\<close>

definition example_ids :: app_ids where
  "example_ids = \<lparr>ai_subsystemId = 1, ai_groupId = 0, ai_groupVersion = 0\<rparr>"

lemma example_arrivals:
  "\<exists>s1 c. receiver_step example_ids receiver_started s1 \<and> rr_registered s1 = [0, 2] \<and> rr_calls s1 2 = Some \<lparr>cd_mRequest = empty_request Create_Call,
       cd_mResponse = \<lparr>rs_code = 0, rs_message = [], rs_reserved = []\<rparr>, cd_mCallStatus = Status_PROCESS\<rparr>
     \<and> rr_arrived s1 = [1] \<and> rr_taken s1 = [] \<and> rr_replies s1 = [] \<and> \<not> rr_mIsShutdown s1
     \<and> rr_mCommandQueue s1 = mpsc_push c mpsc_new \<and> command_handle c = [1]"
proof -
  let ?s = receiver_started and ?r = "Create_Request example_create_request"
  let ?cd = "\<lparr>cd_mRequest = empty_request Create_Call, cd_mResponse = \<lparr>rs_code = 0, rs_message = [], rs_reserved = []\<rparr>, cd_mCallStatus = Status_PROCESS\<rparr>"
  have calls: "rr_calls ?s 1 = Some ?cd" "1 \<in> set (rr_registered ?s)" "rr_registered ?s = [0, 1]" "rr_nextAddress ?s = 2"
    by (simp_all add: receiver_started_def startListen_def receiver_new_def mPreSpawn_def mConcurrency_def CallData_new_def proceed_create_def)
  obtain c where c: "CreateAccountCommand_new (example_command_meta 0) 7 example_create_request = Inr c" "verifyCommand (cmd_body c) = kVerifiedSuccess"
    by (simp add: CreateAccountCommand_new_def tryInitAccount_def CreateAccountCommand_verify_def example_create_request_def Account_initWith_def
        Balance_of_proto_def kVerifiedSuccess_def)
  let ?c = "for_client example_ids 1 c"
  let ?a = "?s\<lparr>rr_registered := remove1 1 (rr_registered ?s), rr_calls := (rr_calls ?s)(1 \<mapsto> ?cd\<lparr>cd_mRequest := ?r\<rparr>), rr_arrived := rr_arrived ?s @ [1]\<rparr>"
  let ?s1 = "(CallData_new Create_Call ?a)\<lparr>rr_mCommandQueue := mpsc_push ?c mpsc_new\<rparr>"
  have plain: "rr_mCommandQueue ?s = mpsc_new" "rr_arrived ?s = []" "rr_taken ?s = []" "rr_replies ?s = []" "\<not> rr_mIsShutdown ?s"
    by (simp_all add: receiver_started_def startListen_def receiver_new_def mPreSpawn_def mConcurrency_def)
  have v: "verifyCommand (cmd_body ?c) = kVerifiedSuccess" using c(2) by (simp add: for_client_def)
  have "handleRpcs_round example_ids 7 (example_command_meta 0) 1 True ?a = Inr ?s1"
    using c(1) v by (simp add: handleRpcs_round_def CallData_proceed_def proceed_process_def Let_def plain mpsc_enqueue_def mpsc_new_def)
  from receiver_step.arrives[OF calls(2,1) _ this] have "receiver_step example_ids ?s ?s1" by simp
  moreover have "rr_calls ?s1 2 = Some ?cd" using calls(4) by (simp add: CallData_new_def proceed_create_def)
  moreover have "command_handle ?c = [1]" by (simp add: for_client_def command_handle_def)
  moreover have "rr_registered ?s1 = [0, 2]" using calls(3,4) by simp
  ultimately show ?thesis using plain by (intro exI[of _ ?s1] exI[of _ ?c]) simp
qed

lemma example_requests:
  "\<exists>s. (receiver_step example_ids)\<^sup>*\<^sup>* receiver_started s \<and> rr_taken s = [1] \<and> rr_arrived s = [1, 2] \<and> map fst (rr_replies s) = [2]
     \<and> \<not> rr_mIsShutdown s \<and> mpsc_items (rr_mCommandQueue s) = []"
proof -
  let ?cd = "\<lparr>cd_mRequest = empty_request Create_Call, cd_mResponse = \<lparr>rs_code = 0, rs_message = [], rs_reserved = []\<rparr>, cd_mCallStatus = Status_PROCESS\<rparr>"
  obtain s1 c where s1: "receiver_step example_ids receiver_started s1" "rr_registered s1 = [0, 2]" "rr_calls s1 2 = Some ?cd"
    "rr_arrived s1 = [1]" "rr_taken s1 = []" "rr_replies s1 = []" "\<not> rr_mIsShutdown s1" "rr_mCommandQueue s1 = mpsc_push c mpsc_new" "command_handle c = [1]"
    using example_arrivals by blast
  let ?s2 = "s1\<lparr>rr_mCommandQueue := mpsc_new, rr_taken := [1]\<rparr>"
  have "mpsc_dequeue (rr_mCommandQueue s1) = Item c mpsc_new" by (simp add: s1 mpsc_dequeue_def mpsc_push_def mpsc_new_def mpsc_swap_def mpsc_pop_def)
  from receiver_step.taken[OF this, of example_ids] have s2: "receiver_step example_ids s1 ?s2" by (simp add: s1)
  let ?a = "?s2\<lparr>rr_registered := remove1 2 (rr_registered ?s2), rr_calls := (rr_calls ?s2)(2 \<mapsto> ?cd\<lparr>cd_mRequest := empty_request Create_Call\<rparr>),
      rr_arrived := rr_arrived ?s2 @ [2]\<rparr>"
  have bad: "CreateAccountCommand_verify \<lparr>pcq_account = pb_Account_default\<rparr> = ''account type should not be unknown''"
    by (simp add: CreateAccountCommand_verify_def pb_Account_default_def)
  let ?n = "CallData_new Create_Call ?a"
  have "rr_calls ?n 2 \<noteq> None" by (simp add: CallData_new_def proceed_create_def)
  then obtain s3 where r: "fillResultAndReply 2 400 ''account type should not be unknown'' None ?n = Inr s3"
    by (auto simp: fillResultAndReply_def Let_def)
  have run: "handleRpcs_round example_ids 7 (example_command_meta 0) 2 True ?a = Inr s3"
    using r bad by (simp add: handleRpcs_round_def CallData_proceed_def proceed_process_def CreateAccountCommand_new_def tryInitAccount_def
        kVerifiedSuccess_def for_client_def)
  have s3: "rr_taken s3 = [1]" "rr_arrived s3 = [1, 2]" "map fst (rr_replies s3) = [2]" "\<not> rr_mIsShutdown s3" "rr_mCommandQueue s3 = mpsc_new"
    using s1 by (simp_all add: reply_fields[OF r])
  have "2 \<in> set (rr_registered ?s2)" "rr_calls ?s2 2 = Some ?cd" using s1 by simp_all
  from receiver_step.arrives[OF this _ run] have "receiver_step example_ids ?s2 s3" by simp
  then have "(receiver_step example_ids)\<^sup>*\<^sup>* receiver_started s3" using s1(1) s2 by (meson converse_rtranclp_into_rtranclp r_into_rtranclp)
  moreover have "mpsc_items (rr_mCommandQueue s3) = []" by (simp add: s3(5) mpsc_items_def mpsc_new_def)
  ultimately show ?thesis using s3(1-4) by (intro exI[of _ s3] conjI)
qed

theorem request_handles_never_dangle_witness:
  "\<exists>s s'. (receiver_step example_ids)\<^sup>*\<^sup>* receiver_started s \<and> rr_taken s = [1] \<and> fillResultAndReply 1 200 ''Success'' None s = Inr s'
     \<and> distinct (map fst (rr_replies s))"
proof -
  obtain s where ex: "(receiver_step example_ids)\<^sup>*\<^sup>* receiver_started s \<and> rr_taken s = [1] \<and> rr_arrived s = [1, 2] \<and> map fst (rr_replies s) = [2]
     \<and> \<not> rr_mIsShutdown s \<and> mpsc_items (rr_mCommandQueue s) = []"
    using example_requests by (rule exE)
  then have s: "(receiver_step example_ids)\<^sup>*\<^sup>* receiver_started s" "rr_taken s = [1]" by simp_all
  have "1 \<in> set (open_handles s)" using s(2) by (simp add: open_handles_def)
  then show ?thesis using request_handles_never_dangle[OF s(1), of 200 "''Success''" None] s by auto
qed

theorem every_request_is_answered_or_open_witness:
  "\<exists>s. (receiver_step example_ids)\<^sup>*\<^sup>* receiver_started s \<and> rr_arrived s = [1, 2] \<and> mset (rr_arrived s) = {#2#} + {#1#} \<and> distinct (rr_arrived s)"
proof -
  obtain s where ex: "(receiver_step example_ids)\<^sup>*\<^sup>* receiver_started s \<and> rr_taken s = [1] \<and> rr_arrived s = [1, 2] \<and> map fst (rr_replies s) = [2]
     \<and> \<not> rr_mIsShutdown s \<and> mpsc_items (rr_mCommandQueue s) = []"
    using example_requests by (rule exE)
  then have s: "(receiver_step example_ids)\<^sup>*\<^sup>* receiver_started s" "rr_taken s = [1]" "rr_arrived s = [1, 2]" "map fst (rr_replies s) = [2]"
    "mpsc_items (rr_mCommandQueue s) = []" by simp_all
  have "mset (rr_arrived s) = mset (map fst (rr_replies s)) + mset (concat (map command_handle (mpsc_items (rr_mCommandQueue s)))) + mset (rr_taken s)"
    "distinct (rr_arrived s)" using every_request_is_answered_or_open[OF s(1)] by blast+
  then have "mset (rr_arrived s) = {#2#} + {#1#}" "distinct (rr_arrived s)" unfolding s(2,4,5) by simp_all
  then show ?thesis using s(1,3) by (intro exI[of _ s] conjI)
qed

theorem journal_requests_are_never_received_witness:
  "\<exists>s. (receiver_step example_ids)\<^sup>*\<^sup>* receiver_started s \<and> rr_arrived s = [1, 2]
     \<and> (\<exists>tag \<in> set (rr_registered s). \<exists>cd. rr_calls s tag = Some cd \<and> request_kind (cd_mRequest cd) = Create_Call)"
proof -
  obtain s where ex: "(receiver_step example_ids)\<^sup>*\<^sup>* receiver_started s \<and> rr_taken s = [1] \<and> rr_arrived s = [1, 2] \<and> map fst (rr_replies s) = [2]
     \<and> \<not> rr_mIsShutdown s \<and> mpsc_items (rr_mCommandQueue s) = []"
    using example_requests by (rule exE)
  then have s: "(receiver_step example_ids)\<^sup>*\<^sup>* receiver_started s" "rr_arrived s = [1, 2]" "\<not> rr_mIsShutdown s" by simp_all
  show ?thesis using journal_requests_are_never_received[OF s(1)] s by (intro exI[of _ s]) simp
qed

end
