(* ===== verification/Util_Strings.thy ===== *)
theory Util_Strings
  imports Ledger_Prelude "HOL-Library.Sublist"
begin

text \<open>
  \<^verbatim>\<open>src/src/infra/util/StrUtil.h\<close> and \<^verbatim>\<open>src/src/infra/util/IdGenerator.h\<close>: splitting a configuration value
  into words, suffix tests, hexadecimal output and the generator of increasing ids.
\<close>

section \<open>StrUtil\<close>

text \<open>One word per run of characters other than the delimiter; line breaks inside a word are removed.\<close>

function tokenize :: "char \<Rightarrow> string \<Rightarrow> string list" where
  "tokenize delim str =
     (case dropWhile (\<lambda>c. c = delim) str of
        [] \<Rightarrow> []
      | c # cs \<Rightarrow> filter (\<lambda>x. x \<noteq> CHR 0x0A) (c # takeWhile (\<lambda>x. x \<noteq> delim) cs) # tokenize delim (dropWhile (\<lambda>x. x \<noteq> delim) cs))"
  by pat_completeness auto
termination
proof (relation "measure (length \<circ> snd)")
  fix delim c and str cs :: string
  assume "dropWhile (\<lambda>c. c = delim) str = c # cs"
  then have "length (c # cs) \<le> length str" by (metis length_dropWhile_le)
  moreover have "length (dropWhile (\<lambda>x. x \<noteq> delim) cs) \<le> length cs" by (rule length_dropWhile_le)
  ultimately show "((delim, dropWhile (\<lambda>x. x \<noteq> delim) cs), (delim, str)) \<in> measure (length \<circ> snd)" by simp
qed simp

declare tokenize.simps [simp del]

definition tokenizeGoMultiLines :: "string \<Rightarrow> char \<Rightarrow> string list" where
  "tokenizeGoMultiLines str delim = tokenize delim (filter (\<lambda>c. c \<noteq> CHR 0x5C) str)"

definition endsWith :: "string \<Rightarrow> string \<Rightarrow> bool" where
  "endsWith str suf = (length str \<ge> length suf \<and> drop (length str - length suf) str = suf)"

definition hex_digit :: "nat \<Rightarrow> char" where
  "hex_digit n = ''0123456789abcdef'' ! n"

fun hexStr :: "8 word list \<Rightarrow> string" where
  "hexStr [] = []"
| "hexStr (b # bs) = hex_digit (unat b div 16) # hex_digit (unat b mod 16) # hexStr bs"

definition word_ok :: "char \<Rightarrow> string \<Rightarrow> bool" where
  "word_ok delim w = (w \<noteq> [] \<and> delim \<notin> set w \<and> CHR 0x0A \<notin> set w)"

lemma tokenize_word:
  assumes "word_ok delim w"
  shows "tokenize delim (w @ delim # str) = w # tokenize delim str"
proof -
  obtain c cs where w: "w = c # cs" using assms by (cases w) (auto simp: word_ok_def)
  have cs: "\<forall>x \<in> set cs. x \<noteq> delim" "c \<noteq> delim" "filter (\<lambda>x. x \<noteq> CHR 0x0A) (c # cs) = c # cs"
    using assms by (auto simp: word_ok_def w filter_id_conv)
  have skip: "tokenize delim (delim # str) = tokenize delim str" by (subst (1 2) tokenize.simps) simp
  show ?thesis using cs skip by (subst tokenize.simps) (simp add: w takeWhile_append2 dropWhile_append2 del: filter.simps)
qed

text \<open>Splitting gives back the words that were written with the delimiter after each.\<close>

lemma tokenize_written: "\<forall>w \<in> set ws. word_ok delim w \<Longrightarrow> tokenize delim (concat (map (\<lambda>w. w @ [delim]) ws)) = ws"
  by (induction ws) (simp_all add: tokenize_word, simp add: tokenize.simps)

lemma tokenize_words: "w \<in> set (tokenize delim str) \<Longrightarrow> delim \<notin> set w \<and> CHR 0x0A \<notin> set w"
proof (induction delim str rule: tokenize.induct)
  case (1 delim str)
  show ?case
  proof (cases "dropWhile (\<lambda>c. c = delim) str")
    case Nil
    have "tokenize delim str = []" by (subst tokenize.simps) (simp add: Nil)
    then show ?thesis using 1(2) by simp
  next
    case (Cons c cs)
    have c: "c \<noteq> delim" using hd_dropWhile[of "\<lambda>c. c = delim" str] Cons by simp
    from 1(2) Cons have "w = filter (\<lambda>x. x \<noteq> CHR 0x0A) (c # takeWhile (\<lambda>x. x \<noteq> delim) cs) \<or> w \<in> set (tokenize delim (dropWhile (\<lambda>x. x \<noteq> delim) cs))"
      by (subst (asm) tokenize.simps) (simp split del: if_split)
    then show ?thesis using 1(1)[OF Cons] c by (auto split: if_splits dest: set_takeWhileD)
  qed
qed

lemma endsWith_suffix: "endsWith str suf = suffix suf str"
proof
  assume "endsWith str suf"
  then have "str = take (length str - length suf) str @ suf" by (metis append_take_drop_id endsWith_def)
  then show "suffix suf str" unfolding suffix_def by blast
qed (auto simp: endsWith_def suffix_def)

lemma hex_digit_inj: "a < 16 \<Longrightarrow> b < 16 \<Longrightarrow> hex_digit a = hex_digit b \<Longrightarrow> a = b"
  by (simp add: hex_digit_def nth_eq_iff_index_eq)

text \<open>Nothing is lost in the hexadecimal form.\<close>

lemma hexStr_inj: "hexStr as = hexStr bs \<Longrightarrow> as = bs"
proof (induction as arbitrary: bs)
  case Nil
  then show ?case by (cases bs) simp_all
next
  case (Cons a as)
  then obtain b bs' where bs: "bs = b # bs'" by (cases bs) auto
  have lt: "unat x div 16 < 16" for x :: "8 word" using unsigned_less[of x, where ?'a = nat] by (simp add: less_mult_imp_div_less)
  have "unat a div 16 = unat b div 16" "unat a mod 16 = unat b mod 16" using Cons.prems bs hex_digit_inj lt by auto
  then have "unat a = unat b" by (metis div_mult_mod_eq)
  then show ?case using Cons bs by (simp add: word_unat_eq_iff)
qed

section \<open>IdGenerator\<close>

record id_generator =
  ig_mCurrentId :: u64

definition IdGenerator_new :: id_generator where
  "IdGenerator_new = \<lparr>ig_mCurrentId = 0\<rparr>"

definition getNextId :: "id_generator \<Rightarrow> u64 \<times> id_generator" where
  "getNextId g = (let g1 = g\<lparr>ig_mCurrentId := ig_mCurrentId g + 1\<rparr> in (ig_mCurrentId g1, g1))"

definition setCurrentId :: "u64 \<Rightarrow> id_generator \<Rightarrow> id_generator res" where
  "setCurrentId i g =
     (if i < ig_mCurrentId g
      then Inl (Exception ''Trying to set the current id to a smaller value which is disallowed.'')
      else Inr (g\<lparr>ig_mCurrentId := i\<rparr>))"

lemma getNextId_grows: "ig_mCurrentId g \<noteq> - 1 \<Longrightarrow> getNextId g = (i, g') \<Longrightarrow> ig_mCurrentId g < i \<and> ig_mCurrentId g' = i"
proof -
  assume a: "ig_mCurrentId g \<noteq> - 1" "getNextId g = (i, g')"
  have "unat (ig_mCurrentId g) \<noteq> unat (- 1 :: u64)" using a(1) by (simp only: word_unat_eq_iff not_False_eq_True)
  moreover have "unat (- 1 :: u64) = 2 ^ 64 - 1" by (simp add: unsigned_minus_1_eq_mask mask_eq_exp_minus_1)
  ultimately have "unat (ig_mCurrentId g) + 1 < 2 ^ 64" using unsigned_less[of "ig_mCurrentId g", where ?'a = nat] by simp
  then have "ig_mCurrentId g < ig_mCurrentId g + 1" by (simp add: word_less_nat_alt unat_word_ariths)
  then show ?thesis using a(2) by (auto simp: getNextId_def Let_def)
qed

lemma setCurrentId_grows: "setCurrentId i g = Inr g' \<Longrightarrow> ig_mCurrentId g \<le> ig_mCurrentId g'"
  by (auto simp: setCurrentId_def split: if_splits)

end
