(* ===== verification/Spec2Isabelle.thy ===== *)
theory Spec2Isabelle
  imports Raft_Election Process_Loops Request_Handling Util_Strings
begin

text \<open>
  A verification development for MySuperLedger, a replicated double-entry ledger. This theory collects the
  others and says what they model and show.

  \<^bold>\<open>The program.\<close> A client's request arrives over gRPC (\<^verbatim>\<open>app_ledger/should_be_generated/app\<close>), becomes a
  command and waits in a queue between threads (\<^verbatim>\<open>infra/mpscqueue\<close>). On the leader the command process loop
  (\<^verbatim>\<open>app_util/CommandProcessLoop.h\<close>) runs it through the ledger's state machine (\<^verbatim>\<open>app_ledger/v2\<close>), which
  answers with events and applies them in memory; the command with its events is encoded, encrypted and
  handed to Raft (\<^verbatim>\<open>infra/raft\<close>) as a log entry. Raft replicates the entry and keeps it in segment files
  (\<^verbatim>\<open>infra/raft/storage\<close>). Once it is committed, the reply loop answers the client, and on every replica the
  read-only store (\<^verbatim>\<open>infra/es/store\<close>) hands the events to the event apply loop
  (\<^verbatim>\<open>app_util/EventApplyLoop.h\<close>), whose state machine writes through to RocksDB. A new leader waits until its
  apply loop has caught up and takes over that loop's state. All paths here are relative to \<^verbatim>\<open>src/src\<close>.

  \<^bold>\<open>Conventions.\<close> A C++ class is a record with the names of its members behind a short prefix, an
  enumeration a datatype, an operation a function from the old state to the new one. \<open>'a res\<close> is the result
  of code that may stop: a failed assertion (assertions stay active in the build the repository uses), an
  exception, \<^verbatim>\<open>exit(1)\<close>, an access through a null pointer or outside a mapping. 64-bit values are words where
  they are added, subtracted or compared in ways in which wrapping matters, and the code of a reply has 32 bits
  as in \<^verbatim>\<open>RequestHandle.h\<close>. Raft indexes and terms are natural numbers, although the source has \<^verbatim>\<open>uint64_t\<close>:
  the model says nothing of a node whose log or term has reached \<open>2 ^ 64\<close>, where the increment of the term in an
  election and \<^verbatim>\<open>last_log_index() + 1\<close> in the handling of a response would wrap; one election or one entry per
  nanosecond gets there after five hundred years. Where an index is received from outside and subtracted from,
  as in reading entries, the wrap is written out. Threads are step relations: each step is a part of the code that runs under a lock or touches
  shared state once, and properties are invariants of all interleavings.

  \<^bold>\<open>The theories.\<close>

  \<^item> \<open>Ledger_Prelude\<close>: results, their composition, maps as sorted association lists, decimal strings.

  \<^item> \<open>Ledger_Domain\<close>, \<open>Proto_Wire\<close>, \<open>Ledger_Commands\<close>: amounts, accounts, metadata, journal entries, the
    requests, commands and events with their conversions (\<^verbatim>\<open>domain/\<close>). The locale \<open>versioned_codec\<close> is the
    contract of a class with \<^verbatim>\<open>encodeTo\<close> and \<^verbatim>\<open>initWith\<close>, interpreted for five of them. A stored event comes back
    as it was, except that a journal entry has lost its id.

  \<^item> \<open>Es_Types\<close>, \<open>Event_Sourcing\<close>: metadata and store entries (\<^verbatim>\<open>infra/es\<close>); the locale \<open>event_sourced\<close> is the
    contract of a state machine that processes commands into events, interpreted for the ledger.

  \<^item> \<open>Control_Plane\<close>: routes, control state and splits (\<^verbatim>\<open>app_util/control\<close>): a verified plan gives no group to
    two clusters; along any history of requests the epochs of the plans that name a cluster grow strictly on it,
    so that each takes effect once there; a plan that does not name it clears its routes each time it is sent.

  \<^item> \<open>Ledger_State_Machine\<close>: processing and applying (\<^verbatim>\<open>app_ledger/v2/AppStateMachine.cpp\<close>). Accepted entries
    keep the trial balance, the check of an entry meets a declarative specification on every branch, ranges
    stay disjoint, entries are recorded once, and every run of admissible commands replays to the same state.

  \<^item> \<open>Rocks_Store\<close>: the machine backed by RocksDB: commits in batches, recovery, the swap of states, and that
    every change of the ledger reaches the write batch.

  \<^item> \<open>Mpsc_Queue\<close>: the queue with the locale \<open>fifo_queue\<close>, and first-in first-out order in every interleaving.

  \<^item> \<open>Raft_Log\<close>: the log interface as a record of operations and the locales \<open>raft_log\<close> and
    \<open>raft_log_reader\<close>, and the log in memory. \<open>Segment_File\<close>, \<open>Segment_Log\<close>, \<open>Segment_Recovery\<close>: the log in
    segment files, with checksums, rolling, truncation at both ends and restart; it interprets the same
    locales and, through any sequence of operations and restarts, behaves as the log in memory.

  \<^item> \<open>Raft_Core\<close>, \<open>Raft_Node\<close>, \<open>Raft_Safety\<close>, \<open>Raft_Leader\<close>, \<open>Raft_Election\<close>: the consensus core
    (\<^verbatim>\<open>infra/raft/v2/RaftCore.cpp\<close>) with every handler and every step of its main loop; what a node guarantees
    whatever it is sent, what a leader needs to commit, and that a term of a cluster has at most one leader
    over a network that loses, repeats, delays and reorders messages.

  \<^item> \<open>Crypto_Util\<close>, \<open>Store_Codec\<close>: key versions and encryption; commands and events as log entries and back.

  \<^item> \<open>Raft_Log_Store\<close>, \<open>Raft_Reply\<close>: the writing half of the event store and the reply loop: commands reach
    Raft in order and are sent, leadership is reported once per term, each client is answered once, and
    success means that the entry of that index and term is committed. The reply threads hold the tasks they
    claimed, which are objects in a store of addresses; that no two hold the same task is proved, not assumed.

  \<^item> \<open>Readonly_Store\<close>, \<open>Reader_Delivery\<close>: the reading half with its load and decrypt threads: committed bundles
    arrive in order and once, the queue is bounded, the reader catches up, and a leader told to be ready has
    applied everything before its term's no-op. The decrypt threads hold their tasks in the same way.

  \<^item> \<open>Process_Loops\<close>: the two loops on top of all this: the apply loop's ledger is that of a prefix of the
    committed log, a new leader starts from exactly the committed ledger, and the entries of the commands it
    accepts carry the indexes and terms its Raft node appends. After a crash the apply loop recovers the
    ledger as it was after a whole number of bundles, with the index to go on from.

  \<^item> \<open>Request_Handling\<close>: the gRPC front end with its call objects in a store of addresses: handles never
    dangle and every request that arrived is answered or still open, each once.

  \<^item> \<open>Util_Strings\<close>: tokenizing, hexadecimal output and the id generator.

  \<^bold>\<open>Parameters.\<close> Code that is not in the repository is an argument: the serialisers generated by protobuf
  (\<open>proto_wire\<close>, with \<open>wire_ok\<close>: parsing what was serialised gives it back), RocksDB (\<open>rocks_ops\<close>, with
  \<open>rocks_contract\<close>: a batch is written as a whole and read back, and no operation reports an I/O error; the
  branches for errors are in the definitions and end in a failed assertion), OpenSSL and the key file (\<open>store_env_ok\<close>: decrypting with the key of encryption
  gives the text back), the serialised form of log entries and their digests (\<open>seg_env_ok\<close>: parsing gives the
  entry back and a digest has 32 bytes). The witnesses instantiate them by concrete functions.
  The clock, fields the source leaves uninitialised and the order in which a directory lists its files are
  arguments as well.

  \<^bold>\<open>Bounds and fuel.\<close> No function runs on fuel. Loops that wait for other threads
  (\<^verbatim>\<open>waitTillLeaderIsReadyOrStepDown\<close>, \<^verbatim>\<open>waitTillCommittedOrQuit\<close>, the reads that are repeated until two agree)
  take the list of what they read, round by round, and return \<open>None\<close> while they have not returned;
  \<open>reader_catches_up\<close> and \<open>persisted_commands_are_sent\<close> say when they do. The assumption that fewer than
  \<open>2 ^ 64\<close> commands have been numbered is stated where it is used.

  \<^bold>\<open>Not modelled.\<close> gRPC servers, clients and streaming, TLS, DNS and the external key-value store: network
  I/O of third-party libraries, of which the model keeps the messages and the tags. The administration server
  and the log synchronisation between clusters: gRPC services around operations that are modelled. SQLite and
  default stores: SQL statements, not used by the ledger. Snapshots and checkpoints in files, and the standalone
  mode of the command loop, which needs them: the ledger uses checkpoints that RocksDB makes. Start-up,
  configuration and the dispatcher of signals: wiring of closures and parsers. Metrics and logging.
  Memory reordering below the level of atomics and locks.
\<close>

end
